(* ===== verification/Prelude.thy ===== *)
theory Prelude
  imports Main "HOL-Library.Word" "HOL-Library.Monad_Syntax"
begin

unbundle bit_operations_syntax

text \<open>
  Shared vocabulary of the development: 64-bit wrap-around of the C type \<open>long\<close>,
  the little-endian view of a \<open>long\<close> as eight bytes, the option monad in which a
  C call that does not return normally is \<open>None\<close>, and the collections of
  rewrite rules the component theories add to.

  \<^item> \<open>exec\<close> collects the rules that run a model definition symbolically (a load,
    a store or a compare-and-swap whose slot is known to be mapped);
  \<^item> \<open>frame\<close> collects the rules that say what an operation leaves unchanged.
\<close>

named_theorems exec
named_theorems frame

section \<open>The type long\<close>

type_synonym long = int
type_synonym byte = "8 word"

text \<open>Two's complement wrap-around to 64 bits, used where the source can wrap:
  atomic additions, generation counters and left shifts.\<close>

definition wrap64 :: "int \<Rightarrow> long" where
  "wrap64 x = signed_take_bit 63 x"

definition in_long :: "int \<Rightarrow> bool" where
  "in_long x \<longleftrightarrow> - (2 ^ 63) \<le> x \<and> x < 2 ^ 63"

lemma wrap64_id [simp]: "in_long x \<Longrightarrow> wrap64 x = x"
  by (simp add: wrap64_def in_long_def signed_take_bit_int_eq_self)

lemma wrap64_small [simp]: "- 9223372036854775808 \<le> x \<Longrightarrow> x < 9223372036854775808 \<Longrightarrow> wrap64 x = x"
  by (rule wrap64_id) (simp add: in_long_def)

lemma in_long_wrap64 [simp]: "in_long (wrap64 x)"
  unfolding in_long_def wrap64_def
  using signed_take_bit_int_greater_eq_minus_exp [of 63 x] signed_take_bit_int_less_exp [of 63 x]
  by blast

lemma wrap64_wrap64 [simp]: "wrap64 (wrap64 x) = wrap64 x"
  by simp

lemma wrap64_add_wrap64 [simp]: "wrap64 (wrap64 x + y) = wrap64 (x + y)"
proof -
  have "wrap64 (wrap64 (wrap64 x) + wrap64 y) = wrap64 (wrap64 x + y)"
    unfolding wrap64_def by (rule signed_take_bit_add)
  moreover have "wrap64 (wrap64 x + wrap64 y) = wrap64 (x + y)"
    unfolding wrap64_def by (rule signed_take_bit_add)
  ultimately show ?thesis by simp
qed

section \<open>A long as eight bytes, little endian\<close>

definition le_byte :: "long \<Rightarrow> nat \<Rightarrow> byte" where
  "le_byte v k = word_of_int (v div 256 ^ k)"

definition slot_bytes :: "long \<Rightarrow> byte list" where
  "slot_bytes v = map (le_byte v) [0..<8]"

fun le_value :: "byte list \<Rightarrow> int" where
  "le_value [] = 0"
| "le_value (b # bs) = uint b + 256 * le_value bs"

definition bytes_slot :: "byte list \<Rightarrow> long" where
  "bytes_slot bs = wrap64 (le_value bs)"

lemma length_slot_bytes [simp]: "length (slot_bytes v) = 8"
  by (simp add: slot_bytes_def)

lemma le_byte_0: "le_byte v 0 = word_of_int v"
  by (simp add: le_byte_def)

lemma le_byte_Suc: "le_byte v (Suc k) = le_byte (v div 256) k"
  by (simp add: le_byte_def zdiv_zmult2_eq)

lemma word_of_int_eq8: "(word_of_int x :: byte) = word_of_int y \<longleftrightarrow> x mod 256 = y mod 256"
  by (simp add: word_of_int_eq_iff take_bit_eq_mod)

lemma le_byte_cong: "v mod 256 ^ n = w mod 256 ^ n \<Longrightarrow> k < n \<Longrightarrow> le_byte v k = le_byte w k"
proof (induction k arbitrary: n v w)
  case 0
  then obtain m where n: "n = Suc m" by (cases n) auto
  have "(256::int) dvd 256 ^ n" by (simp add: n)
  then have "v mod 256 = w mod 256"
    using "0.prems"(1) by (metis mod_mod_cancel)
  then show ?case by (simp add: le_byte_0 word_of_int_eq8)
next
  case (Suc k)
  then obtain m where n: "n = Suc m" and k: "k < m" by (cases n) auto
  have "(x :: int) mod 256 ^ n div 256 = x div 256 mod 256 ^ m" for x
    by (simp add: n mod_mult2_eq zmod_zmult2_eq)
  then have "v div 256 mod 256 ^ m = w div 256 mod 256 ^ m"
    using Suc.prems(1) by metis
  then have "le_byte (v div 256) k = le_byte (w div 256) k"
    using k by (rule Suc.IH)
  then show ?case by (simp only: le_byte_Suc)
qed

lemma le_byte_le_value: "k < length bs \<Longrightarrow> le_byte (le_value bs) k = bs ! k"
proof (induction bs arbitrary: k)
  case Nil
  then show ?case by simp
next
  case (Cons b bs)
  have lt: "uint b < 256" using uint_lt2p [of b] by simp
  have "(uint b + 256 * le_value bs) div 256 = le_value bs"
    using lt by simp
  moreover have "(word_of_int (uint b + 256 * le_value bs) :: byte) = b"
  proof -
    have "uint b mod 256 = uint b" using lt by simp
    then have "(word_of_int (uint b + 256 * le_value bs) :: byte) = word_of_int (uint b)"
      unfolding word_of_int_eq8 by presburger
    then show ?thesis by simp
  qed
  ultimately show ?case
    using Cons by (cases k) (simp_all add: le_byte_0 le_byte_Suc)
qed

lemma wrap64_mod: "wrap64 x mod 256 ^ 8 = x mod 256 ^ 8"
proof -
  have "take_bit 64 (signed_take_bit 63 x) = take_bit 64 x"
    by (rule take_bit_signed_take_bit) simp
  then show ?thesis by (simp add: wrap64_def take_bit_eq_mod)
qed

lemma slot_bytes_bytes_slot [simp]:
  assumes "length bs = 8"
  shows "slot_bytes (bytes_slot bs) = bs"
proof (rule nth_equalityI)
  show "length (slot_bytes (bytes_slot bs)) = length bs" by (simp add: assms)
next
  fix k assume k: "k < length (slot_bytes (bytes_slot bs))"
  then have "le_byte (bytes_slot bs) k = le_byte (le_value bs) k"
    by (intro le_byte_cong [where n = 8]) (simp_all add: bytes_slot_def wrap64_mod del: power_numeral)
  with k show "slot_bytes (bytes_slot bs) ! k = bs ! k"
    by (simp add: slot_bytes_def le_byte_le_value assms)
qed

section \<open>Multiples\<close>

lemma dvd_step:
  fixes d x y :: int
  assumes "d dvd x" and "d dvd y" and "x < y"
  shows "x + d \<le> y"
proof -
  have "d dvd y - x" using assms(1,2) by simp
  then have "d \<le> y - x" using assms(3) by (intro zdvd_imp_le) simp_all
  then show ?thesis by simp
qed

end
