(* ===== verification/Shared.thy ===== *)
theory Shared
  imports Prelude
begin

text \<open>
  The public vocabulary of \<open>include/shared.h\<close> and \<open>src/shared.c\<close>: the status
  codes every operation returns, the explanation table, and the \<open>timespec\<close>
  macros the queue uses for ages and time limits.
\<close>

section \<open>Status codes\<close>

datatype sh_status =
    SH_OK | SH_RETRY | SH_ERR_EMPTY | SH_ERR_LIMIT | SH_ERR_ARG | SH_ERR_NOMEM
  | SH_ERR_ACCESS | SH_ERR_EXIST | SH_ERR_STATE | SH_ERR_PATH | SH_ERR_NOSUPPORT
  | SH_ERR_SYS | SH_ERR_CONFLICT | SH_ERR_NO_MATCH | SH_ERR_MAX

text \<open>The value the C compiler gives each enumerator; the enumeration type itself
  is an unsigned 32-bit integer, so any such value can be passed for it.\<close>

fun status_code :: "sh_status \<Rightarrow> 32 word" where
  "status_code SH_OK = 0"
| "status_code SH_RETRY = 1"
| "status_code SH_ERR_EMPTY = 2"
| "status_code SH_ERR_LIMIT = 3"
| "status_code SH_ERR_ARG = 4"
| "status_code SH_ERR_NOMEM = 5"
| "status_code SH_ERR_ACCESS = 6"
| "status_code SH_ERR_EXIST = 7"
| "status_code SH_ERR_STATE = 8"
| "status_code SH_ERR_PATH = 9"
| "status_code SH_ERR_NOSUPPORT = 10"
| "status_code SH_ERR_SYS = 11"
| "status_code SH_ERR_CONFLICT = 12"
| "status_code SH_ERR_NO_MATCH = 13"
| "status_code SH_ERR_MAX = 14"

definition status_str :: "string list" where
  "status_str =
    [''success'',
     ''retry'',
     ''no items available'',
     ''max limit reached'',
     ''invalid argument'',
     ''not enough memory to satisfy remapuest'',
     ''permission error'',
     ''existence error'',
     ''invalid state'',
     ''problem with path name'',
     ''required operation not supported'',
     ''system error'',
     ''unable to update due to conflict'',
     ''no match found for key'',
     ''invalid status code for explain'']"

text \<open>An index outside the table is an out-of-bounds read: \<open>None\<close>.\<close>

definition str_at :: "string list \<Rightarrow> nat \<Rightarrow> string option" where
  "str_at xs i = (if i < length xs then Some (xs ! i) else None)"

definition shr_explain :: "32 word \<Rightarrow> string option" where
  "shr_explain status =
    (if status \<ge> status_code SH_ERR_MAX then str_at status_str (unat (status_code SH_ERR_MAX))
     else str_at status_str (unat status))"

text \<open>C33: for every 32-bit value passed as a status, including values that are no
  enumerator, \<open>shr_explain\<close> stays inside its table: an enumerator gets the text at its own
  position, everything else the last text.\<close>

theorem shr_explain_total:
  "shr_explain w =
    Some (if w < 14 then status_str ! unat w else ''invalid status code for explain'')"
proof (cases "w < 14")
  case True
  then have "unat w < 14" by (simp add: word_less_nat_alt)
  with True show ?thesis
    by (simp add: shr_explain_def str_at_def status_str_def not_le)
next
  case False
  then show ?thesis
    by (simp add: shr_explain_def str_at_def status_str_def not_less)
qed

section \<open>Time stamps\<close>

record timespec =
  tv_sec :: long
  tv_nsec :: long

definition timespecadd :: "timespec \<Rightarrow> timespec \<Rightarrow> timespec" where
  "timespecadd a b =
    (let sec = tv_sec a + tv_sec b; nsec = tv_nsec a + tv_nsec b
     in if nsec \<ge> 1000000000 then \<lparr>tv_sec = sec + 1, tv_nsec = nsec - 1000000000\<rparr>
        else \<lparr>tv_sec = sec, tv_nsec = nsec\<rparr>)"

definition timespecsub :: "timespec \<Rightarrow> timespec \<Rightarrow> timespec" where
  "timespecsub a b =
    (let sec = tv_sec a - tv_sec b; nsec = tv_nsec a - tv_nsec b
     in if nsec < 0 then \<lparr>tv_sec = sec - 1, tv_nsec = nsec + 1000000000\<rparr>
        else \<lparr>tv_sec = sec, tv_nsec = nsec\<rparr>)"

definition timespeccmp :: "timespec \<Rightarrow> timespec \<Rightarrow> (long \<Rightarrow> long \<Rightarrow> bool) \<Rightarrow> bool" where
  "timespeccmp a b cmp =
    (if tv_sec a = tv_sec b then cmp (tv_nsec a) (tv_nsec b)
     else cmp (tv_sec a) (tv_sec b))"

text \<open>The meaning of a time stamp: nanoseconds, when its parts are normalised.\<close>

definition to_ns :: "timespec \<Rightarrow> int" where
  "to_ns t = tv_sec t * 1000000000 + tv_nsec t"

definition normal_ts :: "timespec \<Rightarrow> bool" where
  "normal_ts t \<longleftrightarrow> 0 \<le> tv_nsec t \<and> tv_nsec t < 1000000000"

lemma to_ns_timespecsub [simp]: "to_ns (timespecsub a b) = to_ns a - to_ns b"
  by (simp add: timespecsub_def to_ns_def Let_def algebra_simps)

lemma to_ns_timespecadd [simp]: "to_ns (timespecadd a b) = to_ns a + to_ns b"
  by (simp add: timespecadd_def to_ns_def Let_def algebra_simps)

lemma normal_timespecsub [simp]: "normal_ts a \<Longrightarrow> normal_ts b \<Longrightarrow> normal_ts (timespecsub a b)"
  by (auto simp: timespecsub_def normal_ts_def Let_def)

lemma normal_timespecadd [simp]: "normal_ts a \<Longrightarrow> normal_ts b \<Longrightarrow> normal_ts (timespecadd a b)"
  by (auto simp: timespecadd_def normal_ts_def Let_def)

lemma timespeccmp_less [simp]:
  "normal_ts a \<Longrightarrow> normal_ts b \<Longrightarrow> timespeccmp a b (<) \<longleftrightarrow> to_ns a < to_ns b"
  by (auto simp: timespeccmp_def normal_ts_def to_ns_def)

lemma timespeccmp_greater [simp]:
  "normal_ts a \<Longrightarrow> normal_ts b \<Longrightarrow> timespeccmp a b (>) \<longleftrightarrow> to_ns b < to_ns a"
  by (auto simp: timespeccmp_def normal_ts_def to_ns_def)

end
