(* ===== verification/Layout.thy ===== *)
theory Layout
  imports Prelude
begin

text \<open>
  The layout of the shared memory object as \<open>src/shared_int.h\<close> and
  \<open>src/shared_q.c\<close> fix it for x86-64: slot numbers of the header fields, the
  offsets inside a queue node and a data block, the flag bits. They are the source's
  enumerations, computed as the compiler computes them; abbreviations, so that the
  simplifier sees the numerals and separates the fields by itself.
\<close>

section \<open>Constants of shared\_int.h\<close>

abbreviation (input) SZ_SHIFT :: nat where "SZ_SHIFT \<equiv> 3"
abbreviation (input) REM :: int where "REM \<equiv> 7"
abbreviation (input) SIZEOF_LONG :: int where "SIZEOF_LONG \<equiv> 8"
abbreviation (input) PAGE_SIZE :: int where "PAGE_SIZE \<equiv> 4096"
abbreviation (input) MEM_SLOTS :: int where "MEM_SLOTS \<equiv> 48"

abbreviation (input) TAG :: int where "TAG \<equiv> 0"
abbreviation (input) VERSION :: int where "VERSION \<equiv> 1"
abbreviation (input) SIZE :: int where "SIZE \<equiv> 2"
abbreviation (input) EXPAND_SIZE :: int where "EXPAND_SIZE \<equiv> 3"
abbreviation (input) FREE_HEAD :: int where "FREE_HEAD \<equiv> 4"
abbreviation (input) FREE_HD_CNT :: int where "FREE_HD_CNT \<equiv> 5"
abbreviation (input) DATA_ALLOC :: int where "DATA_ALLOC \<equiv> 6"
abbreviation (input) COUNT :: int where "COUNT \<equiv> 7"
abbreviation (input) BUFFER :: int where "BUFFER \<equiv> 8"
abbreviation (input) FLAGS :: int where "FLAGS \<equiv> 9"
abbreviation (input) ID_CNTR :: int where "ID_CNTR \<equiv> 10"
abbreviation (input) SPARE :: int where "SPARE \<equiv> 11"
abbreviation (input) FREE_TAIL :: int where "FREE_TAIL \<equiv> 12"
abbreviation (input) FREE_TL_CNT :: int where "FREE_TL_CNT \<equiv> 13"
abbreviation (input) MEM_BKT_START :: int where "MEM_BKT_START \<equiv> 14"
abbreviation (input) BASE :: int where "BASE \<equiv> 110"
abbreviation (input) IDX_SIZE :: int where "IDX_SIZE \<equiv> 4"

section \<open>Constants of shared\_q.c\<close>

abbreviation (input) QVERSION :: int where "QVERSION \<equiv> 3"
abbreviation (input) NODE_SIZE :: int where "NODE_SIZE \<equiv> 4"
abbreviation (input) EVENT_OFFSET :: int where "EVENT_OFFSET \<equiv> 2"
abbreviation (input) VALUE_OFFSET :: int where "VALUE_OFFSET \<equiv> 3"

abbreviation (input) DATA_SLOTS :: int where "DATA_SLOTS \<equiv> 0"
abbreviation (input) TM_SEC :: int where "TM_SEC \<equiv> 1"
abbreviation (input) TM_NSEC :: int where "TM_NSEC \<equiv> 2"
abbreviation (input) UID :: int where "UID \<equiv> 3"
abbreviation (input) DATA_TYPE :: int where "DATA_TYPE \<equiv> 4"
abbreviation (input) VEC_CNT :: int where "VEC_CNT \<equiv> 5"
abbreviation (input) DATA_LENGTH :: int where "DATA_LENGTH \<equiv> 6"
abbreviation (input) DATA_HDR :: int where "DATA_HDR \<equiv> 7"

abbreviation (input) EVENT_TAIL :: int where "EVENT_TAIL \<equiv> 110"
abbreviation (input) EVENT_TL_CNT :: int where "EVENT_TL_CNT \<equiv> 111"
abbreviation (input) TAIL :: int where "TAIL \<equiv> 112"
abbreviation (input) TAIL_CNT :: int where "TAIL_CNT \<equiv> 113"
abbreviation (input) TS_SEC :: int where "TS_SEC \<equiv> 114"
abbreviation (input) TS_NSEC :: int where "TS_NSEC \<equiv> 115"
abbreviation (input) LISTEN_PID :: int where "LISTEN_PID \<equiv> 116"
abbreviation (input) LISTEN_SIGNAL :: int where "LISTEN_SIGNAL \<equiv> 117"
abbreviation (input) LIMIT_SEC :: int where "LIMIT_SEC \<equiv> 118"
abbreviation (input) LIMIT_NSEC :: int where "LIMIT_NSEC \<equiv> 119"
abbreviation (input) EVENT_HEAD :: int where "EVENT_HEAD \<equiv> 120"
abbreviation (input) EVENT_HD_CNT :: int where "EVENT_HD_CNT \<equiv> 121"
abbreviation (input) NOTIFY_PID :: int where "NOTIFY_PID \<equiv> 122"
abbreviation (input) NOTIFY_SIGNAL :: int where "NOTIFY_SIGNAL \<equiv> 123"
abbreviation (input) HEAD :: int where "HEAD \<equiv> 124"
abbreviation (input) HEAD_CNT :: int where "HEAD_CNT \<equiv> 125"
abbreviation (input) EMPTY_SEC :: int where "EMPTY_SEC \<equiv> 126"
abbreviation (input) EMPTY_NSEC :: int where "EMPTY_NSEC \<equiv> 127"
abbreviation (input) DEQ_SEM :: int where "DEQ_SEM \<equiv> 128"
abbreviation (input) ENQ_SEM :: int where "ENQ_SEM \<equiv> 132"
abbreviation (input) CALL_PID :: int where "CALL_PID \<equiv> 136"
abbreviation (input) CALL_SIGNAL :: int where "CALL_SIGNAL \<equiv> 137"
abbreviation (input) CALL_BLOCKS :: int where "CALL_BLOCKS \<equiv> 138"
abbreviation (input) CALL_UNBLOCKS :: int where "CALL_UNBLOCKS \<equiv> 139"
abbreviation (input) TARGET_SEC :: int where "TARGET_SEC \<equiv> 140"
abbreviation (input) TARGET_NSEC :: int where "TARGET_NSEC \<equiv> 141"
abbreviation (input) STACK_HEAD :: int where "STACK_HEAD \<equiv> 142"
abbreviation (input) STACK_HD_CNT :: int where "STACK_HD_CNT \<equiv> 143"
abbreviation (input) LEVEL :: int where "LEVEL \<equiv> 144"
abbreviation (input) MAX_DEPTH :: int where "MAX_DEPTH \<equiv> 145"
abbreviation (input) EVNT_SEM :: int where "EVNT_SEM \<equiv> 146"
abbreviation (input) AVAIL :: int where "AVAIL \<equiv> 150"
abbreviation (input) HDR_END :: int where "HDR_END \<equiv> 164"

abbreviation (input) FLAG_ACTIVATED :: int where "FLAG_ACTIVATED \<equiv> 1"
abbreviation (input) FLAG_DISCARD_EXPIRED :: int where "FLAG_DISCARD_EXPIRED \<equiv> 2"
abbreviation (input) FLAG_LIFO_ON_LEVEL :: int where "FLAG_LIFO_ON_LEVEL \<equiv> 4"
abbreviation (input) FLAG_EVNT_INIT :: int where "FLAG_EVNT_INIT \<equiv> 8"
abbreviation (input) FLAG_EVNT_LIMIT :: int where "FLAG_EVNT_LIMIT \<equiv> 16"
abbreviation (input) FLAG_EVNT_TIME :: int where "FLAG_EVNT_TIME \<equiv> 32"
abbreviation (input) FLAG_EVNT_LEVEL :: int where "FLAG_EVNT_LEVEL \<equiv> 64"
abbreviation (input) FLAG_EVNT_EMPTY :: int where "FLAG_EVNT_EMPTY \<equiv> 128"
abbreviation (input) FLAG_EVNT_NONEMPTY :: int where "FLAG_EVNT_NONEMPTY \<equiv> 256"

end
