(* ===== verification/Mem.thy ===== *)
theory Mem
  imports Shared Layout
begin

text \<open>
  The machine under the library: the shared memory object as one process sees it through
  its handle (\<open>struct shr_q\<close>, whose first part is \<open>shr_base_s\<close>), and the
  primitive accesses of \<open>src/shared_int.h\<close> (loads, stores, compare-and-swap on one
  and on two words, atomic add and subtract, semaphores, clock, the calls that may fail).

  A call of the library is a function of this state to \<open>(result \<times> state) option\<close>.
  \<open>None\<close> is a call that does not return: a load or store outside a mapped extent,
  a misaligned double-word swap, a failed \<open>assert\<close>, a semaphore wait nobody ends, a
  loop that runs for ever. A theorem with \<open>= Some \<dots>\<close> or \<open>\<exists>s'. \<dots> = Some \<dots>\<close>
  is therefore also a proof of memory safety and termination. The atomic primitives are
  those of the default build (gcc builtins): a compare-and-swap fails only when the memory
  differs from the expected value, and leaves the expected value alone.
\<close>

section \<open>State\<close>

datatype errno =
    EINVAL | EPERM | EACCES | EEXIST | ENOENT | ENOMEM | EBADF | ELOOP | ENOTDIR
  | ENAMETOOLONG | ENFILE | EMFILE | EIO | EINTR | EAGAIN | ETIMEDOUT | EOVERFLOW
  | EOTHER int

text \<open>\<open>struct extent\<close>: a mapping of the object. Its array is the object itself, cut
  off after \<open>e_slots\<close> slots, so the extent's identity stands for the array pointer.\<close>

record extent =
  e_next :: "nat option"
  e_size :: long
  e_slots :: long

type_synonym extent_ref = nat

text \<open>
  \<open>cells\<close>, \<open>fsize\<close> and \<open>sems\<close> are the shared object: its slots, its size in
  bytes, and the values of the semaphores that live in it. \<open>extents\<close> to
  \<open>mode\<close> are the process's handle. The last fields are the environment: the k-th
  \<open>clock_gettime\<close> returns \<open>clock k\<close>; the k-th call that can fail (\<open>calloc\<close>,
  \<open>malloc\<close>, \<open>mmap\<close>, \<open>ftruncate\<close>, \<open>sem_*\<close>) fails with \<open>e\<close> when
  \<open>osr k = Some e\<close>; \<open>signals\<close> logs the signals queued.
\<close>

record qstate =
  cells :: "int \<Rightarrow> long"
  fsize :: int
  sems :: "int \<Rightarrow> int"
  extents :: "nat \<Rightarrow> extent option"
  fresh_ext :: nat
  base_prev :: extent_ref
  base_current :: extent_ref
  accessors :: long
  mode :: int
  clock :: "nat \<Rightarrow> timespec"
  clock_n :: nat
  osr :: "nat \<Rightarrow> errno option"
  os_n :: nat
  signals :: "(long \<times> long \<times> int) list"
  my_pid :: long

section \<open>Loads and stores\<close>

definition mapped :: "qstate \<Rightarrow> extent_ref \<Rightarrow> int \<Rightarrow> bool" where
  "mapped s a n \<longleftrightarrow>
    (case extents s a of None \<Rightarrow> False | Some e \<Rightarrow> n \<le> e_slots e \<and> 8 * n \<le> fsize s)"

definition in_map :: "qstate \<Rightarrow> extent_ref \<Rightarrow> int \<Rightarrow> bool" where
  "in_map s a i \<longleftrightarrow> 0 \<le> i \<and> mapped s a (i + 1)"

definition rd :: "qstate \<Rightarrow> extent_ref \<Rightarrow> int \<Rightarrow> long option" where
  "rd s a i = (if in_map s a i then Some (cells s i) else None)"

definition wr :: "qstate \<Rightarrow> extent_ref \<Rightarrow> int \<Rightarrow> long \<Rightarrow> qstate option" where
  "wr s a i v = (if in_map s a i then Some (s\<lparr>cells := (cells s)(i := v)\<rparr>) else None)"

text \<open>\<open>*(DWORD*)&array[i]\<close>: two neighbouring slots.\<close>

definition rd2 :: "qstate \<Rightarrow> extent_ref \<Rightarrow> int \<Rightarrow> (long \<times> long) option" where
  "rd2 s a i = do { lo \<leftarrow> rd s a i; hi \<leftarrow> rd s a (i + 1); Some (lo, hi) }"

text \<open>\<open>memset(&array[i], 0, n << SZ_SHIFT)\<close>.\<close>

definition clear_slots :: "qstate \<Rightarrow> extent_ref \<Rightarrow> int \<Rightarrow> int \<Rightarrow> qstate option" where
  "clear_slots s a i n =
    (if n \<le> 0 then Some s
     else if 0 \<le> i \<and> mapped s a (i + n)
     then Some (s\<lparr>cells := (\<lambda>j. if i \<le> j \<and> j < i + n then 0 else cells s j)\<rparr>)
     else None)"

section \<open>Atomic primitives\<close>

definition CAS :: "qstate \<Rightarrow> extent_ref \<Rightarrow> int \<Rightarrow> long \<Rightarrow> long \<Rightarrow> (bool \<times> qstate) option" where
  "CAS s a i old new = do {
     v \<leftarrow> rd s a i;
     if v = old then do { s \<leftarrow> wr s a i new; Some (True, s) } else Some (False, s) }"

text \<open>\<open>cmpxchg16b\<close> faults on an address that is not 16-byte aligned, that is, on an odd
  slot: the mapping itself starts on a page.\<close>

definition DWCAS ::
  "qstate \<Rightarrow> extent_ref \<Rightarrow> int \<Rightarrow> long \<times> long \<Rightarrow> long \<times> long \<Rightarrow> (bool \<times> qstate) option" where
  "DWCAS s a i old new =
    (if odd i then None
     else do {
       v \<leftarrow> rd2 s a i;
       if v = old
       then do { s \<leftarrow> wr s a i (fst new); s \<leftarrow> wr s a (i + 1) (snd new); Some (True, s) }
       else Some (False, s) })"

definition AFA :: "qstate \<Rightarrow> extent_ref \<Rightarrow> int \<Rightarrow> long \<Rightarrow> (long \<times> qstate) option" where
  "AFA s a i v = do {
     old \<leftarrow> rd s a i;
     s \<leftarrow> wr s a i (wrap64 (old + v));
     Some (old, s) }"

definition AFS :: "qstate \<Rightarrow> extent_ref \<Rightarrow> int \<Rightarrow> long \<Rightarrow> (long \<times> qstate) option" where
  "AFS s a i v = do {
     old \<leftarrow> rd s a i;
     s \<leftarrow> wr s a i (wrap64 (old - v));
     Some (old, s) }"

section \<open>The operating system\<close>

definition os_call :: "qstate \<Rightarrow> errno option \<times> qstate" where
  "os_call s = (osr s (os_n s), s\<lparr>os_n := Suc (os_n s)\<rparr>)"

definition clock_gettime :: "qstate \<Rightarrow> timespec \<times> qstate" where
  "clock_gettime s = (clock s (clock_n s), s\<lparr>clock_n := Suc (clock_n s)\<rparr>)"

text \<open>Growing the object fills with zeros, which is what lies beyond its end already;
  shrinking it forgets what lies beyond the new end.\<close>

definition do_ftruncate :: "int \<Rightarrow> qstate \<Rightarrow> qstate" where
  "do_ftruncate n s =
    (if n < fsize s
     then s\<lparr>fsize := n, cells := (\<lambda>i. if n \<le> 8 * i then 0 else cells s i)\<rparr>
     else s\<lparr>fsize := n\<rparr>)"

definition sigqueue :: "long \<Rightarrow> long \<Rightarrow> int \<Rightarrow> qstate \<Rightarrow> qstate" where
  "sigqueue p sg v s = s\<lparr>signals := signals s @ [(p, sg, v)]\<rparr>"

text \<open>Semaphores: the result of a call is \<open>None\<close> for 0 and \<open>Some e\<close> for -1 with
  \<open>errno = e\<close>. A wait on a semaphore that is 0 does not return, for in this model
  nobody else runs; a timed wait then times out (a time-out that is not normalised is
  \<open>EINVAL\<close>, as POSIX documents).\<close>

abbreviation (input) SEM_VALUE_MAX :: int where "SEM_VALUE_MAX \<equiv> 2147483647"

definition sem_trywait :: "qstate \<Rightarrow> extent_ref \<Rightarrow> int \<Rightarrow> (errno option \<times> qstate) option" where
  "sem_trywait s a i =
    (if \<not> in_map s a i then None
     else case os_call s of
       (Some e, s) \<Rightarrow> Some (Some e, s)
     | (None, s) \<Rightarrow>
         if sems s i = 0 then Some (Some EAGAIN, s)
         else Some (None, s\<lparr>sems := (sems s)(i := sems s i - 1)\<rparr>))"

definition sem_wait :: "qstate \<Rightarrow> extent_ref \<Rightarrow> int \<Rightarrow> (errno option \<times> qstate) option" where
  "sem_wait s a i =
    (if \<not> in_map s a i then None
     else case os_call s of
       (Some e, s) \<Rightarrow> Some (Some e, s)
     | (None, s) \<Rightarrow>
         if sems s i = 0 then None
         else Some (None, s\<lparr>sems := (sems s)(i := sems s i - 1)\<rparr>))"

definition sem_timedwait ::
  "qstate \<Rightarrow> extent_ref \<Rightarrow> int \<Rightarrow> timespec \<Rightarrow> (errno option \<times> qstate) option" where
  "sem_timedwait s a i ts =
    (if \<not> in_map s a i then None
     else case os_call s of
       (Some e, s) \<Rightarrow> Some (Some e, s)
     | (None, s) \<Rightarrow>
         if sems s i = 0
         then Some (Some (if tv_nsec ts < 0 \<or> tv_nsec ts \<ge> 1000000000 then EINVAL else ETIMEDOUT), s)
         else Some (None, s\<lparr>sems := (sems s)(i := sems s i - 1)\<rparr>))"

definition sem_post :: "qstate \<Rightarrow> extent_ref \<Rightarrow> int \<Rightarrow> (errno option \<times> qstate) option" where
  "sem_post s a i =
    (if \<not> in_map s a i then None
     else case os_call s of
       (Some e, s) \<Rightarrow> Some (Some e, s)
     | (None, s) \<Rightarrow>
         if sems s i = SEM_VALUE_MAX then Some (Some EOVERFLOW, s)
         else Some (None, s\<lparr>sems := (sems s)(i := sems s i + 1)\<rparr>))"

definition sem_init :: "qstate \<Rightarrow> extent_ref \<Rightarrow> int \<Rightarrow> int \<Rightarrow> (errno option \<times> qstate) option" where
  "sem_init s a i v =
    (if \<not> in_map s a i then None
     else case os_call s of
       (Some e, s) \<Rightarrow> Some (Some e, s)
     | (None, s) \<Rightarrow>
         if v > SEM_VALUE_MAX then Some (Some EINVAL, s)
         else Some (None, s\<lparr>sems := (sems s)(i := v)\<rparr>))"

section \<open>Rules for symbolic execution\<close>

lemma mapped_mono: "mapped s a n \<Longrightarrow> m \<le> n \<Longrightarrow> mapped s a m"
  by (auto simp: mapped_def split: option.splits)

text \<open>Being mapped depends on the extents and the object's size only.\<close>

lemma mapped_upd [simp]:
  "mapped (s\<lparr>cells := c\<rparr>) a n = mapped s a n"
  "mapped (s\<lparr>sems := m\<rparr>) a n = mapped s a n"
  "mapped (s\<lparr>clock_n := k\<rparr>) a n = mapped s a n"
  "mapped (s\<lparr>os_n := k\<rparr>) a n = mapped s a n"
  "mapped (s\<lparr>signals := l\<rparr>) a n = mapped s a n"
  "mapped (s\<lparr>accessors := x\<rparr>) a n = mapped s a n"
  "mapped (s\<lparr>base_prev := b\<rparr>) a n = mapped s a n"
  "mapped (s\<lparr>base_current := b\<rparr>) a n = mapped s a n"
  "mapped (s\<lparr>fresh_ext := k\<rparr>) a n = mapped s a n"
  "mapped (s\<lparr>mode := x\<rparr>) a n = mapped s a n"
  by (simp_all add: mapped_def split: option.splits)

lemma in_mapI: "mapped s a n \<Longrightarrow> 0 \<le> i \<Longrightarrow> i < n \<Longrightarrow> in_map s a i"
  by (auto simp: in_map_def intro: mapped_mono)

lemma rd_mapped [exec]: "mapped s a n \<Longrightarrow> 0 \<le> i \<Longrightarrow> i < n \<Longrightarrow> rd s a i = Some (cells s i)"
  by (simp add: rd_def in_mapI)

lemma wr_mapped [exec]:
  "mapped s a n \<Longrightarrow> 0 \<le> i \<Longrightarrow> i < n \<Longrightarrow> wr s a i v = Some (s\<lparr>cells := (cells s)(i := v)\<rparr>)"
  by (simp add: wr_def in_mapI)

lemma rd2_mapped [exec]:
  "mapped s a n \<Longrightarrow> 0 \<le> i \<Longrightarrow> i + 1 < n \<Longrightarrow> rd2 s a i = Some (cells s i, cells s (i + 1))"
  by (simp add: rd2_def rd_mapped)

lemma clear_slots_mapped [exec]:
  "mapped s a m \<Longrightarrow> 0 \<le> i \<Longrightarrow> 0 < n \<Longrightarrow> i + n \<le> m \<Longrightarrow>
   clear_slots s a i n =
     Some (s\<lparr>cells := (\<lambda>j. if i \<le> j \<and> j < i + n then 0 else cells s j)\<rparr>)"
  by (auto simp: clear_slots_def intro: mapped_mono)

lemma CAS_mapped [exec]:
  "mapped s a n \<Longrightarrow> 0 \<le> i \<Longrightarrow> i < n \<Longrightarrow>
   CAS s a i old new =
     Some (if cells s i = old then (True, s\<lparr>cells := (cells s)(i := new)\<rparr>) else (False, s))"
  by (simp add: CAS_def rd_mapped wr_mapped)

lemma DWCAS_mapped [exec]:
  "mapped s a n \<Longrightarrow> 0 \<le> i \<Longrightarrow> i + 1 < n \<Longrightarrow> even i \<Longrightarrow>
   DWCAS s a i old new =
     Some (if (cells s i, cells s (i + 1)) = old
           then (True, s\<lparr>cells := (cells s)(i := fst new, i + 1 := snd new)\<rparr>)
           else (False, s))"
  by (simp add: DWCAS_def rd2_mapped wr_mapped)

lemma AFA_mapped [exec]:
  "mapped s a n \<Longrightarrow> 0 \<le> i \<Longrightarrow> i < n \<Longrightarrow>
   AFA s a i v = Some (cells s i, s\<lparr>cells := (cells s)(i := wrap64 (cells s i + v))\<rparr>)"
  by (simp add: AFA_def rd_mapped wr_mapped)

lemma AFS_mapped [exec]:
  "mapped s a n \<Longrightarrow> 0 \<le> i \<Longrightarrow> i < n \<Longrightarrow>
   AFS s a i v = Some (cells s i, s\<lparr>cells := (cells s)(i := wrap64 (cells s i - v))\<rparr>)"
  by (simp add: AFS_def rd_mapped wr_mapped)

text \<open>An environment in which no call fails.\<close>

definition quiet :: "qstate \<Rightarrow> bool" where
  "quiet s \<longleftrightarrow> (\<forall>k. osr s k = None)"

lemma quiet_upd [simp]:
  "quiet (s\<lparr>cells := c\<rparr>) = quiet s"
  "quiet (s\<lparr>fsize := n\<rparr>) = quiet s"
  "quiet (s\<lparr>sems := m\<rparr>) = quiet s"
  "quiet (s\<lparr>extents := x\<rparr>) = quiet s"
  "quiet (s\<lparr>accessors := l\<rparr>) = quiet s"
  "quiet (s\<lparr>clock_n := k\<rparr>) = quiet s"
  "quiet (s\<lparr>os_n := k\<rparr>) = quiet s"
  "quiet (s\<lparr>signals := g\<rparr>) = quiet s"
  by (simp_all add: quiet_def)

lemma quiet_os_call [exec]: "quiet s \<Longrightarrow> os_call s = (None, s\<lparr>os_n := Suc (os_n s)\<rparr>)"
  by (simp add: os_call_def quiet_def)

end
