(* ===== verification/Names.thy ===== *)
theory Names
  imports Mem
begin

text \<open>
  Names of queues and the file behind them (\<open>src/shared_int.c\<close>, lines 68 to 267 and
  1327 to 1342): the classification of \<open>errno\<close> values, the check of a name, the path
  built in a buffer on the stack, and the check that the file exists with a plausible size.
  C strings are lists of characters without their terminating NUL; a pointer that may be
  NULL is an option.
\<close>

section \<open>Error numbers\<close>

fun convert_to_status :: "errno \<Rightarrow> sh_status" where
  "convert_to_status EINVAL = SH_ERR_ARG"
| "convert_to_status EPERM = SH_ERR_ACCESS"
| "convert_to_status EACCES = SH_ERR_ACCESS"
| "convert_to_status EEXIST = SH_ERR_EXIST"
| "convert_to_status ENOENT = SH_ERR_EXIST"
| "convert_to_status ENOMEM = SH_ERR_NOMEM"
| "convert_to_status EBADF = SH_ERR_PATH"
| "convert_to_status ELOOP = SH_ERR_PATH"
| "convert_to_status ENOTDIR = SH_ERR_PATH"
| "convert_to_status ENAMETOOLONG = SH_ERR_PATH"
| "convert_to_status ENFILE = SH_ERR_SYS"
| "convert_to_status EMFILE = SH_ERR_SYS"
| "convert_to_status EIO = SH_ERR_SYS"
| "convert_to_status _ = SH_ERR_STATE"

lemma convert_to_status_not_OK [simp]: "convert_to_status e \<noteq> SH_OK"
  by (cases e) simp_all

section \<open>The name itself\<close>

abbreviation (input) PATH_MAX :: nat where "PATH_MAX \<equiv> 4096"

definition validate_name :: "string option \<Rightarrow> sh_status" where
  "validate_name name =
    (case name of
       None \<Rightarrow> SH_ERR_PATH
     | Some nm \<Rightarrow>
         let len = length nm
         in if len = 0 then SH_ERR_PATH
            else if len > PATH_MAX then SH_ERR_PATH
            else SH_OK)"

section \<open>The path of the file\<close>

definition NUL :: char where
  "NUL = CHR 0x00"

definition SHR_OBJ_DIR :: string where
  "SHR_OBJ_DIR = ''/dev/shm/''"

text \<open>\<open>sizeof(SHR_OBJ_DIR)\<close> counts the terminating NUL.\<close>

definition sizeof_dir :: nat where
  "sizeof_dir = length SHR_OBJ_DIR + 1"

text \<open>\<open>memcpy\<close> into the buffer; \<open>None\<close> when it would write past the end.\<close>

definition buf_write :: "char list \<Rightarrow> nat \<Rightarrow> char list \<Rightarrow> char list option" where
  "buf_write buf i cs =
    (if i + length cs \<le> length buf
     then Some (take i buf @ cs @ drop (i + length cs) buf) else None)"

definition build_file_path :: "string \<Rightarrow> nat \<Rightarrow> char list option" where
  "build_file_path name bsize = do {
     let buffer = replicate bsize NUL;
     buffer \<leftarrow> buf_write buffer 0 (SHR_OBJ_DIR @ [NUL]);
     let index = sizeof_dir - 1;
     let index = (case name of c # _ \<Rightarrow> if c = CHR ''/'' then index - 1 else index | [] \<Rightarrow> index);
     buf_write buffer index name }"

text \<open>What a C function reads from a buffer that must be NUL-terminated.\<close>

definition c_string :: "char list \<Rightarrow> string option" where
  "c_string buf = (if NUL \<in> set buf then Some (takeWhile (\<lambda>c. c \<noteq> NUL) buf) else None)"

lemma NUL_not_dir: "NUL \<notin> set SHR_OBJ_DIR"
  by (simp add: NUL_def SHR_OBJ_DIR_def)

lemma c_string_append: "NUL \<notin> set xs \<Longrightarrow> c_string (xs @ NUL # ys) = Some xs"
  by (auto simp: c_string_def takeWhile_append)

text \<open>The path under which an object of a given name is found: the directory followed by
  the name, with a leading slash of the name merged with the directory's.\<close>

definition object_path :: "string \<Rightarrow> string" where
  "object_path nm = SHR_OBJ_DIR @ (case nm of c # cs \<Rightarrow> if c = CHR ''/'' then cs else nm | [] \<Rightarrow> [])"

lemma drop_replicate_tail:
  "drop n (x # replicate n x) = [x]"
  "drop n (x # x # replicate n x) = [x, x]"
proof -
  have "x # replicate n x = replicate (Suc n) x" "x # x # replicate n x = replicate (Suc (Suc n)) x"
    by simp_all
  then show "drop n (x # replicate n x) = [x]" "drop n (x # x # replicate n x) = [x, x]"
    unfolding drop_replicate by (simp_all only: drop_replicate) (simp_all add: numeral_2_eq_2)
qed

text \<open>With the buffer size that \<open>validate_existence\<close> computes, every write is inside the
  buffer and leaves that path there, terminated.\<close>

lemma build_file_path_ok:
  assumes "NUL \<notin> set name"
  shows "\<exists>buf. build_file_path name (sizeof_dir + length name) = Some buf \<and>
           length buf = sizeof_dir + length name \<and> c_string buf = Some (object_path name)"
proof (cases name)
  case Nil
  then show ?thesis
    by (simp add: build_file_path_def buf_write_def sizeof_dir_def c_string_append NUL_not_dir object_path_def)
next
  case (Cons c cs)
  have cs: "NUL \<notin> set cs" and c: "c \<noteq> NUL" using assms Cons by auto
  show ?thesis
  proof (cases "c = CHR ''/''")
    case True
    have "NUL \<notin> set (SHR_OBJ_DIR @ cs)" using NUL_not_dir cs by simp
    then have "c_string ((SHR_OBJ_DIR @ cs) @ NUL # [NUL]) = Some (SHR_OBJ_DIR @ cs)"
      by (rule c_string_append)
    with True Cons show ?thesis
      by (simp add: build_file_path_def buf_write_def sizeof_dir_def SHR_OBJ_DIR_def object_path_def drop_replicate_tail)
  next
    case False
    have "NUL \<notin> set (SHR_OBJ_DIR @ name)" using NUL_not_dir assms by simp
    then have "c_string ((SHR_OBJ_DIR @ name) @ NUL # []) = Some (SHR_OBJ_DIR @ name)"
      by (rule c_string_append)
    with False Cons show ?thesis
      by (simp add: build_file_path_def buf_write_def sizeof_dir_def SHR_OBJ_DIR_def object_path_def drop_replicate_tail)
  qed
qed

section \<open>The file behind a name\<close>

text \<open>What \<open>stat\<close> says of a path: an error, or whether it is a regular file and its size.\<close>

type_synonym stat_fn = "string \<Rightarrow> errno + bool \<times> int"

text \<open>The second component is the value left in \<open>*size\<close>; it is kept when the pointer
  is NULL (\<open>has_size\<close> false) too, where the code never reads it.\<close>

definition validate_existence :: "stat_fn \<Rightarrow> string option \<Rightarrow> bool \<Rightarrow> (sh_status \<times> int) option" where
  "validate_existence stat name has_size =
    (case name of
       None \<Rightarrow> Some (SH_ERR_ARG, 0)
     | Some nm \<Rightarrow> do {
         buf \<leftarrow> build_file_path nm (sizeof_dir + length nm);
         path \<leftarrow> c_string buf;
         case stat path of
           Inl e \<Rightarrow> Some (convert_to_status e, 0)
         | Inr (regular, st_size) \<Rightarrow>
             if \<not> has_size \<or> \<not> regular then Some (SH_ERR_STATE, 0)
             else if st_size < PAGE_SIZE \<or> st_size mod PAGE_SIZE \<noteq> 0
             then Some (SH_ERR_STATE, st_size)
             else Some (SH_OK, st_size) })"

definition perform_name_validations ::
  "stat_fn \<Rightarrow> string option \<Rightarrow> bool \<Rightarrow> (sh_status \<times> int) option" where
  "perform_name_validations stat name has_size =
    (let status = validate_name name
     in if status \<noteq> SH_OK then Some (status, 0)
        else validate_existence stat name has_size)"

lemma validate_existence_eq:
  assumes "NUL \<notin> set nm"
  shows "validate_existence stat (Some nm) has_size =
    (case stat (object_path nm) of
       Inl e \<Rightarrow> Some (convert_to_status e, 0)
     | Inr (regular, st_size) \<Rightarrow>
         if \<not> has_size \<or> \<not> regular then Some (SH_ERR_STATE, 0)
         else if st_size < PAGE_SIZE \<or> st_size mod PAGE_SIZE \<noteq> 0 then Some (SH_ERR_STATE, st_size)
         else Some (SH_OK, st_size))"
proof -
  obtain buf where "build_file_path nm (sizeof_dir + length nm) = Some buf"
    and "c_string buf = Some (object_path nm)"
    using build_file_path_ok [OF assms] by blast
  then show ?thesis by (simp add: validate_existence_def)
qed

lemma perform_name_validations_eq:
  assumes "NUL \<notin> set nm"
  shows "perform_name_validations stat (Some nm) has_size =
    Some (if nm = [] \<or> 4096 < length nm then (SH_ERR_PATH, 0)
          else case stat (object_path nm) of
                 Inl e \<Rightarrow> (convert_to_status e, 0)
               | Inr (regular, st_size) \<Rightarrow>
                   if has_size \<and> regular
                   then (if 4096 \<le> st_size \<and> 4096 dvd st_size then SH_OK else SH_ERR_STATE, st_size)
                   else (SH_ERR_STATE, 0))"
  using assms
  by (auto simp: perform_name_validations_def validate_name_def Let_def validate_existence_eq
      dvd_eq_mod_eq_0 split: sum.splits)

text \<open>C32: for every name without an embedded NUL, the name checks write inside their stack
  buffer and accept exactly the names of 1 to \<open>PATH_MAX\<close> characters whose file, at
  \<open>/dev/shm/\<close> followed by the name (a leading slash merged), is a regular file of a
  positive whole number of pages, returning its size; every other case is classified by the
  status the code documents.\<close>

theorem perform_name_validations_correct:
  assumes "NUL \<notin> set nm"
  shows "perform_name_validations stat (Some nm) has_size =
    Some (if nm = [] \<or> 4096 < length nm then (SH_ERR_PATH, 0)
          else case stat (object_path nm) of
                 Inl e \<Rightarrow> (convert_to_status e, 0)
               | Inr (regular, st_size) \<Rightarrow>
                   if has_size \<and> regular
                   then (if 4096 \<le> st_size \<and> 4096 dvd st_size then SH_OK else SH_ERR_STATE, st_size)
                   else (SH_ERR_STATE, 0))"
  using assms by (rule perform_name_validations_eq)

theorem perform_name_validations_witness:
  "perform_name_validations (\<lambda>p. if p = ''/dev/shm/testq'' then Inr (True, 8192) else Inl ENOENT)
     (Some ''/testq'') True = Some (SH_OK, 8192)"
proof -
  have "NUL \<notin> set ''/testq''" by (simp add: NUL_def)
  from perform_name_validations_correct [OF this] show ?thesis
    by (simp add: object_path_def SHR_OBJ_DIR_def)
qed

end
