(* ===== verification/Extents.thy ===== *)
theory Extents
  imports Names
begin

text \<open>
  The mapped extents of the shared object and its growth (\<open>src/shared_int.c\<close>:
  \<open>create_extent\<close>, \<open>resize_extent\<close>, \<open>calculate_realloc_size\<close>, \<open>expand\<close>,
  \<open>insure_in_range\<close>, \<open>insure_fit\<close>, \<open>release_prev_extents\<close>), and the words of the
  header every process updates by compare-and-swap (\<open>set_flag\<close>, \<open>clear_flag\<close>,
  \<open>update_buffer_size\<close>).

  A handle keeps a chain of extents from \<open>base_prev\<close> to \<open>base_current\<close>; another process
  may have grown the object, so that \<open>array[SIZE]\<close> exceeds what the current extent maps.
  The invariant \<open>base_ok\<close> says how the two relate; \<open>keeps\<close> is the frame of all these
  operations: nothing but the extents, the size fields and the call counter change, and
  what was mapped stays mapped.
\<close>

record view =
  v_status :: sh_status
  v_slot :: long
  v_ext :: extent_ref

section \<open>Mapping an extent\<close>

text \<open>\<open>mmap\<close> of nothing is \<open>EINVAL\<close>; a length beyond the 47-bit user address space of
  x86-64 (also a negative one, which the call reads as unsigned) is \<open>ENOMEM\<close>.\<close>

definition mmap_result :: "errno option \<Rightarrow> long \<Rightarrow> errno option" where
  "mmap_result failed len =
    (case failed of Some e \<Rightarrow> Some e
     | None \<Rightarrow> if len = 0 then Some EINVAL
               else if len < 0 \<or> 2 ^ 47 < len then Some ENOMEM else None)"

text \<open>The reference is \<open>None\<close> when \<open>*current\<close> is NULL; after a failed \<open>mmap\<close> it is
  the address just freed.\<close>

definition create_extent :: "qstate \<Rightarrow> long \<Rightarrow> sh_status \<times> extent_ref option \<times> qstate" where
  "create_extent s slots =
    (case os_call s of
       (Some _, s) \<Rightarrow> (SH_ERR_NOMEM, None, s)
     | (None, s) \<Rightarrow>
         let r = fresh_ext s; size = wrap64 (slots * 8); s = s\<lparr>fresh_ext := Suc r\<rparr>
         in case os_call s of
              (failed, s) \<Rightarrow>
                case mmap_result failed size of
                  Some e \<Rightarrow> (convert_to_status e, Some r, s)
                | None \<Rightarrow>
                    (SH_OK, Some r,
                     s\<lparr>extents := (extents s)
                        (r := Some \<lparr>e_next = None, e_size = size, e_slots = slots\<rparr>)\<rparr>))"

text \<open>The two swaps that append the new extent to the chain and make it current.\<close>

definition link_extent :: "qstate \<Rightarrow> extent_ref \<Rightarrow> extent_ref \<Rightarrow> qstate option" where
  "link_extent s tail next = do {
     e \<leftarrow> extents s tail;
     case e_next e of
       None \<Rightarrow>
         let s = s\<lparr>extents := (extents s)(tail := Some (e\<lparr>e_next := Some next\<rparr>))\<rparr>
         in Some (if base_current s = tail then s\<lparr>base_current := next\<rparr> else s)
     | Some n \<Rightarrow>
         let s = (if base_current s = tail then s\<lparr>base_current := n\<rparr> else s)
         in Some (s\<lparr>extents := (extents s)(next := None)\<rparr>) }"

definition resize_extent :: "qstate \<Rightarrow> extent_ref \<Rightarrow> (view \<times> qstate) option" where
  "resize_extent s ext =
    (let view = \<lparr>v_status = SH_OK, v_slot = 0, v_ext = base_current s\<rparr>
     in if ext \<noteq> v_ext view then Some (view, s)
        else do {
          e \<leftarrow> extents s ext;
          size \<leftarrow> rd s (v_ext view) SIZE;
          if e_slots e = size then Some (view, s)
          else case create_extent s size of (status, next, s) \<Rightarrow>
            if status \<noteq> SH_OK then Some (view\<lparr>v_status := status\<rparr>, s)
            else do {
              next \<leftarrow> next;
              s \<leftarrow> link_extent s (v_ext view) next;
              Some (view\<lparr>v_ext := base_current s\<rparr>, s) } })"

section \<open>Growing the object\<close>

definition calculate_realloc_size :: "extent \<Rightarrow> long \<Rightarrow> long" where
  "calculate_realloc_size e slots =
    (let current_pages = e_size e div 2 ^ 12;
         needed_pages = wrap64 (slots * 8) div 2 ^ 12 + 1
     in (current_pages + needed_pages) * PAGE_SIZE)"

partial_function (option) ftruncate_loop :: "qstate \<Rightarrow> extent_ref \<Rightarrow> (sh_status \<times> qstate) option" where
  "ftruncate_loop s a = do {
     n \<leftarrow> rd s a EXPAND_SIZE;
     case os_call s of (failed, s) \<Rightarrow>
       (case (if failed = None \<and> n < 0 then Some EINVAL else failed) of
          None \<Rightarrow> Some (SH_OK, do_ftruncate n s)
        | Some e \<Rightarrow> if e \<noteq> EINTR then Some (SH_ERR_NOMEM, s) else ftruncate_loop s a) }"

declare ftruncate_loop.simps [code]

definition expand :: "qstate \<Rightarrow> extent_ref \<Rightarrow> long \<Rightarrow> (view \<times> qstate) option" where
  "expand s ext slots =
    (if slots \<le> 0 then None
     else
       let view = \<lparr>v_status = SH_OK, v_slot = 0, v_ext = ext\<rparr>
       in if ext \<noteq> base_current s then Some (view\<lparr>v_ext := base_current s\<rparr>, s)
          else do {
            e \<leftarrow> extents s ext;
            size_slots \<leftarrow> rd s ext SIZE;
            if e_slots e \<noteq> size_slots then resize_extent s ext
            else do {
              let size = calculate_realloc_size e slots;
              let prev = wrap64 (size_slots * 8);
              (_, s) \<leftarrow> (if size > prev then CAS s ext EXPAND_SIZE prev size else Some (False, s));
              (status, s) \<leftarrow> ftruncate_loop s ext;
              if status \<noteq> SH_OK then Some (view\<lparr>v_status := status\<rparr>, s)
              else do {
                x \<leftarrow> rd s ext EXPAND_SIZE;
                (_, s) \<leftarrow> CAS s ext SIZE (prev div 8) (x div 8);
                size_slots \<leftarrow> rd s ext SIZE;
                if e_slots e \<noteq> size_slots then resize_extent s ext else Some (view, s) } } })"

definition insure_in_range :: "qstate \<Rightarrow> long \<Rightarrow> (view \<times> qstate) option" where
  "insure_in_range s slot =
    (if slot \<le> 0 then None
     else do {
       e \<leftarrow> extents s (base_current s);
       if slot < e_slots e
       then Some (\<lparr>v_status = SH_OK, v_slot = slot, v_ext = base_current s\<rparr>, s)
       else do {
         (view, s) \<leftarrow> resize_extent s (base_current s);
         Some (if v_status view = SH_OK then view\<lparr>v_slot := slot\<rparr> else view, s) } })"

partial_function (option) insure_fit_loop ::
  "qstate \<Rightarrow> view \<Rightarrow> long \<Rightarrow> long \<Rightarrow> (view \<times> qstate) option" where
  "insure_fit_loop s view end slots = do {
     e \<leftarrow> extents s (v_ext view);
     if end \<ge> e_slots e then do {
       (view, s) \<leftarrow> expand s (v_ext view) slots;
       if v_status view \<noteq> SH_OK then Some (view, s)
       else insure_fit_loop s view end slots }
     else Some (view, s) }"

declare insure_fit_loop.simps [code]

definition insure_fit :: "qstate \<Rightarrow> long \<Rightarrow> long \<Rightarrow> (view \<times> qstate) option" where
  "insure_fit s start slots =
    (if start < BASE \<or> slots \<le> 0 then None
     else do {
       (view, s) \<leftarrow>
         insure_fit_loop s \<lparr>v_status = SH_OK, v_slot = 0, v_ext = base_current s\<rparr> (start + slots) slots;
       Some (if v_status view \<noteq> SH_OK then view
             else view\<lparr>v_ext := base_current s, v_slot := start\<rparr>, s) })"

section \<open>Releasing old extents\<close>

partial_function (option) release_loop :: "qstate \<Rightarrow> extent_ref \<Rightarrow> qstate option" where
  "release_loop s head =
    (if head = base_current s then Some s
     else if accessors s > 1 then Some s
     else do {
       e \<leftarrow> extents s head;
       next \<leftarrow> e_next e;
       if base_prev s = head
       then release_loop (s\<lparr>base_prev := next, extents := (extents s)(head := None)\<rparr>) next
       else Some s })"

declare release_loop.simps [code]

definition release_prev_extents :: "qstate \<Rightarrow> qstate option" where
  "release_prev_extents s = release_loop s (base_prev s)"

section \<open>Header words\<close>

partial_function (option) set_flag_loop ::
  "qstate \<Rightarrow> extent_ref \<Rightarrow> long \<Rightarrow> long \<Rightarrow> (bool \<times> qstate) option" where
  "set_flag_loop s a indicator prev =
    (if prev AND indicator = 0 then do {
       (ok, s) \<leftarrow> CAS s a FLAGS prev (prev OR indicator);
       if ok then Some (True, s)
       else do { prev \<leftarrow> rd s a FLAGS; set_flag_loop s a indicator prev } }
     else Some (False, s))"

declare set_flag_loop.simps [code]

definition set_flag :: "qstate \<Rightarrow> extent_ref \<Rightarrow> long \<Rightarrow> (bool \<times> qstate) option" where
  "set_flag s a indicator =
    (if indicator = 0 then None
     else do { prev \<leftarrow> rd s a FLAGS; set_flag_loop s a indicator prev })"

partial_function (option) clear_flag_loop ::
  "qstate \<Rightarrow> extent_ref \<Rightarrow> long \<Rightarrow> long \<Rightarrow> long \<Rightarrow> (bool \<times> qstate) option" where
  "clear_flag_loop s a indicator keep prev =
    (if prev AND indicator \<noteq> 0 then do {
       (ok, s) \<leftarrow> CAS s a FLAGS prev (prev AND keep);
       if ok then Some (True, s)
       else do { prev \<leftarrow> rd s a FLAGS; clear_flag_loop s a indicator keep prev } }
     else Some (False, s))"

declare clear_flag_loop.simps [code]

definition clear_flag :: "qstate \<Rightarrow> extent_ref \<Rightarrow> long \<Rightarrow> (bool \<times> qstate) option" where
  "clear_flag s a indicator =
    (if indicator = 0 then None
     else do { prev \<leftarrow> rd s a FLAGS; clear_flag_loop s a indicator (NOT indicator) prev })"

partial_function (option) update_buffer_loop ::
  "qstate \<Rightarrow> extent_ref \<Rightarrow> long \<Rightarrow> long \<Rightarrow> qstate option" where
  "update_buffer_loop s a new_sz buff_sz =
    (if new_sz > buff_sz then do {
       (ok, s) \<leftarrow> CAS s a BUFFER buff_sz new_sz;
       if ok then Some s
       else do { buff_sz \<leftarrow> rd s a BUFFER; update_buffer_loop s a new_sz buff_sz } }
     else Some s)"

declare update_buffer_loop.simps [code]

definition update_buffer_size :: "qstate \<Rightarrow> extent_ref \<Rightarrow> long \<Rightarrow> long \<Rightarrow> qstate option" where
  "update_buffer_size s a space vec_sz = do {
     let new_sz = wrap64 (wrap64 (space * 8) + vec_sz);
     buff_sz \<leftarrow> rd s a BUFFER;
     update_buffer_loop s a new_sz buff_sz }"

section \<open>Invariant and frame\<close>

text \<open>The slots the current extent maps.\<close>

definition cur_slots :: "qstate \<Rightarrow> int" where
  "cur_slots s = (case extents s (base_current s) of None \<Rightarrow> 0 | Some e \<Rightarrow> e_slots e)"

definition extent_ok :: "qstate \<Rightarrow> extent \<Rightarrow> bool" where
  "extent_ok s e \<longleftrightarrow>
     e_size e = 8 * e_slots e \<and> 512 \<le> e_slots e \<and> 512 dvd e_slots e \<and>
     e_slots e \<le> 2 ^ 44 \<and> e_slots e \<le> cells s SIZE"

text \<open>The chain of extents from one reference to the current one, excluded.\<close>

fun ext_path :: "(nat \<Rightarrow> extent option) \<Rightarrow> extent_ref \<Rightarrow> extent_ref \<Rightarrow> extent_ref list \<Rightarrow> bool" where
  "ext_path X cur r [] \<longleftrightarrow> r = cur"
| "ext_path X cur r (x # xs) \<longleftrightarrow>
     x = r \<and> r \<noteq> cur \<and> (\<exists>e n. X r = Some e \<and> e_next e = Some n \<and> ext_path X cur n xs)"

lemma ext_path_mapped: "ext_path X cur r rs \<Longrightarrow> x \<in> set rs \<Longrightarrow> x \<noteq> cur \<and> X x \<noteq> None"
  by (induction rs arbitrary: r) auto

lemma ext_path_upd:
  "ext_path X cur r rs \<Longrightarrow> x \<notin> set rs \<Longrightarrow> ext_path (X(x := v)) cur r rs"
  by (induction rs arbitrary: r) auto

lemma ext_path_link:
  assumes "ext_path X cur r rs" and "X new = None" and "X cur = Some e"
  shows "ext_path (X(new := Some e', cur := Some (e\<lparr>e_next := Some new\<rparr>))) new r (rs @ [cur])"
  using assms
proof (induction rs arbitrary: r)
  case Nil
  then show ?case by auto
next
  case (Cons x xs)
  then obtain f n where f: "X r = Some f" "e_next f = Some n" "ext_path X cur n xs" "x = r" "r \<noteq> cur"
    by auto
  define Y where "Y = X(new := Some e', cur := Some (e\<lparr>e_next := Some new\<rparr>))"
  have "ext_path Y new n (xs @ [cur])"
    unfolding Y_def using f(3) Cons.prems(2,3) by (rule Cons.IH)
  moreover have "Y r = Some f" and "r \<noteq> new" using f Cons.prems(2) by (auto simp: Y_def)
  ultimately have "ext_path Y new r ((x # xs) @ [cur])" using f by simp
  then show ?case unfolding Y_def .
qed

definition base_ok :: "qstate \<Rightarrow> bool" where
  "base_ok s \<longleftrightarrow>
     (\<exists>e. extents s (base_current s) = Some e \<and> e_next e = None) \<and>
     (\<exists>rs. ext_path (extents s) (base_current s) (base_prev s) rs \<and> distinct rs) \<and>
     (\<forall>r e. extents s r = Some e \<longrightarrow> r < fresh_ext s \<and> extent_ok s e) \<and>
     fsize s = 8 * cells s SIZE \<and> 512 dvd cells s SIZE \<and> cells s SIZE \<le> 2 ^ 46 \<and>
     8 * cells s SIZE \<le> cells s EXPAND_SIZE \<and> 4096 dvd cells s EXPAND_SIZE \<and>
     cells s EXPAND_SIZE \<le> 2 ^ 49"

text \<open>\<open>EXPAND_SIZE\<close> is ahead of \<open>SIZE\<close> after a growth whose \<open>ftruncate\<close> failed.
  What no operation on the extents touches:\<close>

definition keeps :: "qstate \<Rightarrow> qstate \<Rightarrow> bool" where
  "keeps s s' \<longleftrightarrow>
     sems s' = sems s \<and> base_prev s' = base_prev s \<and> accessors s' = accessors s \<and>
     mode s' = mode s \<and> clock s' = clock s \<and> clock_n s' = clock_n s \<and> osr s' = osr s \<and>
     signals s' = signals s \<and> my_pid s' = my_pid s \<and>
     (\<forall>a n. mapped s a n \<longrightarrow> mapped s' a n) \<and> cur_slots s \<le> cur_slots s'"

lemma keeps_refl [simp]: "keeps s s"
  by (simp add: keeps_def)

lemma keeps_trans: "keeps s t \<Longrightarrow> keeps t u \<Longrightarrow> keeps s u"
  by (auto simp: keeps_def)

lemma keeps_mapped [frame]: "keeps s s' \<Longrightarrow> mapped s a n \<Longrightarrow> mapped s' a n"
  by (simp add: keeps_def)

lemma keeps_quiet: "keeps s s' \<Longrightarrow> quiet s \<Longrightarrow> quiet s'"
  by (simp add: keeps_def quiet_def)

lemma cur_slots_upd [simp]:
  "cur_slots (s\<lparr>cells := c\<rparr>) = cur_slots s"
  "cur_slots (s\<lparr>os_n := k\<rparr>) = cur_slots s"
  "cur_slots (s\<lparr>sems := m\<rparr>) = cur_slots s"
  "cur_slots (s\<lparr>clock_n := k\<rparr>) = cur_slots s"
  "cur_slots (s\<lparr>signals := l\<rparr>) = cur_slots s"
  "cur_slots (s\<lparr>accessors := x\<rparr>) = cur_slots s"
  by (simp_all add: cur_slots_def)

lemma keeps_cells [simp]: "keeps s (s\<lparr>cells := c\<rparr>)" "keeps s (s\<lparr>os_n := k\<rparr>)"
  by (simp_all add: keeps_def)

lemma base_ok_cells [simp]:
  "c SIZE = cells s SIZE \<Longrightarrow> c EXPAND_SIZE = cells s EXPAND_SIZE \<Longrightarrow>
   base_ok (s\<lparr>cells := c\<rparr>) = base_ok s"
  by (simp add: base_ok_def extent_ok_def)

lemma base_ok_upd [simp]:
  "base_ok (s\<lparr>os_n := k\<rparr>) = base_ok s"
  "base_ok (s\<lparr>sems := m\<rparr>) = base_ok s"
  "base_ok (s\<lparr>clock_n := n\<rparr>) = base_ok s"
  "base_ok (s\<lparr>signals := l\<rparr>) = base_ok s"
  "base_ok (s\<lparr>accessors := x\<rparr>) = base_ok s"
  by (simp_all add: base_ok_def extent_ok_def)

lemma base_ok_current:
  assumes "base_ok s"
  obtains e where "extents s (base_current s) = Some e" "e_next e = None" "extent_ok s e"
    "cur_slots s = e_slots e"
  using assms unfolding base_ok_def cur_slots_def by (metis option.simps(5))

text \<open>Every mapped extent covers its slots and at least a page; the current one covers the header.\<close>

lemma base_ok_mapped:
  assumes "base_ok s" and "extents s a = Some e"
  shows "mapped s a (e_slots e)"
  using assms by (fastforce simp: base_ok_def mapped_def extent_ok_def)

lemma base_ok_header: "base_ok s \<Longrightarrow> extents s a = Some e \<Longrightarrow> mapped s a 512"
  by (rule mapped_mono, rule base_ok_mapped) (auto simp: base_ok_def extent_ok_def)

lemma base_ok_cur_mapped: "base_ok s \<Longrightarrow> mapped s (base_current s) (cur_slots s)"
  by (metis base_ok_current base_ok_mapped)

lemma base_ok_cur_header: "base_ok s \<Longrightarrow> mapped s (base_current s) 512"
  by (metis base_ok_current base_ok_header)

lemma base_ok_bounds:
  assumes "base_ok s"
  shows "512 \<le> cur_slots s" "cur_slots s \<le> cells s SIZE" "cur_slots s \<le> 2 ^ 44"
    "cells s SIZE \<le> 2 ^ 46" "512 dvd cur_slots s" "512 \<le> cells s SIZE"
proof -
  obtain e where "extent_ok s e" and "cur_slots s = e_slots e"
    using assms by (rule base_ok_current)
  with assms show "512 \<le> cur_slots s" "cur_slots s \<le> cells s SIZE" "cur_slots s \<le> 2 ^ 44"
    "cells s SIZE \<le> 2 ^ 46" "512 dvd cur_slots s" "512 \<le> cells s SIZE"
    by (simp_all add: extent_ok_def base_ok_def)
qed

section \<open>Resizing keeps the invariant\<close>

text \<open>Mapping the whole object: either the new extent is there, or the call failed and
  only the counters moved.\<close>

lemma create_extent_ok:
  assumes "create_extent s n = (SH_OK, r, s')" and "512 \<le> n" and "n \<le> 2 ^ 46"
  shows "n \<le> 2 ^ 44" "r = Some (fresh_ext s)"
    "extents s' = (extents s)(fresh_ext s := Some \<lparr>e_next = None, e_size = 8 * n, e_slots = n\<rparr>)"
    "cells s' = cells s" "fsize s' = fsize s" "base_current s' = base_current s"
    "fresh_ext s' = Suc (fresh_ext s)" "osr s' = osr s"
    "sems s' = sems s" "base_prev s' = base_prev s" "accessors s' = accessors s" "mode s' = mode s"
    "clock s' = clock s" "clock_n s' = clock_n s" "signals s' = signals s" "my_pid s' = my_pid s"
  using assms
  by (auto simp: create_extent_def os_call_def mmap_result_def Let_def mult.commute
      split: option.splits if_splits)

lemma create_extent_fails:
  assumes "create_extent s n = (status, r, s')" and "status \<noteq> SH_OK"
  shows "keeps s s'" "extents s' = extents s" "base_current s' = base_current s"
    "cells s' = cells s" "fsize s' = fsize s" "fresh_ext s \<le> fresh_ext s'"
  using assms
  by (auto simp: create_extent_def os_call_def mmap_result_def Let_def keeps_def mapped_def cur_slots_def
      split: option.splits if_splits)

lemma create_extent_quiet:
  assumes "quiet s" and "512 \<le> n" and "n \<le> 2 ^ 44"
  shows "fst (create_extent s n) = SH_OK"
  using assms by (simp add: create_extent_def mmap_result_def Let_def quiet_def os_call_def)

text \<open>What \<open>resize_extent\<close> is called for: the result is the current extent, which after
  success maps the whole object.\<close>

definition resized :: "qstate \<Rightarrow> view \<times> qstate \<Rightarrow> bool" where
  "resized s r \<longleftrightarrow>
    (case r of (v, s') \<Rightarrow>
       base_ok s' \<and> keeps s s' \<and> cells s' = cells s \<and> fsize s' = fsize s \<and>
       v_slot v = 0 \<and> v_ext v = base_current s' \<and>
       (v_status v = SH_OK \<longrightarrow> cur_slots s' = cells s SIZE) \<and>
       (v_status v \<noteq> SH_OK \<longrightarrow> cur_slots s' = cur_slots s) \<and>
       (quiet s \<and> cells s SIZE \<le> 2 ^ 44 \<longrightarrow> v_status v = SH_OK))"

lemma link_extent_current:
  assumes "extents s (base_current s) = Some e" and "e_next e = None"
  shows "link_extent s (base_current s) n =
    Some (s\<lparr>extents := (extents s)(base_current s := Some (e\<lparr>e_next := Some n\<rparr>)), base_current := n\<rparr>)"
  using assms by (simp add: link_extent_def)

lemma resize_extent_current:
  assumes ok: "base_ok s"
  shows "\<exists>r. resize_extent s (base_current s) = Some r \<and> resized s r"
proof -
  obtain e where e: "extents s (base_current s) = Some e" "e_next e = None" "extent_ok s e"
    "cur_slots s = e_slots e"
    using ok by (rule base_ok_current)
  have size: "rd s (base_current s) SIZE = Some (cells s SIZE)"
    using base_ok_cur_header [OF ok] by (simp add: exec)
  note bounds = base_ok_bounds [OF ok]
  show ?thesis
  proof (cases "e_slots e = cells s SIZE")
    case True
    with e size ok show ?thesis
      by (auto simp: resize_extent_def resized_def)
  next
    case False
    obtain status r s1 where c: "create_extent s (cells s SIZE) = (status, r, s1)"
      by (cases "create_extent s (cells s SIZE)") auto
    show ?thesis
    proof (cases "status = SH_OK")
      case fail: False
      note f = create_extent_fails [OF c fail]
      have "base_ok s1"
        using ok f unfolding base_ok_def extent_ok_def keeps_def by (simp, metis less_le_trans)
      moreover have "cur_slots s1 = cur_slots s" using f by (simp add: cur_slots_def)
      moreover have "\<not> (quiet s \<and> cells s SIZE \<le> 2 ^ 44)"
        using create_extent_quiet [of s "cells s SIZE"] bounds c fail by auto
      ultimately show ?thesis
        using False fail e size c f
        by (auto simp: resize_extent_def resized_def)
    next
      case True
      note k = create_extent_ok [OF c [unfolded True] bounds(6) bounds(4)]
      have fresh: "base_current s \<noteq> fresh_ext s"
        using ok e(1) unfolding base_ok_def by (metis less_irrefl)
      let ?s2 = "s1\<lparr>extents := (extents s1)(base_current s1 := Some (e\<lparr>e_next := Some (fresh_ext s)\<rparr>)),
                    base_current := fresh_ext s\<rparr>"
      have link: "link_extent s1 (base_current s1) (fresh_ext s) = Some ?s2"
        using link_extent_current [of s1 e "fresh_ext s"] k e fresh by simp
      have "extent_ok ?s2 x" if "extents ?s2 r = Some x" for r x
        using that ok e k bounds(6) unfolding base_ok_def extent_ok_def
        by (auto split: if_splits)
      moreover have "\<exists>rs. ext_path (extents ?s2) (fresh_ext s) (base_prev s) rs \<and> distinct rs"
      proof -
        obtain rs where rs: "ext_path (extents s) (base_current s) (base_prev s) rs" "distinct rs"
          using ok unfolding base_ok_def by blast
        have "extents s (fresh_ext s) = None"
          using ok unfolding base_ok_def by (metis less_irrefl not_None_eq)
        from ext_path_link [OF rs(1) this e(1)] k
        have "ext_path (extents ?s2) (fresh_ext s) (base_prev s) (rs @ [base_current s])" by simp
        moreover have "distinct (rs @ [base_current s])" using rs ext_path_mapped by fastforce
        ultimately show ?thesis by blast
      qed
      ultimately have "base_ok ?s2"
        using ok k fresh unfolding base_ok_def by (auto intro: less_SucI split: if_splits)
      moreover have "mapped ?s2 a n" if "mapped s a n" for a n
        using that ok k e fresh unfolding base_ok_def mapped_def
        by (auto split: option.splits if_splits)
      moreover have "cur_slots ?s2 = cells s SIZE" using fresh k by (simp add: cur_slots_def)
      ultimately show ?thesis
        using False True e size c k link bounds
        by (auto simp: resize_extent_def resized_def keeps_def)
    qed
  qed
qed

section \<open>Growth keeps the invariant and makes room\<close>

definition no_eintr :: "qstate \<Rightarrow> bool" where
  "no_eintr s \<longleftrightarrow> (\<forall>k. osr s k \<noteq> Some EINTR)"

lemma keeps_no_eintr: "keeps s s' \<Longrightarrow> no_eintr s \<Longrightarrow> no_eintr s'"
  by (simp add: keeps_def no_eintr_def)

lemma quiet_no_eintr [simp]: "quiet s \<Longrightarrow> no_eintr s"
  by (simp add: quiet_def no_eintr_def)

text \<open>Only the two size fields of the object change, and it never shrinks.\<close>

definition grown :: "qstate \<Rightarrow> qstate \<Rightarrow> bool" where
  "grown s s' \<longleftrightarrow>
     base_ok s' \<and> keeps s s' \<and> cells s SIZE \<le> cells s' SIZE \<and>
     (\<forall>i. i \<noteq> SIZE \<and> i \<noteq> EXPAND_SIZE \<longrightarrow> cells s' i = cells s i)"

lemma grown_refl: "base_ok s \<Longrightarrow> grown s s"
  by (simp add: grown_def)

lemma grown_trans: "grown s t \<Longrightarrow> grown t u \<Longrightarrow> grown s u"
  by (auto simp: grown_def intro: keeps_trans)

lemma resized_grown: "resized s (v, s') \<Longrightarrow> grown s s'"
  by (simp add: resized_def grown_def)

lemma ftruncate_loop_step:
  assumes ok: "base_ok s" and m: "mapped s a 512" and intr: "no_eintr s"
  shows "\<exists>status s'. ftruncate_loop s a = Some (status, s') \<and>
    (status = SH_OK \<and> s' = s\<lparr>os_n := Suc (os_n s), fsize := cells s EXPAND_SIZE\<rparr> \<or>
     status = SH_ERR_NOMEM \<and> s' = s\<lparr>os_n := Suc (os_n s)\<rparr> \<and> \<not> quiet s)"
proof -
  have "rd s a EXPAND_SIZE = Some (cells s EXPAND_SIZE)" using m by (simp add: exec)
  moreover have "\<not> cells s EXPAND_SIZE < fsize s" "\<not> cells s EXPAND_SIZE < 0"
    using ok base_ok_bounds [OF ok] by (auto simp: base_ok_def)
  ultimately show ?thesis
    using intr by (subst ftruncate_loop.simps)
      (auto simp: os_call_def do_ftruncate_def no_eintr_def quiet_def split: option.splits)
qed

lemma realloc_size:
  assumes "extent_ok s e" and "0 < slots" and "slots \<le> 2 ^ 44"
  shows "calculate_realloc_size e slots = 8 * (e_slots e + 512 * (slots div 512) + 512)"
proof -
  obtain k where k: "e_slots e = 512 * k" using assms(1) by (auto simp: extent_ok_def)
  have "wrap64 (slots * 8) = slots * 8" using assms(2,3) by simp
  moreover have "e_size e = 4096 * k" using assms(1) k by (simp add: extent_ok_def)
  moreover have "slots * 8 div 4096 = slots div 512"
    using div_mult_mult2 [of "8 :: int" slots 512] by simp
  ultimately show ?thesis using k by (simp add: calculate_realloc_size_def)
qed

text \<open>One growth: it fails, or the current extent covers what it must, or it has at least
  caught up by a page with a growth begun earlier.\<close>

lemma expand_current:
  assumes ok: "base_ok s" and intr: "no_eintr s" and slots: "0 < slots" "slots \<le> 2 ^ 44"
  shows "\<exists>v s'. expand s (base_current s) slots = Some (v, s') \<and> grown s s' \<and> v_slot v = 0 \<and>
    (v_status v = SH_OK \<longrightarrow> v_ext v = base_current s' \<and> cur_slots s + 512 \<le> cur_slots s') \<and>
    (quiet s \<and> cells s EXPAND_SIZE \<le> 2 ^ 47 \<and> cur_slots s + slots + 512 \<le> 2 ^ 44 \<longrightarrow>
       v_status v = SH_OK \<and> cells s' EXPAND_SIZE \<le> 2 ^ 47)"
proof -
  let ?a = "base_current s"
  obtain e where e: "extents s ?a = Some e" "e_next e = None" "extent_ok s e" "cur_slots s = e_slots e"
    using ok by (rule base_ok_current)
  have m: "mapped s ?a 512" using ok by (rule base_ok_cur_header)
  have rdS: "rd s ?a SIZE = Some (cells s SIZE)" using m by (simp add: exec)
  note bounds = base_ok_bounds [OF ok]
  show ?thesis
  proof (cases "e_slots e = cells s SIZE")
    case False
    obtain r where r: "resize_extent s ?a = Some r" "resized s r"
      using resize_extent_current [OF ok] by blast
    obtain v s' where vs: "r = (v, s')" by (cases r)
    have "512 dvd cells s SIZE" using ok by (simp add: base_ok_def)
    moreover have "cur_slots s < cells s SIZE" using False e(4) bounds(2) by simp
    ultimately have "cur_slots s + 512 \<le> cells s SIZE" by (intro dvd_step bounds(5))
    moreover have "cells s SIZE \<le> 2 ^ 44" if "cells s EXPAND_SIZE \<le> 2 ^ 47"
      using that ok by (simp add: base_ok_def)
    ultimately show ?thesis
      using False slots rdS r e vs resized_grown [of s v s']
      by (auto simp: expand_def resized_def)
  next
    case True
    define sz where "sz = calculate_realloc_size e slots"
    define x where "x = (if cells s EXPAND_SIZE = 8 * cells s SIZE then sz else cells s EXPAND_SIZE)"
    have sz: "sz = 8 * (cells s SIZE + 512 * (slots div 512) + 512)"
      using realloc_size [OF e(3) slots] True by (simp add: sz_def)
    have div: "0 \<le> slots div 512" "512 * (slots div 512) \<le> slots" using slots(1) by simp_all
    have prev: "wrap64 (cells s SIZE * 8) = 8 * cells s SIZE" using bounds by simp
    let ?s1 = "s\<lparr>cells := (cells s)(EXPAND_SIZE := x)\<rparr>"
    have cas: "CAS s ?a EXPAND_SIZE (8 * cells s SIZE) sz =
        Some (cells s EXPAND_SIZE = 8 * cells s SIZE, ?s1)"
      using m by (simp add: exec x_def)
    have gt: "8 * cells s SIZE < sz" using sz div by simp
    have xok: "8 * cells s SIZE + 4096 \<le> x" "4096 dvd x" "x \<le> 2 ^ 49"
    proof -
      have "8 * cells s SIZE + 4096 \<le> cells s EXPAND_SIZE" if "cells s EXPAND_SIZE \<noteq> 8 * cells s SIZE"
      proof -
        have "4096 dvd 8 * cells s SIZE" "4096 dvd cells s EXPAND_SIZE"
          "8 * cells s SIZE < cells s EXPAND_SIZE"
          using ok that mult_dvd_mono [of "8 :: int" 8 512 "cells s SIZE"] by (simp_all add: base_ok_def)
        then show ?thesis by (rule dvd_step)
      qed
      then show "8 * cells s SIZE + 4096 \<le> x" using sz div by (simp add: x_def)
      obtain l where "cells s SIZE = 512 * l" using ok by (auto simp: base_ok_def)
      then have "sz = 4096 * (l + slots div 512 + 1)" using sz by simp
      then show "4096 dvd x" using ok by (simp add: x_def base_ok_def)
      show "x \<le> 2 ^ 49" using ok sz div slots(2) bounds(3) True e(4) by (simp add: x_def base_ok_def)
    qed
    have ok1: "base_ok ?s1" using ok xok by (simp add: base_ok_def extent_ok_def)
    have m1: "mapped ?s1 ?a 512" using m by simp
    have intr1: "no_eintr ?s1" using intr by (simp add: no_eintr_def)
    obtain status s2 where f: "ftruncate_loop ?s1 ?a = Some (status, s2)"
      and st: "status = SH_OK \<and> s2 = ?s1\<lparr>os_n := Suc (os_n ?s1), fsize := cells ?s1 EXPAND_SIZE\<rparr> \<or>
        status = SH_ERR_NOMEM \<and> s2 = ?s1\<lparr>os_n := Suc (os_n ?s1)\<rparr> \<and> \<not> quiet ?s1"
      using ftruncate_loop_step [OF ok1 m1 intr1] by blast
    from st show ?thesis
    proof
      assume st: "status = SH_ERR_NOMEM \<and> s2 = ?s1\<lparr>os_n := Suc (os_n ?s1)\<rparr> \<and> \<not> quiet ?s1"
      have "grown s s2" using st ok1 by (simp add: grown_def keeps_def)
      then show ?thesis
        using True slots(1) rdS e st f cas gt
        by (auto simp: expand_def prev sz_def [symmetric])
    next
      assume st: "status = SH_OK \<and> s2 = ?s1\<lparr>os_n := Suc (os_n ?s1), fsize := cells ?s1 EXPAND_SIZE\<rparr>"
      let ?s3 = "s\<lparr>cells := (cells s)(EXPAND_SIZE := x, SIZE := x div 8), os_n := Suc (os_n s), fsize := x\<rparr>"
      have m2: "mapped s2 b n" if "mapped s b n" for b n
        using that st ok xok by (auto simp: mapped_def base_ok_def split: option.splits)
      have m3: "mapped ?s3 b n" if "mapped s b n" for b n
        using m2 [OF that] st by (simp add: mapped_def split: option.splits)
      have rd2: "rd s2 ?a EXPAND_SIZE = Some x" using m2 [OF m] st by (simp add: exec)
      have c3: "CAS s2 ?a SIZE (cells s SIZE) (x div 8) = Some (True, ?s3)"
        using m2 [OF m] st by (simp add: exec)
      have x8: "8 * (x div 8) = x"
      proof -
        obtain l where "x = 4096 * l" using xok(2) by (rule dvdE)
        then show ?thesis by simp
      qed
      have ok3: "base_ok ?s3"
      proof -
        obtain l where "x = 4096 * l" using xok(2) by (rule dvdE)
        then have "512 dvd x div 8" by simp
        moreover have "cells s SIZE \<le> x div 8" using xok(1) by simp
        ultimately show ?thesis using ok xok x8 by (fastforce simp: base_ok_def extent_ok_def)
      qed
      have g3: "grown s ?s3"
        using ok3 xok m3 by (simp add: grown_def keeps_def cur_slots_def)
      have rd3: "rd ?s3 ?a SIZE = Some (x div 8)"
        using base_ok_cur_header [OF ok3] by (simp add: exec)
      have ne: "cells s SIZE \<noteq> x div 8" using xok(1) by simp
      obtain r where r: "resize_extent ?s3 ?a = Some r" "resized ?s3 r"
        using resize_extent_current [OF ok3] by auto
      obtain v s' where vs: "r = (v, s')" by (cases r)
      have "grown s s'" using g3 resized_grown r vs grown_trans by blast
      moreover have "v_slot v = 0" using r vs by (simp add: resized_def)
      moreover have "v_status v = SH_OK \<longrightarrow> v_ext v = base_current s' \<and> cur_slots s + 512 \<le> cur_slots s'"
        using r vs xok(1) True e(4) by (auto simp: resized_def)
      moreover have "v_status v = SH_OK \<and> cells s' EXPAND_SIZE \<le> 2 ^ 47"
        if "quiet s" "cells s EXPAND_SIZE \<le> 2 ^ 47" "cur_slots s + slots + 512 \<le> 2 ^ 44"
      proof -
        have "x \<le> 2 ^ 47" using that sz div True e(4) by (simp add: x_def)
        moreover have "quiet ?s3" using that(1) by simp
        ultimately show ?thesis using r vs by (auto simp: resized_def)
      qed
      moreover have "expand s ?a slots = Some (v, s')"
        using True slots(1) rdS e st f cas gt rd2 c3 rd3 ne r vs
        by (simp add: expand_def prev sz_def [symmetric])
      ultimately show ?thesis by blast
    qed
  qed
qed

text \<open>An environment in which growing to \<open>2 ^ 44\<close> slots succeeds.\<close>

definition calm :: "qstate \<Rightarrow> bool" where
  "calm s \<longleftrightarrow> quiet s \<and> cells s EXPAND_SIZE \<le> 2 ^ 47"

lemma calm_quiet [simp]: "calm s \<Longrightarrow> quiet s"
  by (simp add: calm_def)

lemma calm_size: "calm s \<Longrightarrow> base_ok s \<Longrightarrow> cells s SIZE \<le> 2 ^ 44"
  by (simp add: calm_def base_ok_def)

lemma calm_upd [simp]:
  "calm (s\<lparr>os_n := k\<rparr>) = calm s"
  "calm (s\<lparr>sems := m\<rparr>) = calm s"
  "calm (s\<lparr>clock_n := n\<rparr>) = calm s"
  "calm (s\<lparr>signals := l\<rparr>) = calm s"
  "calm (s\<lparr>accessors := x\<rparr>) = calm s"
  "c EXPAND_SIZE = cells s EXPAND_SIZE \<Longrightarrow> calm (s\<lparr>cells := c\<rparr>) = calm s"
  by (simp_all add: calm_def)

lemma insure_in_range_ok:
  assumes ok: "base_ok s" and calm: "calm s" and slot: "0 < slot" "slot < cells s SIZE"
  obtains s' where "insure_in_range s slot = Some (\<lparr>v_status = SH_OK, v_slot = slot, v_ext = base_current s'\<rparr>, s')"
    and "base_ok s'" and "keeps s s'" and "cells s' = cells s" and "slot < cur_slots s'" and "calm s'"
proof -
  obtain e where e: "extents s (base_current s) = Some e" "cur_slots s = e_slots e"
    using ok by (rule base_ok_current)
  show thesis
  proof (cases "slot < e_slots e")
    case True
    with e slot(1) ok calm show thesis by (intro that [of s]) (simp_all add: insure_in_range_def)
  next
    case False
    obtain v s' where r: "resize_extent s (base_current s) = Some (v, s')" "resized s (v, s')"
      using resize_extent_current [OF ok] by fastforce
    have "v_status v = SH_OK" using r(2) calm_size [OF calm ok] calm by (simp add: resized_def)
    with r False e slot calm show thesis
      by (intro that [of s']) (auto simp: insure_in_range_def resized_def calm_def dest: keeps_quiet)
  qed
qed

text \<open>When the process's mapping already covers the slot nothing happens at all.\<close>

lemma insure_in_range_mapped [exec]:
  "base_ok s \<Longrightarrow> 0 < slot \<Longrightarrow> slot < cur_slots s \<Longrightarrow>
   insure_in_range s slot = Some (\<lparr>v_status = SH_OK, v_slot = slot, v_ext = base_current s\<rparr>, s)"
  by (auto simp: insure_in_range_def cur_slots_def split: option.splits)

lemma insure_fit_loop_ok:
  assumes "base_ok s" and "no_eintr s" and "0 < slots" and "slots \<le> 2 ^ 44"
    and "v_ext v = base_current s" and "v_status v = SH_OK"
  shows "\<exists>v' s'. insure_fit_loop s v end slots = Some (v', s') \<and> grown s s' \<and>
    (v_status v' = SH_OK \<longrightarrow> end < cur_slots s') \<and> (v_status v' \<noteq> SH_OK \<longrightarrow> v_slot v' = 0) \<and>
    (calm s \<and> end + slots + 512 \<le> 2 ^ 44 \<longrightarrow> v_status v' = SH_OK \<and> calm s')"
  using assms
proof (induction "nat (end + 1 - cur_slots s)" arbitrary: s v rule: less_induct)
  case less
  obtain e where e: "extents s (base_current s) = Some e" "cur_slots s = e_slots e"
    using less.prems(1) by (rule base_ok_current)
  show ?case
  proof (cases "e_slots e \<le> end")
    case False
    with e less.prems show ?thesis
      by (auto simp: insure_fit_loop.simps grown_refl)
  next
    case True
    obtain v1 s1 where x: "expand s (base_current s) slots = Some (v1, s1)" "grown s s1" "v_slot v1 = 0"
      "v_status v1 = SH_OK \<longrightarrow> v_ext v1 = base_current s1 \<and> cur_slots s + 512 \<le> cur_slots s1"
      "quiet s \<and> cells s EXPAND_SIZE \<le> 2 ^ 47 \<and> cur_slots s + slots + 512 \<le> 2 ^ 44 \<longrightarrow>
         v_status v1 = SH_OK \<and> cells s1 EXPAND_SIZE \<le> 2 ^ 47"
      using expand_current [OF less.prems(1-4)] by blast
    have calm1: "v_status v1 = SH_OK \<and> calm s1" if "calm s" "end + slots + 512 \<le> 2 ^ 44"
      using x that True e(2) keeps_quiet [of s s1] by (auto simp: calm_def grown_def)
    show ?thesis
    proof (cases "v_status v1 = SH_OK")
      case False
      with x True e less.prems calm1 show ?thesis by (subst insure_fit_loop.simps) auto
    next
      case ok1: True
      have "\<exists>v' s'. insure_fit_loop s1 v1 end slots = Some (v', s') \<and> grown s1 s' \<and>
        (v_status v' = SH_OK \<longrightarrow> end < cur_slots s') \<and> (v_status v' \<noteq> SH_OK \<longrightarrow> v_slot v' = 0) \<and>
        (calm s1 \<and> end + slots + 512 \<le> 2 ^ 44 \<longrightarrow> v_status v' = SH_OK \<and> calm s')"
        using x(1-4) ok1 True e(2) less.prems
        by (intro less.hyps) (auto simp: grown_def dest: keeps_no_eintr)
      then obtain v' s' where "insure_fit_loop s1 v1 end slots = Some (v', s')" "grown s s'"
        "v_status v' = SH_OK \<longrightarrow> end < cur_slots s'" "v_status v' \<noteq> SH_OK \<longrightarrow> v_slot v' = 0"
        "calm s \<and> end + slots + 512 \<le> 2 ^ 44 \<longrightarrow> v_status v' = SH_OK \<and> calm s'"
        using x(2) calm1 grown_trans by blast
      moreover from this(1) x(1) True e ok1 less.prems(5)
      have "insure_fit_loop s v end slots = Some (v', s')" by (subst insure_fit_loop.simps) simp
      ultimately show ?thesis by blast
    qed
  qed
qed

lemma insure_fit_ok:
  assumes "base_ok s" and "no_eintr s" and "BASE \<le> start" and "0 < slots" and "slots \<le> 2 ^ 44"
  obtains v s' where "insure_fit s start slots = Some (v, s')" and "grown s s'"
    and "v_status v = SH_OK \<Longrightarrow> v_ext v = base_current s' \<and> v_slot v = start \<and> start + slots < cur_slots s'"
    and "v_status v \<noteq> SH_OK \<Longrightarrow> v_slot v = 0"
    and "calm s \<Longrightarrow> start + 2 * slots + 512 \<le> 2 ^ 44 \<Longrightarrow> v_status v = SH_OK \<and> calm s'"
proof -
  obtain v s' where r: "insure_fit_loop s \<lparr>v_status = SH_OK, v_slot = 0, v_ext = base_current s\<rparr>
      (start + slots) slots = Some (v, s')" "grown s s'"
    "v_status v = SH_OK \<longrightarrow> start + slots < cur_slots s'" "v_status v \<noteq> SH_OK \<longrightarrow> v_slot v = 0"
    "calm s \<and> start + slots + slots + 512 \<le> 2 ^ 44 \<longrightarrow> v_status v = SH_OK \<and> calm s'"
    using insure_fit_loop_ok [OF assms(1,2,4,5), of "\<lparr>v_status = SH_OK, v_slot = 0, v_ext = base_current s\<rparr>"
        "start + slots"]
    by (simp only: view.simps) blast
  show thesis
  proof (cases "v_status v = SH_OK")
    case True
    with r assms(3,4) show thesis
      by (intro that [of "v\<lparr>v_ext := base_current s', v_slot := start\<rparr>" s']) (simp_all add: insure_fit_def)
  next
    case False
    with r assms(3,4) show thesis by (intro that [of v s']) (auto simp: insure_fit_def)
  qed
qed


section \<open>Releasing the chain\<close>

lemma release_loop_path:
  assumes "ext_path (extents s) (base_current s) (base_prev s) rs" and "distinct rs"
    and "accessors s \<le> 1"
  shows "release_loop s (base_prev s) =
    Some (s\<lparr>base_prev := base_current s,
           extents := (\<lambda>r. if r \<in> set rs then None else extents s r)\<rparr>)"
  using assms
proof (induction rs arbitrary: s)
  case Nil
  then show ?case by (simp add: release_loop.simps)
next
  case (Cons x xs)
  then obtain e n where e: "extents s (base_prev s) = Some e" "e_next e = Some n"
    "ext_path (extents s) (base_current s) n xs" "x = base_prev s" "base_prev s \<noteq> base_current s"
    by auto
  let ?s = "s\<lparr>base_prev := n, extents := (extents s)(base_prev s := None)\<rparr>"
  have p: "ext_path (extents ?s) (base_current ?s) (base_prev ?s) xs"
    using ext_path_upd [OF e(3), of x None] e(4) Cons.prems(2) by simp
  have "distinct xs" "accessors ?s \<le> 1" using Cons.prems by simp_all
  with p have "release_loop ?s (base_prev ?s) =
    Some (?s\<lparr>base_prev := base_current ?s, extents := (\<lambda>r. if r \<in> set xs then None else extents ?s r)\<rparr>)"
    by (rule Cons.IH)
  moreover have "(\<lambda>r. if r \<in> set xs then None else extents ?s r) =
      (\<lambda>r. if r \<in> set (x # xs) then None else extents s r)"
    using e(4) by (auto simp: fun_eq_iff)
  ultimately show ?case
    using e Cons.prems(3) by (subst release_loop.simps) simp
qed

text \<open>What a call may rely on afterwards: the object is as before, the current extent is
  still mapped, the handle keeps its invariant.\<close>

lemma release_prev_extents_ok:
  assumes ok: "base_ok s"
  obtains s' where "release_prev_extents s = Some s'" and "base_ok s'"
    and "cells s' = cells s" and "sems s' = sems s" and "fsize s' = fsize s"
    and "base_current s' = base_current s" and "cur_slots s' = cur_slots s"
    and "accessors s' = accessors s" and "mode s' = mode s" and "osr s' = osr s"
    and "clock s' = clock s" and "clock_n s' = clock_n s" and "signals s' = signals s"
    and "my_pid s' = my_pid s"
    and "accessors s \<le> 1 \<Longrightarrow> base_prev s' = base_current s \<and> (\<forall>r \<noteq> base_current s. extents s' r = None \<or> extents s' r = extents s r)"
proof (cases "accessors s \<le> 1 \<or> base_prev s = base_current s")
  case False
  then have "release_prev_extents s = Some s"
    by (simp add: release_prev_extents_def release_loop.simps)
  with False ok show thesis by (intro that [of s]) auto
next
  case True
  obtain rs where rs: "ext_path (extents s) (base_current s) (base_prev s) rs" "distinct rs"
    using ok unfolding base_ok_def by blast
  let ?s = "s\<lparr>base_prev := base_current s, extents := (\<lambda>r. if r \<in> set rs then None else extents s r)\<rparr>"
  have cur: "base_current s \<notin> set rs" using ext_path_mapped [OF rs(1)] by blast
  have rel: "release_prev_extents s = Some ?s"
  proof (cases "accessors s \<le> 1")
    case True
    with release_loop_path [OF rs] show ?thesis by (simp add: release_prev_extents_def)
  next
    case False
    with True rs(1) have "base_prev s = base_current s" "rs = []" by (cases rs; simp)+
    then show ?thesis by (simp add: release_prev_extents_def release_loop.simps)
  qed
  have "\<exists>rs'. ext_path (extents ?s) (base_current ?s) (base_prev ?s) rs' \<and> distinct rs'"
    by (rule exI [of _ "[]"]) simp
  then have "base_ok ?s"
    using ok cur unfolding base_ok_def extent_ok_def by (auto split: if_splits)
  with rel cur show thesis by (intro that [of ?s]) (auto simp: cur_slots_def)
qed

section \<open>Flags and buffer size\<close>

lemma set_flag_eq [exec]:
  "mapped s a 512 \<Longrightarrow> indicator \<noteq> 0 \<Longrightarrow>
   set_flag s a indicator =
     Some (if cells s FLAGS AND indicator = 0
           then (True, s\<lparr>cells := (cells s)(FLAGS := cells s FLAGS OR indicator)\<rparr>)
           else (False, s))"
  by (simp add: set_flag_def exec set_flag_loop.simps)

lemma clear_flag_eq [exec]:
  "mapped s a 512 \<Longrightarrow> indicator \<noteq> 0 \<Longrightarrow>
   clear_flag s a indicator =
     Some (if cells s FLAGS AND indicator \<noteq> 0
           then (True, s\<lparr>cells := (cells s)(FLAGS := cells s FLAGS AND NOT indicator)\<rparr>)
           else (False, s))"
  by (simp add: clear_flag_def exec clear_flag_loop.simps)

lemma update_buffer_size_eq [exec]:
  "mapped s a 512 \<Longrightarrow>
   update_buffer_size s a space vec_sz =
     Some (s\<lparr>cells := (cells s)(BUFFER := max (cells s BUFFER) (wrap64 (wrap64 (space * 8) + vec_sz)))\<rparr>)"
  by (simp add: update_buffer_size_def exec update_buffer_loop.simps max_def Let_def)

section \<open>The object apart from its size\<close>

text \<open>Growth changes the two size words only; what the other components say of the object
  they say of the rest.\<close>

definition obj :: "qstate \<Rightarrow> int \<Rightarrow> long" where
  "obj s = (cells s)(SIZE := 0, EXPAND_SIZE := 0)"

lemma obj_eq: "i \<noteq> SIZE \<Longrightarrow> i \<noteq> EXPAND_SIZE \<Longrightarrow> obj s i = cells s i"
  by (simp add: obj_def)

lemma obj_upd [simp]:
  "obj (s\<lparr>sems := m\<rparr>) = obj s"
  "obj (s\<lparr>os_n := k\<rparr>) = obj s"
  "obj (s\<lparr>clock_n := n\<rparr>) = obj s"
  "obj (s\<lparr>signals := l\<rparr>) = obj s"
  "obj (s\<lparr>accessors := x\<rparr>) = obj s"
  by (simp_all add: obj_def)

lemma obj_cells: "cells s' = cells s \<Longrightarrow> obj s' = obj s"
  by (simp add: obj_def)

lemma obj_write:
  "i \<noteq> SIZE \<Longrightarrow> i \<noteq> EXPAND_SIZE \<Longrightarrow> obj (s\<lparr>cells := (cells s)(i := v)\<rparr>) = (obj s)(i := v)"
  by (auto simp: obj_def fun_eq_iff)

lemma grown_obj: "grown s s' \<Longrightarrow> obj s' = obj s"
  by (auto simp: grown_def obj_def fun_eq_iff)

lemma grown_keeps: "grown s s' \<Longrightarrow> base_ok s' \<and> keeps s s' \<and> cells s SIZE \<le> cells s' SIZE"
  by (simp add: grown_def)

section \<open>A page-sized object\<close>

text \<open>A handle on an object of one page in an environment without failures: the concrete
  states the examples run on.\<close>

definition sample_state :: "(int \<Rightarrow> long) \<Rightarrow> qstate" where
  "sample_state c = \<lparr>cells = c(SIZE := 512, EXPAND_SIZE := 4096), fsize = 4096, sems = (\<lambda>_. 1),
     extents = (\<lambda>_. None)(1 := Some \<lparr>e_next = None, e_size = 4096, e_slots = 512\<rparr>), fresh_ext = 2,
     base_prev = 1, base_current = 1, accessors = 0, mode = 2,
     clock = (\<lambda>k. \<lparr>tv_sec = int k, tv_nsec = 0\<rparr>), clock_n = 0, osr = (\<lambda>_. None), os_n = 0,
     signals = [], my_pid = 1\<rparr>"

lemma sample_ok [simp]: "base_ok (sample_state c)" "calm (sample_state c)"
proof -
  have "ext_path (extents (sample_state c)) 1 1 []" "distinct ([] :: nat list)" by simp_all
  then have "\<exists>rs. ext_path (extents (sample_state c)) (base_current (sample_state c))
      (base_prev (sample_state c)) rs \<and> distinct rs"
    by (intro exI [of _ "[]"]) (simp add: sample_state_def)
  then show "base_ok (sample_state c)"
    unfolding base_ok_def by (simp add: sample_state_def extent_ok_def)
  show "calm (sample_state c)" by (simp add: calm_def quiet_def sample_state_def)
qed

lemma sample_slots [simp]: "cur_slots (sample_state c) = 512"
  "cells (sample_state c) = c(SIZE := 512, EXPAND_SIZE := 4096)"
  by (simp_all add: cur_slots_def sample_state_def)


end
