(* ===== verification/Lists.thy ===== *)
theory Lists
  imports Extents
begin

text \<open>
  The lock-free linked lists inside the object (\<open>src/shared_int.c\<close>: \<open>add_end\<close>,
  \<open>remove_front\<close>). A list has a head pair and a tail pair in the header (slot number and
  generation); a node's first two slots are its successor and a generation, the last node
  points to itself. The head node is the one a removal returns, so a list never becomes
  empty. Between the two swaps of \<open>add_end\<close> the tail pair lags behind the chain; a
  process that dies there leaves it so, and the next \<open>add_end\<close> must catch up.
\<close>

section \<open>Operations\<close>

partial_function (option) add_end_loop ::
  "qstate \<Rightarrow> long \<Rightarrow> long \<Rightarrow> int \<Rightarrow> extent_ref \<Rightarrow> qstate option" where
  "add_end_loop s slot gen tail a = do {
     tail_before \<leftarrow> rd2 s a tail;
     let next = fst tail_before;
     (view, s) \<leftarrow> insure_in_range s next;
     let a = v_ext view;
     at_next \<leftarrow> rd s a next;
     if fst tail_before = at_next then do {
       (ok, s) \<leftarrow> DWCAS s a next tail_before (slot, gen);
       if ok then do {
         (_, s) \<leftarrow> DWCAS s a tail tail_before (slot, gen);
         Some s }
       else add_end_loop s slot gen tail a }
     else do {
       tail_after \<leftarrow> rd2 s a next;
       (_, s) \<leftarrow> DWCAS s a tail tail_before tail_after;
       add_end_loop s slot gen tail a } }"

declare add_end_loop.simps [code]

definition add_end :: "qstate \<Rightarrow> long \<Rightarrow> int \<Rightarrow> qstate option" where
  "add_end s slot tail = do {
     let a = base_current s;
     (gen, s) \<leftarrow> AFA s a ID_CNTR 1;
     s \<leftarrow> wr s a slot slot;
     s \<leftarrow> wr s a (slot + 1) gen;
     add_end_loop s slot gen tail a }"

definition remove_front ::
  "qstate \<Rightarrow> long \<Rightarrow> long \<Rightarrow> int \<Rightarrow> int \<Rightarrow> (long \<times> qstate) option" where
  "remove_front s ref gen head tail = do {
     at_tail \<leftarrow> (if ref \<ge> BASE then rd s (base_current s) tail else Some 0);
     if ref \<ge> BASE \<and> ref \<noteq> at_tail then do {
       (view, s) \<leftarrow> insure_in_range s ref;
       let a = v_ext view;
       low \<leftarrow> rd s a ref;
       (ok, s) \<leftarrow> DWCAS s a head (ref, gen) (low, wrap64 (gen + 1));
       if ok then do {
         s \<leftarrow> clear_slots s a ref 2;
         Some (ref, s) }
       else Some (0, s) }
     else Some (0, s) }"

section \<open>Representation\<close>

text \<open>A chain of nodes. The pair in front of the last node carries that node's generation,
  which is what a lagging tail pair is set to.\<close>

fun chain :: "(int \<Rightarrow> long) \<Rightarrow> int list \<Rightarrow> bool" where
  "chain c [] \<longleftrightarrow> False"
| "chain c [x] \<longleftrightarrow> c x = x"
| "chain c (x # y # zs) \<longleftrightarrow> c x = y \<and> (zs = [] \<longrightarrow> c (x + 1) = c (y + 1)) \<and> chain c (y # zs)"

definition list_rep :: "(int \<Rightarrow> long) \<Rightarrow> int \<Rightarrow> int \<Rightarrow> int list \<Rightarrow> bool" where
  "list_rep c head tail ns \<longleftrightarrow>
     chain c ns \<and> distinct ns \<and> c head = hd ns \<and> c tail = last ns \<and> c (tail + 1) = c (last ns + 1)"

text \<open>The tail pair may name any node of the chain.\<close>

definition list_lag :: "(int \<Rightarrow> long) \<Rightarrow> int \<Rightarrow> int \<Rightarrow> int list \<Rightarrow> bool" where
  "list_lag c head tail ns \<longleftrightarrow>
     chain c ns \<and> distinct ns \<and> c head = hd ns \<and> c tail \<in> set ns \<and>
     (c tail = last ns \<longrightarrow> c (tail + 1) = c (last ns + 1))"

text \<open>Nodes lie behind the header, on multiples of four, inside the first \<open>m\<close> slots.\<close>

definition node_ok :: "int \<Rightarrow> int \<Rightarrow> bool" where
  "node_ok m x \<longleftrightarrow> 164 \<le> x \<and> 4 dvd x \<and> x + 4 \<le> m"

text \<open>A pair of header slots that a list may use.\<close>

definition hdr_pair :: "int \<Rightarrow> bool" where
  "hdr_pair t \<longleftrightarrow> even t \<and> 4 \<le> t \<and> t < 163 \<and> t \<noteq> ID_CNTR"

lemma hdr_pairs [simp]: "hdr_pair 4" "hdr_pair 12" "hdr_pair 120" "hdr_pair 110" "hdr_pair 124" "hdr_pair 112"
  by (simp_all add: hdr_pair_def)

lemma chain_not_Nil [simp]: "chain c ns \<Longrightarrow> ns \<noteq> []"
  by auto

lemma list_rep_lag: "list_rep c head tail ns \<Longrightarrow> list_lag c head tail ns"
  by (auto simp: list_rep_def list_lag_def)

lemma chain_cong:
  "chain c ns \<Longrightarrow> (\<And>x. x \<in> set ns \<Longrightarrow> c' x = c x \<and> c' (x + 1) = c (x + 1)) \<Longrightarrow> chain c' ns"
  by (induction c ns rule: chain.induct) auto

lemma list_rep_cong:
  assumes "list_rep c head tail ns" and "c' head = c head" and "c' tail = c tail"
    and "c' (tail + 1) = c (tail + 1)" and "\<And>x. x \<in> set ns \<Longrightarrow> c' x = c x \<and> c' (x + 1) = c (x + 1)"
  shows "list_rep c' head tail ns"
proof -
  have ne: "ns \<noteq> []" using assms(1) by (auto simp: list_rep_def)
  have "chain c' ns" using assms(1,5) chain_cong by (auto simp: list_rep_def)
  with ne assms show ?thesis by (simp add: list_rep_def)
qed

lemma chain_Cons: "chain c (x # ns) \<Longrightarrow> ns \<noteq> [] \<Longrightarrow> c x = hd ns \<and> chain c ns"
  by (cases ns) auto

lemma chain_append: "chain c (ns @ ms) \<Longrightarrow> ms \<noteq> [] \<Longrightarrow> chain c ms"
  by (induction ns) (auto dest: chain_Cons)

text \<open>Appending: the old last node gets the new one as successor, both with its generation.\<close>

lemma chain_snoc:
  "chain c ns \<Longrightarrow> distinct ns \<Longrightarrow> x \<notin> set ns \<Longrightarrow>
   (\<And>y. y \<in> set ns \<Longrightarrow> y \<noteq> last ns \<Longrightarrow> c' y = c y \<and> c' (y + 1) = c (y + 1)) \<Longrightarrow>
   c' (last ns) = x \<Longrightarrow> c' (last ns + 1) = g \<Longrightarrow> c' x = x \<Longrightarrow> c' (x + 1) = g \<Longrightarrow>
   chain c' (ns @ [x])"
proof (induction c ns rule: chain.induct)
  case (3 c y z zs)
  have ne: "y \<noteq> last (z # zs)" using "3.prems"(2) by auto
  have "chain c' ((z # zs) @ [x])"
    using "3.prems" ne by (intro "3.IH") auto
  moreover have "c' y = c y" using "3.prems"(4) [of y] ne by simp
  ultimately show ?case using "3.prems"(1) by simp
qed auto

lemma node_ok_aligned:
  "node_ok m x \<Longrightarrow> node_ok m' y \<Longrightarrow> x \<noteq> y \<Longrightarrow> x + 1 \<noteq> y \<and> y + 1 \<noteq> x \<and> x + 1 \<noteq> y + 1"
  unfolding node_ok_def by presburger

lemma node_ok_mapped:
  assumes "base_ok s" and "node_ok m x" and "x < cur_slots s"
  shows "x + 4 \<le> cur_slots s"
proof -
  have "4 dvd cur_slots s" using base_ok_bounds(5) [OF assms(1)] by (rule dvd_trans [rotated]) simp
  with assms(2,3) show ?thesis by (intro dvd_step) (auto simp: node_ok_def)
qed

lemma node_ok_even: "node_ok m x \<Longrightarrow> even x"
  unfolding node_ok_def by presburger

section \<open>Appending a node\<close>

lemma hdr_pair_even: "hdr_pair t \<Longrightarrow> even t"
  by (simp add: hdr_pair_def)

lemma hdr_node_neq:
  "hdr_pair t \<Longrightarrow> node_ok m x \<Longrightarrow> t \<noteq> x \<and> t \<noteq> x + 1 \<and> t + 1 \<noteq> x \<and> t + 1 \<noteq> x + 1"
  by (auto simp: hdr_pair_def node_ok_def)

lemma hdr_size_neq [simp]:
  "hdr_pair t \<Longrightarrow> t \<noteq> SIZE \<and> t \<noteq> EXPAND_SIZE \<and> t + 1 \<noteq> SIZE \<and> t + 1 \<noteq> EXPAND_SIZE"
  by (auto simp: hdr_pair_def)

lemma node_size_neq [simp]:
  "node_ok m x \<Longrightarrow> x \<noteq> SIZE \<and> x \<noteq> EXPAND_SIZE \<and> x + 1 \<noteq> SIZE \<and> x + 1 \<noteq> EXPAND_SIZE"
  by (auto simp: node_ok_def)

lemma hdr_pair_exec [exec]:
  assumes "mapped s a 512" and "hdr_pair t"
  shows "rd s a t = Some (cells s t)"
    and "rd2 s a t = Some (cells s t, cells s (t + 1))"
    and "DWCAS s a t old new =
      Some (if (cells s t, cells s (t + 1)) = old
            then (True, s\<lparr>cells := (cells s)(t := fst new, t + 1 := snd new)\<rparr>) else (False, s))"
  using assms(2) by (auto simp: hdr_pair_def rd_mapped [OF assms(1)] rd2_mapped [OF assms(1)]
      DWCAS_mapped [OF assms(1)])

lemma node_exec [exec]:
  assumes "mapped s a n" and "x + 4 \<le> n" and "node_ok m x"
  shows "rd s a x = Some (cells s x)"
    and "rd2 s a x = Some (cells s x, cells s (x + 1))"
    and "rd s a (x + 1) = Some (cells s (x + 1))"
    and "rd s a (x + 2) = Some (cells s (x + 2))"
    and "rd s a (x + 3) = Some (cells s (x + 3))"
    and "wr s a x v = Some (s\<lparr>cells := (cells s)(x := v)\<rparr>)"
    and "wr s a (x + 1) v = Some (s\<lparr>cells := (cells s)(x + 1 := v)\<rparr>)"
    and "wr s a (x + 2) v = Some (s\<lparr>cells := (cells s)(x + 2 := v)\<rparr>)"
    and "wr s a (x + 3) v = Some (s\<lparr>cells := (cells s)(x + 3 := v)\<rparr>)"
    and "clear_slots s a x 2 = Some (s\<lparr>cells := (cells s)(x := 0, x + 1 := 0)\<rparr>)"
    and "DWCAS s a x old new =
      Some (if (cells s x, cells s (x + 1)) = old
            then (True, s\<lparr>cells := (cells s)(x := fst new, x + 1 := snd new)\<rparr>) else (False, s))"
proof -
  have x: "0 \<le> x" "even x" using assms(3) node_ok_even by (auto simp: node_ok_def)
  have "(\<lambda>j. if x \<le> j \<and> j < x + 2 then 0 else cells s j) = (cells s)(x := 0, x + 1 := 0)"
    by (auto simp: fun_eq_iff)
  with assms(1,2) x show "clear_slots s a x 2 = Some (s\<lparr>cells := (cells s)(x := 0, x + 1 := 0)\<rparr>)"
    by (simp add: clear_slots_mapped)
qed (use assms(2,3) node_ok_even [OF assms(3)] in
    \<open>auto simp: node_ok_def rd_mapped [OF assms(1)] rd2_mapped [OF assms(1)] wr_mapped [OF assms(1)]
      DWCAS_mapped [OF assms(1)]\<close>)

lemma add_end_loop_ok:
  assumes "base_ok s" and "calm s" and "mapped s a 512" and "chain (cells s) (n # ns)"
    and "distinct (n # ns)" and "\<forall>x\<in>set (n # ns). node_ok (cells s SIZE) x" and "hdr_pair tail"
    and "cells s tail = n" and "ns = [] \<longrightarrow> cells s (tail + 1) = cells s (n + 1)"
  shows "\<exists>s'. add_end_loop s slot gen tail a = Some s' \<and> base_ok s' \<and> calm s' \<and> keeps s s' \<and>
    cells s' = (cells s)(last (n # ns) := slot, last (n # ns) + 1 := gen, tail := slot, tail + 1 := gen)"
  using assms
proof (induction ns arbitrary: s a n)
  case Nil
  have n: "node_ok (cells s SIZE) n" using Nil.prems(6) by simp
  obtain s1 where s1: "insure_in_range s n = Some (\<lparr>v_status = SH_OK, v_slot = n, v_ext = base_current s1\<rparr>, s1)"
    "base_ok s1" "keeps s s1" "cells s1 = cells s" "n < cur_slots s1" "calm s1"
    using n by (elim insure_in_range_ok [OF Nil.prems(1,2), of n, rotated 2]) (auto simp: node_ok_def)
  note m = base_ok_cur_mapped [OF s1(2)] and h = base_ok_cur_header [OF s1(2)]
  note n4 = node_ok_mapped [OF s1(2) n s1(5)]
  have rd: "rd2 s a tail = Some (n, cells s (tail + 1))" using Nil.prems by (simp add: exec)
  let ?s2 = "s1\<lparr>cells := (cells s)(n := slot, n + 1 := gen)\<rparr>"
  have d: "DWCAS s1 (base_current s1) n (n, cells s (tail + 1)) (slot, gen) = Some (True, ?s2)"
    using Nil.prems(4,9) s1(4) node_exec(11) [OF m n4 n] by simp
  have h2: "mapped ?s2 (base_current s1) 512" using h by simp
  have "DWCAS ?s2 (base_current s1) tail (n, cells s (tail + 1)) (slot, gen) =
      Some (True, ?s2\<lparr>cells := (cells ?s2)(tail := slot, tail + 1 := gen)\<rparr>)"
    using hdr_pair_exec(3) [OF h2 Nil.prems(7)] hdr_node_neq [OF Nil.prems(7) n] Nil.prems(8) by simp
  moreover have "rd s1 (base_current s1) n = Some n"
    using node_exec(1) [OF m n4 n] s1(4) Nil.prems(4) by simp
  ultimately have "add_end_loop s slot gen tail a =
      Some (s1\<lparr>cells := (cells s)(n := slot, n + 1 := gen, tail := slot, tail + 1 := gen)\<rparr>)"
    using rd s1(1) d by (subst add_end_loop.simps) simp
  then show ?case
    using s1 Nil.prems(7) n by (auto simp: keeps_trans [OF s1(3) keeps_cells(1)] fun_eq_iff)
next
  case (Cons k ks)
  have n: "node_ok (cells s SIZE) n" using Cons.prems(6) by simp
  have k: "cells s n = k" "k \<noteq> n" "chain (cells s) (k # ks)" using Cons.prems(4,5) by auto
  obtain s1 where s1: "insure_in_range s n = Some (\<lparr>v_status = SH_OK, v_slot = n, v_ext = base_current s1\<rparr>, s1)"
    "base_ok s1" "keeps s s1" "cells s1 = cells s" "n < cur_slots s1" "calm s1"
    using n by (elim insure_in_range_ok [OF Cons.prems(1,2), of n, rotated 2]) (auto simp: node_ok_def)
  note m = base_ok_cur_mapped [OF s1(2)] and h = base_ok_cur_header [OF s1(2)]
  note n4 = node_ok_mapped [OF s1(2) n s1(5)]
  let ?s2 = "s1\<lparr>cells := (cells s)(tail := k, tail + 1 := cells s (n + 1))\<rparr>"
  have step: "add_end_loop s slot gen tail a = add_end_loop ?s2 slot gen tail (base_current s1)"
    using hdr_pair_exec(2) [OF Cons.prems(3,7)] s1(1,4) node_exec(1,2) [OF m n4 n] k
      hdr_pair_exec(3) [OF h Cons.prems(7)] Cons.prems(8)
    by (subst add_end_loop.simps) simp
  have far: "tail \<noteq> x \<and> tail \<noteq> x + 1 \<and> tail + 1 \<noteq> x \<and> tail + 1 \<noteq> x + 1" if "x \<in> set (k # ks)" for x
    using that Cons.prems(6) hdr_node_neq [OF Cons.prems(7)] by (metis list.set_intros(2))
  have p: "base_ok ?s2" "calm ?s2" "mapped ?s2 (base_current s1) 512"
    "\<forall>x\<in>set (k # ks). node_ok (cells ?s2 SIZE) x" "distinct (k # ks)" "cells ?s2 tail = k"
    using s1 h Cons.prems by simp_all
  have c: "chain (cells ?s2) (k # ks)" using far by (intro chain_cong [OF k(3)]) auto
  have g: "ks = [] \<longrightarrow> cells ?s2 (tail + 1) = cells ?s2 (k + 1)"
    using Cons.prems(4) far [of k] by auto
  obtain s' where s': "add_end_loop ?s2 slot gen tail (base_current s1) = Some s'"
    "base_ok s'" "calm s'" "keeps ?s2 s'"
    "cells s' = (cells ?s2)(last (k # ks) := slot, last (k # ks) + 1 := gen, tail := slot, tail + 1 := gen)"
    using Cons.IH [OF p(1,2,3) c p(5,4) Cons.prems(7) p(6) g] by blast
  have "keeps s s'" using keeps_trans [OF keeps_trans [OF s1(3) keeps_cells(1)] s'(4)] .
  moreover have "cells s' = (cells s)(last (n # k # ks) := slot, last (n # k # ks) + 1 := gen,
      tail := slot, tail + 1 := gen)"
    using s'(5) by (auto simp: fun_eq_iff)
  ultimately show ?case using step s' by auto
qed

text \<open>What \<open>add_end\<close> does to the object, when \<open>l\<close> is the last node: five words and the
  generation counter.\<close>

definition add_end_cells :: "(int \<Rightarrow> long) \<Rightarrow> int \<Rightarrow> long \<Rightarrow> int \<Rightarrow> (int \<Rightarrow> long)" where
  "add_end_cells c l slot tail =
    c(ID_CNTR := wrap64 (c ID_CNTR + 1), slot := slot, slot + 1 := c ID_CNTR,
      l := slot, l + 1 := c ID_CNTR, tail := slot, tail + 1 := c ID_CNTR)"

lemma add_end_cells_other:
  "i \<noteq> ID_CNTR \<Longrightarrow> i \<noteq> slot \<Longrightarrow> i \<noteq> slot + 1 \<Longrightarrow> i \<noteq> l \<Longrightarrow> i \<noteq> l + 1 \<Longrightarrow> i \<noteq> tail \<Longrightarrow> i \<noteq> tail + 1 \<Longrightarrow>
   add_end_cells c l slot tail i = c i"
  by (simp add: add_end_cells_def)

lemma add_end_ok:
  assumes ok: "base_ok s" "calm s" and lag: "list_lag (cells s) head tail ns"
    and nodes: "\<forall>x\<in>set ns. node_ok (cells s SIZE) x" and tail: "hdr_pair tail"
    and slot: "node_ok (cur_slots s) slot" "slot \<notin> set ns"
  obtains s' where "add_end s slot tail = Some s'" and "base_ok s'" and "calm s'" and "keeps s s'"
    and "cells s' = add_end_cells (cells s) (last ns) slot tail"
proof -
  let ?c = "cells s" and ?a = "base_current s"
  let ?g = "?c ID_CNTR"
  note m = base_ok_cur_mapped [OF ok(1)] and h = base_ok_cur_header [OF ok(1)]
  have s4: "slot + 4 \<le> cur_slots s" using slot(1) by (simp add: node_ok_def)
  have slotS: "node_ok (?c SIZE) slot" using slot(1) base_ok_bounds(2) [OF ok(1)] by (auto simp: node_ok_def)
  let ?s1 = "s\<lparr>cells := ?c(ID_CNTR := wrap64 (?g + 1), slot := slot, slot + 1 := ?g)\<rparr>"
  have start: "add_end s slot tail = add_end_loop ?s1 slot ?g tail ?a"
    using h slot(1) s4 node_exec(6,7) [of _ ?a "cur_slots s" slot] m
    by (simp add: add_end_def AFA_mapped [of _ _ 512] mapped_upd)
  obtain n pre suf where ns: "ns = pre @ n # suf" "?c tail = n"
    using lag by (auto simp: list_lag_def in_set_conv_decomp)
  have far: "x \<noteq> slot \<and> x \<noteq> slot + 1 \<and> x + 1 \<noteq> slot \<and> x + 1 \<noteq> slot + 1 \<and> x \<noteq> ID_CNTR \<and> x + 1 \<noteq> ID_CNTR"
    if "x \<in> set ns" for x
  proof -
    have "node_ok (?c SIZE) x" "x \<noteq> slot" using that nodes slot(2) by auto
    with node_ok_aligned [OF this(1) slotS this(2)] show ?thesis by (auto simp: node_ok_def)
  qed
  have tl: "cells ?s1 tail = ?c tail" "cells ?s1 (tail + 1) = ?c (tail + 1)"
    using hdr_node_neq [OF tail slotS] tail by (auto simp: hdr_pair_def)
  have "chain ?c ns" using lag by (simp add: list_lag_def)
  then have "chain ?c (n # suf)" unfolding ns by (rule chain_append) simp
  then have c: "chain (cells ?s1) (n # suf)"
  proof (rule chain_cong)
    fix x assume "x \<in> set (n # suf)"
    then have "x \<in> set ns" by (auto simp: ns(1))
    from far [OF this] show "cells ?s1 x = ?c x \<and> cells ?s1 (x + 1) = ?c (x + 1)" by auto
  qed
  have p: "base_ok ?s1" "calm ?s1" "mapped ?s1 ?a 512" "distinct (n # suf)"
    "\<forall>x\<in>set (n # suf). node_ok (cells ?s1 SIZE) x" "cells ?s1 tail = n"
    using ok h lag nodes slotS ns tl by (auto simp: list_lag_def)
  have g: "suf = [] \<longrightarrow> cells ?s1 (tail + 1) = cells ?s1 (n + 1)"
    using lag ns tl far [of n] by (auto simp: list_lag_def)
  obtain s' where s': "add_end_loop ?s1 slot ?g tail ?a = Some s'" "base_ok s'" "calm s'" "keeps ?s1 s'"
    "cells s' = (cells ?s1)(last (n # suf) := slot, last (n # suf) + 1 := ?g, tail := slot, tail + 1 := ?g)"
    using add_end_loop_ok [OF p(1,2,3) c p(4,5) tail p(6) g] by blast
  show thesis
  proof (rule that)
    show "add_end s slot tail = Some s'" using start s'(1) by simp
    show "keeps s s'" by (rule keeps_trans [OF keeps_cells(1) s'(4)])
    show "cells s' = add_end_cells ?c (last ns) slot tail"
      using s'(5) ns by (simp add: add_end_cells_def)
  qed (use s' in auto)
qed

text \<open>The list afterwards, whatever the lag before, and every other list.\<close>

lemma list_rep_add_end:
  assumes lag: "list_lag c head tail ns" and nodes: "\<forall>x\<in>set ns. node_ok m x"
    and hdr: "hdr_pair head" "hdr_pair tail" "head \<noteq> tail"
    and slot: "node_ok m' slot" "slot \<notin> set ns"
  shows "list_rep (add_end_cells c (last ns) slot tail) head tail (ns @ [slot])"
proof -
  let ?c = "add_end_cells c (last ns) slot tail"
  have ne: "ns \<noteq> []" using lag by (auto simp: list_lag_def)
  have last: "node_ok m (last ns)" "last ns \<noteq> slot" using nodes slot ne by auto
  note far = hdr_node_neq [OF hdr(2) last(1)] hdr_node_neq [OF hdr(2) slot(1)]
    hdr_node_neq [OF hdr(1) last(1)] hdr_node_neq [OF hdr(1) slot(1)]
    node_ok_aligned [OF last(1) slot(1) last(2)]
  have hd: "head \<noteq> ID_CNTR" "head \<noteq> tail + 1" using hdr by (auto simp: hdr_pair_def)
  have "chain ?c (ns @ [slot])"
  proof (rule chain_snoc)
    show "chain c ns" "distinct ns" "slot \<notin> set ns" using lag slot(2) by (auto simp: list_lag_def)
    show "?c y = c y \<and> ?c (y + 1) = c (y + 1)" if "y \<in> set ns" "y \<noteq> last ns" for y
    proof -
      have y: "node_ok m y" "y \<noteq> slot" using that nodes slot(2) by auto
      show ?thesis
        using node_ok_aligned [OF y(1) slot(1) y(2)] node_ok_aligned [OF y(1) last(1) that(2)]
          hdr_node_neq [OF hdr(2) y(1)] y(2) that(2) y(1)
        by (auto simp: add_end_cells_def node_ok_def)
    qed
  qed (use far in \<open>auto simp: add_end_cells_def\<close>)
  with lag far hd hdr(3) slot(2) ne show ?thesis
    by (auto simp: list_rep_def list_lag_def add_end_cells_def)
qed

lemma list_rep_add_end_other:
  assumes rep: "list_rep c h t ms" and nodes: "\<forall>x\<in>set ms. node_ok m x"
    and hdr: "hdr_pair h" "hdr_pair t" "hdr_pair tail" "h \<noteq> tail" "t \<noteq> tail"
    and l: "node_ok m l" "l \<notin> set ms" and slot: "node_ok m' slot" "slot \<notin> set ms"
  shows "list_rep (add_end_cells c l slot tail) h t ms"
proof (rule list_rep_cong [OF rep])
  have tail: "h \<noteq> tail + 1" "t \<noteq> tail + 1" "t + 1 \<noteq> tail" "h \<noteq> ID_CNTR" "t \<noteq> ID_CNTR" "t + 1 \<noteq> ID_CNTR"
    using hdr(1-3) by (auto simp: hdr_pair_def)
  note far = hdr_node_neq [OF hdr(1) l(1)] hdr_node_neq [OF hdr(2) l(1)]
    hdr_node_neq [OF hdr(1) slot(1)] hdr_node_neq [OF hdr(2) slot(1)]
  show "add_end_cells c l slot tail h = c h" "add_end_cells c l slot tail t = c t"
    "add_end_cells c l slot tail (t + 1) = c (t + 1)"
    using tail far hdr(4,5) by (auto intro!: add_end_cells_other)
  fix x assume x: "x \<in> set ms"
  then have nx: "node_ok m x" "x \<noteq> l" "x \<noteq> slot" using nodes l(2) slot(2) by auto
  show "add_end_cells c l slot tail x = c x \<and> add_end_cells c l slot tail (x + 1) = c (x + 1)"
    using node_ok_aligned [OF nx(1) l(1) nx(2)] node_ok_aligned [OF nx(1) slot(1) nx(3)]
      hdr_node_neq [OF hdr(3) nx(1)] nx
    by (auto simp: node_ok_def intro!: add_end_cells_other)
qed

section \<open>Removing the front node\<close>

text \<open>What a successful \<open>remove_front\<close> does: the head pair moves on, and the first two
  slots of the node are zeroed.\<close>

definition remove_front_cells :: "(int \<Rightarrow> long) \<Rightarrow> int \<Rightarrow> int \<Rightarrow> (int \<Rightarrow> long)" where
  "remove_front_cells c n head =
    c(head := c n, head + 1 := wrap64 (c (head + 1) + 1), n := 0, n + 1 := 0)"

lemma remove_front_cells_other:
  "i \<noteq> head \<Longrightarrow> i \<noteq> head + 1 \<Longrightarrow> i \<noteq> n \<Longrightarrow> i \<noteq> n + 1 \<Longrightarrow> remove_front_cells c n head i = c i"
  by (simp add: remove_front_cells_def)

text \<open>The tail pair is compared with the node only, so a list whose tail lags but does not
  point at the front node gives the node up as well.\<close>

lemma remove_front_ok:
  assumes ok: "base_ok s" "calm s" and n: "node_ok (cells s SIZE) n"
    and hdr: "hdr_pair head" "hdr_pair tail" and at: "cells s head = n" "cells s tail \<noteq> n"
  obtains s' where "remove_front s n (cells s (head + 1)) head tail = Some (n, s')"
    and "base_ok s'" and "calm s'" and "keeps s s'" and "cells s' = remove_front_cells (cells s) n head"
proof -
  have n0: "0 < n" "n < cells s SIZE" "BASE \<le> n" using n by (auto simp: node_ok_def)
  obtain s1 where s1: "insure_in_range s n = Some (\<lparr>v_status = SH_OK, v_slot = n, v_ext = base_current s1\<rparr>, s1)"
    "base_ok s1" "keeps s s1" "cells s1 = cells s" "n < cur_slots s1" "calm s1"
    by (rule insure_in_range_ok [OF ok n0(1,2)])
  note m = base_ok_cur_mapped [OF s1(2)] and h = base_ok_cur_header [OF s1(2)]
  note n4 = node_ok_mapped [OF s1(2) n s1(5)]
  have hn: "head \<noteq> n" "head \<noteq> n + 1" "head + 1 \<noteq> n" using hdr_node_neq [OF hdr(1) n] by auto
  let ?s2 = "s1\<lparr>cells := (cells s)(head := cells s n, head + 1 := wrap64 (cells s (head + 1) + 1))\<rparr>"
  have m2: "mapped ?s2 (base_current s1) (cur_slots s1)" using m by simp
  have "rd s (base_current s) tail = Some (cells s tail)"
    using hdr_pair_exec(1) [OF base_ok_cur_header [OF ok(1)] hdr(2)] .
  moreover have "rd s1 (base_current s1) n = Some (cells s n)"
    using node_exec(1) [OF m n4 n] s1(4) by simp
  moreover have "DWCAS s1 (base_current s1) head (n, cells s (head + 1))
      (cells s n, wrap64 (cells s (head + 1) + 1)) = Some (True, ?s2)"
    using hdr_pair_exec(3) [OF h hdr(1)] s1(4) at(1) by simp
  moreover have "clear_slots ?s2 (base_current s1) n 2 =
      Some (s1\<lparr>cells := remove_front_cells (cells s) n head\<rparr>)"
    using node_exec(10) [OF m2 n4 n] by (simp add: remove_front_cells_def)
  ultimately have "remove_front s n (cells s (head + 1)) head tail =
      Some (n, s1\<lparr>cells := remove_front_cells (cells s) n head\<rparr>)"
    using s1(1) n0(3) at(2) by (simp add: remove_front_def)
  moreover have "keeps s (s1\<lparr>cells := remove_front_cells (cells s) n head\<rparr>)"
    by (rule keeps_trans [OF s1(3) keeps_cells(1)])
  moreover have "remove_front_cells (cells s) n head SIZE = cells s SIZE"
    "remove_front_cells (cells s) n head EXPAND_SIZE = cells s EXPAND_SIZE"
    using node_size_neq [OF n] hdr_size_neq [OF hdr(1)] by (auto intro!: remove_front_cells_other)
  ultimately show thesis
    using s1(2,4,6) by (intro that [of "s1\<lparr>cells := remove_front_cells (cells s) n head\<rparr>"]) simp_all
qed

lemma remove_front_last:
  assumes "base_ok s" and "hdr_pair tail" and "cells s tail = ref"
  shows "remove_front s ref gen head tail = Some (0, s)"
  using hdr_pair_exec(1) [OF base_ok_cur_header [OF assms(1)] assms(2)] assms(3)
  by (simp add: remove_front_def)

lemma list_rep_remove_front:
  assumes rep: "list_rep c head tail (n # ns)" and ne: "ns \<noteq> []" and nodes: "\<forall>x\<in>set (n # ns). node_ok m x"
    and hdr: "hdr_pair head" "hdr_pair tail" "head \<noteq> tail"
  shows "list_rep (remove_front_cells c n head) head tail ns"
proof -
  let ?c = "remove_front_cells c n head"
  have dist: "n \<notin> set ns" "distinct ns" and ch: "chain c ns" "c n = hd ns"
    using rep ne chain_Cons [of c n ns] by (auto simp: list_rep_def)
  have hd: "head \<noteq> tail + 1" "tail \<noteq> head + 1" using hdr by (auto simp: hdr_pair_def)
  have n: "node_ok m n" using nodes by simp
  note far = hdr_node_neq [OF hdr(1) n] hdr_node_neq [OF hdr(2) n]
  have same: "?c x = c x \<and> ?c (x + 1) = c (x + 1)" if "x \<in> set ns" for x
  proof -
    have x: "node_ok m x" "x \<noteq> n" using that nodes dist(1) by auto
    show ?thesis
      using node_ok_aligned [OF x(1) n x(2)] hdr_node_neq [OF hdr(1) x(1)] x(2)
      by (auto intro!: remove_front_cells_other)
  qed
  have "chain ?c ns" by (rule chain_cong [OF ch(1)]) (rule same)
  moreover have "?c head = hd ns" using far hdr(1) by (auto simp: remove_front_cells_def ch(2))
  moreover have "?c tail = c tail" "?c (tail + 1) = c (tail + 1)"
    using far hd hdr(3) by (auto intro!: remove_front_cells_other)
  moreover have "?c (last ns + 1) = c (last ns + 1)" using same ne by simp
  ultimately show ?thesis using rep ne dist(2) by (simp add: list_rep_def)
qed

lemma list_rep_remove_front_other:
  assumes rep: "list_rep c h t ms" and nodes: "\<forall>x\<in>set ms. node_ok m x"
    and hdr: "hdr_pair h" "hdr_pair t" "hdr_pair head" "h \<noteq> head" "t \<noteq> head"
    and n: "node_ok m n" "n \<notin> set ms"
  shows "list_rep (remove_front_cells c n head) h t ms"
proof (rule list_rep_cong [OF rep])
  have hd: "h \<noteq> head + 1" "t \<noteq> head + 1" "t + 1 \<noteq> head"
    using hdr(1-3) by (auto simp: hdr_pair_def)
  note far = hdr_node_neq [OF hdr(1) n(1)] hdr_node_neq [OF hdr(2) n(1)]
  show "remove_front_cells c n head h = c h" "remove_front_cells c n head t = c t"
    "remove_front_cells c n head (t + 1) = c (t + 1)"
    using hd far hdr(4,5) by (auto intro!: remove_front_cells_other)
  fix x assume x: "x \<in> set ms"
  then have nx: "node_ok m x" "x \<noteq> n" using nodes n(2) by auto
  show "remove_front_cells c n head x = c x \<and> remove_front_cells c n head (x + 1) = c (x + 1)"
    using node_ok_aligned [OF nx(1) n(1) nx(2)] hdr_node_neq [OF hdr(3) nx(1)] nx
    by (auto intro!: remove_front_cells_other)
qed

section \<open>The queue the lists implement\<close>

text \<open>The contract of a list: a queue of nodes that never gives up its last one (then a
  removal returns 0). Any sequence of the two operations behaves as on the abstract list.\<close>

datatype node_op = Put int | Get

fun run_ops ::
  "('s \<Rightarrow> int \<Rightarrow> 's option) \<Rightarrow> ('s \<Rightarrow> (int \<times> 's) option) \<Rightarrow> node_op list \<Rightarrow> 's \<Rightarrow> (int list \<times> 's) option" where
  "run_ops put get [] s = Some ([], s)"
| "run_ops put get (Put x # ops) s = do { s \<leftarrow> put s x; run_ops put get ops s }"
| "run_ops put get (Get # ops) s = do {
     (r, s) \<leftarrow> get s;
     (rs, s) \<leftarrow> run_ops put get ops s;
     Some (r # rs, s) }"

fun spec_ops :: "node_op list \<Rightarrow> int list \<Rightarrow> int list \<times> int list" where
  "spec_ops [] xs = ([], xs)"
| "spec_ops (Put x # ops) xs = spec_ops ops (xs @ [x])"
| "spec_ops (Get # ops) xs =
    (case xs of
       x # y # ys \<Rightarrow> (let (rs, zs) = spec_ops ops (y # ys) in (x # rs, zs))
     | _ \<Rightarrow> (let (rs, zs) = spec_ops ops xs in (0 # rs, zs)))"

text \<open>A node that is put must not be in the queue at that time.\<close>

fun fresh_puts :: "(int \<Rightarrow> bool) \<Rightarrow> node_op list \<Rightarrow> int list \<Rightarrow> bool" where
  "fresh_puts P [] xs \<longleftrightarrow> True"
| "fresh_puts P (Put x # ops) xs \<longleftrightarrow> P x \<and> x \<notin> set xs \<and> fresh_puts P ops (xs @ [x])"
| "fresh_puts P (Get # ops) xs \<longleftrightarrow> fresh_puts P ops (if length xs \<le> 1 then xs else tl xs)"

lemma fresh_puts_mono: "fresh_puts P ops xs \<Longrightarrow> (\<And>x. P x \<Longrightarrow> Q x) \<Longrightarrow> fresh_puts Q ops xs"
  by (induction P ops xs rule: fresh_puts.induct) auto

locale node_queue =
  fixes rep :: "'s \<Rightarrow> int list \<Rightarrow> bool" and fits :: "'s \<Rightarrow> int \<Rightarrow> bool"
    and put :: "'s \<Rightarrow> int \<Rightarrow> 's option" and get :: "'s \<Rightarrow> (int \<times> 's) option"
  assumes rep_ne: "rep s xs \<Longrightarrow> xs \<noteq> []"
    and put_rep: "rep s xs \<Longrightarrow> fits s x \<Longrightarrow> x \<notin> set xs \<Longrightarrow>
      \<exists>s'. put s x = Some s' \<and> rep s' (xs @ [x]) \<and> (\<forall>y. fits s y \<longrightarrow> fits s' y)"
    and get_rep: "rep s (x # y # ys) \<Longrightarrow>
      \<exists>s'. get s = Some (x, s') \<and> rep s' (y # ys) \<and> (\<forall>z. fits s z \<longrightarrow> fits s' z)"
    and get_single: "rep s [x] \<Longrightarrow> get s = Some (0, s)"
begin

lemma ops_refine:
  "rep s xs \<Longrightarrow> fresh_puts (fits s) ops xs \<Longrightarrow>
   \<exists>s'. run_ops put get ops s = Some (fst (spec_ops ops xs), s') \<and> rep s' (snd (spec_ops ops xs)) \<and>
     (\<forall>y. fits s y \<longrightarrow> fits s' y)"
proof (induction ops arbitrary: s xs)
  case Nil
  then show ?case by simp
next
  case (Cons op ops)
  show ?case
  proof (cases op)
    case (Put x)
    then obtain s1 where s1: "put s x = Some s1" "rep s1 (xs @ [x])" "\<forall>y. fits s y \<longrightarrow> fits s1 y"
      using put_rep [OF Cons.prems(1)] Cons.prems(2) by auto
    have "fresh_puts (fits s1) ops (xs @ [x])"
      using Cons.prems(2) Put s1(3) fresh_puts_mono by fastforce
    from Cons.IH [OF s1(2) this] s1 Put show ?thesis by auto
  next
    case Get
    consider x where "xs = [x]" | x y ys where "xs = x # y # ys"
      using rep_ne [OF Cons.prems(1)] by (metis neq_Nil_conv)
    then show ?thesis
    proof cases
      case 1
      then have "fresh_puts (fits s) ops xs" using Cons.prems(2) Get by simp
      from Cons.IH [OF Cons.prems(1) this] get_single 1 Get Cons.prems(1) show ?thesis
        by (auto simp: case_prod_beta)
    next
      case 2
      obtain s1 where s1: "get s = Some (x, s1)" "rep s1 (y # ys)" "\<forall>z. fits s z \<longrightarrow> fits s1 z"
        using get_rep Cons.prems(1) 2 by blast
      have "fresh_puts (fits s1) ops (y # ys)"
        using Cons.prems(2) Get 2 s1(3) fresh_puts_mono by fastforce
      from Cons.IH [OF s1(2) this] s1 2 Get show ?thesis by (auto simp: case_prod_beta)
    qed
  qed
qed

end

text \<open>How the callers take a node: they read the head pair and try to remove it.\<close>

definition take_front :: "int \<Rightarrow> int \<Rightarrow> qstate \<Rightarrow> (long \<times> qstate) option" where
  "take_front head tail s = do {
     gen \<leftarrow> rd s (base_current s) (head + 1);
     ref \<leftarrow> rd s (base_current s) head;
     remove_front s ref gen head tail }"

definition nodes_rep :: "int \<Rightarrow> int \<Rightarrow> qstate \<Rightarrow> int list \<Rightarrow> bool" where
  "nodes_rep head tail s ns \<longleftrightarrow>
     base_ok s \<and> calm s \<and> list_rep (cells s) head tail ns \<and> (\<forall>x\<in>set ns. node_ok (cells s SIZE) x)"

lemma keeps_cur_slots: "keeps s s' \<Longrightarrow> node_ok (cur_slots s) x \<Longrightarrow> node_ok (cur_slots s') x"
  by (auto simp: keeps_def node_ok_def)

lemma node_queue_lists:
  assumes hdr: "hdr_pair head" "hdr_pair tail" "head \<noteq> tail"
  shows "node_queue (nodes_rep head tail) (\<lambda>s. node_ok (cur_slots s)) (\<lambda>s x. add_end s x tail) (take_front head tail)"
proof
  have rds: "rd s (base_current s) head = Some (cells s head)"
    "rd s (base_current s) (head + 1) = Some (cells s (head + 1))" if "base_ok s" for s
    using hdr(1) base_ok_cur_header [OF that] by (auto simp: exec hdr_pair_def)
  show "xs \<noteq> []" if "nodes_rep head tail s xs" for s xs
    using that by (auto simp: nodes_rep_def list_rep_def)
  show "\<exists>s'. add_end s x tail = Some s' \<and> nodes_rep head tail s' (xs @ [x]) \<and>
      (\<forall>y. node_ok (cur_slots s) y \<longrightarrow> node_ok (cur_slots s') y)"
    if r: "nodes_rep head tail s xs" and x: "node_ok (cur_slots s) x" "x \<notin> set xs" for s xs x
  proof -
    have s: "base_ok s" "calm s" "list_rep (cells s) head tail xs" "\<forall>y\<in>set xs. node_ok (cells s SIZE) y"
      using r by (auto simp: nodes_rep_def)
    have xm: "node_ok (cells s SIZE) x" using x(1) base_ok_bounds(2) [OF s(1)] by (auto simp: node_ok_def)
    have ne: "xs \<noteq> []" using s(3) by (auto simp: list_rep_def)
    have size: "add_end_cells (cells s) (last xs) x tail SIZE = cells s SIZE"
      using node_size_neq [OF bspec [OF s(4) last_in_set [OF ne]]] node_size_neq [OF xm]
        hdr_size_neq [OF hdr(2)]
      by (intro add_end_cells_other) auto
    obtain s' where "add_end s x tail = Some s'" "base_ok s'" "calm s'" "keeps s s'"
      "cells s' = add_end_cells (cells s) (last xs) x tail"
      by (rule add_end_ok [OF s(1,2) list_rep_lag [OF s(3)] s(4) hdr(2) x])
    moreover have "list_rep (add_end_cells (cells s) (last xs) x tail) head tail (xs @ [x])"
      by (rule list_rep_add_end [OF list_rep_lag [OF s(3)] s(4) hdr x])
    ultimately show ?thesis
      using size xm s(4) keeps_cur_slots by (auto simp: nodes_rep_def)
  qed
  show "\<exists>s'. take_front head tail s = Some (x, s') \<and> nodes_rep head tail s' (y # ys) \<and>
      (\<forall>z. node_ok (cur_slots s) z \<longrightarrow> node_ok (cur_slots s') z)"
    if r: "nodes_rep head tail s (x # y # ys)" for s x y ys
  proof -
    have s: "base_ok s" "calm s" "list_rep (cells s) head tail (x # y # ys)"
      "\<forall>z\<in>set (x # y # ys). node_ok (cells s SIZE) z" "cells s head = x" "cells s tail \<noteq> x"
      using r last_in_set [of "y # ys"] by (auto simp: nodes_rep_def list_rep_def)
    then have x: "node_ok (cells s SIZE) x" by simp
    have size: "remove_front_cells (cells s) x head SIZE = cells s SIZE"
      using node_size_neq [OF x] hdr_size_neq [OF hdr(1)] by (intro remove_front_cells_other) auto
    obtain s' where s': "remove_front s x (cells s (head + 1)) head tail = Some (x, s')" "base_ok s'"
      "calm s'" "keeps s s'" "cells s' = remove_front_cells (cells s) x head"
      by (rule remove_front_ok [OF s(1,2) x hdr(1,2) s(5,6)])
    moreover have "list_rep (remove_front_cells (cells s) x head) head tail (y # ys)"
      by (rule list_rep_remove_front [OF s(3) _ s(4) hdr]) simp
    moreover have "take_front head tail s = Some (x, s')"
      using rds [OF s(1)] s'(1) by (simp add: take_front_def s(5))
    ultimately show ?thesis
      using size s(4) keeps_cur_slots by (simp add: nodes_rep_def)
  qed
  show "take_front head tail s = Some (0, s)" if r: "nodes_rep head tail s [x]" for s x
  proof -
    have s: "base_ok s" "cells s head = x" "cells s tail = x" using r by (auto simp: nodes_rep_def list_rep_def)
    from remove_front_last [OF s(1) hdr(2) s(3)] rds [OF s(1)] s(2) show ?thesis
      by (simp add: take_front_def)
  qed
qed

section \<open>The three lists of the object\<close>

interpretation item_list: node_queue "nodes_rep HEAD TAIL" "\<lambda>s. node_ok (cur_slots s)"
  "\<lambda>s x. add_end s x TAIL" "take_front HEAD TAIL"
  by (rule node_queue_lists) simp_all

interpretation event_list: node_queue "nodes_rep EVENT_HEAD EVENT_TAIL" "\<lambda>s. node_ok (cur_slots s)"
  "\<lambda>s x. add_end s x EVENT_TAIL" "take_front EVENT_HEAD EVENT_TAIL"
  by (rule node_queue_lists) simp_all

interpretation free_list: node_queue "nodes_rep FREE_HEAD FREE_TAIL" "\<lambda>s. node_ok (cur_slots s)"
  "\<lambda>s x. add_end s x FREE_TAIL" "take_front FREE_HEAD FREE_TAIL"
  by (rule node_queue_lists) simp_all

text \<open>The part of the object that a list occupies says all about it.\<close>

lemma list_rep_obj:
  assumes "hdr_pair h" and "hdr_pair t" and "\<forall>x\<in>set ns. node_ok m x"
  shows "list_rep (obj s) h t ns \<longleftrightarrow> list_rep (cells s) h t ns"
proof -
  have "obj s h = cells s h" "obj s t = cells s t" "obj s (t + 1) = cells s (t + 1)"
    using hdr_size_neq [OF assms(1)] hdr_size_neq [OF assms(2)] by (auto intro!: obj_eq)
  moreover have "obj s x = cells s x \<and> obj s (x + 1) = cells s (x + 1)" if "x \<in> set ns" for x
    using node_size_neq [OF bspec [OF assms(3) that]] by (auto intro!: obj_eq)
  ultimately show ?thesis by (auto intro: list_rep_cong)
qed

text \<open>C29: a process may die inside \<open>add_end\<close> after it linked its node and before it moved
  the tail pair, so the tail may name any node of the list. The next \<open>add_end\<close>
  returns all the same, and leaves a list whose tail is right and whose nodes are the old
  ones, in order, and the new one; nothing else in the object changes but the generation
  counter.\<close>

theorem add_end_repairs:
  assumes "base_ok s" and "calm s" and "list_lag (cells s) head tail ns"
    and "\<forall>x\<in>set ns. node_ok (cells s SIZE) x"
    and "hdr_pair head" and "hdr_pair tail" and "head \<noteq> tail"
    and "node_ok (cur_slots s) slot" and "slot \<notin> set ns"
  shows "\<exists>s'. add_end s slot tail = Some s' \<and> base_ok s' \<and> list_rep (cells s') head tail (ns @ [slot]) \<and>
    (\<forall>i. i \<notin> {ID_CNTR, slot, slot + 1, last ns, last ns + 1, tail, tail + 1} \<longrightarrow> cells s' i = cells s i)"
proof -
  obtain s' where s': "add_end s slot tail = Some s'" "base_ok s'"
    "cells s' = add_end_cells (cells s) (last ns) slot tail"
    by (rule add_end_ok [OF assms(1-4,6,8,9)])
  then have "list_rep (cells s') head tail (ns @ [slot])"
    using list_rep_add_end [OF assms(3,4,5,6,7,8,9)] by simp
  with s' show ?thesis by (auto intro!: add_end_cells_other)
qed

theorem add_end_repairs_witness:
  "\<exists>s'. add_end (sample_state ((\<lambda>_. 0)(HEAD := 164, TAIL := 164, TAIL_CNT := 7, 164 := 168, 165 := 8, 168 := 168, 169 := 8))) 172 TAIL
      = Some s' \<and> list_rep (cells s') HEAD TAIL [164, 168, 172]"
  using add_end_repairs [of "sample_state ((\<lambda>_. 0)(HEAD := 164, TAIL := 164, TAIL_CNT := 7, 164 := 168, 165 := 8, 168 := 168, 169 := 8))"
      HEAD TAIL "[164, 168]" 172]
  by (auto simp: list_lag_def node_ok_def)

text \<open>C30: the item list is a first-in first-out queue of nodes that keeps its last node. Any
  sequence of appending nodes not in it and of taking the front one returns, and gives what
  the same sequence gives on the abstract list of its nodes, with 0 for a removal from a
  single node.\<close>

theorem item_list_refines:
  assumes "nodes_rep HEAD TAIL s ns" and "fresh_puts (node_ok (cur_slots s)) ops ns"
  shows "\<exists>s'. run_ops (\<lambda>s x. add_end s x TAIL) (take_front HEAD TAIL) ops s = Some (fst (spec_ops ops ns), s') \<and>
    nodes_rep HEAD TAIL s' (snd (spec_ops ops ns))"
  using item_list.ops_refine [OF assms] by blast

theorem item_list_refines_witness:
  "\<exists>s'. run_ops (\<lambda>s x. add_end s x TAIL) (take_front HEAD TAIL) [Put 168, Put 172, Get, Get, Get]
      (sample_state ((\<lambda>_. 0)(HEAD := 164, TAIL := 164, 164 := 164))) = Some ([164, 168, 0], s') \<and>
    nodes_rep HEAD TAIL s' [172]"
  using item_list_refines [of "sample_state ((\<lambda>_. 0)(HEAD := 164, TAIL := 164, 164 := 164))" "[164]"
      "[Put 168, Put 172, Get, Get, Get]"]
  by (auto simp: nodes_rep_def list_rep_def node_ok_def)

end
