(* ===== verification/Alloc.thy ===== *)
theory Alloc
  imports Lists
begin

text \<open>
  Allocation inside the object (\<open>src/shared_int.c\<close>). Index nodes (four slots) come
  from the free list or from unused space; data blocks come from one of 48 buckets, stacks
  of freed blocks of a power of two slots, or from unused space, which starts at
  \<open>DATA_ALLOC\<close>. A freed block's first pair is the pair of the bucket below it.
\<close>

section \<open>Bit counts\<close>

text \<open>\<open>__builtin_ctzl\<close>, \<open>__builtin_clzl\<close> and \<open>__builtin_popcountl\<close>; the first two
  are undefined at 0.\<close>

definition ctzl :: "long \<Rightarrow> nat" where
  "ctzl x = length (takeWhile (\<lambda>k. \<not> bit x k) [0..<64])"

definition clzl :: "long \<Rightarrow> nat" where
  "clzl x = length (takeWhile (\<lambda>k. \<not> bit x (63 - k)) [0..<64])"

definition popcountl :: "long \<Rightarrow> nat" where
  "popcountl x = length (filter (bit x) [0..<64])"

text \<open>\<open>1 << n\<close> on \<open>int\<close>: 32 bits wide, the processor takes the count modulo 32.\<close>

definition int_shl1 :: "nat \<Rightarrow> long" where
  "int_shl1 n = signed_take_bit 31 (2 ^ (n mod 32))"

section \<open>Operations\<close>

text \<open>Reference 0 is the null pointer: no extent is ever given that reference.\<close>

abbreviation (input) NULL_EXT :: extent_ref where "NULL_EXT \<equiv> 0"

partial_function (option) alloc_new_loop ::
  "qstate \<Rightarrow> long \<Rightarrow> view \<Rightarrow> long \<Rightarrow> (view \<times> qstate) option" where
  "alloc_new_loop s slots view node_alloc =
    (let failed = \<lparr>v_status = SH_ERR_NOMEM, v_slot = 0, v_ext = NULL_EXT\<rparr>
     in if v_status view \<noteq> SH_OK then Some (failed, s)
        else do {
          size \<leftarrow> rd s (v_ext view) SIZE;
          if \<not> node_alloc + slots < size then Some (failed, s)
          else do {
            (ok, s) \<leftarrow> CAS s (v_ext view) DATA_ALLOC node_alloc (node_alloc + slots);
            if ok then do {
              s \<leftarrow> wr s (v_ext view) node_alloc slots;
              Some (view\<lparr>v_slot := node_alloc\<rparr>, s) }
            else do {
              node_alloc \<leftarrow> rd s (base_current s) DATA_ALLOC;
              (view, s) \<leftarrow> insure_fit s node_alloc slots;
              alloc_new_loop s slots view node_alloc } } })"

declare alloc_new_loop.simps [code]

definition alloc_new_data :: "qstate \<Rightarrow> long \<Rightarrow> (view \<times> qstate) option" where
  "alloc_new_data s slots = do {
     node_alloc \<leftarrow> rd s (base_current s) DATA_ALLOC;
     (view, s) \<leftarrow> insure_fit s node_alloc slots;
     if v_status view \<noteq> SH_OK then Some (view, s)
     else alloc_new_loop s slots view node_alloc }"

partial_function (option) realloc_pooled_loop ::
  "qstate \<Rightarrow> extent_ref \<Rightarrow> long \<Rightarrow> int \<Rightarrow> int \<Rightarrow> int \<Rightarrow> view \<Rightarrow> long \<Rightarrow> long \<Rightarrow> (view \<times> qstate) option" where
  "realloc_pooled_loop s a slot_count head head_counter tail view gen node_alloc = do {
     at_tail \<leftarrow> rd s a tail;
     if node_alloc = at_tail then Some (view, s)
     else do {
       (node_alloc, s) \<leftarrow> remove_front s node_alloc gen head tail;
       if node_alloc > 0 then do {
         (view, s) \<leftarrow> insure_fit s node_alloc slot_count;
         s \<leftarrow> (if v_slot view \<noteq> 0 then clear_slots s (v_ext view) node_alloc slot_count else Some s);
         Some (view, s) }
       else do {
         gen \<leftarrow> rd s a head_counter;
         node_alloc \<leftarrow> rd s a head;
         realloc_pooled_loop s a slot_count head head_counter tail view gen node_alloc } } }"

declare realloc_pooled_loop.simps [code]

definition realloc_pooled_mem :: "qstate \<Rightarrow> long \<Rightarrow> int \<Rightarrow> int \<Rightarrow> int \<Rightarrow> (view \<times> qstate) option" where
  "realloc_pooled_mem s slot_count head head_counter tail = do {
     let a = base_current s;
     gen \<leftarrow> rd s a head_counter;
     node_alloc \<leftarrow> rd s a head;
     realloc_pooled_loop s a slot_count head head_counter tail
       \<lparr>v_status = SH_OK, v_slot = 0, v_ext = a\<rparr> gen node_alloc }"

definition alloc_idx_slots :: "qstate \<Rightarrow> (view \<times> qstate) option" where
  "alloc_idx_slots s = do {
     (view, s) \<leftarrow> realloc_pooled_mem s IDX_SIZE FREE_HEAD FREE_HD_CNT FREE_TAIL;
     if v_slot view \<noteq> 0 then Some (view, s) else alloc_new_data s IDX_SIZE }"

text \<open>The bucket of a block: by its size, kept in its first slot.\<close>

definition bucket_of :: "long \<Rightarrow> int" where
  "bucket_of count = MEM_BKT_START + (int (ctzl count) - 2) * 2"

partial_function (option) free_data_loop ::
  "qstate \<Rightarrow> extent_ref \<Rightarrow> long \<Rightarrow> int \<Rightarrow> qstate option" where
  "free_data_loop s a slot bucket = do {
     hi \<leftarrow> rd s a (bucket + 1);
     s \<leftarrow> wr s a (slot + 1) hi;
     lo \<leftarrow> rd s a bucket;
     s \<leftarrow> wr s a slot lo;
     pair \<leftarrow> rd2 s a slot;
     (ok, s) \<leftarrow> DWCAS s a bucket pair (slot, wrap64 (snd pair + 1));
     if ok then Some s else free_data_loop s a slot bucket }"

declare free_data_loop.simps [code]

definition free_data_slots :: "qstate \<Rightarrow> long \<Rightarrow> (sh_status \<times> qstate) option" where
  "free_data_slots s slot = do {
     let a = base_current s;
     count \<leftarrow> rd s a slot;
     if count = 0 then None
     else do {
       s \<leftarrow> free_data_loop s a slot (bucket_of count);
       Some (SH_OK, s) } }"

fun first_fit_loop :: "qstate \<Rightarrow> nat \<Rightarrow> int \<Rightarrow> long option" where
  "first_fit_loop s 0 index = Some 0"
| "first_fit_loop s (Suc retries) index =
    (if index < MEM_SLOTS then do {
       let bucket = MEM_BKT_START + 2 * index;
       v \<leftarrow> rd s (base_current s) bucket;
       if v \<noteq> 0 then Some bucket else first_fit_loop s retries (index + 1) }
     else Some 0)"

definition find_first_fit :: "qstate \<Rightarrow> long \<Rightarrow> long option" where
  "find_first_fit s count =
    (if count < 4 then Some 0 else first_fit_loop s 3 (int (ctzl count) - 2))"

partial_function (option) lookup_freed_loop ::
  "qstate \<Rightarrow> extent_ref \<Rightarrow> int \<Rightarrow> (long \<times> qstate) option" where
  "lookup_freed_loop s a bucket = do {
     low \<leftarrow> rd s a bucket;
     high \<leftarrow> rd s a (bucket + 1);
     if low = 0 then Some (0, s)
     else do {
       (view, s) \<leftarrow> insure_in_range s low;
       let a = v_ext view;
       next \<leftarrow> rd s a low;
       (ok, s) \<leftarrow> DWCAS s a bucket (low, high) (next, wrap64 (high + 1));
       if ok then do {
         s \<leftarrow> wr s a low (int_shl1 (nat ((bucket - MEM_BKT_START) div 2 + 2)));
         Some (low, s) }
       else lookup_freed_loop s a bucket } }"

declare lookup_freed_loop.simps [code]

definition lookup_freed_data :: "qstate \<Rightarrow> long \<Rightarrow> (long \<times> qstate) option" where
  "lookup_freed_data s slots = do {
     bucket \<leftarrow> find_first_fit s slots;
     if bucket = 0 then Some (0, s) else lookup_freed_loop s (base_current s) bucket }"

definition realloc_data_slots :: "qstate \<Rightarrow> long \<Rightarrow> (view \<times> qstate) option" where
  "realloc_data_slots s slots = do {
     let view = \<lparr>v_status = SH_OK, v_slot = 0, v_ext = base_current s\<rparr>;
     (alloc_end, s) \<leftarrow> lookup_freed_data s slots;
     if alloc_end > 0 then do {
       (view, s) \<leftarrow> insure_fit s alloc_end slots;
       s \<leftarrow> (if v_slot view \<noteq> 0 then clear_slots s (v_ext view) (alloc_end + 1) (slots - 1) else Some s);
       Some (view, s) }
     else Some (view, s) }"

definition round_slots :: "long \<Rightarrow> long" where
  "round_slots slots = (if popcountl slots > 1 then int_shl1 (64 - clzl slots) else slots)"

definition alloc_data_slots :: "qstate \<Rightarrow> long \<Rightarrow> (view \<times> qstate) option" where
  "alloc_data_slots s slots = do {
     let slots = round_slots slots;
     (view, s) \<leftarrow> realloc_data_slots s slots;
     if v_slot view \<noteq> 0 then Some (view, s) else alloc_new_data s slots }"

text \<open>Set-up of a new object.\<close>

definition prime_list :: "qstate \<Rightarrow> long \<Rightarrow> int \<Rightarrow> int \<Rightarrow> int \<Rightarrow> int \<Rightarrow> qstate option" where
  "prime_list s slot_count head head_counter tail tail_counter = do {
     let a = base_current s;
     (view, s) \<leftarrow> alloc_new_data s slot_count;
     s \<leftarrow> wr s a head (v_slot view);
     (gen, s) \<leftarrow> AFA s a ID_CNTR 1;
     s \<leftarrow> wr s a head_counter gen;
     s \<leftarrow> wr s a tail (v_slot view);
     cnt \<leftarrow> rd s a head_counter;
     s \<leftarrow> wr s a tail_counter cnt;
     h \<leftarrow> rd s a head;
     t \<leftarrow> rd s a tail;
     s \<leftarrow> wr s a h t;
     h \<leftarrow> rd s a head;
     t \<leftarrow> rd s a tail_counter;
     wr s a (h + 1) t }"

definition init_data_allocator :: "qstate \<Rightarrow> long \<Rightarrow> qstate option" where
  "init_data_allocator s start = do {
     s \<leftarrow> wr s (base_current s) DATA_ALLOC start;
     prime_list s IDX_SIZE FREE_HEAD FREE_HD_CNT FREE_TAIL FREE_TL_CNT }"

section \<open>Powers of two\<close>

lemma takeWhile_upt:
  assumes "k < n" and "P k" and "\<And>j. j < k \<Longrightarrow> \<not> P j"
  shows "length (takeWhile (\<lambda>j. \<not> P j) [0..<n]) = k"
proof -
  have "[0..<n] = [0..<k] @ k # [Suc k..<n]"
    using assms(1) by (metis le_less upt_add_eq_append upt_conv_Cons zero_le le_add_diff_inverse)
  moreover have "takeWhile (\<lambda>j. \<not> P j) [0..<k] = [0..<k]"
    using assms(3) by (simp add: takeWhile_eq_all_conv)
  ultimately show ?thesis using assms(2) by (simp add: takeWhile_append)
qed

lemma bit_pow2: "bit (2 ^ k :: int) j \<longleftrightarrow> j = k"
  by (auto simp: bit_exp_iff)

lemma ctzl_pow2: "k < 64 \<Longrightarrow> ctzl (2 ^ k) = k"
  unfolding ctzl_def by (rule takeWhile_upt) (auto simp: bit_pow2)

text \<open>The bits above the highest one of a positive number.\<close>

lemma bit_top:
  fixes x :: int
  assumes "2 ^ m \<le> x" and "x < 2 ^ Suc m"
  shows "bit x m" and "m < j \<Longrightarrow> \<not> bit x j"
proof -
  have "x div 2 ^ m = 1" using assms by (intro int_div_pos_eq [of x "2 ^ m" 1 "x - 2 ^ m"]) simp_all
  then show "bit x m" by (simp add: bit_iff_odd)
  assume "m < j"
  then have "(2::int) ^ Suc m \<le> 2 ^ j" by (intro power_increasing) simp_all
  then have "x div 2 ^ j = 0" using assms by (intro div_pos_pos_trivial) (auto intro: order_trans [of 0 "2 ^ m"])
  then show "\<not> bit x j" by (simp add: bit_iff_odd)
qed

lemma clzl_eq:
  assumes "2 ^ m \<le> x" and "x < 2 ^ Suc m" and "m < 64"
  shows "clzl x = 63 - m"
  unfolding clzl_def
proof (rule takeWhile_upt)
  show "bit x (63 - (63 - m))" using bit_top(1) [OF assms(1,2)] assms(3) by simp
  fix j assume "j < 63 - m"
  then show "\<not> bit x (63 - j)" by (intro bit_top(2) [OF assms(1,2)]) simp
qed simp

lemma popcountl_one:
  assumes "2 ^ m \<le> x" and "x < 2 ^ Suc m" and "m < 64" and "\<not> popcountl x > 1"
  shows "x = 2 ^ m"
proof (rule bit_eqI)
  fix j
  have m: "bit x m" using bit_top(1) [OF assms(1,2)] .
  have "j = m" if "bit x j"
  proof (rule ccontr)
    assume "j \<noteq> m"
    moreover have "j < 64" using bit_top(2) [OF assms(1,2), of j] that assms(3) by (metis le_less_trans not_le)
    ultimately have "{j, m} \<subseteq> set (filter (bit x) [0..<64])" using that m assms(3) by simp
    then have "card {j, m} \<le> length (filter (bit x) [0..<64])"
      by (meson List.finite_set card_length card_mono order_trans)
    with \<open>j \<noteq> m\<close> assms(4) show False by (simp add: popcountl_def)
  qed
  then show "bit x j \<longleftrightarrow> bit (2 ^ m :: int) j" using m by (auto simp: bit_pow2)
qed

lemma popcountl_pow2: "k < 64 \<Longrightarrow> popcountl (2 ^ k) = 1"
proof -
  assume "k < 64"
  then have "set (filter (bit (2 ^ k :: int)) [0..<64]) = {k}" by (auto simp: bit_pow2)
  moreover have "distinct (filter (bit (2 ^ k :: int)) [0..<64])" by simp
  ultimately have "length (filter (bit (2 ^ k :: int)) [0..<64]) = card {k}"
    by (metis distinct_card)
  then show ?thesis by (simp add: popcountl_def)
qed

text \<open>Up to \<open>2 ^ 30\<close> slots a request is rounded up to the next power of two.\<close>

lemma round_slots_pow2: "k < 63 \<Longrightarrow> round_slots (2 ^ k) = 2 ^ k"
  by (simp add: round_slots_def popcountl_pow2)

lemma round_slots_ok:
  assumes "1 \<le> n" and "n \<le> 2 ^ 30"
  obtains k where "round_slots n = 2 ^ k" and "n \<le> 2 ^ k" and "2 ^ k < 2 * n" and "k \<le> 30"
proof -
  have "1 \<le> nat n" using assms(1) by simp
  from ex_power_ivl1 [OF order_refl this]
  obtain m where m: "2 ^ m \<le> nat n" "nat n < 2 ^ (m + 1)" by blast
  then have n: "2 ^ m \<le> n" "n < 2 ^ Suc m" using assms(1) by (auto simp: le_nat_iff nat_less_iff)
  have m30: "m \<le> 30"
  proof (rule ccontr)
    assume "\<not> m \<le> 30"
    then have "(2::int) ^ 31 \<le> 2 ^ m" by (intro power_increasing) simp_all
    with n assms(2) show False by simp
  qed
  show thesis
  proof (cases "popcountl n > 1")
    case False
    with popcountl_one [OF n] m30 have "n = 2 ^ m" by simp
    with False m30 show thesis by (intro that [of m]) (simp_all add: round_slots_def)
  next
    case True
    then have "n \<noteq> 2 ^ m" using popcountl_pow2 m30 by fastforce
    with n have lt: "2 ^ m < n" by simp
    have "m < 30"
      using m30 lt assms(2) by (cases "m = 30") auto
    moreover have "int_shl1 (64 - clzl n) = 2 ^ Suc m"
    proof -
      have "64 - clzl n = Suc m" using clzl_eq [OF n] m30 by simp
      moreover have "(2::int) ^ Suc m \<le> 2 ^ 30" using \<open>m < 30\<close> by (intro power_increasing) simp_all
      moreover have "- 1073741824 \<le> (2::int) ^ m" by (rule order_trans [of _ 0]) simp_all
      ultimately show ?thesis using \<open>m < 30\<close>
        by (simp add: int_shl1_def signed_take_bit_int_eq_self)
    qed
    ultimately show thesis using True n lt by (intro that [of "Suc m"]) (simp_all add: round_slots_def)
  qed
qed

section \<open>Unused space\<close>

text \<open>A request for unused space fails only when the operating system does; then nothing has
  changed but the mapping. Otherwise the block begins where the unused space did.\<close>

lemma alloc_new_data_ok:
  assumes ok: "base_ok s" "no_eintr s" and d: "BASE \<le> cells s DATA_ALLOC"
    and slots: "0 < slots" "slots \<le> 2 ^ 44"
  obtains v s' where "alloc_new_data s slots = Some (v, s')" and "base_ok s'" and "keeps s s'"
    and "cells s SIZE \<le> cells s' SIZE"
    and "v_status v = SH_OK \<Longrightarrow> v_slot v = cells s DATA_ALLOC \<and> v_ext v = base_current s' \<and>
      v_slot v + slots < cur_slots s' \<and>
      obj s' = (obj s)(DATA_ALLOC := cells s DATA_ALLOC + slots, cells s DATA_ALLOC := slots)"
    and "v_status v \<noteq> SH_OK \<Longrightarrow> v_slot v = 0 \<and> obj s' = obj s"
    and "calm s \<Longrightarrow> cells s DATA_ALLOC + 2 * slots + 512 \<le> 2 ^ 44 \<Longrightarrow> v_status v = SH_OK \<and> calm s'"
proof -
  let ?d = "cells s DATA_ALLOC"
  have rd: "rd s (base_current s) DATA_ALLOC = Some ?d"
    using base_ok_cur_header [OF ok(1)] by (simp add: exec)
  obtain v s1 where f: "insure_fit s ?d slots = Some (v, s1)" "grown s s1"
    "v_status v = SH_OK \<Longrightarrow> v_ext v = base_current s1 \<and> v_slot v = ?d \<and> ?d + slots < cur_slots s1"
    "v_status v \<noteq> SH_OK \<Longrightarrow> v_slot v = 0"
    "calm s \<Longrightarrow> ?d + 2 * slots + 512 \<le> 2 ^ 44 \<Longrightarrow> v_status v = SH_OK \<and> calm s1"
    by (rule insure_fit_ok [OF ok d slots]) blast
  note g = grown_keeps [OF f(2)] and go = grown_obj [OF f(2)]
  show thesis
  proof (cases "v_status v = SH_OK")
    case False
    with rd f g go show thesis by (intro that [of v s1]) (auto simp: alloc_new_data_def)
  next
    case True
    note v = f(3) [OF True]
    have h: "mapped s1 (base_current s1) 512" and m: "mapped s1 (base_current s1) (cur_slots s1)"
      using g base_ok_cur_header base_ok_cur_mapped by blast+
    have lt: "?d + slots < cells s1 SIZE" using v base_ok_bounds(2) [of s1] g by simp
    have same: "cells s1 DATA_ALLOC = ?d" using f(2) by (simp add: grown_def)
    let ?s2 = "s1\<lparr>cells := (cells s1)(DATA_ALLOC := ?d + slots)\<rparr>"
    let ?s3 = "?s2\<lparr>cells := (cells ?s2)(?d := slots)\<rparr>"
    have "rd s1 (base_current s1) SIZE = Some (cells s1 SIZE)" using h by (simp add: exec)
    moreover have "CAS s1 (base_current s1) DATA_ALLOC ?d (?d + slots) = Some (True, ?s2)"
      using h same by (simp add: exec)
    moreover have "wr ?s2 (base_current s1) ?d slots = Some ?s3"
      using wr_mapped [of ?s2 "base_current s1" "cur_slots s1" ?d slots] m v slots(1) d by simp
    ultimately have "alloc_new_data s slots = Some (v, ?s3)"
      using rd f(1) True v lt by (simp add: alloc_new_data_def alloc_new_loop.simps)
    moreover have "base_ok ?s3" using g d by simp
    moreover have "keeps s ?s3" using g keeps_trans keeps_cells(1) by fastforce
    moreover have "cells s SIZE \<le> cells ?s3 SIZE" using g d by simp
    moreover have "obj ?s3 = (obj s)(DATA_ALLOC := ?d + slots, ?d := slots)"
      using d by (subst obj_write, simp, simp, subst obj_write) (simp_all add: go)
    moreover have "cur_slots ?s3 = cur_slots s1" "base_current ?s3 = base_current s1"
      "calm ?s3 = calm s1" using d by simp_all
    ultimately show thesis using True v f(5) by (intro that [of v ?s3]) simp_all
  qed
qed

section \<open>Index nodes\<close>

definition zero4 :: "(int \<Rightarrow> long) \<Rightarrow> int \<Rightarrow> (int \<Rightarrow> long)" where
  "zero4 c x = c(x := 0, x + 1 := 0, x + 2 := 0, x + 3 := 0)"

lemma obj_zero4: "164 \<le> x \<Longrightarrow> obj (s\<lparr>cells := zero4 (cells s) x\<rparr>) = zero4 (obj s) x"
  by (auto simp: obj_def zero4_def fun_eq_iff)

text \<open>The room the address space leaves for a request of \<open>n\<close> more slots.\<close>

definition room :: "qstate \<Rightarrow> int \<Rightarrow> bool" where
  "room s n \<longleftrightarrow> BASE \<le> cells s DATA_ALLOC \<and> cells s DATA_ALLOC + 2 * n + 1024 \<le> 2 ^ 44"

lemma take_single:
  assumes "nodes_rep head tail s [x]" and "hdr_pair head" and "hdr_pair tail"
  shows "realloc_pooled_mem s n head (head + 1) tail =
    Some (\<lparr>v_status = SH_OK, v_slot = 0, v_ext = base_current s\<rparr>, s)"
proof -
  have s: "base_ok s" "cells s head = x" "cells s tail = x"
    using assms(1) by (auto simp: nodes_rep_def list_rep_def)
  have "rd s (base_current s) (head + 1) = Some (cells s (head + 1))"
    using assms(2) base_ok_cur_header [OF s(1)] by (auto simp: exec hdr_pair_def)
  then show ?thesis
    using hdr_pair_exec(1) [OF base_ok_cur_header [OF s(1)]] assms(2,3) s(2,3)
    by (simp add: realloc_pooled_mem_def realloc_pooled_loop.simps)
qed

lemma take_first:
  assumes rep: "nodes_rep head tail s (x # y # ys)" and hdr: "hdr_pair head" "hdr_pair tail"
    and room: "x + 1024 \<le> 2 ^ 44"
  obtains s' where "realloc_pooled_mem s 4 head (head + 1) tail =
      Some (\<lparr>v_status = SH_OK, v_slot = x, v_ext = base_current s'\<rparr>, s')"
    and "base_ok s'" and "calm s'" and "keeps s s'" and "cells s SIZE \<le> cells s' SIZE" and "x + 4 < cur_slots s'"
    and "obj s' = zero4 (remove_front_cells (obj s) x head) x"
proof -
  have s: "base_ok s" "calm s" "node_ok (cells s SIZE) x" "cells s head = x" "cells s tail \<noteq> x"
    using rep last_in_set [of "y # ys"] by (auto simp: nodes_rep_def list_rep_def)
  have x: "164 \<le> x" using s(3) by (simp add: node_ok_def)
  note hs = hdr_size_neq [OF hdr(1)] and xs = node_size_neq [OF s(3)]
  obtain s1 where s1: "remove_front s x (cells s (head + 1)) head tail = Some (x, s1)" "base_ok s1"
    "calm s1" "keeps s s1" "cells s1 = remove_front_cells (cells s) x head"
    by (rule remove_front_ok [OF s(1,2,3) hdr s(4,5)])
  have o1: "obj s1 = remove_front_cells (obj s) x head"
    using hs xs by (auto simp: obj_def s1(5) remove_front_cells_def fun_eq_iff)
  have z1: "cells s1 SIZE = cells s SIZE" using hs xs by (simp add: s1(5) remove_front_cells_other)
  have "no_eintr s1" "BASE \<le> x" using s1(3) x by simp_all
  then obtain v s2 where f: "insure_fit s1 x 4 = Some (v, s2)" "grown s1 s2"
    "v_status v = SH_OK \<Longrightarrow> v_ext v = base_current s2 \<and> v_slot v = x \<and> x + 4 < cur_slots s2"
    "v_status v \<noteq> SH_OK \<Longrightarrow> v_slot v = 0"
    "calm s1 \<Longrightarrow> x + 2 * 4 + 512 \<le> 2 ^ 44 \<Longrightarrow> v_status v = SH_OK \<and> calm s2"
    using insure_fit_ok [OF s1(2), of x 4] by auto
  have st: "v_status v = SH_OK" "calm s2" using f(5) s1(3) room by auto
  note v = f(3) [OF st(1)] and g = grown_keeps [OF f(2)]
  let ?c = "\<lambda>j. if x \<le> j \<and> j < x + 4 then 0 else cells s2 j"
  have "clear_slots s2 (base_current s2) x 4 = Some (s2\<lparr>cells := ?c\<rparr>)"
    using clear_slots_mapped [OF base_ok_cur_mapped, of s2 x 4] g v x by simp
  moreover have c: "?c = zero4 (cells s2) x" by (auto simp: zero4_def fun_eq_iff)
  moreover have "rd s (base_current s) (head + 1) = Some (cells s (head + 1))"
    using hdr base_ok_cur_header [OF s(1)] by (auto simp: exec hdr_pair_def)
  moreover have "v = \<lparr>v_status = SH_OK, v_slot = x, v_ext = base_current s2\<rparr>" using v st(1) by simp
  ultimately have "realloc_pooled_mem s 4 head (head + 1) tail =
      Some (\<lparr>v_status = SH_OK, v_slot = x, v_ext = base_current s2\<rparr>, s2\<lparr>cells := zero4 (cells s2) x\<rparr>)"
    using hdr_pair_exec(1) [OF base_ok_cur_header [OF s(1)]] hdr s(4,5) s1(1) f(1) x
    by (simp add: realloc_pooled_mem_def realloc_pooled_loop.simps)
  moreover have "obj (s2\<lparr>cells := zero4 (cells s2) x\<rparr>) = zero4 (remove_front_cells (obj s) x head) x"
    using grown_obj [OF f(2)] o1 x by (simp add: obj_zero4)
  moreover have "keeps s (s2\<lparr>cells := zero4 (cells s2) x\<rparr>)"
    using keeps_trans [OF keeps_trans [OF s1(4)] keeps_cells(1)] g by blast
  moreover have "base_ok (s2\<lparr>cells := zero4 (cells s2) x\<rparr>)" "calm (s2\<lparr>cells := zero4 (cells s2) x\<rparr>)"
    "cells s SIZE \<le> zero4 (cells s2) x SIZE"
    using g st(2) x z1 by (simp_all add: zero4_def)
  ultimately show thesis using v by (intro that [of "s2\<lparr>cells := zero4 (cells s2) x\<rparr>"]) simp_all
qed

section \<open>Stacks of freed blocks\<close>

fun stack_chain :: "(int \<Rightarrow> long) \<Rightarrow> int \<Rightarrow> int list \<Rightarrow> bool" where
  "stack_chain c t [] \<longleftrightarrow> t = 0"
| "stack_chain c t (x # xs) \<longleftrightarrow> t = x \<and> stack_chain c (c x) xs"

definition stack_rep :: "(int \<Rightarrow> long) \<Rightarrow> int \<Rightarrow> int list \<Rightarrow> bool" where
  "stack_rep c head xs \<longleftrightarrow> stack_chain c (c head) xs \<and> distinct xs"

lemma stack_chain_cong:
  "stack_chain c t xs \<Longrightarrow> (\<And>x. x \<in> set xs \<Longrightarrow> c' x = c x) \<Longrightarrow> stack_chain c' t xs"
  by (induction xs arbitrary: t) auto

lemma stack_rep_cong:
  "stack_rep c head xs \<Longrightarrow> c' head = c head \<Longrightarrow> (\<And>x. x \<in> set xs \<Longrightarrow> c' x = c x) \<Longrightarrow> stack_rep c' head xs"
  by (auto simp: stack_rep_def intro: stack_chain_cong)

lemma stack_rep_Nil: "stack_rep c head [] \<longleftrightarrow> c head = 0"
  by (simp add: stack_rep_def)

lemma stack_rep_top: "stack_rep c head xs \<Longrightarrow> 0 \<notin> set xs \<Longrightarrow> c head = (case xs of [] \<Rightarrow> 0 | x # _ \<Rightarrow> x)"
  by (auto simp: stack_rep_def split: list.splits)

text \<open>Pushing a block on a stack and popping it.\<close>

definition push_cells :: "(int \<Rightarrow> long) \<Rightarrow> int \<Rightarrow> int \<Rightarrow> (int \<Rightarrow> long)" where
  "push_cells c x head = c(x + 1 := c (head + 1), x := c head, head := x, head + 1 := wrap64 (c (head + 1) + 1))"

definition pop_cells :: "(int \<Rightarrow> long) \<Rightarrow> int \<Rightarrow> int \<Rightarrow> (int \<Rightarrow> long)" where
  "pop_cells c x head = c(head := c x, head + 1 := wrap64 (c (head + 1) + 1))"

text \<open>A block begins behind the header, on a multiple of four.\<close>

lemma stack_rep_push:
  assumes "stack_rep c head xs" and "x \<notin> set xs" and "\<forall>y\<in>set (x # xs). node_ok m y" and "head < 163"
  shows "stack_rep (push_cells c x head) head (x # xs)"
proof -
  have x: "node_ok m x" and xs: "\<forall>y\<in>set xs. node_ok m y" using assms(3) by simp_all
  have "push_cells c x head y = c y" if "y \<in> set xs" for y
  proof -
    have y: "node_ok m y" "y \<noteq> x" using that xs assms(2) by auto
    show ?thesis using node_ok_aligned [OF y(1) x y(2)] y assms(4)
      by (auto simp: push_cells_def node_ok_def)
  qed
  moreover have "push_cells c x head head = x" "push_cells c x head x = c head"
    using x assms(4) by (auto simp: push_cells_def node_ok_def)
  ultimately show ?thesis using assms(1,2) by (auto simp: stack_rep_def intro: stack_chain_cong)
qed

lemma stack_rep_pop:
  assumes "stack_rep c head (x # xs)" and "\<forall>y\<in>set (x # xs). node_ok m y" and "head < 163"
    and "\<And>y. y \<in> set xs \<Longrightarrow> c' y = pop_cells c x head y" and "c' head = pop_cells c x head head"
  shows "stack_rep c' head xs"
proof -
  have "c' y = c y" if "y \<in> set xs" for y
  proof -
    have "164 \<le> y" using that assms(2) by (auto simp: node_ok_def)
    with that assms(3,4) show ?thesis by (auto simp: pop_cells_def)
  qed
  then show ?thesis using assms(1,5) by (auto simp: stack_rep_def pop_cells_def intro: stack_chain_cong)
qed

section \<open>Data blocks\<close>

text \<open>Bucket \<open>k\<close> holds blocks of \<open>2 ^ k\<close> slots.\<close>

definition bucket :: "nat \<Rightarrow> int" where
  "bucket k = MEM_BKT_START + (int k - 2) * 2"

lemma bucket_of_pow2: "k < 64 \<Longrightarrow> bucket_of (2 ^ k) = bucket k"
  by (simp add: bucket_of_def bucket_def ctzl_pow2)

lemma bucket_range: "2 \<le> k \<Longrightarrow> k < 50 \<Longrightarrow> even (bucket k) \<and> 14 \<le> bucket k \<and> bucket k + 1 < 110"
  by (auto simp: bucket_def)

lemma bucket_inj: "bucket j = bucket k \<longleftrightarrow> j = k"
  by (auto simp: bucket_def)

lemma bucket_pair_neq: "j \<noteq> k \<Longrightarrow> bucket j \<noteq> bucket k \<and> bucket j + 1 \<noteq> bucket k \<and> bucket j \<noteq> bucket k + 1"
  unfolding bucket_def by presburger

lemma free_data_slots_ok:
  assumes ok: "base_ok s" and x: "164 \<le> x" "x + 1 < cur_slots s"
    and size: "cells s x = 2 ^ k" "2 \<le> k" "k < 50"
  shows "free_data_slots s x = Some (SH_OK, s\<lparr>cells := push_cells (cells s) x (bucket k)\<rparr>)"
proof -
  let ?a = "base_current s" and ?b = "bucket k"
  note b = bucket_range [OF size(2,3)]
  note m = base_ok_cur_mapped [OF ok] and h = base_ok_cur_header [OF ok]
  let ?s1 = "s\<lparr>cells := (cells s)(x + 1 := cells s (?b + 1))\<rparr>"
  let ?s2 = "s\<lparr>cells := (cells s)(x + 1 := cells s (?b + 1), x := cells s ?b)\<rparr>"
  have ne: "x \<noteq> ?b" "x + 1 \<noteq> ?b" "x \<noteq> ?b + 1" using b x by auto
  have "rd s ?a x = Some (2 ^ k)" using rd_mapped [OF m, of x] x size(1) by simp
  moreover have "rd s ?a (?b + 1) = Some (cells s (?b + 1))" using rd_mapped [OF h] b by simp
  moreover have "wr s ?a (x + 1) (cells s (?b + 1)) = Some ?s1" using wr_mapped [OF m] x by simp
  moreover have "rd ?s1 ?a ?b = Some (cells s ?b)"
    using rd_mapped [of ?s1 ?a 512 ?b] h b ne by simp
  moreover have "wr ?s1 ?a x (cells s ?b) = Some ?s2"
    using wr_mapped [of ?s1 ?a "cur_slots s" x] m x by simp
  moreover have "rd2 ?s2 ?a x = Some (cells s ?b, cells s (?b + 1))"
    using rd2_mapped [of ?s2 ?a "cur_slots s" x] m x by simp
  moreover have "DWCAS ?s2 ?a ?b (cells s ?b, cells s (?b + 1)) (x, wrap64 (cells s (?b + 1) + 1)) =
      Some (True, s\<lparr>cells := push_cells (cells s) x ?b\<rparr>)"
    using DWCAS_mapped [of ?s2 ?a 512 ?b] h b ne by (simp add: push_cells_def)
  ultimately show ?thesis
    using size by (simp add: free_data_slots_def free_data_loop.simps bucket_of_pow2)
qed

text \<open>The search looks at three buckets, from the exact size up.\<close>

definition first_bucket :: "(int \<Rightarrow> long) \<Rightarrow> nat \<Rightarrow> nat option" where
  "first_bucket c k = find (\<lambda>j. j < 50 \<and> c (bucket j) \<noteq> 0) [k, k + 1, k + 2]"

lemma find_first_fit_ok:
  assumes ok: "base_ok s" and k: "2 \<le> k" "k < 50"
  shows "find_first_fit s (2 ^ k) =
    Some (case first_bucket (cells s) k of None \<Rightarrow> 0 | Some j \<Rightarrow> bucket j)"
proof -
  have rd: "rd s (base_current s) (bucket j) = Some (cells s (bucket j))" if "2 \<le> j" "j < 50" for j
    using rd_mapped [OF base_ok_cur_header [OF ok]] bucket_range [OF that] by simp
  have "\<not> (2::int) ^ k < 4"
    using power_increasing [of 2 k "2::int"] k(1) by simp
  moreover have b: "MEM_BKT_START + 2 * (int j - 2) = bucket j" for j by (simp add: bucket_def)
  moreover have "MEM_BKT_START + 2 * (int k - 2 + 1) = bucket (k + 1)"
    "MEM_BKT_START + 2 * (int k - 2 + 1 + 1) = bucket (k + 2)" by (simp_all add: bucket_def)
  ultimately show ?thesis
    using k rd [of k] rd [of "k + 1"] rd [of "k + 2"]
    by (auto simp: find_first_fit_def ctzl_pow2 first_bucket_def numeral_3_eq_3 Let_def)
qed

lemma lookup_freed_loop_ok:
  assumes ok: "base_ok s" "calm s" and x: "node_ok (cells s SIZE) x" "cells s (bucket k) = x"
    and k: "2 \<le> k" "k \<le> 30"
  obtains s' where "lookup_freed_loop s (base_current s) (bucket k) = Some (x, s')"
    and "base_ok s'" and "calm s'" and "keeps s s'"
    and "cells s' = (pop_cells (cells s) x (bucket k))(x := 2 ^ k)"
proof -
  let ?b = "bucket k"
  have b: "even ?b" "14 \<le> ?b" "?b + 1 < 110" using bucket_range [OF k(1)] k(2) by auto
  have x0: "164 \<le> x" "x < cells s SIZE" using x(1) by (auto simp: node_ok_def)
  obtain s1 where s1: "insure_in_range s x = Some (\<lparr>v_status = SH_OK, v_slot = x, v_ext = base_current s1\<rparr>, s1)"
    "base_ok s1" "keeps s s1" "cells s1 = cells s" "x < cur_slots s1" "calm s1"
    using x0 by (elim insure_in_range_ok [OF ok, of x, rotated 2]) auto
  let ?a = "base_current s1"
  let ?s2 = "s1\<lparr>cells := pop_cells (cells s) x ?b\<rparr>"
  note m = base_ok_cur_mapped [OF s1(2)] and h = base_ok_cur_header [OF s1(2)] and h0 = base_ok_cur_header [OF ok(1)]
  have shl: "int_shl1 (nat ((?b - MEM_BKT_START) div 2 + 2)) = 2 ^ k"
  proof -
    have "(2::int) ^ k \<le> 2 ^ 30" using k(2) by (intro power_increasing) simp_all
    moreover have "- 2147483648 \<le> (2::int) ^ k" by (rule order_trans [of _ 0]) simp_all
    moreover have "nat ((?b - MEM_BKT_START) div 2 + 2) = k" using k by (simp add: bucket_def)
    ultimately show ?thesis using k(2) by (simp add: int_shl1_def signed_take_bit_int_eq_self)
  qed
  have "rd s (base_current s) ?b = Some x" "rd s (base_current s) (?b + 1) = Some (cells s (?b + 1))"
    using rd_mapped [OF h0] b x(2) by simp_all
  moreover have "rd s1 ?a x = Some (cells s x)" using rd_mapped [OF m] s1(4,5) x0 by simp
  moreover have "DWCAS s1 ?a ?b (x, cells s (?b + 1)) (cells s x, wrap64 (cells s (?b + 1) + 1)) = Some (True, ?s2)"
    using DWCAS_mapped [OF h, of ?b] b s1(4) x(2) by (simp add: pop_cells_def)
  moreover have "wr ?s2 ?a x (2 ^ k) = Some (s1\<lparr>cells := (pop_cells (cells s) x ?b)(x := 2 ^ k)\<rparr>)"
    using wr_mapped [of ?s2 ?a "cur_slots s1" x] m s1(5) x0 by simp
  ultimately have "lookup_freed_loop s (base_current s) ?b =
      Some (x, s1\<lparr>cells := (pop_cells (cells s) x ?b)(x := 2 ^ k)\<rparr>)"
    using s1(1) x0 shl by (simp add: lookup_freed_loop.simps)
  moreover have "keeps s (s1\<lparr>cells := (pop_cells (cells s) x ?b)(x := 2 ^ k)\<rparr>)"
    by (rule keeps_trans [OF s1(3) keeps_cells(1)])
  ultimately show thesis
    using s1 b x0 by (intro that [of "s1\<lparr>cells := (pop_cells (cells s) x ?b)(x := 2 ^ k)\<rparr>"])
      (simp_all add: pop_cells_def)
qed

definition zero_range :: "(int \<Rightarrow> long) \<Rightarrow> int \<Rightarrow> int \<Rightarrow> (int \<Rightarrow> long)" where
  "zero_range c i n = (\<lambda>j. if i \<le> j \<and> j < i + n then 0 else c j)"

text \<open>A block is taken from the first bucket that has one: it keeps the size of that bucket,
  and what was asked for of it is cleared.\<close>

definition reuse_cells :: "(int \<Rightarrow> long) \<Rightarrow> int \<Rightarrow> nat \<Rightarrow> nat \<Rightarrow> (int \<Rightarrow> long)" where
  "reuse_cells c x j k = zero_range ((pop_cells c x (bucket j))(x := 2 ^ j)) (x + 1) (2 ^ k - 1)"

lemma first_bucket_Some:
  "first_bucket c k = Some j \<Longrightarrow> k \<le> j \<and> j \<le> k + 2 \<and> j < 50 \<and> c (bucket j) \<noteq> 0"
  by (auto simp: first_bucket_def split: if_splits)

lemma first_bucket_None: "first_bucket c k = None \<Longrightarrow> k < 50 \<Longrightarrow> c (bucket k) = 0"
  by (auto simp: first_bucket_def split: if_splits)

lemma first_bucket_obj: "2 \<le> k \<Longrightarrow> first_bucket (obj s) k = first_bucket (cells s) k"
proof -
  assume k: "2 \<le> k"
  have "obj s (bucket j) = cells s (bucket j)" if "k \<le> j" for j
    using that k by (intro obj_eq) (auto simp: bucket_def)
  then show ?thesis by (simp add: first_bucket_def)
qed

lemma realloc_data_none:
  assumes "base_ok s" and "2 \<le> k" and "k < 50" and "first_bucket (cells s) k = None"
  shows "realloc_data_slots s (2 ^ k) = Some (\<lparr>v_status = SH_OK, v_slot = 0, v_ext = base_current s\<rparr>, s)"
  using find_first_fit_ok [OF assms(1-3)] assms(4) by (simp add: realloc_data_slots_def lookup_freed_data_def)

lemma realloc_data_some:
  assumes ok: "base_ok s" "calm s" and k: "2 \<le> k" and j: "first_bucket (cells s) k = Some j" "j \<le> 30"
    and x: "cells s (bucket j) = x" "node_ok (cells s SIZE) x" "x + 2 ^ (k + 1) + 1024 \<le> 2 ^ 44"
  obtains s' where "realloc_data_slots s (2 ^ k) =
      Some (\<lparr>v_status = SH_OK, v_slot = x, v_ext = base_current s'\<rparr>, s')"
    and "base_ok s'" and "calm s'" and "keeps s s'" and "cells s SIZE \<le> cells s' SIZE"
    and "x + 2 ^ k < cur_slots s'" and "obj s' = reuse_cells (obj s) x j k"
proof -
  note fb = first_bucket_Some [OF j(1)]
  have k50: "k < 50" and jk: "2 \<le> j" using fb k by auto
  have b: "14 \<le> bucket j" "bucket j + 1 < 110" using bucket_range [OF jk] fb by auto
  have x0: "164 \<le> x" using x(2) by (simp add: node_ok_def)
  obtain s1 where s1: "lookup_freed_loop s (base_current s) (bucket j) = Some (x, s1)"
    "base_ok s1" "calm s1" "keeps s s1" "cells s1 = (pop_cells (cells s) x (bucket j))(x := 2 ^ j)"
    by (rule lookup_freed_loop_ok [OF ok x(2,1) jk j(2)])
  have o1: "obj s1 = (pop_cells (obj s) x (bucket j))(x := 2 ^ j)"
    using b x0 by (auto simp: obj_def s1(5) pop_cells_def fun_eq_iff)
  have z1: "cells s1 SIZE = cells s SIZE" using b x0 by (simp add: s1(5) pop_cells_def)
  have "(2::int) ^ k \<le> 2 ^ 30" using fb j(2) by (intro power_increasing) simp_all
  moreover have "(1::int) < 2 ^ k" using k by (intro one_less_power) simp_all
  ultimately have k2: "(0::int) < 2 ^ k" "(1::int) < 2 ^ k" "(2::int) ^ k \<le> 2 ^ 30" by simp_all
  have pre: "no_eintr s1" "BASE \<le> x" "(2::int) ^ k \<le> 2 ^ 44" using s1(3) x0 k2 by simp_all
  obtain v s2 where f: "insure_fit s1 x (2 ^ k) = Some (v, s2)" "grown s1 s2"
    "v_status v = SH_OK \<Longrightarrow> v_ext v = base_current s2 \<and> v_slot v = x \<and> x + 2 ^ k < cur_slots s2"
    "v_status v \<noteq> SH_OK \<Longrightarrow> v_slot v = 0"
    "calm s1 \<Longrightarrow> x + 2 * 2 ^ k + 512 \<le> 2 ^ 44 \<Longrightarrow> v_status v = SH_OK \<and> calm s2"
    by (rule insure_fit_ok [OF s1(2) pre(1,2) k2(1) pre(3)]) blast
  have st: "v_status v = SH_OK" "calm s2" using f(5) s1(3) x(3) by auto
  note v = f(3) [OF st(1)] and g = grown_keeps [OF f(2)]
  have "clear_slots s2 (base_current s2) (x + 1) (2 ^ k - 1) =
      Some (s2\<lparr>cells := zero_range (cells s2) (x + 1) (2 ^ k - 1)\<rparr>)"
    using clear_slots_mapped [OF base_ok_cur_mapped, of s2 "x + 1" "2 ^ k - 1"] g v x0 k2
    by (simp add: zero_range_def)
  moreover have "v = \<lparr>v_status = SH_OK, v_slot = x, v_ext = base_current s2\<rparr>" using v st(1) by simp
  moreover have "find_first_fit s (2 ^ k) = Some (bucket j)"
    using find_first_fit_ok [OF ok(1) k k50] j(1) by simp
  ultimately have "realloc_data_slots s (2 ^ k) =
      Some (\<lparr>v_status = SH_OK, v_slot = x, v_ext = base_current s2\<rparr>,
        s2\<lparr>cells := zero_range (cells s2) (x + 1) (2 ^ k - 1)\<rparr>)"
    using s1(1) f(1) b x0 by (simp add: realloc_data_slots_def lookup_freed_data_def)
  moreover have "obj (s2\<lparr>cells := zero_range (cells s2) (x + 1) (2 ^ k - 1)\<rparr>) = reuse_cells (obj s) x j k"
  proof -
    have "obj (s2\<lparr>cells := zero_range (cells s2) (x + 1) (2 ^ k - 1)\<rparr>) = zero_range (obj s2) (x + 1) (2 ^ k - 1)"
      using x0 by (auto simp: obj_def zero_range_def fun_eq_iff)
    then show ?thesis using grown_obj [OF f(2)] o1 by (simp add: reuse_cells_def)
  qed
  moreover have "keeps s (s2\<lparr>cells := zero_range (cells s2) (x + 1) (2 ^ k - 1)\<rparr>)"
    using keeps_trans [OF keeps_trans [OF s1(4)] keeps_cells(1)] g by blast
  moreover have "base_ok (s2\<lparr>cells := zero_range (cells s2) (x + 1) (2 ^ k - 1)\<rparr>)"
    "calm (s2\<lparr>cells := zero_range (cells s2) (x + 1) (2 ^ k - 1)\<rparr>)"
    "cells s SIZE \<le> zero_range (cells s2) (x + 1) (2 ^ k - 1) SIZE"
    using g st(2) x0 z1 by (simp_all add: zero_range_def)
  ultimately show thesis
    using v by (intro that [of "s2\<lparr>cells := zero_range (cells s2) (x + 1) (2 ^ k - 1)\<rparr>"]) simp_all
qed

text \<open>The block \<open>alloc_data_slots\<close> returns for \<open>2 ^ k\<close> slots, and the object afterwards.\<close>

definition alloc_cells :: "(int \<Rightarrow> long) \<Rightarrow> nat \<Rightarrow> long \<times> (int \<Rightarrow> long)" where
  "alloc_cells c k =
    (case first_bucket c k of
       Some j \<Rightarrow> (c (bucket j), reuse_cells c (c (bucket j)) j k)
     | None \<Rightarrow> (c DATA_ALLOC, c(DATA_ALLOC := c DATA_ALLOC + 2 ^ k, c DATA_ALLOC := 2 ^ k)))"

text \<open>The tops of the stacks a request may be served from are sound.\<close>

definition tops_ok :: "qstate \<Rightarrow> nat \<Rightarrow> bool" where
  "tops_ok s k \<longleftrightarrow>
    (\<forall>j. k \<le> j \<and> j \<le> k + 2 \<and> j < 50 \<and> cells s (bucket j) \<noteq> 0 \<longrightarrow>
       j \<le> 30 \<and> node_ok (cells s DATA_ALLOC) (cells s (bucket j)) \<and>
       cells s (bucket j) + 2 ^ j \<le> cells s DATA_ALLOC)"

lemma alloc_data_ok:
  assumes ok: "base_ok s" "calm s" and k: "round_slots n = 2 ^ k" "2 \<le> k" "k \<le> 30"
    and room: "room s (2 ^ k)" "cells s DATA_ALLOC \<le> cells s SIZE" and tops: "tops_ok s k"
  obtains v s' where "alloc_data_slots s n = Some (v, s')" and "base_ok s'" and "calm s'" and "keeps s s'"
    and "v_status v = SH_OK" and "v_ext v = base_current s'" and "cells s SIZE \<le> cells s' SIZE"
    and "v_slot v + 2 ^ k < cur_slots s'" and "alloc_cells (obj s) k = (v_slot v, obj s')"
    and "BASE \<le> v_slot v"
proof -
  have od: "obj s DATA_ALLOC = cells s DATA_ALLOC" by (intro obj_eq) simp_all
  have "(2::int) ^ k \<le> 2 ^ 30" using k(3) by (intro power_increasing) simp_all
  then have k2: "(0::int) < 2 ^ k" "(2::int) ^ k \<le> 2 ^ 44" by simp_all
  have d: "BASE \<le> cells s DATA_ALLOC" "cells s DATA_ALLOC + 2 * 2 ^ k + 1024 \<le> 2 ^ 44"
    using room(1) by (simp_all add: room_def)
  show thesis
  proof (cases "first_bucket (cells s) k")
    case None
    have r: "realloc_data_slots s (2 ^ k) = Some (\<lparr>v_status = SH_OK, v_slot = 0, v_ext = base_current s\<rparr>, s)"
      using realloc_data_none [OF ok(1) k(2) _ None] k(3) by simp
    obtain v s' where a: "alloc_new_data s (2 ^ k) = Some (v, s')" "base_ok s'" "keeps s s'"
      "cells s SIZE \<le> cells s' SIZE"
      "v_status v = SH_OK \<Longrightarrow> v_slot v = cells s DATA_ALLOC \<and> v_ext v = base_current s' \<and>
        v_slot v + 2 ^ k < cur_slots s' \<and>
        obj s' = (obj s)(DATA_ALLOC := cells s DATA_ALLOC + 2 ^ k, cells s DATA_ALLOC := 2 ^ k)"
      "v_status v \<noteq> SH_OK \<Longrightarrow> v_slot v = 0 \<and> obj s' = obj s"
      "calm s \<Longrightarrow> cells s DATA_ALLOC + 2 * 2 ^ k + 512 \<le> 2 ^ 44 \<Longrightarrow> v_status v = SH_OK \<and> calm s'"
      by (rule alloc_new_data_ok [OF ok(1) quiet_no_eintr [OF calm_quiet [OF ok(2)]] d(1) k2]) blast
    have st: "v_status v = SH_OK" "calm s'" using a(7) ok(2) d(2) by auto
    have "alloc_data_slots s n = Some (v, s')" using r a(1) k(1) by (simp add: alloc_data_slots_def)
    moreover have "alloc_cells (obj s) k = (v_slot v, obj s')"
      using a(5) [OF st(1)] None first_bucket_obj [OF k(2)] od by (simp add: alloc_cells_def)
    ultimately show thesis using a st d(1) by (intro that [of v s']) auto
  next
    case (Some j)
    note fb = first_bucket_Some [OF Some]
    have x: "j \<le> 30" "node_ok (cells s DATA_ALLOC) (cells s (bucket j))"
      using tops fb unfolding tops_ok_def by blast+
    have b: "obj s (bucket j) = cells s (bucket j)"
      using fb k(2) by (intro obj_eq) (auto simp: bucket_def)
    have x2: "node_ok (cells s SIZE) (cells s (bucket j))"
      "cells s (bucket j) + 2 ^ (k + 1) + 1024 \<le> 2 ^ 44" "164 \<le> cells s (bucket j)"
      using x(2) room(2) d(2) by (auto simp: node_ok_def)
    obtain s' where a: "realloc_data_slots s (2 ^ k) =
        Some (\<lparr>v_status = SH_OK, v_slot = cells s (bucket j), v_ext = base_current s'\<rparr>, s')"
      "base_ok s'" "calm s'" "keeps s s'" "cells s SIZE \<le> cells s' SIZE"
      "cells s (bucket j) + 2 ^ k < cur_slots s'" "obj s' = reuse_cells (obj s) (cells s (bucket j)) j k"
      by (rule realloc_data_some [OF ok k(2) Some x(1) refl x2(1,2)])
    have "alloc_cells (obj s) k = (cells s (bucket j), obj s')"
      using a(7) Some first_bucket_obj [OF k(2)] b by (simp add: alloc_cells_def)
    with a x2(3) k(1) show thesis
      by (intro that [of "\<lparr>v_status = SH_OK, v_slot = cells s (bucket j), v_ext = base_current s'\<rparr>" s'])
        (simp_all add: alloc_data_slots_def)
  qed
qed

end
