(* ===== verification/Data.thy ===== *)
theory Data
  imports Alloc
begin

text \<open>
  Values inside the object (\<open>src/shared_q.c\<close>). A queued value is a block: a header of
  seven slots (block size, time stamp, identifier, type, vector count, length) and the bytes
  of the value, or for a vector, each element's type, length and bytes, padded to a slot.
  \<open>copy_value\<close> and \<open>copy_vector\<close> write a block, \<open>copy_to_buffer\<close> reads one back into
  the caller's memory. The main theorems are the two round trips.
\<close>

section \<open>Memory\<close>

text \<open>\<open>memcpy\<close> of \<open>bs\<close> to \<open>&array[i]\<close>: the slots it covers, the last one possibly in part.\<close>

definition slots_of :: "int \<Rightarrow> int" where
  "slots_of n = (n + 7) div 8"

definition overlay :: "byte list \<Rightarrow> byte list \<Rightarrow> byte list" where
  "overlay old new = new @ drop (length new) old"

definition put_bytes :: "(int \<Rightarrow> long) \<Rightarrow> int \<Rightarrow> byte list \<Rightarrow> int \<Rightarrow> long" where
  "put_bytes c i bs =
    (\<lambda>j. if i \<le> j \<and> j < i + slots_of (int (length bs))
         then bytes_slot (overlay (slot_bytes (c j)) (take 8 (drop (nat (8 * (j - i))) bs)))
         else c j)"

definition store_bytes :: "qstate \<Rightarrow> extent_ref \<Rightarrow> int \<Rightarrow> byte list \<Rightarrow> qstate option" where
  "store_bytes s a i bs =
    (if bs = [] then Some s
     else if 0 \<le> i \<and> mapped s a (i + slots_of (int (length bs)))
     then Some (s\<lparr>cells := put_bytes (cells s) i bs\<rparr>)
     else None)"

definition get_bytes :: "(int \<Rightarrow> long) \<Rightarrow> int \<Rightarrow> nat \<Rightarrow> byte list" where
  "get_bytes c i n =
    take n (concat (map (\<lambda>k. slot_bytes (c (i + int k))) [0..<nat (slots_of (int n))]))"

definition load_bytes :: "qstate \<Rightarrow> extent_ref \<Rightarrow> int \<Rightarrow> int \<Rightarrow> byte list option" where
  "load_bytes s a i n =
    (if n \<le> 0 then Some []
     else if 0 \<le> i \<and> mapped s a (i + slots_of n) then Some (get_bytes (cells s) i (nat n)) else None)"

text \<open>The caller's bytes: a pointer is the list of the bytes that may be read there.\<close>

definition read_user :: "byte list \<Rightarrow> int \<Rightarrow> byte list option" where
  "read_user bs n = (if int (length bs) < n then None else Some (take (nat n) bs))"

section \<open>Writing a value\<close>

abbreviation (input) SH_VECTOR_T :: int where "SH_VECTOR_T \<equiv> 0"
abbreviation (input) SH_STRM_T :: int where "SH_STRM_T \<equiv> 1"
abbreviation (input) SIZEOF_VEC :: int where "SIZEOF_VEC \<equiv> 24"

definition calc_data_slots :: "long \<Rightarrow> long" where
  "calc_data_slots len =
    DATA_HDR + len div 2 ^ SZ_SHIFT + (if len AND REM \<noteq> 0 then 1 else 0)"

definition write_data_header ::
  "qstate \<Rightarrow> extent_ref \<Rightarrow> long \<Rightarrow> timespec \<Rightarrow> int \<Rightarrow> long \<Rightarrow> long \<Rightarrow> qstate option" where
  "write_data_header s a current curr_time type vec_cnt len = do {
     s \<leftarrow> wr s a (current + TM_SEC) (tv_sec curr_time);
     s \<leftarrow> wr s a (current + TM_NSEC) (tv_nsec curr_time);
     (uid, s) \<leftarrow> AFA s a ID_CNTR 1;
     s \<leftarrow> wr s a (current + UID) uid;
     s \<leftarrow> wr s a (current + DATA_TYPE) type;
     s \<leftarrow> wr s a (current + VEC_CNT) vec_cnt;
     wr s a (current + DATA_LENGTH) len }"

definition copy_value ::
  "qstate \<Rightarrow> byte list option \<Rightarrow> long \<Rightarrow> int \<Rightarrow> (long \<times> qstate) option" where
  "copy_value s val len type =
    (case val of
       None \<Rightarrow> Some (0, s)
     | Some bytes \<Rightarrow>
         if len \<le> 0 then Some (0, s)
         else case clock_gettime s of (curr_time, s) \<Rightarrow> do {
           let space = calc_data_slots len;
           s \<leftarrow> update_buffer_size s (base_current s) space SIZEOF_VEC;
           (view, s) \<leftarrow> alloc_data_slots s space;
           let current = v_slot view;
           if current \<ge> HDR_END then do {
             s \<leftarrow> write_data_header s (v_ext view) current curr_time type 1 len;
             src \<leftarrow> read_user bytes len;
             s \<leftarrow> store_bytes s (v_ext view) (current + DATA_HDR) src;
             Some (current, s) }
           else Some (current, s) })"

section \<open>Writing a vector\<close>

text \<open>\<open>sq_vec_s\<close> as the caller passes it; \<open>sh_type_e\<close> is unsigned.\<close>

record vec =
  vec_type :: int
  vec_len :: int
  vec_base :: "byte list option"

text \<open>\<open>vector[i]\<close> for \<open>i < vcnt\<close>: the caller must provide that many.\<close>

definition vec_array :: "vec list \<Rightarrow> int \<Rightarrow> vec list option" where
  "vec_array vs vcnt = (if int (length vs) < vcnt then None else Some (take (nat vcnt) vs))"

fun calc_vector_loop :: "vec list \<Rightarrow> long \<Rightarrow> long" where
  "calc_vector_loop [] space = space"
| "calc_vector_loop (v # vs) space =
    calc_vector_loop vs
      (space + 2 + vec_len v div 2 ^ SZ_SHIFT + (if vec_len v AND REM \<noteq> 0 then 2 else 0))"

definition calc_vector_slots :: "vec list \<Rightarrow> long" where
  "calc_vector_slots vs = calc_vector_loop vs DATA_HDR"

text \<open>The copying loop; \<open>False\<close> when it meets an invalid element.\<close>

fun copy_vector_loop :: "qstate \<Rightarrow> extent_ref \<Rightarrow> vec list \<Rightarrow> long \<Rightarrow> (bool \<times> qstate) option" where
  "copy_vector_loop s a [] slot = Some (True, s)"
| "copy_vector_loop s a (v # vs) slot =
    (case vec_base v of
       None \<Rightarrow> Some (False, s)
     | Some bytes \<Rightarrow>
         if vec_type v \<le> 0 \<or> vec_len v \<le> 0 then Some (False, s)
         else do {
           s \<leftarrow> wr s a slot (vec_type v);
           s \<leftarrow> wr s a (slot + 1) (vec_len v);
           src \<leftarrow> read_user bytes (vec_len v);
           s \<leftarrow> store_bytes s a (slot + 2) src;
           copy_vector_loop s a vs
             (slot + 2 + vec_len v div 2 ^ SZ_SHIFT + (if vec_len v AND REM \<noteq> 0 then 1 else 0)) })"

definition copy_vector :: "qstate \<Rightarrow> vec list option \<Rightarrow> int \<Rightarrow> (long \<times> qstate) option" where
  "copy_vector s vector vcnt =
    (case vector of
       None \<Rightarrow> Some (- 1, s)
     | Some vs \<Rightarrow>
         if vcnt < 2 then Some (- 1, s)
         else case clock_gettime s of (curr_time, s) \<Rightarrow> do {
           vs \<leftarrow> vec_array vs vcnt;
           let space = calc_vector_slots vs;
           s \<leftarrow> update_buffer_size s (base_current s) space (vcnt * SIZEOF_VEC);
           (view, s) \<leftarrow> alloc_data_slots s space;
           let current = v_slot view;
           if current \<ge> HDR_END then do {
             s \<leftarrow> write_data_header s (v_ext view) current curr_time SH_VECTOR_T vcnt
                    (wrap64 ((space - DATA_HDR) * 8));
             (ok, s) \<leftarrow> copy_vector_loop s (v_ext view) vs (current + DATA_HDR);
             Some (if ok then current else - 1, s) }
           else Some (current, s) })"

section \<open>Reading a block back\<close>

text \<open>The caller's buffer: \<open>*buffer\<close>, the memory behind it, and \<open>*buff_size\<close>. Memory
  \<open>malloc\<close> returns has some contents, which nothing reads before it is written; they are
  zeros here. The item points into the buffer: pointers are offsets. The vector array, which
  the code lays out behind the data, is a list of its own.\<close>

record ubuf =
  ub_mem :: "byte list option"
  ub_size :: int

record ivec =
  iv_type :: int
  iv_len :: int
  iv_base :: int

record sq_item =
  i_status :: sh_status
  i_type :: int
  i_length :: int
  i_value :: "int option"
  i_timestamp :: "int option"
  i_buffer :: "int option"
  i_buf_size :: int
  i_vcount :: int
  i_vector :: "ivec list"

definition empty_item :: "sh_status \<Rightarrow> sq_item" where
  "empty_item st = \<lparr>i_status = st, i_type = 0, i_length = 0, i_value = None, i_timestamp = None,
     i_buffer = None, i_buf_size = 0, i_vcount = 0, i_vector = []\<rparr>"

definition resize_buffer :: "qstate \<Rightarrow> long \<Rightarrow> ubuf \<Rightarrow> long \<Rightarrow> sh_status \<times> ubuf \<times> qstate" where
  "resize_buffer s vec_cnt b sz =
    (let total = sz + vec_cnt * SIZEOF_VEC;
         b = (if ub_mem b \<noteq> None \<and> ub_size b < total then \<lparr>ub_mem = None, ub_size = 0\<rparr> else b)
     in if ub_mem b = None then
          (case os_call s of
             (Some _, s) \<Rightarrow> (SH_ERR_NOMEM, \<lparr>ub_mem = None, ub_size = 0\<rparr>, s)
           | (None, s) \<Rightarrow> (SH_OK, \<lparr>ub_mem = Some (replicate (nat total) 0), ub_size = total\<rparr>, s))
        else (SH_OK, b, s))"

text \<open>\<open>*(long*) current\<close> in the buffer.\<close>

definition read_long :: "byte list \<Rightarrow> int \<Rightarrow> long option" where
  "read_long m off =
    (if 0 \<le> off \<and> off + 8 \<le> int (length m) then Some (bytes_slot (take 8 (drop (nat off) m))) else None)"

text \<open>Conversions to \<open>size_t\<close> and to the unsigned enumeration; what one element occupies.\<close>

definition to_size :: "long \<Rightarrow> int" where
  "to_size x = x mod 2 ^ 64"

definition to_enum :: "long \<Rightarrow> int" where
  "to_enum x = x mod 2 ^ 32"

definition vec_advance :: "int \<Rightarrow> int" where
  "vec_advance len =
    (if len \<le> SIZEOF_LONG then 8
     else len div 2 ^ SZ_SHIFT * 2 ^ SZ_SHIFT + (if len AND REM \<noteq> 0 then 8 else 0))"

fun initialize_item_vector :: "byte list \<Rightarrow> nat \<Rightarrow> int \<Rightarrow> ivec list option" where
  "initialize_item_vector m 0 current = Some []"
| "initialize_item_vector m (Suc n) current = do {
     type \<leftarrow> read_long m current;
     len \<leftarrow> read_long m (current + 8);
     rest \<leftarrow> initialize_item_vector m n (current + 16 + vec_advance (to_size len));
     Some (\<lparr>iv_type = to_enum type, iv_len = to_size len, iv_base = current + 16\<rparr> # rest) }"

definition copy_to_buffer ::
  "qstate \<Rightarrow> extent_ref \<Rightarrow> long \<Rightarrow> sq_item \<Rightarrow> ubuf \<Rightarrow> (sq_item \<times> ubuf \<times> qstate) option" where
  "copy_to_buffer s a data_slot item b = do {
     slots \<leftarrow> rd s a (data_slot + DATA_SLOTS);
     vcnt \<leftarrow> rd s a (data_slot + VEC_CNT);
     let sz = wrap64 (slots * 8) - SIZEOF_LONG;
     case resize_buffer s vcnt b sz of (status, b, s) \<Rightarrow>
       if status \<noteq> SH_OK then Some (item\<lparr>i_status := SH_ERR_NOMEM\<rparr>, b, s)
       else do {
         old \<leftarrow> ub_mem b;
         new \<leftarrow> load_bytes s a (data_slot + 1) sz;
         if length old < length new then None
         else do {
           let m = overlay old new;
           let b = b\<lparr>ub_mem := Some m\<rparr>;
           type \<leftarrow> rd s a (data_slot + DATA_TYPE);
           len \<leftarrow> rd s a (data_slot + DATA_LENGTH);
           let value = (DATA_HDR - 1) * SIZEOF_LONG;
           let vcount = signed_take_bit 31 vcnt;
           let item = item\<lparr>i_buffer := Some 0, i_buf_size := sz, i_type := to_enum type,
                           i_length := to_size len, i_timestamp := Some 0,
                           i_value := Some value, i_vcount := vcount\<rparr>;
           if int (length m) < sz + vcount * SIZEOF_VEC then None
           else if vcount = 1 then
             Some (item\<lparr>i_vector := [\<lparr>iv_type = to_enum type, iv_len = to_size len,
                                     iv_base = value\<rparr>]\<rparr>, b, s)
           else do {
             vs \<leftarrow> initialize_item_vector m (nat vcount) value;
             Some (item\<lparr>i_vector := vs\<rparr>, b, s) } } } }"

section \<open>Bytes and slots\<close>

lemma slots_of_bounds: "n \<le> 8 * slots_of n" "8 * slots_of n < n + 8"
  unfolding slots_of_def by presburger+

lemma slots_of_pos: "0 < n \<Longrightarrow> 0 < slots_of n"
  using slots_of_bounds(1) [of n] by simp

lemma slots_of_slots [simp]: "slots_of (8 * n) = n"
  unfolding slots_of_def by presburger

lemma length_concat8: "(\<And>j. length (f j) = 8) \<Longrightarrow> length (concat (map f [0..<m])) = 8 * m"
  by (induction m) auto

lemma nth_concat8:
  assumes "\<And>j. length (f j) = 8" and "k < 8 * m"
  shows "concat (map f [0..<m]) ! k = f (k div 8) ! (k mod 8)"
  using assms(2)
proof (induction m)
  case (Suc m)
  show ?case
  proof (cases "k < 8 * m")
    case True
    with Suc.IH length_concat8 [of f m, OF assms(1)] show ?thesis by (simp add: nth_append)
  next
    case False
    then have m: "k div 8 = m" using Suc.prems by (intro div_nat_eqI) simp_all
    have "k mod 8 = k - 8 * (k div 8)" by (simp add: minus_mult_div_eq_mod)
    note m this [unfolded m]
    with False length_concat8 [of f m, OF assms(1)] show ?thesis by (simp add: nth_append)
  qed
qed simp

lemma length_get_bytes [simp]: "length (get_bytes c i n) = n"
proof -
  have "n \<le> 8 * nat (slots_of (int n))" using slots_of_bounds(1) [of "int n"] by linarith
  then show ?thesis by (simp add: get_bytes_def length_concat8 del: length_concat)
qed

lemma nth_get_bytes:
  assumes "k < n"
  shows "get_bytes c i n ! k = slot_bytes (c (i + int (k div 8))) ! (k mod 8)"
proof -
  have "k < 8 * nat (slots_of (int n))" using slots_of_bounds(1) [of "int n"] assms by linarith
  with assms show ?thesis by (simp add: get_bytes_def nth_concat8)
qed

lemma get_bytes_cong:
  assumes "\<And>j. i \<le> j \<Longrightarrow> j < i + slots_of (int n) \<Longrightarrow> c' j = c j"
  shows "get_bytes c' i n = get_bytes c i n"
proof (rule nth_equalityI)
  fix k assume "k < length (get_bytes c' i n)"
  then have k: "k < n" by simp
  have "8 * int (k div 8) \<le> int k" by simp
  then have "int (k div 8) < slots_of (int n)" using slots_of_bounds(1) [of "int n"] k by simp
  then have "c' (i + int (k div 8)) = c (i + int (k div 8))" by (intro assms) simp_all
  with k show "get_bytes c' i n ! k = get_bytes c i n ! k" by (simp add: nth_get_bytes)
qed simp

lemma take_get_bytes: "m \<le> n \<Longrightarrow> take m (get_bytes c i n) = get_bytes c i m"
  by (rule nth_equalityI) (simp_all add: nth_get_bytes)

lemma drop_get_bytes: "drop (8 * k) (get_bytes c i n) = get_bytes c (i + int k) (n - 8 * k)"
proof (rule nth_equalityI)
  fix j assume "j < length (drop (8 * k) (get_bytes c i n))"
  then show "drop (8 * k) (get_bytes c i n) ! j = get_bytes c (i + int k) (n - 8 * k) ! j"
    by (simp add: nth_get_bytes add.assoc)
qed simp

lemma put_bytes_other:
  "j < i \<or> i + slots_of (int (length bs)) \<le> j \<Longrightarrow> put_bytes c i bs j = c j"
  by (auto simp: put_bytes_def)

lemma nth_put_bytes:
  assumes "k < length bs"
  shows "slot_bytes (put_bytes c i bs (i + int (k div 8))) ! (k mod 8) = bs ! k"
proof -
  let ?new = "take 8 (drop (8 * (k div 8)) bs)"
  have "8 * int (k div 8) \<le> int k" by simp
  then have "int (k div 8) < slots_of (int (length bs))"
    using slots_of_bounds(1) [of "int (length bs)"] assms by simp
  then have put: "put_bytes c i bs (i + int (k div 8)) = bytes_slot (overlay (slot_bytes (c (i + int (k div 8)))) ?new)"
    by (simp add: put_bytes_def nat_mult_distrib)
  have "k - 8 * (k div 8) < length bs - 8 * (k div 8)" by (rule diff_less_mono [OF assms]) simp
  then have "k mod 8 < length ?new" by (simp add: minus_mult_div_eq_mod)
  moreover have "length (overlay (slot_bytes (c (i + int (k div 8)))) ?new) = 8" by (simp add: overlay_def)
  ultimately show ?thesis
    by (simp add: put overlay_def nth_append)
qed

text \<open>What \<open>memcpy\<close> writes can be read back.\<close>

lemma get_put_bytes [simp]: "get_bytes (put_bytes c i bs) i (length bs) = bs"
  by (rule nth_equalityI) (simp_all add: nth_get_bytes nth_put_bytes)

lemma le_value_slot_bytes: "le_value (map (le_byte v) [0..<n]) = v mod 256 ^ n"
proof (induction n arbitrary: v)
  case (Suc n)
  have "map (le_byte v) [0..<Suc n] = le_byte v 0 # map (le_byte (v div 256)) [0..<n]"
    unfolding upt_conv_Cons [OF zero_less_Suc] map_Suc_upt [symmetric] by (simp add: le_byte_Suc)
  then have "le_value (map (le_byte v) [0..<Suc n]) = v mod 256 + 256 * (v div 256 mod 256 ^ n)"
    by (simp add: Suc.IH le_byte_0 uint_word_of_int)
  also have "\<dots> = v mod 256 ^ Suc n" by (simp add: mod_mult2_eq zmod_zmult2_eq)
  finally show ?case .
qed simp

lemma bytes_slot_slot_bytes [simp]: "bytes_slot (slot_bytes v) = wrap64 v"
proof -
  have "le_value (slot_bytes v) = v mod 2 ^ 64" unfolding slot_bytes_def le_value_slot_bytes by simp
  then have "take_bit 64 (le_value (slot_bytes v)) = take_bit 64 v" by (simp add: take_bit_eq_mod)
  then have "signed_take_bit 63 (le_value (slot_bytes v)) = signed_take_bit 63 v"
    by (simp add: signed_take_bit_eq_iff_take_bit_eq)
  then show ?thesis by (simp add: bytes_slot_def wrap64_def)
qed

lemma and_REM: "(n :: int) AND REM = n mod 8"
proof -
  have "take_bit 3 n = n AND 7" by (simp add: take_bit_eq_mask mask_eq_exp_minus_1)
  then show ?thesis by (simp add: take_bit_eq_mod)
qed

lemma slots_of_step: "n div 2 ^ SZ_SHIFT + (if n AND REM \<noteq> 0 then 1 else 0) = slots_of n"
proof -
  let ?r = "n mod 8"
  have "n + 7 = 8 * (n div 8) + (?r + 7)" by simp
  then have "(n + 7) div 8 = n div 8 + (?r + 7) div 8" by (metis div_mult_self4 zero_neq_numeral)
  moreover have "(?r + 7) div 8 = (if ?r \<noteq> 0 then 1 else 0)"
  proof (cases "?r = 0")
    case False
    have "0 \<le> ?r" "?r < 8" by simp_all
    with False have "?r + 7 = 8 * 1 + (?r - 1)" "0 \<le> ?r - 1" "?r - 1 < 8" by simp_all
    then have "(?r + 7) div 8 = 1" by (rule int_div_pos_eq)
    with False show ?thesis by simp
  qed simp
  ultimately show ?thesis unfolding and_REM slots_of_def by simp
qed

lemma calc_data_slots_eq: "calc_data_slots n = 7 + slots_of n"
  using slots_of_step [of n] by (simp add: calc_data_slots_def)

section \<open>What a block holds\<close>

datatype payload = Value int "byte list" | Vector "(int \<times> byte list) list"

fun vec_area :: "(int \<Rightarrow> long) \<Rightarrow> int \<Rightarrow> (int \<times> byte list) list \<Rightarrow> bool" where
  "vec_area c i [] \<longleftrightarrow> True"
| "vec_area c i ((t, bs) # es) \<longleftrightarrow>
     c i = t \<and> c (i + 1) = int (length bs) \<and> get_bytes c (i + 2) (length bs) = bs \<and>
     vec_area c (i + 2 + slots_of (int (length bs))) es"

fun area_slots :: "payload \<Rightarrow> int" where
  "area_slots (Value t bs) = slots_of (int (length bs))"
| "area_slots (Vector es) = sum_list (map (\<lambda>(t, bs). 2 + slots_of (int (length bs))) es)"

fun holds_payload :: "(int \<Rightarrow> long) \<Rightarrow> int \<Rightarrow> payload \<Rightarrow> bool" where
  "holds_payload c x (Value t bs) \<longleftrightarrow>
     c (x + 4) = t \<and> c (x + 5) = 1 \<and> c (x + 6) = int (length bs) \<and> get_bytes c (x + 7) (length bs) = bs"
| "holds_payload c x (Vector es) \<longleftrightarrow>
     c (x + 4) = SH_VECTOR_T \<and> c (x + 5) = int (length es) \<and> vec_area c (x + 7) es"

text \<open>A block of \<open>2 ^ k\<close> slots at \<open>x\<close> with its time stamp and payload.\<close>

definition holds :: "(int \<Rightarrow> long) \<Rightarrow> int \<Rightarrow> nat \<Rightarrow> timespec \<Rightarrow> payload \<Rightarrow> bool" where
  "holds c x k ts p \<longleftrightarrow>
     c x = 2 ^ k \<and> c (x + 1) = tv_sec ts \<and> c (x + 2) = tv_nsec ts \<and> holds_payload c x p"

text \<open>The payloads the interface accepts.\<close>

fun payload_ok :: "payload \<Rightarrow> bool" where
  "payload_ok (Value t bs) \<longleftrightarrow> 0 \<le> t \<and> t < 2 ^ 32 \<and> bs \<noteq> [] \<and> int (length bs) < 2 ^ 40"
| "payload_ok (Vector es) \<longleftrightarrow>
     2 \<le> length es \<and> length es < 2 ^ 31 \<and>
     (\<forall>(t, bs)\<in>set es. 0 < t \<and> t < 2 ^ 32 \<and> bs \<noteq> [] \<and> int (length bs) < 2 ^ 40)"

lemma slots_of_nonneg: "0 \<le> slots_of (int n)"
  by (simp add: slots_of_def)

lemma area_slots_nonneg: "0 \<le> area_slots p"
  by (cases p) (auto intro!: sum_list_nonneg add_nonneg_nonneg slots_of_nonneg split: prod.splits)

lemma vec_area_cong:
  assumes "\<And>j. i \<le> j \<Longrightarrow> j < i + area_slots (Vector es) \<Longrightarrow> c' j = c j"
  shows "vec_area c' i es = vec_area c i es"
  using assms
proof (induction es arbitrary: i)
  case (Cons e es)
  obtain t bs where e: "e = (t, bs)" by (cases e)
  let ?n = "slots_of (int (length bs))"
  have rest: "0 \<le> area_slots (Vector es)" by (rule area_slots_nonneg)
  have tot: "area_slots (Vector (e # es)) = 2 + ?n + area_slots (Vector es)" by (simp add: e)
  have "vec_area c' (i + 2 + ?n) es = vec_area c (i + 2 + ?n) es"
    by (rule Cons.IH, rule Cons.prems) (use rest tot slots_of_nonneg [of "length bs"] in linarith)+
  moreover have "get_bytes c' (i + 2) (length bs) = get_bytes c (i + 2) (length bs)"
    by (rule get_bytes_cong, rule Cons.prems) (use rest tot in linarith)+
  moreover have "c' i = c i"
    by (rule Cons.prems) (use rest tot slots_of_nonneg [of "length bs"] in linarith)+
  moreover have "c' (i + 1) = c (i + 1)"
    by (rule Cons.prems) (use rest tot slots_of_nonneg [of "length bs"] in linarith)+
  ultimately show ?case by (simp add: e)
qed simp

lemma holds_cong:
  assumes "\<And>j. x \<le> j \<Longrightarrow> j < x + 7 + area_slots p \<Longrightarrow> c' j = c j"
  shows "holds c' x k ts p = holds c x k ts p"
proof -
  note nn = area_slots_nonneg [of p]
  have hdr: "c' x = c x" "c' (x + 1) = c (x + 1)" "c' (x + 2) = c (x + 2)" "c' (x + 4) = c (x + 4)"
    "c' (x + 5) = c (x + 5)" "c' (x + 6) = c (x + 6)"
    using nn by (auto intro!: assms)
  have "holds_payload c' x p = holds_payload c x p"
  proof (cases p)
    case (Value t bs)
    have "get_bytes c' (x + 7) (length bs) = get_bytes c (x + 7) (length bs)"
      by (rule get_bytes_cong, rule assms) (use Value in auto)
    with hdr Value show ?thesis by simp
  next
    case (Vector es)
    have "vec_area c' (x + 7) es = vec_area c (x + 7) es"
      by (rule vec_area_cong, rule assms) (use Vector in auto)
    with hdr Vector show ?thesis by simp
  qed
  with hdr show ?thesis by (simp add: holds_def)
qed

section \<open>Writing a block\<close>

definition header_cells ::
  "(int \<Rightarrow> long) \<Rightarrow> int \<Rightarrow> timespec \<Rightarrow> int \<Rightarrow> long \<Rightarrow> long \<Rightarrow> (int \<Rightarrow> long)" where
  "header_cells c x ts type vcnt len =
    c(x + 1 := tv_sec ts, x + 2 := tv_nsec ts, ID_CNTR := wrap64 (c ID_CNTR + 1),
      x + 3 := c ID_CNTR, x + 4 := type, x + 5 := vcnt, x + 6 := len)"

lemma write_data_header_ok:
  assumes m: "mapped s a n" and x: "HDR_END \<le> x" "x + 7 \<le> n"
  shows "write_data_header s a x ts type vcnt len = Some (s\<lparr>cells := header_cells (cells s) x ts type vcnt len\<rparr>)"
proof -
  have "rd (s\<lparr>cells := c\<rparr>) a i = Some (c i)" if "0 \<le> i" "i < n" for c i
    using rd_mapped [of "s\<lparr>cells := c\<rparr>" a n] m that by simp
  moreover have "wr (s\<lparr>cells := c\<rparr>) a i v = Some (s\<lparr>cells := c(i := v)\<rparr>)" if "0 \<le> i" "i < n" for c i v
    using wr_mapped [of "s\<lparr>cells := c\<rparr>" a n] m that by simp
  moreover have "x + 1 \<noteq> ID_CNTR" "x + 2 \<noteq> ID_CNTR" using x by auto
  ultimately show ?thesis
    using x wr_mapped [OF m, of "x + 1"]
    by (simp add: write_data_header_def AFA_def header_cells_def)
qed

lemma store_bytes_ok:
  assumes "mapped s a n" and "0 \<le> i" and "i + slots_of (int (length bs)) \<le> n" and "bs \<noteq> []"
  shows "store_bytes s a i bs = Some (s\<lparr>cells := put_bytes (cells s) i bs\<rparr>)"
  using assms mapped_mono by (auto simp: store_bytes_def)

lemma header_cells_other:
  "j \<noteq> ID_CNTR \<Longrightarrow> j \<le> x \<or> x + 7 \<le> j \<Longrightarrow> header_cells c x ts type vcnt len j = c j"
  by (auto simp: header_cells_def)

lemma header_cells_fields:
  "HDR_END \<le> x \<Longrightarrow> header_cells c x ts type vcnt len (x + 1) = tv_sec ts"
  "HDR_END \<le> x \<Longrightarrow> header_cells c x ts type vcnt len (x + 2) = tv_nsec ts"
  "HDR_END \<le> x \<Longrightarrow> header_cells c x ts type vcnt len (x + 4) = type"
  "HDR_END \<le> x \<Longrightarrow> header_cells c x ts type vcnt len (x + 5) = vcnt"
  "HDR_END \<le> x \<Longrightarrow> header_cells c x ts type vcnt len (x + 6) = len"
  by (auto simp: header_cells_def)

definition value_cells :: "(int \<Rightarrow> long) \<Rightarrow> int \<Rightarrow> timespec \<Rightarrow> int \<Rightarrow> byte list \<Rightarrow> (int \<Rightarrow> long)" where
  "value_cells c x ts type bs =
    put_bytes (header_cells c x ts type 1 (int (length bs))) (x + 7) bs"

lemma value_cells_holds:
  assumes "HDR_END \<le> x" and "c x = 2 ^ k"
  shows "holds (value_cells c x ts type bs) x k ts (Value type bs)"
  using assms header_cells_fields [OF assms(1)]
  by (simp add: holds_def value_cells_def put_bytes_other header_cells_other)

lemma value_cells_other:
  assumes "j \<noteq> ID_CNTR" and "j \<le> x \<or> x + 7 + slots_of (int (length bs)) \<le> j"
  shows "value_cells c x ts type bs j = c j"
proof -
  have "j \<le> x \<or> x + 7 \<le> j" using assms(2) slots_of_nonneg [of "length bs"] by linarith
  with assms show ?thesis by (auto simp: value_cells_def put_bytes_other header_cells_other)
qed

lemma obj_upd_cells: "c' SIZE = 0 \<Longrightarrow> c' EXPAND_SIZE = 0 \<Longrightarrow>
  (\<And>j. j \<noteq> SIZE \<Longrightarrow> j \<noteq> EXPAND_SIZE \<Longrightarrow> c j = c' j) \<Longrightarrow> obj (s\<lparr>cells := c\<rparr>) = c'"
  by (auto simp: obj_def fun_eq_iff)

lemma put_bytes_cong: "(\<And>j. i \<le> j \<Longrightarrow> j < i + slots_of (int (length bs)) \<Longrightarrow> c j = c' j) \<Longrightarrow> c j = c' j \<Longrightarrow>
  put_bytes c i bs j = put_bytes c' i bs j"
  by (simp add: put_bytes_def)

text \<open>The buffer-size watermark is the only header word \<open>copy_value\<close> itself sets.\<close>

definition buffer_cells :: "(int \<Rightarrow> long) \<Rightarrow> long \<Rightarrow> long \<Rightarrow> (int \<Rightarrow> long)" where
  "buffer_cells c space vec_sz = c(BUFFER := max (c BUFFER) (wrap64 (wrap64 (space * 8) + vec_sz)))"

lemma tops_ok_cong:
  "tops_ok s k \<Longrightarrow> (\<And>i. i < 110 \<Longrightarrow> i \<noteq> BUFFER \<Longrightarrow> cells s' i = cells s i) \<Longrightarrow> k + 2 < 50 \<Longrightarrow> tops_ok s' k"
proof -
  assume t: "tops_ok s k" and c: "\<And>i. i < 110 \<Longrightarrow> i \<noteq> BUFFER \<Longrightarrow> cells s' i = cells s i" and k: "k + 2 < 50"
  have "cells s' (bucket j) = cells s (bucket j)" if "j \<le> k + 2" for j
  proof (rule c)
    show "bucket j < 110" using that k by (simp add: bucket_def)
    show "bucket j \<noteq> BUFFER" unfolding bucket_def by presburger
  qed
  then show ?thesis using t c [of DATA_ALLOC] by (auto simp: tops_ok_def)
qed

text \<open>What \<open>copy_value\<close> and \<open>copy_vector\<close> do first: watermark and block. \<open>can_alloc\<close> are the
  conditions under which the block is there; it may be larger than asked for.\<close>

definition can_alloc :: "qstate \<Rightarrow> nat \<Rightarrow> bool" where
  "can_alloc s k \<longleftrightarrow> base_ok s \<and> calm s \<and> 2 \<le> k \<and> k \<le> 30 \<and> room s (2 ^ k) \<and>
     HDR_END \<le> cells s DATA_ALLOC \<and> cells s DATA_ALLOC \<le> cells s SIZE \<and> tops_ok s k"

definition alloc_exp :: "(int \<Rightarrow> long) \<Rightarrow> nat \<Rightarrow> nat" where
  "alloc_exp c k = (case first_bucket c k of Some j \<Rightarrow> j | None \<Rightarrow> k)"

definition tick :: "qstate \<Rightarrow> qstate" where
  "tick s = s\<lparr>clock_n := Suc (clock_n s)\<rparr>"

definition now :: "qstate \<Rightarrow> timespec" where
  "now s = clock s (clock_n s)"

lemma clock_gettime_eq [exec]: "clock_gettime s = (now s, tick s)"
  by (simp add: clock_gettime_def now_def tick_def)

lemma tick_simps [simp]:
  "base_ok (tick s) = base_ok s" "calm (tick s) = calm s" "obj (tick s) = obj s" "cells (tick s) = cells s"
  "base_current (tick s) = base_current s" "cur_slots (tick s) = cur_slots s" "mapped (tick s) a n = mapped s a n"
  "sems (tick s) = sems s" "extents (tick s) = extents s" "osr (tick s) = osr s"
  "accessors (tick s) = accessors s" "mode (tick s) = mode s"
  by (simp_all add: tick_def)

lemma bucket_neq_BUFFER [simp]: "bucket j \<noteq> BUFFER" "bucket j \<noteq> BUFFER + 1"
  unfolding bucket_def by presburger+

lemma alloc_exp_buffer [simp]: "first_bucket (buffer_cells c n m) k = first_bucket c k"
  by (simp add: first_bucket_def buffer_cells_def)

lemma alloc_cells_size:
  assumes "alloc_cells c k = (x, c')"
  shows "c' x = 2 ^ alloc_exp c k"
  using assms
  by (auto simp: alloc_cells_def alloc_exp_def reuse_cells_def zero_range_def split: option.splits)

lemma alloc_exp_ge: "k \<le> alloc_exp c k"
  by (auto simp: alloc_exp_def dest: first_bucket_Some split: option.splits)

lemma new_block_ok:
  assumes can: "can_alloc s k" and n: "round_slots n = 2 ^ k"
  obtains s1 v s' where "update_buffer_size (tick s) (base_current s) n vec_sz = Some s1"
    and "alloc_data_slots s1 n = Some (v, s')" and "base_ok s'" and "calm s'" and "keeps (tick s) s'"
    and "v_ext v = base_current s'" and "cells s SIZE \<le> cells s' SIZE"
    and "v_slot v + 2 ^ k < cur_slots s'" and "HDR_END \<le> v_slot v"
    and "alloc_cells (buffer_cells (obj s) n vec_sz) k = (v_slot v, obj s')"
    and "obj s' (v_slot v) = 2 ^ alloc_exp (obj s) k"
    and "v_slot v + 2 ^ alloc_exp (obj s) k \<le> cells s' SIZE" and "alloc_exp (obj s) k \<le> 30"
proof -
  have s: "base_ok s" "calm s" "2 \<le> k" "k \<le> 30" "room s (2 ^ k)" "HDR_END \<le> cells s DATA_ALLOC"
    "cells s DATA_ALLOC \<le> cells s SIZE" "tops_ok s k"
    using can by (auto simp: can_alloc_def)
  let ?s1 = "(tick s)\<lparr>cells := buffer_cells (cells s) n vec_sz\<rparr>"
  have u: "update_buffer_size (tick s) (base_current s) n vec_sz = Some ?s1"
    using update_buffer_size_eq [of "tick s" "base_current s"] base_ok_cur_header [OF s(1)]
    by (simp add: buffer_cells_def)
  have c1: "cells ?s1 i = cells s i" if "i \<noteq> BUFFER" for i using that by (simp add: buffer_cells_def)
  have o1: "obj ?s1 = buffer_cells (obj s) n vec_sz"
    by (rule obj_upd_cells) (auto simp: buffer_cells_def obj_def)
  have b1: "base_ok ?s1" "calm ?s1" using s by (simp_all add: buffer_cells_def)
  have r1: "room ?s1 (2 ^ k)" "cells ?s1 DATA_ALLOC \<le> cells ?s1 SIZE"
    using s(5,7) c1 by (simp_all add: room_def)
  have t1: "tops_ok ?s1 k" by (rule tops_ok_cong [OF s(8)]) (use c1 s(4) in auto)
  obtain v s' where a: "alloc_data_slots ?s1 n = Some (v, s')" "base_ok s'" "calm s'" "keeps ?s1 s'"
    "v_status v = SH_OK" "v_ext v = base_current s'" "cells ?s1 SIZE \<le> cells s' SIZE"
    "v_slot v + 2 ^ k < cur_slots s'" "alloc_cells (obj ?s1) k = (v_slot v, obj s')" "BASE \<le> v_slot v"
    by (rule alloc_data_ok [OF b1 n s(3,4) r1 t1])
  have "HDR_END \<le> v_slot v \<and> v_slot v + 2 ^ alloc_exp (obj s) k \<le> cells s' SIZE \<and> alloc_exp (obj s) k \<le> 30"
  proof (cases "first_bucket (obj ?s1) k")
    case None
    then have "v_slot v = obj ?s1 DATA_ALLOC" "alloc_exp (obj s) k = k"
      using a(9) by (simp_all add: alloc_cells_def alloc_exp_def o1)
    moreover have "obj ?s1 DATA_ALLOC = cells s DATA_ALLOC" using c1 [of DATA_ALLOC] by (simp add: obj_eq)
    ultimately have "v_slot v = cells s DATA_ALLOC" "alloc_exp (obj s) k = k" by simp_all
    with a(8) s(4,6) base_ok_bounds(2) [OF a(2)] show ?thesis by simp
  next
    case (Some j)
    then have fb: "k \<le> j \<and> j \<le> k + 2 \<and> j < 50 \<and> cells s (bucket j) \<noteq> 0"
      using first_bucket_obj [OF s(3)] first_bucket_Some [of "cells s" k j] by (simp add: o1)
    then have "node_ok (cells s DATA_ALLOC) (cells s (bucket j))" "j \<le> 30"
      "cells s (bucket j) + 2 ^ j \<le> cells s SIZE"
      using s(7,8) unfolding tops_ok_def by force+
    moreover have "alloc_exp (obj s) k = j" using Some by (simp add: alloc_exp_def o1)
    moreover have "v_slot v = cells s (bucket j)"
    proof -
      have "bucket j \<noteq> SIZE" "bucket j \<noteq> EXPAND_SIZE" using fb s(3) by (auto simp: bucket_def)
      then show ?thesis using a(9) Some c1 [of "bucket j"] by (simp add: alloc_cells_def obj_eq)
    qed
    ultimately show ?thesis using a(7) c1 [of SIZE] by (simp add: node_ok_def)
  qed
  moreover have "obj s' (v_slot v) = 2 ^ alloc_exp (obj s) k"
    using alloc_cells_size [OF a(9)] by (simp add: o1 alloc_exp_def)
  moreover have "keeps (tick s) s'" by (rule keeps_trans [OF keeps_cells(1) a(4)])
  ultimately show thesis
    using u a o1 c1 [of SIZE] by (intro that [of ?s1 v s']) simp_all
qed

text \<open>The exponent of the block a request of \<open>n\<close> slots asks for.\<close>

definition fits_exp :: "long \<Rightarrow> nat \<Rightarrow> bool" where
  "fits_exp n k \<longleftrightarrow> 1 \<le> n \<and> n \<le> 2 ^ 30 \<and> round_slots n = 2 ^ k"

lemma fits_exp_bounds: "fits_exp n k \<Longrightarrow> n \<le> 2 ^ k \<and> 2 ^ k < 2 * n \<and> k \<le> 30"
proof -
  assume f: "fits_exp n k"
  then have n: "1 \<le> n" "n \<le> 2 ^ 30" by (auto simp: fits_exp_def)
  obtain j where "round_slots n = 2 ^ j" "n \<le> 2 ^ j" "2 ^ j < 2 * n" "j \<le> 30"
    by (rule round_slots_ok [OF n])
  moreover have "j = k" using f calculation(1) by (simp add: fits_exp_def)
  ultimately show ?thesis by simp
qed

lemma fits_exp_ex: "1 \<le> n \<Longrightarrow> n \<le> 2 ^ 30 \<Longrightarrow> \<exists>k. fits_exp n k"
  using round_slots_ok [of n] unfolding fits_exp_def by metis

lemma copy_value_ok:
  assumes can: "can_alloc s k" and fit: "fits_exp (7 + slots_of len) k"
    and len: "0 < len" "len \<le> int (length bytes)"
  obtains x s' c1 where "copy_value s (Some bytes) len type = Some (x, s')"
    and "base_ok s'" and "calm s'" and "keeps (tick s) s'" and "cells s SIZE \<le> cells s' SIZE"
    and "HDR_END \<le> x" and "x + 2 ^ k < cur_slots s'"
    and "alloc_cells (buffer_cells (obj s) (7 + slots_of len) SIZEOF_VEC) k = (x, c1)"
    and "c1 x = 2 ^ alloc_exp (obj s) k"
    and "obj s' = value_cells c1 x (now s) type (take (nat len) bytes)"
    and "x + 2 ^ alloc_exp (obj s) k \<le> cells s' SIZE" and "alloc_exp (obj s) k \<le> 30"
proof -
  let ?n = "7 + slots_of len" and ?bs = "take (nat len) bytes"
  have lb: "int (length ?bs) = len" "?bs \<noteq> []" using len by auto
  have n: "round_slots ?n = 2 ^ k" "?n \<le> 2 ^ k" using fit fits_exp_bounds [OF fit] by (auto simp: fits_exp_def)
  obtain s1 v s2 where a: "update_buffer_size (tick s) (base_current s) ?n SIZEOF_VEC = Some s1"
    "alloc_data_slots s1 ?n = Some (v, s2)" "base_ok s2" "calm s2" "keeps (tick s) s2"
    "v_ext v = base_current s2" "cells s SIZE \<le> cells s2 SIZE" "v_slot v + 2 ^ k < cur_slots s2"
    "HDR_END \<le> v_slot v" "alloc_cells (buffer_cells (obj s) ?n SIZEOF_VEC) k = (v_slot v, obj s2)"
    "obj s2 (v_slot v) = 2 ^ alloc_exp (obj s) k"
    "v_slot v + 2 ^ alloc_exp (obj s) k \<le> cells s2 SIZE" "alloc_exp (obj s) k \<le> 30"
    by (rule new_block_ok [OF can n(1)])
  let ?x = "v_slot v" and ?a = "base_current s2"
  let ?s3 = "s2\<lparr>cells := header_cells (cells s2) ?x (now s) type 1 len\<rparr>"
  let ?s4 = "?s3\<lparr>cells := put_bytes (cells ?s3) (?x + 7) ?bs\<rparr>"
  have m: "mapped s2 ?a (cur_slots s2)" by (rule base_ok_cur_mapped [OF a(3)])
  have sl: "0 \<le> slots_of len" using slots_of_nonneg [of "length ?bs"] lb(1) by metis
  have room: "?x + 7 + slots_of len \<le> cur_slots s2" "?x + 7 \<le> cur_slots s2" using a(8) n(2) sl by linarith+
  have h: "write_data_header s2 ?a ?x (now s) type 1 len = Some ?s3"
    by (rule write_data_header_ok [OF m a(9) room(2)])
  have b: "store_bytes ?s3 ?a (?x + 7) ?bs = Some ?s4"
    by (rule store_bytes_ok [where n = "cur_slots s2"]) (use m a(9) room lb in auto)
  have ru: "read_user bytes len = Some ?bs" using len by (simp add: read_user_def)
  have eq: "copy_value s (Some bytes) len type = Some (?x, ?s4)"
    using a(1,2,6,9) h b len ru by (simp add: copy_value_def exec calc_data_slots_eq Let_def)
  have "obj ?s4 = value_cells (obj s2) ?x (now s) type ?bs"
  proof (rule obj_upd_cells)
    have ne: "header_cells (obj s2) ?x (now s) type 1 l i = 0" if "i = SIZE \<or> i = EXPAND_SIZE" for i l
      using that a(9) by (auto simp: header_cells_def obj_def)
    then show "value_cells (obj s2) ?x (now s) type ?bs SIZE = 0" "value_cells (obj s2) ?x (now s) type ?bs EXPAND_SIZE = 0"
      using a(9) by (simp_all add: value_cells_def put_bytes_other lb(1))
    fix j :: int assume j: "j \<noteq> SIZE" "j \<noteq> EXPAND_SIZE"
    have hd: "header_cells (cells s2) ?x (now s) type 1 len i = header_cells (obj s2) ?x (now s) type 1 len i"
      if "i \<noteq> SIZE" "i \<noteq> EXPAND_SIZE" for i
      using that by (simp add: header_cells_def obj_eq)
    have "put_bytes (header_cells (cells s2) ?x (now s) type 1 len) (?x + 7) ?bs j =
        put_bytes (header_cells (obj s2) ?x (now s) type 1 len) (?x + 7) ?bs j"
      by (rule put_bytes_cong) (use hd j a(9) in auto)
    then show "put_bytes (cells ?s3) (?x + 7) ?bs j = value_cells (obj s2) ?x (now s) type ?bs j"
      by (simp add: value_cells_def lb(1) del: length_take)
  qed
  moreover have hs: "header_cells (cells s2) ?x (now s) type 1 len i = cells s2 i" if "i = SIZE \<or> i = EXPAND_SIZE" for i
    using that a(9) by (auto simp: header_cells_def)
  moreover have "put_bytes (header_cells (cells s2) ?x (now s) type 1 len) (?x + 7) ?bs i = cells s2 i"
    if "i = SIZE \<or> i = EXPAND_SIZE" for i
    using hs [OF that] that a(9) by (auto simp: put_bytes_other)
  moreover have "keeps (tick s) ?s4" using keeps_trans [OF a(5)] keeps_trans [OF keeps_cells(1) keeps_cells(1)] by blast
  ultimately show thesis
    using eq a by (intro that [of ?x ?s4 "obj s2"]) simp_all
qed

section \<open>Writing a vector block\<close>

definition vec_entry :: "vec \<Rightarrow> int \<times> byte list" where
  "vec_entry v = (vec_type v, take (nat (vec_len v)) (the (vec_base v)))"

definition vec_ok :: "vec \<Rightarrow> bool" where
  "vec_ok v \<longleftrightarrow> 0 < vec_type v \<and> 0 < vec_len v \<and>
     (case vec_base v of None \<Rightarrow> False | Some bs \<Rightarrow> vec_len v \<le> int (length bs))"

fun vec_cells :: "(int \<Rightarrow> long) \<Rightarrow> int \<Rightarrow> (int \<times> byte list) list \<Rightarrow> (int \<Rightarrow> long)" where
  "vec_cells c i [] = c"
| "vec_cells c i ((t, bs) # es) =
    vec_cells (put_bytes (c(i := t, i + 1 := int (length bs))) (i + 2) bs) (i + 2 + slots_of (int (length bs))) es"

abbreviation (input) vec_slots :: "(int \<times> byte list) list \<Rightarrow> int" where
  "vec_slots es \<equiv> area_slots (Vector es)"

lemma vec_cells_other: "j < i \<or> i + vec_slots es \<le> j \<Longrightarrow> vec_cells c i es j = c j"
proof (induction c i es rule: vec_cells.induct)
  case (2 c i t bs es)
  have rest: "0 \<le> vec_slots es" by (rule area_slots_nonneg)
  have tot: "vec_slots ((t, bs) # es) = 2 + slots_of (int (length bs)) + vec_slots es" by simp
  note nn = slots_of_nonneg [of "length bs"]
  have "vec_cells c i ((t, bs) # es) j = put_bytes (c(i := t, i + 1 := int (length bs))) (i + 2) bs j"
    using "2.prems" tot nn by (simp only: vec_cells.simps) (rule "2.IH", linarith)
  also have "\<dots> = (c(i := t, i + 1 := int (length bs))) j"
    by (rule put_bytes_other) (use "2.prems" tot nn rest in linarith)
  also have "\<dots> = c j"
  proof -
    have "j \<noteq> i" "j \<noteq> i + 1" using "2.prems" tot nn rest by linarith+
    then show ?thesis by simp
  qed
  finally show ?case .
qed simp

lemma vec_cells_area: "vec_area (vec_cells c i es) i es"
proof (induction c i es rule: vec_cells.induct)
  case (2 c i t bs es)
  let ?n = "slots_of (int (length bs))"
  let ?c = "put_bytes (c(i := t, i + 1 := int (length bs))) (i + 2) bs"
  have same: "vec_cells c i ((t, bs) # es) j = ?c j" if "j < i + 2 + ?n" for j
    using that by (simp add: vec_cells_other)
  have "get_bytes (vec_cells c i ((t, bs) # es)) (i + 2) (length bs) = bs"
    using get_bytes_cong [of "i + 2" "length bs" "vec_cells c i ((t, bs) # es)" ?c] same by simp
  moreover have "vec_cells c i ((t, bs) # es) i = t" "vec_cells c i ((t, bs) # es) (i + 1) = int (length bs)"
    using same [of i] same [of "i + 1"] slots_of_nonneg [of "length bs"]
    by (auto simp: put_bytes_other simp del: vec_cells.simps)
  ultimately show ?case using "2.IH" by simp
qed simp

lemma vec_entry_length: "vec_ok v \<Longrightarrow> int (length (snd (vec_entry v))) = vec_len v"
  by (auto simp: vec_ok_def vec_entry_def split: option.splits)

lemma copy_vector_loop_ok:
  assumes "mapped s a n" and "HDR_END \<le> slot" and "slot + vec_slots (map vec_entry vs) \<le> n" and "\<forall>v\<in>set vs. vec_ok v"
  shows "copy_vector_loop s a vs slot = Some (True, s\<lparr>cells := vec_cells (cells s) slot (map vec_entry vs)\<rparr>)"
  using assms
proof (induction vs arbitrary: s slot)
  case (Cons v vs)
  have v: "vec_ok v" using Cons.prems(4) by simp
  obtain bytes where b: "vec_base v = Some bytes" "vec_len v \<le> int (length bytes)" "0 < vec_type v" "0 < vec_len v"
    using v by (auto simp: vec_ok_def split: option.splits)
  let ?bs = "take (nat (vec_len v)) bytes"
  have e: "vec_entry v = (vec_type v, ?bs)" by (simp add: vec_entry_def b(1))
  have lb: "int (length ?bs) = vec_len v" "?bs \<noteq> []" using b by auto
  let ?k = "slots_of (vec_len v)"
  have nn: "0 \<le> ?k" "0 \<le> vec_slots (map vec_entry vs)"
    using slots_of_nonneg [of "length ?bs"] unfolding lb(1) by (simp_all only: area_slots_nonneg)
  have tot: "vec_slots (map vec_entry (v # vs)) = 2 + ?k + vec_slots (map vec_entry vs)"
    unfolding list.map area_slots.simps e using lb(1) by (simp del: length_take)
  let ?s1 = "s\<lparr>cells := (cells s)(slot := vec_type v)\<rparr>"
  let ?s2 = "s\<lparr>cells := (cells s)(slot := vec_type v, slot + 1 := vec_len v)\<rparr>"
  let ?s3 = "s\<lparr>cells := put_bytes ((cells s)(slot := vec_type v, slot + 1 := vec_len v)) (slot + 2) ?bs\<rparr>"
  have room: "slot + 2 + ?k + vec_slots (map vec_entry vs) \<le> n" using Cons.prems(3) tot by linarith
  then have r: "slot < n" "slot + 1 < n" "slot + 2 + ?k \<le> n" using nn slots_of_pos [OF b(4)] by linarith+
  have w1: "wr s a slot (vec_type v) = Some ?s1" using wr_mapped [OF Cons.prems(1)] Cons.prems(2) r by simp
  have w2: "wr ?s1 a (slot + 1) (vec_len v) = Some ?s2"
    using wr_mapped [of ?s1 a n "slot + 1"] Cons.prems(1,2) r by simp
  have w3: "store_bytes ?s2 a (slot + 2) ?bs = Some ?s3"
    using store_bytes_ok [of ?s2 a n "slot + 2" ?bs] Cons.prems(1,2) r lb by simp
  have adv: "slot + 2 + vec_len v div 2 ^ SZ_SHIFT + (if vec_len v AND REM \<noteq> 0 then 1 else 0) = slot + 2 + ?k"
    using slots_of_step [of "vec_len v"] by linarith
  have step: "copy_vector_loop s a (v # vs) slot = copy_vector_loop ?s3 a vs
      (slot + 2 + vec_len v div 2 ^ SZ_SHIFT + (if vec_len v AND REM \<noteq> 0 then 1 else 0))"
    using b w1 w2 w3 by (simp add: read_user_def)
  have "copy_vector_loop ?s3 a vs (slot + 2 + ?k) = Some (True, ?s3\<lparr>cells := vec_cells (cells ?s3) (slot + 2 + ?k) (map vec_entry vs)\<rparr>)"
    using Cons.prems room nn by (intro Cons.IH) simp_all
  then show ?case
    using step [unfolded adv] e lb by simp
qed simp

lemma calc_vector_slots_ge: "calc_vector_loop vs m \<ge> m + vec_slots (map vec_entry vs)" if "\<forall>v\<in>set vs. vec_ok v"
  using that
proof (induction vs arbitrary: m)
  case (Cons v vs)
  have "vec_slots (map vec_entry (v # vs)) = 2 + slots_of (vec_len v) + vec_slots (map vec_entry vs)"
    using vec_entry_length [of v] Cons.prems by (simp add: case_prod_beta)
  moreover have "2 + slots_of (vec_len v) \<le> 2 + vec_len v div 2 ^ SZ_SHIFT + (if vec_len v AND REM \<noteq> 0 then 2 else 0)"
    unfolding slots_of_step [symmetric] by simp
  moreover have "m' + vec_slots (map vec_entry vs) \<le> calc_vector_loop vs m'" for m'
    by (rule Cons.IH) (use Cons.prems in simp)
  from this [of "m + 2 + vec_len v div 2 ^ SZ_SHIFT + (if vec_len v AND REM \<noteq> 0 then 2 else 0)"]
  have "m + 2 + vec_len v div 2 ^ SZ_SHIFT + (if vec_len v AND REM \<noteq> 0 then 2 else 0) + vec_slots (map vec_entry vs)
      \<le> calc_vector_loop (v # vs) m" by simp
  ultimately show ?case by linarith
qed simp

text \<open>Writing behind the size words commutes with leaving them out.\<close>

definition strip :: "(int \<Rightarrow> long) \<Rightarrow> (int \<Rightarrow> long)" where
  "strip c = c(SIZE := 0, EXPAND_SIZE := 0)"

lemma obj_strip: "obj s = strip (cells s)"
  by (simp add: obj_def strip_def)

lemma strip_upd: "4 \<le> i \<Longrightarrow> strip (c(i := v)) = (strip c)(i := v)"
  by (auto simp: strip_def fun_eq_iff)

lemma strip_apply: "4 \<le> i \<Longrightarrow> strip c i = c i"
  by (simp add: strip_def)

lemma strip_put_bytes: "4 \<le> i \<Longrightarrow> strip (put_bytes c i bs) = put_bytes (strip c) i bs"
  by (auto simp: strip_def put_bytes_def fun_eq_iff)

lemma strip_header_cells:
  "HDR_END \<le> x \<Longrightarrow> strip (header_cells c x ts type vcnt len) = header_cells (strip c) x ts type vcnt len"
  by (simp add: header_cells_def strip_upd strip_apply)

lemma strip_vec_cells: "4 \<le> i \<Longrightarrow> strip (vec_cells c i es) = vec_cells (strip c) i es"
proof (induction c i es rule: vec_cells.induct)
  case (2 c i t bs es)
  have "4 \<le> i + 2 + slots_of (int (length bs))" using "2.prems" slots_of_nonneg [of "length bs"] by linarith
  from "2.IH" [OF this] "2.prems" show ?case by (simp add: strip_put_bytes strip_upd)
qed simp

definition vector_cells ::
  "(int \<Rightarrow> long) \<Rightarrow> int \<Rightarrow> timespec \<Rightarrow> long \<Rightarrow> (int \<times> byte list) list \<Rightarrow> (int \<Rightarrow> long)" where
  "vector_cells c x ts len es =
    vec_cells (header_cells c x ts SH_VECTOR_T (int (length es)) len) (x + 7) es"

lemma vector_cells_holds:
  assumes "HDR_END \<le> x" and "c x = 2 ^ k"
  shows "holds (vector_cells c x ts len es) x k ts (Vector es)"
  using assms header_cells_fields [OF assms(1)]
  by (simp add: holds_def vector_cells_def vec_cells_other vec_cells_area header_cells_other)

lemma vector_cells_other:
  assumes "j \<noteq> ID_CNTR" and "j \<le> x \<or> x + 7 + vec_slots es \<le> j"
  shows "vector_cells c x ts len es j = c j"
proof -
  have "j \<le> x \<or> x + 7 \<le> j" using assms(2) area_slots_nonneg [of "Vector es"] by linarith
  with assms show ?thesis by (auto simp: vector_cells_def vec_cells_other header_cells_other)
qed

lemma copy_vector_ok:
  assumes can: "can_alloc s k" and fit: "fits_exp (calc_vector_slots vs) k"
    and vs: "2 \<le> length vs" "\<forall>v\<in>set vs. vec_ok v"
  obtains x s' c1 len where "copy_vector s (Some vs) (int (length vs)) = Some (x, s')"
    and "base_ok s'" and "calm s'" and "keeps (tick s) s'" and "cells s SIZE \<le> cells s' SIZE"
    and "HDR_END \<le> x" and "x + 2 ^ k < cur_slots s'"
    and "alloc_cells (buffer_cells (obj s) (calc_vector_slots vs) (int (length vs) * SIZEOF_VEC)) k = (x, c1)"
    and "c1 x = 2 ^ alloc_exp (obj s) k"
    and "obj s' = vector_cells c1 x (now s) len (map vec_entry vs)"
    and "7 + vec_slots (map vec_entry vs) \<le> 2 ^ k"
    and "x + 2 ^ alloc_exp (obj s) k \<le> cells s' SIZE" and "alloc_exp (obj s) k \<le> 30"
proof -
  let ?n = "calc_vector_slots vs" and ?es = "map vec_entry vs"
  have n: "round_slots ?n = 2 ^ k" "?n \<le> 2 ^ k" using fit fits_exp_bounds [OF fit] by (auto simp: fits_exp_def)
  have area: "7 + vec_slots ?es \<le> 2 ^ k"
    using calc_vector_slots_ge [OF vs(2), of 7] n(2) by (simp add: calc_vector_slots_def)
  obtain s1 v s2 where a: "update_buffer_size (tick s) (base_current s) ?n (int (length vs) * SIZEOF_VEC) = Some s1"
    "alloc_data_slots s1 ?n = Some (v, s2)" "base_ok s2" "calm s2" "keeps (tick s) s2"
    "v_ext v = base_current s2" "cells s SIZE \<le> cells s2 SIZE" "v_slot v + 2 ^ k < cur_slots s2"
    "HDR_END \<le> v_slot v"
    "alloc_cells (buffer_cells (obj s) ?n (int (length vs) * SIZEOF_VEC)) k = (v_slot v, obj s2)"
    "obj s2 (v_slot v) = 2 ^ alloc_exp (obj s) k"
    "v_slot v + 2 ^ alloc_exp (obj s) k \<le> cells s2 SIZE" "alloc_exp (obj s) k \<le> 30"
    by (rule new_block_ok [OF can n(1)])
  let ?x = "v_slot v" and ?a = "base_current s2" and ?len = "wrap64 ((?n - DATA_HDR) * 8)"
  let ?s3 = "s2\<lparr>cells := header_cells (cells s2) ?x (now s) SH_VECTOR_T (int (length vs)) ?len\<rparr>"
  let ?s4 = "s2\<lparr>cells := vector_cells (cells s2) ?x (now s) ?len ?es\<rparr>"
  have m: "mapped s2 ?a (cur_slots s2)" by (rule base_ok_cur_mapped [OF a(3)])
  have room: "?x + 7 + vec_slots ?es \<le> cur_slots s2" "?x + 7 \<le> cur_slots s2"
    using a(8) area area_slots_nonneg [of "Vector ?es"] by linarith+
  have h: "write_data_header s2 ?a ?x (now s) SH_VECTOR_T (int (length vs)) ?len = Some ?s3"
    by (rule write_data_header_ok [OF m a(9) room(2)])
  have b: "copy_vector_loop ?s3 ?a vs (?x + 7) = Some (True, ?s4)"
    using copy_vector_loop_ok [of ?s3 ?a "cur_slots s2" "?x + 7" vs] m a(9) room(1) vs(2)
    by (simp add: vector_cells_def)
  have eq: "copy_vector s (Some vs) (int (length vs)) = Some (?x, ?s4)"
    using a(1,2,6,9) h b vs(1) by (simp add: copy_vector_def exec vec_array_def Let_def)
  have "obj ?s4 = vector_cells (obj s2) ?x (now s) ?len ?es"
    using a(9) by (simp add: obj_strip vector_cells_def strip_vec_cells strip_header_cells)
  moreover have "vector_cells (cells s2) ?x (now s) ?len ?es i = cells s2 i" if "i = SIZE \<or> i = EXPAND_SIZE" for i
    using that a(9) by (auto intro!: vector_cells_other)
  moreover have "keeps (tick s) ?s4" using keeps_trans [OF a(5) keeps_cells(1)] .
  ultimately show thesis
    using eq a area by (intro that [of ?x ?s4 "obj s2" ?len]) simp_all
qed

section \<open>Reading a block\<close>

text \<open>What the caller gets: memory \<open>m\<close> and an item that points into it.\<close>

definition shows_bytes :: "byte list \<Rightarrow> int \<Rightarrow> byte list \<Rightarrow> bool" where
  "shows_bytes m off bs \<longleftrightarrow> 0 \<le> off \<and> take (length bs) (drop (nat off) m) = bs"

definition shows_element :: "byte list \<Rightarrow> int \<times> byte list \<Rightarrow> ivec \<Rightarrow> bool" where
  "shows_element m e iv \<longleftrightarrow>
     iv_type iv = fst e \<and> iv_len iv = int (length (snd e)) \<and> shows_bytes m (iv_base iv) (snd e)"

text \<open>The item names its buffer and the part of it that was filled.\<close>

definition shows_buffer :: "sq_item \<Rightarrow> byte list \<Rightarrow> bool" where
  "shows_buffer it m \<longleftrightarrow> i_buffer it = Some 0 \<and> 8 \<le> i_buf_size it \<and> i_buf_size it \<le> int (length m)"

fun shows_item :: "sq_item \<Rightarrow> byte list \<Rightarrow> timespec \<Rightarrow> payload \<Rightarrow> bool" where
  "shows_item it m ts (Value t bs) \<longleftrightarrow>
     i_type it = t \<and> i_length it = int (length bs) \<and> i_vcount it = 1 \<and>
     (\<exists>v. i_value it = Some v \<and> shows_bytes m v bs \<and>
          i_vector it = [\<lparr>iv_type = t, iv_len = int (length bs), iv_base = v\<rparr>]) \<and>
     i_timestamp it = Some 0 \<and> read_long m 0 = Some (tv_sec ts) \<and> read_long m 8 = Some (tv_nsec ts) \<and> shows_buffer it m"
| "shows_item it m ts (Vector es) \<longleftrightarrow>
     i_type it = SH_VECTOR_T \<and> i_vcount it = int (length es) \<and> list_all2 (shows_element m) es (i_vector it) \<and>
     i_timestamp it = Some 0 \<and> read_long m 0 = Some (tv_sec ts) \<and> read_long m 8 = Some (tv_nsec ts) \<and> shows_buffer it m"

definition ubuf_ok :: "ubuf \<Rightarrow> bool" where
  "ubuf_ok b \<longleftrightarrow> (case ub_mem b of None \<Rightarrow> True | Some m \<Rightarrow> int (length m) = ub_size b)"

lemma length_overlay [simp]: "length new \<le> length old \<Longrightarrow> length (overlay old new) = length old"
  by (simp add: overlay_def)

lemma take_drop_overlay:
  assumes "i + n \<le> length new"
  shows "take n (drop i (overlay old new)) = take n (drop i new)"
  using assms by (simp add: overlay_def)

text \<open>In memory into which the slots from \<open>i\<close> on were copied, slot \<open>i + j\<close> is at byte \<open>8 * j\<close>.\<close>

lemma bytes_in_copy:
  assumes "8 * j + m \<le> n"
  shows "take m (drop (8 * j) (overlay old (get_bytes c i n))) = get_bytes c (i + int j) m"
  using assms by (simp add: take_drop_overlay drop_get_bytes take_get_bytes)

lemma get_bytes_8: "get_bytes c i 8 = slot_bytes (c i)"
  by (simp add: get_bytes_def slots_of_def)

lemma read_long_copy:
  assumes "8 * j + 8 \<le> n" and "n \<le> length old"
  shows "read_long (overlay old (get_bytes c i n)) (8 * int j) = Some (wrap64 (c (i + int j)))"
proof -
  have "nat (8 * int j) = 8 * j" by simp
  moreover have "8 * int j + 8 \<le> int (length old)" using assms by linarith
  ultimately show ?thesis
    using assms bytes_in_copy [OF assms(1), of old c i]
    by (simp add: read_long_def get_bytes_8)
qed

lemma to_size_small [simp]: "0 \<le> n \<Longrightarrow> n < 2 ^ 64 \<Longrightarrow> to_size n = n"
  by (simp add: to_size_def)

lemma to_enum_small [simp]: "0 \<le> n \<Longrightarrow> n < 2 ^ 32 \<Longrightarrow> to_enum n = n"
  by (simp add: to_enum_def)

lemma vec_advance_eq: "0 < n \<Longrightarrow> vec_advance n = 8 * slots_of n"
proof (cases "n \<le> 8")
  case True
  assume "0 < n"
  then have "slots_of n = 1" unfolding slots_of_def using True by (intro int_div_pos_eq [of _ _ _ "n - 1"]) simp_all
  with True show ?thesis by (simp add: vec_advance_def)
next
  case False
  then show ?thesis unfolding slots_of_step [symmetric] by (simp add: vec_advance_def)
qed

lemma initialize_item_vector_ok:
  assumes "vec_area c (i + int j) es" and "8 * int j + 8 * vec_slots es \<le> int n" and "n \<le> length old"
    and "\<forall>(t, bs)\<in>set es. 0 < t \<and> t < 2 ^ 32 \<and> bs \<noteq> [] \<and> int (length bs) < 2 ^ 40"
  shows "\<exists>ivs. initialize_item_vector (overlay old (get_bytes c i n)) (length es) (8 * int j) = Some ivs \<and>
    list_all2 (shows_element (overlay old (get_bytes c i n))) es ivs"
  using assms
proof (induction es arbitrary: j)
  case (Cons e es)
  obtain t bs where e: "e = (t, bs)" by (cases e)
  let ?m = "overlay old (get_bytes c i n)" and ?k = "slots_of (int (length bs))"
  have ok: "0 < t" "t < 2 ^ 32" "bs \<noteq> []" "int (length bs) < 2 ^ 40" using Cons.prems(4) e by auto
  have area: "c (i + int j) = t" "c (i + int j + 1) = int (length bs)"
    "get_bytes c (i + int j + 2) (length bs) = bs" "vec_area c (i + int j + 2 + ?k) es"
    using Cons.prems(1) by (simp_all add: e)
  have k: "0 < ?k" "int (length bs) \<le> 8 * ?k" using ok(3) slots_of_pos slots_of_bounds(1) by auto
  have rest: "0 \<le> vec_slots es" by (rule area_slots_nonneg)
  have tot: "vec_slots (e # es) = 2 + ?k + vec_slots es" by (simp add: e)
  obtain q where q: "?k = int q" using k(1) by (metis zero_less_imp_eq_int)
  have "8 * int j + 8 \<le> int n" "8 * int j + 16 \<le> int n" "8 * int j + 16 + int (length bs) \<le> int n"
    using Cons.prems(2) tot rest k by linarith+
  then have room: "8 * j + 8 \<le> n" "8 * (j + 1) + 8 \<le> n" "8 * (j + 2) + length bs \<le> n"
    by presburger+
  have "read_long ?m (8 * int j) = Some t"
    using read_long_copy [OF room(1) Cons.prems(3), of c i] area(1) ok by simp
  moreover have "read_long ?m (8 * int j + 8) = Some (int (length bs))"
    using read_long_copy [OF room(2) Cons.prems(3), of c i] area(2) ok by (simp add: add.commute add.left_commute)
  moreover have "take (length bs) (drop (8 * (j + 2)) ?m) = bs"
    using bytes_in_copy [OF room(3), of old c i] area(3) by (simp add: add.commute add.left_commute)
  then have el: "shows_element ?m e \<lparr>iv_type = t, iv_len = int (length bs), iv_base = 8 * int j + 16\<rparr>"
    by (simp add: shows_element_def shows_bytes_def e nat_add_distrib nat_mult_distrib add.commute)
  have next_pos: "8 * int j + 16 + vec_advance (to_size (int (length bs))) = 8 * int (j + 2 + q)"
    using ok vec_advance_eq [of "int (length bs)"] q by simp
  have next_slot: "i + int j + 2 + ?k = i + int (j + 2 + q)" using q by simp
  have area': "vec_area c (i + int (j + 2 + q)) es" using area(4) unfolding next_slot .
  have room': "8 * int (j + 2 + q) + 8 * vec_slots es \<le> int n" using Cons.prems(2) tot q by simp
  have ok': "\<forall>(t, bs)\<in>set es. 0 < t \<and> t < 2 ^ 32 \<and> bs \<noteq> [] \<and> int (length bs) < 2 ^ 40"
    using Cons.prems(4) by simp
  obtain ivs where ivs: "initialize_item_vector ?m (length es) (8 * int (j + 2 + q)) = Some ivs"
    "list_all2 (shows_element ?m) es ivs"
    using Cons.IH [OF area' room' Cons.prems(3) ok'] by blast
  have sz: "to_size (int (length bs)) = int (length bs)" using ok by simp
  have "initialize_item_vector ?m (length es) (8 * int j + 16 + vec_advance (int (length bs))) = Some ivs"
    using ivs(1) unfolding next_pos [symmetric] sz .
  ultimately show ?case
    using el ok ivs(2) by (simp add: e)
qed simp

lemma resize_buffer_ok:
  assumes "quiet s" and "ubuf_ok b" and "0 \<le> sz" and "0 \<le> cnt"
  obtains b' old i where "resize_buffer s cnt b sz = (SH_OK, b', s\<lparr>os_n := i\<rparr>)"
    and "ub_mem b' = Some old" and "int (length old) = ub_size b'" and "sz + cnt * SIZEOF_VEC \<le> ub_size b'"
proof (cases "ub_mem b \<noteq> None \<and> \<not> ub_size b < sz + cnt * SIZEOF_VEC")
  case True
  then obtain old where "ub_mem b = Some old" by auto
  moreover have "resize_buffer s cnt b sz = (SH_OK, b, s\<lparr>os_n := os_n s\<rparr>)"
    using True by (auto simp: resize_buffer_def Let_def)
  ultimately show thesis using True assms(2) by (intro that [of b "os_n s" old]) (simp_all add: ubuf_ok_def)
next
  case False
  let ?t = "sz + cnt * SIZEOF_VEC"
  have "resize_buffer s cnt b sz =
      (SH_OK, \<lparr>ub_mem = Some (replicate (nat ?t) 0), ub_size = ?t\<rparr>, s\<lparr>os_n := Suc (os_n s)\<rparr>)"
    using False assms(1) by (auto simp: resize_buffer_def Let_def quiet_os_call)
  then show thesis
    using assms(3,4) by (intro that [of "\<lparr>ub_mem = Some (replicate (nat ?t) 0), ub_size = ?t\<rparr>" "Suc (os_n s)"
        "replicate (nat ?t) 0"]) simp_all
qed

lemma area_slots_pos: "payload_ok p \<Longrightarrow> 0 < area_slots p"
proof (cases p)
  case (Value t bs)
  assume "payload_ok p"
  with Value show ?thesis by (simp add: slots_of_pos)
next
  case (Vector es)
  assume "payload_ok p"
  then obtain t bs es' where "es = (t, bs) # es'" using Vector by (cases es) auto
  then show ?thesis
    using Vector area_slots_nonneg [of "Vector es'"] slots_of_nonneg [of "length bs"]
    by simp
qed

fun payload_count :: "payload \<Rightarrow> nat" where
  "payload_count (Value t bs) = 1"
| "payload_count (Vector es) = length es"

lemma copy_to_buffer_ok:
  assumes m: "mapped s a n" and x: "HDR_END \<le> x" "x + 2 ^ k \<le> n" and h: "holds (cells s) x k ts p"
    and p: "payload_ok p" "7 + area_slots p \<le> 2 ^ k" and k: "k \<le> 40" and q: "quiet s" and b: "ubuf_ok b"
    and ts: "in_long (tv_sec ts)" "in_long (tv_nsec ts)"
  shows "\<exists>it' b' mem i. copy_to_buffer s a x it b = Some (it', b', s\<lparr>os_n := i\<rparr>) \<and> ub_mem b' = Some mem \<and>
    ubuf_ok b' \<and> i_status it' = i_status it \<and> shows_item it' mem ts p"
proof -
  let ?c = "cells s" and ?sz = "8 * 2 ^ k - 8 :: int" and ?cnt = "int (payload_count p)"
  have k2: "(2::int) ^ k \<le> 2 ^ 40" using k by (intro power_increasing) simp_all
  have k8: "(8::int) \<le> 2 ^ k"
    using area_slots_pos [OF p(1)] p(2) by simp
  have size: "wrap64 (?c x * 8) - SIZEOF_LONG = ?sz" using h k2 k8 by (simp add: holds_def)
  have cnt: "?c (x + 5) = ?cnt" "signed_take_bit 31 ?cnt = ?cnt"
    using h p(1) by (cases p; simp add: holds_def signed_take_bit_int_eq_self)+
  have rds: "rd s a (x + j) = Some (?c (x + j))" if "0 \<le> j" "j < 8" for j
    using rd_mapped [OF m] x k8 that by simp
  obtain b1 old i where r: "resize_buffer s ?cnt b ?sz = (SH_OK, b1, s\<lparr>os_n := i\<rparr>)"
    "ub_mem b1 = Some old" "int (length old) = ub_size b1" "?sz + ?cnt * SIZEOF_VEC \<le> ub_size b1"
    by (rule resize_buffer_ok [OF q b, of ?sz ?cnt]) (use k8 in auto)
  let ?N = "nat ?sz" let ?new = "get_bytes ?c (x + 1) ?N" let ?m = "overlay old ?new"
  have N: "int ?N = ?sz" "?N \<le> length old" using k8 r(3,4) by linarith+
  have "slots_of ?sz = 2 ^ k - 1" using slots_of_slots [of "2 ^ k - 1"] by (simp add: right_diff_distrib)
  then have l: "load_bytes (s\<lparr>os_n := i\<rparr>) a (x + 1) ?sz = Some ?new"
    using m x k8 by (auto simp: load_bytes_def intro: mapped_mono)
  have len: "length ?m = length old" using N by simp
  have rl: "read_long ?m 0 = Some (tv_sec ts)" "read_long ?m 8 = Some (tv_nsec ts)"
  proof -
    have "8 * 0 + 8 \<le> ?N" "8 * 1 + 8 \<le> ?N" using k8 by linarith+
    from read_long_copy [OF this(1) N(2), of ?c "x + 1"] read_long_copy [OF this(2) N(2), of ?c "x + 1"]
    show "read_long ?m 0 = Some (tv_sec ts)" "read_long ?m 8 = Some (tv_nsec ts)"
      using h ts by (simp_all add: holds_def add.commute add.left_commute)
  qed
  let ?it = "it\<lparr>i_buffer := Some 0, i_buf_size := ?sz, i_type := to_enum (?c (x + 4)),
      i_length := to_size (?c (x + 6)), i_timestamp := Some 0, i_value := Some 48, i_vcount := ?cnt\<rparr>"
  let ?one = "[\<lparr>iv_type = to_enum (?c (x + 4)), iv_len = to_size (?c (x + 6)), iv_base = 48\<rparr>]"
  have eq: "copy_to_buffer s a x it b =
      (if ?cnt = 1 then Some (?it\<lparr>i_vector := ?one\<rparr>, b1\<lparr>ub_mem := Some ?m\<rparr>, s\<lparr>os_n := i\<rparr>)
       else do { vs \<leftarrow> initialize_item_vector ?m (nat ?cnt) 48;
                 Some (?it\<lparr>i_vector := vs\<rparr>, b1\<lparr>ub_mem := Some ?m\<rparr>, s\<lparr>os_n := i\<rparr>) })"
  proof -
    have rd': "rd (s\<lparr>os_n := i\<rparr>) a (x + j) = Some (?c (x + j))" if "0 \<le> j" "j < 8" for j
      using rd_mapped [of "s\<lparr>os_n := i\<rparr>" a n] m x k8 that by simp
    have "\<not> int (length old) < ?sz + ?cnt * SIZEOF_VEC" using r(3,4) by linarith
    then show ?thesis
      using rds [of 0] rds [of 5] rd' [of 4] rd' [of 6] r l N len size cnt
      by (simp add: copy_to_buffer_def Let_def)
  qed
  have sb: "shows_buffer (?it\<lparr>i_vector := v\<rparr>) ?m" for v
  proof -
    have "8 \<le> ?sz" "?sz \<le> int (length old)" using k8 N by linarith+
    then show ?thesis unfolding shows_buffer_def len by simp
  qed
  show ?thesis
  proof (cases p)
    case (Value t bs)
    have "8 * 6 + length bs \<le> ?N"
      using p(2) Value slots_of_bounds(1) [of "int (length bs)"] k8 by simp
    from bytes_in_copy [OF this, of old ?c "x + 1"] have "shows_bytes ?m 48 bs"
      using h Value by (simp add: shows_bytes_def holds_def add.commute)
    moreover have "?c (x + 4) = t" "?c (x + 6) = int (length bs)" using h Value by (simp_all add: holds_def)
    ultimately show ?thesis
      using eq rl p(1) len r(2,3) Value sb
      by (intro exI [of _ "?it\<lparr>i_vector := ?one\<rparr>"] exI [of _ "b1\<lparr>ub_mem := Some ?m\<rparr>"] exI [of _ ?m] exI [of _ i])
        (simp add: ubuf_ok_def)
  next
    case (Vector es)
    have two: "2 \<le> length es" using p(1) Vector by simp
    have a6: "vec_area ?c (x + 1 + int 6) es" using h Vector by (simp add: holds_def add.commute)
    have room: "8 * int 6 + 8 * vec_slots es \<le> int ?N" using p(2) Vector N by simp
    obtain ivs where "initialize_item_vector ?m (length es) (8 * int 6) = Some ivs"
      "list_all2 (shows_element ?m) es ivs"
      using initialize_item_vector_ok [OF a6 room N(2)] p(1) Vector by auto
    moreover have "?c (x + 4) = 0" using h Vector by (simp add: holds_def)
    ultimately show ?thesis
      using eq rl len r(2,3) Vector two sb
      by (intro exI [of _ "?it\<lparr>i_vector := ivs\<rparr>"] exI [of _ "b1\<lparr>ub_mem := Some ?m\<rparr>"] exI [of _ ?m] exI [of _ i])
        (simp add: ubuf_ok_def)
  qed
qed

end
