(* ===== verification/Events.thy ===== *)
theory Events
  imports Data
begin

text \<open>
  Events, signals and time stamps of the queue (\<open>src/shared_q.c\<close>). An event is recorded
  only when it is subscribed to, as a node of the event list and a token of the event
  semaphore, and recording it ends the subscription; a monitoring process is then sent a
  signal. The time stamps decide which items have expired: a plain limit, or the CoDel rule
  (a shorter limit once the queue has not been empty for an interval).
\<close>

section \<open>Signals and predicates\<close>

text \<open>\<open>sq_event_e\<close>: the values are stored in nodes.\<close>

type_synonym sq_event = int

abbreviation (input) SQ_EVNT_ALL :: sq_event where "SQ_EVNT_ALL \<equiv> 0"
abbreviation (input) SQ_EVNT_NONE :: sq_event where "SQ_EVNT_NONE \<equiv> 0"
abbreviation (input) SQ_EVNT_INIT :: sq_event where "SQ_EVNT_INIT \<equiv> 1"
abbreviation (input) SQ_EVNT_LIMIT :: sq_event where "SQ_EVNT_LIMIT \<equiv> 2"
abbreviation (input) SQ_EVNT_TIME :: sq_event where "SQ_EVNT_TIME \<equiv> 3"
abbreviation (input) SQ_EVNT_LEVEL :: sq_event where "SQ_EVNT_LEVEL \<equiv> 4"
abbreviation (input) SQ_EVNT_EMPTY :: sq_event where "SQ_EVNT_EMPTY \<equiv> 5"
abbreviation (input) SQ_EVNT_NONEMPTY :: sq_event where "SQ_EVNT_NONEMPTY \<equiv> 6"

definition signal_arrival :: "qstate \<Rightarrow> qstate option" where
  "signal_arrival s = do {
     let a = base_current s;
     sig \<leftarrow> rd s a LISTEN_SIGNAL;
     pid \<leftarrow> rd s a LISTEN_PID;
     if sig = 0 \<or> pid = 0 then Some s
     else
       let sval = sems s DEQ_SEM
       in Some (if sval = 0 then sigqueue pid sig sval s else s) }"

definition signal_event :: "qstate \<Rightarrow> qstate option" where
  "signal_event s = do {
     let a = base_current s;
     pid \<leftarrow> rd s a NOTIFY_PID;
     sig \<leftarrow> rd s a NOTIFY_SIGNAL;
     Some (if pid = 0 \<or> sig = 0 then s else sigqueue pid sig 0 s) }"

definition signal_call :: "qstate \<Rightarrow> qstate option" where
  "signal_call s = do {
     let a = base_current s;
     pid \<leftarrow> rd s a CALL_PID;
     sig \<leftarrow> rd s a CALL_SIGNAL;
     Some (if pid = 0 \<or> sig = 0 then s else sigqueue pid sig 0 s) }"

definition is_monitored :: "qstate \<Rightarrow> extent_ref \<Rightarrow> bool option" where
  "is_monitored s a = do {
     sig \<leftarrow> rd s a NOTIFY_SIGNAL; pid \<leftarrow> rd s a NOTIFY_PID; Some (sig \<noteq> 0 \<and> pid \<noteq> 0) }"

definition is_call_monitored :: "qstate \<Rightarrow> extent_ref \<Rightarrow> bool option" where
  "is_call_monitored s a = do {
     sig \<leftarrow> rd s a CALL_SIGNAL; pid \<leftarrow> rd s a CALL_PID; Some (sig \<noteq> 0 \<and> pid \<noteq> 0) }"

definition is_discard_on_expire :: "qstate \<Rightarrow> extent_ref \<Rightarrow> bool option" where
  "is_discard_on_expire s a = do { f \<leftarrow> rd s a FLAGS; Some (f AND FLAG_DISCARD_EXPIRED \<noteq> 0) }"

definition is_adaptive_lifo :: "qstate \<Rightarrow> extent_ref \<Rightarrow> bool option" where
  "is_adaptive_lifo s a = do { f \<leftarrow> rd s a FLAGS; Some (f AND FLAG_LIFO_ON_LEVEL \<noteq> 0) }"

definition is_codel_active :: "qstate \<Rightarrow> extent_ref \<Rightarrow> bool option" where
  "is_codel_active s a = do {
     tn \<leftarrow> rd s a TARGET_NSEC; ts \<leftarrow> rd s a TARGET_SEC;
     ln \<leftarrow> rd s a LIMIT_NSEC; ls \<leftarrow> rd s a LIMIT_SEC;
     Some ((tn \<noteq> 0 \<or> ts \<noteq> 0) \<and> (ln \<noteq> 0 \<or> ls \<noteq> 0)) }"

section \<open>Events\<close>

definition get_event_flag :: "sq_event \<Rightarrow> long" where
  "get_event_flag event =
    (if event = SQ_EVNT_ALL then
       FLAG_EVNT_INIT OR FLAG_EVNT_LIMIT OR FLAG_EVNT_EMPTY OR FLAG_EVNT_LEVEL OR
       FLAG_EVNT_NONEMPTY OR FLAG_EVNT_TIME
     else if event = SQ_EVNT_INIT then FLAG_EVNT_INIT
     else if event = SQ_EVNT_LIMIT then FLAG_EVNT_LIMIT
     else if event = SQ_EVNT_EMPTY then FLAG_EVNT_EMPTY
     else if event = SQ_EVNT_LEVEL then FLAG_EVNT_LEVEL
     else if event = SQ_EVNT_NONEMPTY then FLAG_EVNT_NONEMPTY
     else if event = SQ_EVNT_TIME then FLAG_EVNT_TIME
     else 0)"

definition event_disabled :: "qstate \<Rightarrow> extent_ref \<Rightarrow> sq_event \<Rightarrow> bool option" where
  "event_disabled s a event = do { f \<leftarrow> rd s a FLAGS; Some (f AND get_event_flag event = 0) }"

definition add_event :: "qstate \<Rightarrow> sq_event \<Rightarrow> (bool \<times> qstate) option" where
  "add_event s event = do {
     let a = base_current s;
     skip \<leftarrow> (if event = SQ_EVNT_NONE then Some True else event_disabled s a event);
     if skip then Some (False, s)
     else do {
       let flag = get_event_flag event;
       prev \<leftarrow> rd s a FLAGS;
       (ok, s) \<leftarrow> CAS s a FLAGS prev (prev AND NOT flag);
       if \<not> ok then Some (False, s)
       else do {
         (view, s) \<leftarrow> alloc_idx_slots s;
         if v_slot view = 0 then Some (False, s)
         else do {
           let a = v_ext view;
           s \<leftarrow> wr s a (v_slot view + EVENT_OFFSET) event;
           s \<leftarrow> add_end s (v_slot view) EVENT_TAIL;
           (_, s) \<leftarrow> sem_post s a EVNT_SEM;
           Some (True, s) } } } }"

definition next_event :: "qstate \<Rightarrow> long \<Rightarrow> (sq_event \<times> qstate) option" where
  "next_event s slot = do {
     (view, s) \<leftarrow> insure_in_range s slot;
     if v_slot view = 0 then Some (SQ_EVNT_NONE, s)
     else do {
       next \<leftarrow> rd s (v_ext view) slot;
       (view, s) \<leftarrow> insure_in_range s next;
       if v_slot view = 0 then Some (SQ_EVNT_NONE, s)
       else do {
         event \<leftarrow> rd s (v_ext view) (next + EVENT_OFFSET);
         Some (event mod 2 ^ 32, s) } } }"

definition check_for_level_event :: "qstate \<Rightarrow> qstate option" where
  "check_for_level_event s = do {
     let a = base_current s;
     level \<leftarrow> rd s a LEVEL;
     if level \<le> 0 then Some s
     else do {
       disabled \<leftarrow> event_disabled s a SQ_EVNT_LEVEL;
       if disabled then Some s
       else do {
         count \<leftarrow> rd s a COUNT;
         if count \<ge> level then do {
           (added, s) \<leftarrow> add_event s SQ_EVNT_LEVEL;
           if added then signal_event s else Some s }
         else Some s } } }"

section \<open>Time stamps\<close>

definition rd_ts :: "qstate \<Rightarrow> extent_ref \<Rightarrow> int \<Rightarrow> timespec option" where
  "rd_ts s a i = do { (sec, nsec) \<leftarrow> rd2 s a i; Some \<lparr>tv_sec = sec, tv_nsec = nsec\<rparr> }"

partial_function (option) update_empty_loop ::
  "qstate \<Rightarrow> extent_ref \<Rightarrow> timespec \<Rightarrow> timespec \<Rightarrow> qstate option" where
  "update_empty_loop s a curr_time was =
    (if timespeccmp curr_time was (>) then do {
       (ok, s) \<leftarrow> DWCAS s a EMPTY_SEC (tv_sec was, tv_nsec was) (tv_sec curr_time, tv_nsec curr_time);
       if ok then Some s
       else do { was \<leftarrow> rd_ts s a EMPTY_SEC; update_empty_loop s a curr_time was } }
     else Some s)"

declare update_empty_loop.simps [code]

definition update_empty_timestamp :: "qstate \<Rightarrow> extent_ref \<Rightarrow> qstate option" where
  "update_empty_timestamp s a =
    (case clock_gettime s of (curr_time, s) \<Rightarrow> do {
       was \<leftarrow> rd_ts s a EMPTY_SEC;
       update_empty_loop s a curr_time was })"

partial_function (option) store_pair_loop ::
  "qstate \<Rightarrow> extent_ref \<Rightarrow> int \<Rightarrow> long \<times> long \<Rightarrow> qstate option" where
  "store_pair_loop s a i next = do {
     prev \<leftarrow> rd2 s a i;
     (ok, s) \<leftarrow> DWCAS s a i prev next;
     if ok then Some s else store_pair_loop s a i next }"

declare store_pair_loop.simps [code]

definition clear_empty_timestamp :: "qstate \<Rightarrow> extent_ref \<Rightarrow> qstate option" where
  "clear_empty_timestamp s a = store_pair_loop s a EMPTY_SEC (0, 0)"

definition item_exceeds_limit ::
  "qstate \<Rightarrow> long \<Rightarrow> timespec \<Rightarrow> timespec \<Rightarrow> (bool \<times> qstate) option" where
  "item_exceeds_limit s item_slot timelimit curr_time =
    (if item_slot < HDR_END then Some (False, s)
     else if tv_sec timelimit = 0 \<and> tv_nsec timelimit = 0 then Some (False, s)
     else do {
       (view, s) \<leftarrow> insure_in_range s item_slot;
       if v_slot view \<noteq> item_slot then Some (False, s)
       else do {
         item \<leftarrow> rd_ts s (v_ext view) (item_slot + TM_SEC);
         Some (timespeccmp (timespecsub curr_time item) timelimit (>), s) } })"

definition item_exceeds_delay :: "qstate \<Rightarrow> long \<Rightarrow> extent_ref \<Rightarrow> (bool \<times> qstate) option" where
  "item_exceeds_delay s item_slot a =
    (if item_slot < HDR_END then Some (False, s)
     else case clock_gettime s of (current, s) \<Rightarrow> do {
       active \<leftarrow> is_codel_active s a;
       limit \<leftarrow> rd_ts s a LIMIT_SEC;
       if active then do {
         last \<leftarrow> rd_ts s a EMPTY_SEC;
         if tv_sec last = 0 then item_exceeds_limit s item_slot limit current
         else if timespeccmp last (timespecsub current limit) (<) then do {
           target \<leftarrow> rd_ts s a TARGET_SEC;
           item_exceeds_limit s item_slot target current }
         else item_exceeds_limit s item_slot limit current }
       else item_exceeds_limit s item_slot limit current })"

end
