(* ===== verification/Gates.thy ===== *)
theory Gates
  imports Events
begin

text \<open>
  The semaphores at the two ends of the queue (\<open>src/shared_q.c\<close>). \<open>ENQ_SEM\<close> counts the
  free places and \<open>DEQ_SEM\<close> the items: an operation first takes a token at its own end and
  at last posts one at the other. Interrupted calls are repeated.
\<close>

definition guard_q_memory :: "qstate \<Rightarrow> qstate" where
  "guard_q_memory s = s\<lparr>accessors := wrap64 (accessors s + 1)\<rparr>"

definition unguard_q_memory :: "qstate \<Rightarrow> qstate" where
  "unguard_q_memory s = s\<lparr>accessors := wrap64 (accessors s - 1)\<rparr>"

section \<open>Taking a token\<close>

partial_function (option) deq_gate_try :: "qstate \<Rightarrow> (sh_status \<times> qstate) option" where
  "deq_gate_try s = do {
     (r, s) \<leftarrow> sem_trywait s (base_current s) DEQ_SEM;
     case r of
       None \<Rightarrow> Some (SH_OK, s)
     | Some e \<Rightarrow>
         if e = EAGAIN then do {
           monitored \<leftarrow> is_call_monitored s (base_current s);
           s \<leftarrow> (if monitored then signal_call s else Some s);
           Some (SH_ERR_EMPTY, s) }
         else if e = EINVAL then Some (SH_ERR_STATE, s)
         else deq_gate_try s }"

declare deq_gate_try.simps [code]

partial_function (option) deq_wait_loop :: "qstate \<Rightarrow> (sh_status \<times> qstate) option" where
  "deq_wait_loop s = do {
     (r, s) \<leftarrow> sem_wait s (base_current s) DEQ_SEM;
     case r of
       None \<Rightarrow> Some (SH_OK, s)
     | Some e \<Rightarrow> if e = EINVAL then Some (SH_ERR_STATE, s) else deq_wait_loop s }"

declare deq_wait_loop.simps [code]

definition deq_gate_blk :: "qstate \<Rightarrow> (sh_status \<times> qstate) option" where
  "deq_gate_blk s = do {
     (_, s) \<leftarrow> AFA s (base_current s) CALL_BLOCKS 1;
     monitored \<leftarrow> is_call_monitored s (base_current s);
     s \<leftarrow> (if monitored then signal_call s else Some s);
     (status, s) \<leftarrow> deq_wait_loop s;
     (_, s) \<leftarrow> AFA s (base_current s) CALL_UNBLOCKS 1;
     Some (status, s) }"

partial_function (option) deq_timed_loop :: "qstate \<Rightarrow> timespec \<Rightarrow> (sh_status \<times> qstate) option" where
  "deq_timed_loop s ts = do {
     (r, s) \<leftarrow> sem_timedwait s (base_current s) DEQ_SEM ts;
     case r of
       None \<Rightarrow> Some (SH_OK, s)
     | Some e \<Rightarrow>
         if e = ETIMEDOUT then Some (SH_ERR_EMPTY, s)
         else if e = EINVAL then Some (SH_ERR_STATE, s)
         else deq_timed_loop s ts }"

declare deq_timed_loop.simps [code]

definition deq_gate_tm :: "qstate \<Rightarrow> timespec \<Rightarrow> (sh_status \<times> qstate) option" where
  "deq_gate_tm s timeout = do {
     (_, s) \<leftarrow> AFA s (base_current s) CALL_BLOCKS 1;
     monitored \<leftarrow> is_call_monitored s (base_current s);
     s \<leftarrow> (if monitored then signal_call s else Some s);
     let (ts, s) = clock_gettime s;
     (status, s) \<leftarrow> deq_timed_loop s (timespecadd ts timeout);
     (_, s) \<leftarrow> AFA s (base_current s) CALL_UNBLOCKS 1;
     Some (status, s) }"

partial_function (option) enq_gate_try :: "qstate \<Rightarrow> (sh_status \<times> qstate) option" where
  "enq_gate_try s = do {
     (r, s) \<leftarrow> sem_trywait s (base_current s) ENQ_SEM;
     case r of
       None \<Rightarrow> Some (SH_OK, s)
     | Some e \<Rightarrow>
         if e = EAGAIN then Some (SH_ERR_LIMIT, s)
         else if e = EINVAL then Some (SH_ERR_STATE, s)
         else enq_gate_try s }"

declare enq_gate_try.simps [code]

partial_function (option) enq_gate_blk :: "qstate \<Rightarrow> (sh_status \<times> qstate) option" where
  "enq_gate_blk s = do {
     (r, s) \<leftarrow> sem_wait s (base_current s) ENQ_SEM;
     case r of
       None \<Rightarrow> Some (SH_OK, s)
     | Some e \<Rightarrow> if e = EINVAL then Some (SH_ERR_STATE, s) else enq_gate_blk s }"

declare enq_gate_blk.simps [code]

partial_function (option) enq_timed_loop ::
  "qstate \<Rightarrow> extent_ref \<Rightarrow> timespec \<Rightarrow> (sh_status \<times> qstate) option" where
  "enq_timed_loop s a ts = do {
     (r, s) \<leftarrow> sem_timedwait s a ENQ_SEM ts;
     case r of
       None \<Rightarrow> Some (SH_OK, s)
     | Some e \<Rightarrow>
         if e = ETIMEDOUT then Some (SH_ERR_LIMIT, s)
         else if e = EINVAL then Some (SH_ERR_STATE, s)
         else enq_timed_loop s a ts }"

declare enq_timed_loop.simps [code]

definition enq_gate_tm :: "qstate \<Rightarrow> timespec \<Rightarrow> (sh_status \<times> qstate) option" where
  "enq_gate_tm s timeout =
    (let a = base_current s; (ts, s) = clock_gettime s
     in enq_timed_loop s a (timespecadd ts timeout))"

section \<open>Posting a token\<close>

partial_function (option) post_loop :: "qstate \<Rightarrow> int \<Rightarrow> (sh_status \<times> qstate) option" where
  "post_loop s sem = do {
     (r, s) \<leftarrow> sem_post s (base_current s) sem;
     case r of
       None \<Rightarrow> Some (SH_OK, s)
     | Some e \<Rightarrow> if e = EINVAL then Some (SH_ERR_STATE, s) else post_loop s sem }"

declare post_loop.simps [code]

definition deq_release_gate :: "qstate \<Rightarrow> (sh_status \<times> qstate) option" where
  "deq_release_gate s = post_loop s DEQ_SEM"

definition enq_release_gate :: "qstate \<Rightarrow> (sh_status \<times> qstate) option" where
  "enq_release_gate s = post_loop s ENQ_SEM"

end
