(* ===== verification/Queue.thy ===== *)
theory Queue
  imports Gates
begin

text \<open>
  Adding and removing items (\<open>src/shared_q.c\<close>, the private functions between the gates).
  An item is a node and a data block. Nodes go to the end of the item list, or, when adaptive
  LIFO is on and the level is reached, on top of a stack that removals empty first. In the
  list an item's block is named by the node before which it will be removed: the head is a
  node already consumed.
\<close>

section \<open>Adding\<close>

partial_function (option) lifo_add_loop :: "qstate \<Rightarrow> extent_ref \<Rightarrow> long \<Rightarrow> qstate option" where
  "lifo_add_loop s a slot = do {
     top \<leftarrow> rd s a STACK_HEAD;
     s \<leftarrow> wr s a slot top;
     cnt \<leftarrow> rd s a STACK_HD_CNT;
     s \<leftarrow> wr s a (slot + 1) cnt;
     stack_before \<leftarrow> rd2 s a slot;
     (ok, s) \<leftarrow> DWCAS s a STACK_HEAD stack_before (slot, wrap64 (snd stack_before + 1));
     if ok then Some s else lifo_add_loop s a slot }"

declare lifo_add_loop.simps [code]

definition lifo_add :: "qstate \<Rightarrow> long \<Rightarrow> qstate option" where
  "lifo_add s slot = do {
     (view, s) \<leftarrow> insure_in_range s slot;
     lifo_add_loop s (v_ext view) slot }"

definition fifo_add :: "qstate \<Rightarrow> long \<Rightarrow> qstate option" where
  "fifo_add s slot = add_end s slot TAIL"

definition post_process_enq :: "qstate \<Rightarrow> long \<Rightarrow> long \<times> long \<Rightarrow> qstate option" where
  "post_process_enq s count curr_time = do {
     let a = base_current s;
     s \<leftarrow> (if count = 0 then update_empty_timestamp s a else Some s);
     flags \<leftarrow> rd s a FLAGS;
     (need_signal, s) \<leftarrow>
       (if flags AND FLAG_ACTIVATED = 0 then do {
          (set, s) \<leftarrow> set_flag s a FLAG_ACTIVATED;
          if set then add_event s SQ_EVNT_INIT else Some (False, s) }
        else Some (False, s));
     (added, s) \<leftarrow> (if count = 0 then add_event s SQ_EVNT_NONEMPTY else Some (False, s));
     let need_signal = (need_signal \<or> added);
     max_depth \<leftarrow> rd s a MAX_DEPTH;
     (added, s) \<leftarrow> (if count = max_depth - 1 then add_event s SQ_EVNT_LIMIT else Some (False, s));
     let need_signal = (need_signal \<or> added);
     monitored \<leftarrow> (if need_signal then is_monitored s a else Some False);
     s \<leftarrow> (if monitored then signal_event s else Some s);
     prev_time \<leftarrow> rd2 s a TS_SEC;
     (_, s) \<leftarrow> DWCAS s a TS_SEC prev_time curr_time;
     signal_arrival s }"

definition enq_data :: "qstate \<Rightarrow> long \<Rightarrow> (sh_status \<times> qstate) option" where
  "enq_data s data_slot = do {
     let a = base_current s;
     sec \<leftarrow> rd s a (data_slot + TM_SEC);
     nsec \<leftarrow> rd s a (data_slot + TM_NSEC);
     (view, s) \<leftarrow> alloc_idx_slots s;
     if v_slot view = 0 then do {
       (_, s) \<leftarrow> free_data_slots s data_slot;
       Some (SH_ERR_NOMEM, s) }
     else do {
       let node = v_slot view;
       let a = v_ext view;
       s \<leftarrow> wr s a (node + VALUE_OFFSET) data_slot;
       lifo \<leftarrow> is_adaptive_lifo s a;
       count \<leftarrow> rd s a COUNT;
       level \<leftarrow> rd s a LEVEL;
       s \<leftarrow> (if lifo \<and> count \<ge> level then lifo_add s node else fifo_add s node);
       (count, s) \<leftarrow> AFA s a COUNT 1;
       s \<leftarrow> post_process_enq s count (sec, nsec);
       s \<leftarrow> release_prev_extents s;
       Some (SH_OK, s) } }"

definition enq :: "qstate \<Rightarrow> byte list option \<Rightarrow> int \<Rightarrow> int \<Rightarrow> (sh_status \<times> qstate) option" where
  "enq s val len type =
    (if val = None \<or> len \<le> 0 then Some (SH_ERR_ARG, s)
     else do {
       (data_slot, s) \<leftarrow> copy_value s val len type;
       if data_slot = 0 then Some (SH_ERR_NOMEM, s)
       else if data_slot < HDR_END then Some (SH_ERR_STATE, s)
       else enq_data s data_slot })"

definition enqv :: "qstate \<Rightarrow> vec list option \<Rightarrow> int \<Rightarrow> (sh_status \<times> qstate) option" where
  "enqv s vector vcnt =
    (if vector = None \<or> vcnt < 2 then Some (SH_ERR_ARG, s)
     else do {
       (data_slot, s) \<leftarrow> copy_vector s vector vcnt;
       if data_slot < 0 then Some (SH_ERR_ARG, s)
       else if data_slot = 0 then Some (SH_ERR_NOMEM, s)
       else if data_slot < HDR_END then Some (SH_ERR_STATE, s)
       else enq_data s data_slot })"

section \<open>Removing\<close>

definition next_item :: "qstate \<Rightarrow> long \<Rightarrow> (long \<times> qstate) option" where
  "next_item s slot = do {
     (view, s) \<leftarrow> insure_in_range s slot;
     if v_slot view = 0 then Some (0, s)
     else do {
       next \<leftarrow> rd s (v_ext view) slot;
       if next = 0 then Some (0, s)
       else do {
         (view, s) \<leftarrow> insure_in_range s (next + VALUE_OFFSET);
         if v_slot view = 0 then Some (0, s)
         else if next < HDR_END then Some (0, s)
         else do {
           data_slot \<leftarrow> rd s (v_ext view) (next + VALUE_OFFSET);
           Some (data_slot, s) } } } }"

definition remove_top :: "qstate \<Rightarrow> long \<Rightarrow> long \<Rightarrow> (long \<times> qstate) option" where
  "remove_top s slot gen = do {
     let a = base_current s;
     at_top \<leftarrow> (if slot \<ge> HDR_END then rd2 s a STACK_HEAD else Some (0, 0));
     if slot \<ge> HDR_END \<and> slot = fst at_top \<and> gen = snd at_top then do {
       (view, s) \<leftarrow> insure_in_range s slot;
       let a = v_ext view;
       low \<leftarrow> rd s a slot;
       (ok, s) \<leftarrow> DWCAS s a STACK_HEAD (slot, gen) (low, wrap64 (gen + 1));
       if ok then do {
         s \<leftarrow> clear_slots s a slot 2;
         Some (slot, s) }
       else Some (0, s) }
     else Some (0, s) }"

definition lifo_remove :: "qstate \<Rightarrow> (long \<times> qstate) option" where
  "lifo_remove s = do {
     let a = base_current s;
     gen \<leftarrow> rd s a STACK_HD_CNT;
     top \<leftarrow> rd s a STACK_HEAD;
     (view, s) \<leftarrow> insure_in_range s top;
     data_slot \<leftarrow> rd s (v_ext view) (top + VALUE_OFFSET);
     if data_slot = 0 then Some (0, s)
     else do {
       (r, s) \<leftarrow> remove_top s top gen;
       if r = 0 then Some (0, s)
       else do {
         s \<leftarrow> add_end s top FREE_TAIL;
         Some (data_slot, s) } } }"

definition fifo_remove :: "qstate \<Rightarrow> (long \<times> qstate) option" where
  "fifo_remove s = do {
     let a = base_current s;
     gen \<leftarrow> rd s a HEAD_CNT;
     head \<leftarrow> rd s a HEAD;
     tail \<leftarrow> rd s a TAIL;
     if head = tail then Some (0, s)
     else do {
       (view, s) \<leftarrow> insure_in_range s head;
       (data_slot, s) \<leftarrow> next_item s head;
       if data_slot = 0 then Some (0, s)
       else do {
         (r, s) \<leftarrow> remove_front s head gen HEAD TAIL;
         if r = 0 then Some (0, s)
         else do {
           s \<leftarrow> add_end s head FREE_TAIL;
           Some (data_slot, s) } } } }"

definition safely_copy_data ::
  "qstate \<Rightarrow> long \<Rightarrow> sq_item \<Rightarrow> ubuf \<Rightarrow> (bool \<times> sq_item \<times> ubuf \<times> qstate) option" where
  "safely_copy_data s data_slot item b = do {
     (view, s) \<leftarrow> insure_in_range s data_slot;
     if v_slot view = 0 then Some (False, item, b, s)
     else do {
       slots \<leftarrow> rd s (v_ext view) (data_slot + DATA_SLOTS);
       (view, s) \<leftarrow> insure_in_range s (data_slot + slots - 1);
       if v_slot view = 0 then Some (False, item, b, s)
       else do {
         (item, b, s) \<leftarrow> copy_to_buffer s (v_ext view) data_slot item b;
         Some (True, item, b, s) } } }"

definition post_process_deq :: "qstate \<Rightarrow> long \<Rightarrow> sq_item \<Rightarrow> (sq_item \<times> qstate) option" where
  "post_process_deq s data_slot item = do {
     let a = base_current s;
     (count, s) \<leftarrow> AFS s a COUNT 1;
     active \<leftarrow> is_codel_active s a;
     s \<leftarrow> (if active \<and> count = 1 then clear_empty_timestamp s a else Some s);
     discard \<leftarrow> is_discard_on_expire s a;
     (expired, s) \<leftarrow> (if discard then item_exceeds_delay s data_slot a else Some (False, s));
     (need_signal, s) \<leftarrow> (if count = 1 then add_event s SQ_EVNT_EMPTY else Some (False, s));
     (added, s) \<leftarrow> (if expired then add_event s SQ_EVNT_TIME else Some (False, s));
     let need_signal = (need_signal \<or> added);
     discard \<leftarrow> (if expired then is_discard_on_expire s a else Some False);
     (item, s) \<leftarrow>
       (if expired \<and> discard then do {
          (_, s) \<leftarrow> free_data_slots s data_slot;
          Some (empty_item SH_ERR_EXIST, s) }
        else do {
          (status, s) \<leftarrow> free_data_slots s data_slot;
          Some (item\<lparr>i_status := status\<rparr>, s) });
     monitored \<leftarrow> (if need_signal then is_monitored s a else Some False);
     s \<leftarrow> (if monitored then signal_event s else Some s);
     Some (item, s) }"

text \<open>The search loop of \<open>deq\<close>: the data slot it finds, 0 when the queue is empty.\<close>

partial_function (option) deq_loop :: "qstate \<Rightarrow> extent_ref \<Rightarrow> (long \<times> qstate) option" where
  "deq_loop s a = do {
     top \<leftarrow> rd s a STACK_HEAD;
     if top = 0 then do {
       head \<leftarrow> rd s a HEAD;
       tail \<leftarrow> rd s a TAIL;
       if head = tail then Some (0, s)
       else do {
         (data_slot, s) \<leftarrow> fifo_remove s;
         if data_slot = 0 then deq_loop s a else Some (data_slot, s) } }
     else do {
       (data_slot, s) \<leftarrow> lifo_remove s;
       if data_slot = 0 then deq_loop s a else Some (data_slot, s) } }"

declare deq_loop.simps [code]

definition deq :: "qstate \<Rightarrow> ubuf \<Rightarrow> (sq_item \<times> ubuf \<times> qstate) option" where
  "deq s b = do {
     let item = empty_item SH_ERR_EMPTY;
     (data_slot, s) \<leftarrow> deq_loop s (base_current s);
     if data_slot = 0 then do {
       s \<leftarrow> release_prev_extents s;
       Some (item, b, s) }
     else do {
       (copied, item, b, s) \<leftarrow> safely_copy_data s data_slot item b;
       (item, s) \<leftarrow> (if copied then post_process_deq s data_slot item else Some (item, s));
       s \<leftarrow> release_prev_extents s;
       Some (item, b, s) } }"

end
