(* ===== verification/Api.thy ===== *)
theory Api
  imports Queue
begin

text \<open>
  The public functions of \<open>src/shared_q.c\<close> on an open queue. A queue argument is a handle
  that may be \<open>NULL\<close> (\<open>None\<close>); a value, a vector or a time-out likewise. Every function
  guards the mappings while it runs (\<open>accessors\<close>). Creating, opening and closing a queue is
  in theory Lifecycle.
\<close>

text \<open>A call with a handle that is \<open>NULL\<close> returns \<open>null\<close>.\<close>

definition on_queue ::
  "qstate option \<Rightarrow> 'r \<Rightarrow> (qstate \<Rightarrow> ('r \<times> qstate) option) \<Rightarrow> ('r \<times> qstate option) option" where
  "on_queue q null f =
    (case q of
       None \<Rightarrow> Some (null, None)
     | Some s \<Rightarrow> do { (r, s) \<leftarrow> f s; Some (r, Some s) })"

text \<open>\<open>sq_mode_e\<close>.\<close>

abbreviation (input) SQ_READ_ONLY :: int where "SQ_READ_ONLY \<equiv> 1"
abbreviation (input) SQ_WRITE_ONLY :: int where "SQ_WRITE_ONLY \<equiv> 2"

section \<open>Registration for signals\<close>

text \<open>The three registrations differ in the slots they set.\<close>

definition register ::
  "qstate \<Rightarrow> int \<Rightarrow> int \<Rightarrow> int \<Rightarrow> (sh_status \<times> qstate) option" where
  "register s pid_slot signal_slot signal =
    (if signal < 0 then Some (SH_ERR_ARG, s)
     else do {
       let s = guard_q_memory s;
       let pid = my_pid s;
       prev \<leftarrow> rd s (base_current s) pid_slot;
       let pid = (if signal = 0 then 0 else pid);
       (ok, s) \<leftarrow> CAS s (base_current s) pid_slot prev pid;
       if ok then do {
         s \<leftarrow> wr s (base_current s) signal_slot signal;
         Some (SH_OK, unguard_q_memory s) }
       else Some (SH_ERR_STATE, unguard_q_memory s) })"

definition shr_q_monitor :: "qstate option \<Rightarrow> int \<Rightarrow> (sh_status \<times> qstate option) option" where
  "shr_q_monitor q signal = on_queue q SH_ERR_ARG (\<lambda>s. register s NOTIFY_PID NOTIFY_SIGNAL signal)"

definition shr_q_listen :: "qstate option \<Rightarrow> int \<Rightarrow> (sh_status \<times> qstate option) option" where
  "shr_q_listen q signal = on_queue q SH_ERR_ARG (\<lambda>s. register s LISTEN_PID LISTEN_SIGNAL signal)"

definition shr_q_call :: "qstate option \<Rightarrow> int \<Rightarrow> (sh_status \<times> qstate option) option" where
  "shr_q_call q signal = on_queue q SH_ERR_ARG (\<lambda>s. register s CALL_PID CALL_SIGNAL signal)"

section \<open>Adding\<close>

text \<open>The common part of the six functions, behind the checks of their arguments: gate, add,
  release.\<close>

definition add_through ::
  "qstate \<Rightarrow> (qstate \<Rightarrow> (sh_status \<times> qstate) option) \<Rightarrow> (qstate \<Rightarrow> (sh_status \<times> qstate) option) \<Rightarrow>
   (sh_status \<times> qstate) option" where
  "add_through s gate add = do {
     let s = guard_q_memory s;
     (status, s) \<leftarrow> gate s;
     if status \<noteq> SH_OK then Some (status, unguard_q_memory s)
     else do {
       (status, s) \<leftarrow> add s;
       if status \<noteq> SH_OK then do {
         (_, s) \<leftarrow> enq_release_gate s;
         Some (status, unguard_q_memory s) }
       else do {
         (status, s) \<leftarrow> deq_release_gate s;
         if status \<noteq> SH_OK then Some (status, unguard_q_memory s)
         else do {
           s \<leftarrow> check_for_level_event s;
           Some (status, unguard_q_memory s) } } } }"

definition shr_q_add :: "qstate option \<Rightarrow> byte list option \<Rightarrow> int \<Rightarrow> (sh_status \<times> qstate option) option" where
  "shr_q_add q val len = on_queue q SH_ERR_ARG (\<lambda>s.
     if val = None \<or> len \<le> 0 then Some (SH_ERR_ARG, s)
     else if mode s AND SQ_WRITE_ONLY = 0 then Some (SH_ERR_STATE, s)
     else add_through s enq_gate_try (\<lambda>s. enq s val len SH_STRM_T))"

definition shr_q_add_wait ::
  "qstate option \<Rightarrow> byte list option \<Rightarrow> int \<Rightarrow> (sh_status \<times> qstate option) option" where
  "shr_q_add_wait q val len = on_queue q SH_ERR_ARG (\<lambda>s.
     if val = None \<or> len \<le> 0 then Some (SH_ERR_ARG, s)
     else if mode s AND SQ_WRITE_ONLY = 0 then Some (SH_ERR_STATE, s)
     else add_through s enq_gate_blk (\<lambda>s. enq s val len SH_STRM_T))"

definition shr_q_add_timedwait ::
  "qstate option \<Rightarrow> byte list option \<Rightarrow> int \<Rightarrow> timespec option \<Rightarrow> (sh_status \<times> qstate option) option" where
  "shr_q_add_timedwait q val len timeout = on_queue q SH_ERR_ARG (\<lambda>s.
     case timeout of
       None \<Rightarrow> Some (SH_ERR_ARG, s)
     | Some t \<Rightarrow>
         if val = None \<or> len \<le> 0 then Some (SH_ERR_ARG, s)
         else if mode s AND SQ_WRITE_ONLY = 0 then Some (SH_ERR_STATE, s)
         else add_through s (\<lambda>s. enq_gate_tm s t) (\<lambda>s. enq s val len SH_STRM_T))"

text \<open>One element is added as a plain value of its type.\<close>

definition enq_elements :: "vec list option \<Rightarrow> int \<Rightarrow> qstate \<Rightarrow> (sh_status \<times> qstate) option" where
  "enq_elements vector vcnt s =
    (if vcnt = 1 then
       (case vector of
          Some (v # _) \<Rightarrow> enq s (vec_base v) (vec_len v) (vec_type v)
        | _ \<Rightarrow> None)
     else enqv s vector vcnt)"

definition shr_q_addv :: "qstate option \<Rightarrow> vec list option \<Rightarrow> int \<Rightarrow> (sh_status \<times> qstate option) option" where
  "shr_q_addv q vector vcnt = on_queue q SH_ERR_ARG (\<lambda>s.
     if vector = None \<or> vcnt < 1 then Some (SH_ERR_ARG, s)
     else if mode s AND SQ_WRITE_ONLY = 0 then Some (SH_ERR_STATE, s)
     else add_through s enq_gate_try (enq_elements vector vcnt))"

definition shr_q_addv_wait ::
  "qstate option \<Rightarrow> vec list option \<Rightarrow> int \<Rightarrow> (sh_status \<times> qstate option) option" where
  "shr_q_addv_wait q vector vcnt = on_queue q SH_ERR_ARG (\<lambda>s.
     if vector = None \<or> vcnt < 1 then Some (SH_ERR_ARG, s)
     else if mode s AND SQ_WRITE_ONLY = 0 then Some (SH_ERR_STATE, s)
     else add_through s enq_gate_blk (enq_elements vector vcnt))"

definition shr_q_addv_timedwait ::
  "qstate option \<Rightarrow> vec list option \<Rightarrow> int \<Rightarrow> timespec option \<Rightarrow> (sh_status \<times> qstate option) option" where
  "shr_q_addv_timedwait q vector vcnt timeout = on_queue q SH_ERR_ARG (\<lambda>s.
     case timeout of
       None \<Rightarrow> Some (SH_ERR_ARG, s)
     | Some t \<Rightarrow>
         if vector = None \<or> vcnt < 1 then Some (SH_ERR_ARG, s)
         else if mode s AND SQ_WRITE_ONLY = 0 then Some (SH_ERR_STATE, s)
         else add_through s (\<lambda>s. enq_gate_tm s t) (enq_elements vector vcnt))"

section \<open>Removing\<close>

text \<open>The loop of the three functions: an expired item is dropped and the next one tried.\<close>

partial_function (option) remove_loop ::
  "(qstate \<Rightarrow> (sh_status \<times> qstate) option) \<Rightarrow> qstate \<Rightarrow> sq_item \<Rightarrow> ubuf \<Rightarrow> (sq_item \<times> ubuf \<times> qstate) option" where
  "remove_loop gate s item b = do {
     (status, s) \<leftarrow> gate s;
     if status \<noteq> SH_OK then Some (item\<lparr>i_status := status\<rparr>, b, s)
     else do {
       (item, b, s) \<leftarrow> deq s b;
       if i_status item \<noteq> SH_ERR_EXIST then
         (if i_status item \<noteq> SH_OK then do {
            (_, s) \<leftarrow> deq_release_gate s;
            Some (item, b, s) }
          else do {
            (status, s) \<leftarrow> enq_release_gate s;
            Some (item\<lparr>i_status := status\<rparr>, b, s) })
       else do {
         (_, s) \<leftarrow> enq_release_gate s;
         remove_loop gate s item b } } }"

declare remove_loop.simps [code]

text \<open>The buffer argument is the pair of addresses \<open>buffer\<close> and \<open>buff_size\<close>; \<open>None\<close> when one
  of them is \<open>NULL\<close>.\<close>

definition remove_through ::
  "qstate option \<Rightarrow> ubuf option \<Rightarrow> (qstate \<Rightarrow> (sh_status \<times> qstate) option) \<Rightarrow>
   (sq_item \<times> ubuf option \<times> qstate option) option" where
  "remove_through q buf gate =
    (case (q, buf) of
       (Some s, Some b) \<Rightarrow>
         if ub_mem b \<noteq> None \<and> ub_size b \<le> 0 then Some (empty_item SH_ERR_ARG, buf, q)
         else if mode s AND SQ_READ_ONLY = 0 then Some (empty_item SH_ERR_STATE, buf, q)
         else do {
           (item, b, s) \<leftarrow> remove_loop gate (guard_q_memory s) (empty_item SH_OK) b;
           Some (item, Some b, Some (unguard_q_memory s)) }
     | _ \<Rightarrow> Some (empty_item SH_ERR_ARG, buf, q))"

definition shr_q_remove ::
  "qstate option \<Rightarrow> ubuf option \<Rightarrow> (sq_item \<times> ubuf option \<times> qstate option) option" where
  "shr_q_remove q buf = remove_through q buf deq_gate_try"

definition shr_q_remove_wait ::
  "qstate option \<Rightarrow> ubuf option \<Rightarrow> (sq_item \<times> ubuf option \<times> qstate option) option" where
  "shr_q_remove_wait q buf = remove_through q buf deq_gate_blk"

definition shr_q_remove_timedwait ::
  "qstate option \<Rightarrow> ubuf option \<Rightarrow> timespec option \<Rightarrow> (sq_item \<times> ubuf option \<times> qstate option) option" where
  "shr_q_remove_timedwait q buf timeout =
    (case timeout of
       None \<Rightarrow> Some (empty_item SH_ERR_ARG, buf, q)
     | Some t \<Rightarrow> remove_through q buf (\<lambda>s. deq_gate_tm s t))"

section \<open>Events\<close>

partial_function (option) event_loop ::
  "qstate \<Rightarrow> extent_ref \<Rightarrow> sq_event \<Rightarrow> long \<Rightarrow> long \<Rightarrow> (sq_event \<times> qstate) option" where
  "event_loop s a event gen head = do {
     tail \<leftarrow> rd s a EVENT_TAIL;
     if head = tail then Some (event, s)
     else do {
       (event, s) \<leftarrow> next_event s head;
       (r, s) \<leftarrow> remove_front s head gen EVENT_HEAD EVENT_TAIL;
       if r \<noteq> 0 then do {
         s \<leftarrow> add_end s head FREE_TAIL;
         Some (event, s) }
       else do {
         gen \<leftarrow> rd s a EVENT_HD_CNT;
         head \<leftarrow> rd s a EVENT_HEAD;
         event_loop s a SQ_EVNT_NONE gen head } } }"

declare event_loop.simps [code]

definition take_event :: "qstate \<Rightarrow> extent_ref \<Rightarrow> (sq_event \<times> qstate) option" where
  "take_event s a = do {
     gen \<leftarrow> rd s a EVENT_HD_CNT;
     head \<leftarrow> rd s a EVENT_HEAD;
     (event, s) \<leftarrow> event_loop s a SQ_EVNT_NONE gen head;
     s \<leftarrow> release_prev_extents s;
     Some (event, unguard_q_memory s) }"

definition shr_q_event :: "qstate option \<Rightarrow> (sq_event \<times> qstate option) option" where
  "shr_q_event q = on_queue q SQ_EVNT_NONE (\<lambda>s. do {
     let s = guard_q_memory s;
     let a = base_current s;
     (r, s) \<leftarrow> sem_trywait s a EVNT_SEM;
     if r \<noteq> None then Some (SQ_EVNT_NONE, unguard_q_memory s)
     else take_event s a })"

partial_function (option) event_wait_loop :: "qstate \<Rightarrow> timespec \<Rightarrow> (bool \<times> qstate) option" where
  "event_wait_loop s ts = do {
     (r, s) \<leftarrow> sem_timedwait s (base_current s) EVNT_SEM ts;
     case r of
       None \<Rightarrow> Some (True, s)
     | Some e \<Rightarrow> if e = ETIMEDOUT \<or> e = EINVAL then Some (False, s) else event_wait_loop s ts }"

declare event_wait_loop.simps [code]

text \<open>The time-out is not checked for \<open>NULL\<close>.\<close>

definition shr_q_event_timedwait ::
  "qstate option \<Rightarrow> timespec option \<Rightarrow> (sq_event \<times> qstate option) option" where
  "shr_q_event_timedwait q timeout = on_queue q SQ_EVNT_NONE (\<lambda>s. do {
     let s = guard_q_memory s;
     let a = base_current s;
     let (ts, s) = clock_gettime s;
     timeout \<leftarrow> timeout;
     (got, s) \<leftarrow> event_wait_loop s (timespecadd ts timeout);
     if got then take_event s a else Some (SQ_EVNT_NONE, unguard_q_memory s) })"

section \<open>Queries\<close>

definition shr_q_exceeds_idle_time ::
  "qstate option \<Rightarrow> long \<Rightarrow> long \<Rightarrow> (bool \<times> qstate option) option" where
  "shr_q_exceeds_idle_time q lim_secs lim_nsecs = on_queue q False (\<lambda>s. do {
     let s = guard_q_memory s;
     let a = base_current s;
     let (curr_time, s) = clock_gettime s;
     ts_sec \<leftarrow> rd s a TS_SEC;
     let secs = tv_sec curr_time - ts_sec;
     if secs > lim_secs then Some (True, unguard_q_memory s)
     else if secs < lim_secs then Some (False, unguard_q_memory s)
     else do {
       ts_nsec \<leftarrow> rd s a TS_NSEC;
       let nsecs = tv_nsec curr_time - ts_nsec;
       if nsecs > lim_nsecs then Some (True, unguard_q_memory s)
       else if nsecs < lim_nsecs then Some (False, unguard_q_memory s)
       else Some (True, unguard_q_memory s) } })"

definition shr_q_count :: "qstate option \<Rightarrow> (long \<times> qstate option) option" where
  "shr_q_count q = on_queue q (- 1) (\<lambda>s. do {
     let s = guard_q_memory s;
     result \<leftarrow> rd s (base_current s) COUNT;
     Some (result, unguard_q_memory s) })"

definition shr_q_buffer :: "qstate option \<Rightarrow> (long \<times> qstate option) option" where
  "shr_q_buffer q = on_queue q 0 (\<lambda>s. do {
     let s = guard_q_memory s;
     result \<leftarrow> rd s (base_current s) BUFFER;
     Some (result, unguard_q_memory s) })"

definition shr_q_last_empty ::
  "qstate option \<Rightarrow> timespec option \<Rightarrow> ((sh_status \<times> timespec option) \<times> qstate option) option" where
  "shr_q_last_empty q timestamp = on_queue q (SH_ERR_ARG, timestamp) (\<lambda>s.
     if timestamp = None then Some ((SH_ERR_ARG, timestamp), s)
     else do {
       let s = guard_q_memory s;
       count \<leftarrow> rd s (base_current s) COUNT;
       if count = 0 then Some ((SH_ERR_EMPTY, timestamp), unguard_q_memory s)
       else do {
         ts \<leftarrow> rd_ts s (base_current s) EMPTY_SEC;
         Some ((SH_OK, Some ts), unguard_q_memory s) } })"

definition shr_q_will_discard :: "qstate option \<Rightarrow> (bool \<times> qstate option) option" where
  "shr_q_will_discard q = on_queue q False (\<lambda>s. do {
     let s = guard_q_memory s;
     result \<leftarrow> is_discard_on_expire s (base_current s);
     Some (result, unguard_q_memory s) })"

definition shr_q_will_lifo :: "qstate option \<Rightarrow> (bool \<times> qstate option) option" where
  "shr_q_will_lifo q = on_queue q False (\<lambda>s. do {
     let s = guard_q_memory s;
     result \<leftarrow> is_adaptive_lifo s (base_current s);
     Some (result, unguard_q_memory s) })"

definition shr_q_is_subscribed :: "qstate option \<Rightarrow> sq_event \<Rightarrow> (bool \<times> qstate option) option" where
  "shr_q_is_subscribed q event = on_queue q False (\<lambda>s.
     if event = SQ_EVNT_NONE \<or> event = SQ_EVNT_ALL then Some (False, s)
     else do {
       let s = guard_q_memory s;
       disabled \<leftarrow> event_disabled s (base_current s) event;
       Some (\<not> disabled, unguard_q_memory s) })"

definition shr_q_call_count :: "qstate option \<Rightarrow> (long \<times> qstate option) option" where
  "shr_q_call_count q = on_queue q (- 1) (\<lambda>s. do {
     let s = guard_q_memory s;
     unblocks \<leftarrow> rd s (base_current s) CALL_UNBLOCKS;
     blocks \<leftarrow> rd s (base_current s) CALL_BLOCKS;
     Some (wrap64 (blocks - unblocks), unguard_q_memory s) })"

section \<open>Configuration\<close>

definition shr_q_level :: "qstate option \<Rightarrow> int \<Rightarrow> (sh_status \<times> qstate option) option" where
  "shr_q_level q level = on_queue q SH_ERR_ARG (\<lambda>s.
     if level \<le> 0 then Some (SH_ERR_ARG, s)
     else do {
       let s = guard_q_memory s;
       let a = base_current s;
       prev \<leftarrow> rd s a LEVEL;
       (_, s) \<leftarrow> CAS s a LEVEL prev level;
       Some (SH_OK, unguard_q_memory s) })"

definition shr_q_timelimit :: "qstate option \<Rightarrow> long \<Rightarrow> long \<Rightarrow> (sh_status \<times> qstate option) option" where
  "shr_q_timelimit q seconds nanoseconds = on_queue q SH_ERR_ARG (\<lambda>s. do {
     let s = guard_q_memory s;
     s \<leftarrow> store_pair_loop s (base_current s) LIMIT_SEC (seconds, nanoseconds);
     Some (SH_OK, unguard_q_memory s) })"

definition shr_q_discard :: "qstate option \<Rightarrow> bool \<Rightarrow> (sh_status \<times> qstate option) option" where
  "shr_q_discard q flag = on_queue q SH_ERR_ARG (\<lambda>s. do {
     let s = guard_q_memory s;
     (_, s) \<leftarrow> (if flag then set_flag s (base_current s) FLAG_DISCARD_EXPIRED
                else clear_flag s (base_current s) FLAG_DISCARD_EXPIRED);
     Some (SH_OK, unguard_q_memory s) })"

definition shr_q_limit_lifo :: "qstate option \<Rightarrow> bool \<Rightarrow> (sh_status \<times> qstate option) option" where
  "shr_q_limit_lifo q flag = on_queue q SH_ERR_ARG (\<lambda>s. do {
     let s = guard_q_memory s;
     (_, s) \<leftarrow> (if flag then set_flag s (base_current s) FLAG_LIFO_ON_LEVEL
                else clear_flag s (base_current s) FLAG_LIFO_ON_LEVEL);
     Some (SH_OK, unguard_q_memory s) })"

definition shr_q_subscribe :: "qstate option \<Rightarrow> sq_event \<Rightarrow> (sh_status \<times> qstate option) option" where
  "shr_q_subscribe q event = on_queue q SH_ERR_ARG (\<lambda>s. do {
     let flag = get_event_flag event;
     let s = guard_q_memory s;
     (_, s) \<leftarrow> (if flag \<noteq> 0 then set_flag s (base_current s) flag else Some (False, s));
     Some (SH_OK, unguard_q_memory s) })"

definition shr_q_unsubscribe :: "qstate option \<Rightarrow> sq_event \<Rightarrow> (sh_status \<times> qstate option) option" where
  "shr_q_unsubscribe q event = on_queue q SH_ERR_ARG (\<lambda>s. do {
     let flag = get_event_flag event;
     let s = guard_q_memory s;
     (_, s) \<leftarrow> (if flag \<noteq> 0 then clear_flag s (base_current s) flag else Some (False, s));
     Some (SH_OK, unguard_q_memory s) })"

definition shr_q_target_delay :: "qstate option \<Rightarrow> long \<Rightarrow> long \<Rightarrow> (sh_status \<times> qstate option) option" where
  "shr_q_target_delay q seconds nanoseconds =
    (case q of
       None \<Rightarrow> Some (SH_ERR_ARG, None)
     | Some s \<Rightarrow> do {
         let s = guard_q_memory s;
         s \<leftarrow> store_pair_loop s (base_current s) TARGET_SEC (seconds, nanoseconds);
         shr_q_discard (Some (unguard_q_memory s)) True })"

definition shr_q_prod :: "qstate option \<Rightarrow> (sh_status \<times> qstate option) option" where
  "shr_q_prod q = on_queue q SH_ERR_ARG (\<lambda>s. do {
     (status, s) \<leftarrow> post_loop (guard_q_memory s) DEQ_SEM;
     Some (status, unguard_q_memory s) })"

section \<open>Removing expired items\<close>

text \<open>The loop of \<open>shr_q_clean\<close>; \<open>break\<close> posts the token taken for the item that stays.\<close>

definition clean_break :: "qstate \<Rightarrow> (sh_status \<times> qstate) option" where
  "clean_break s = do {
     (status, s) \<leftarrow> deq_release_gate s;
     Some (status, unguard_q_memory s) }"

partial_function (option) clean_loop :: "qstate \<Rightarrow> timespec \<Rightarrow> (sh_status \<times> qstate) option" where
  "clean_loop s timelimit = do {
     (status, s) \<leftarrow> deq_gate_try s;
     if status \<noteq> SH_OK then
       Some (if status = SH_ERR_EMPTY then SH_OK else status, unguard_q_memory s)
     else do {
       let a = base_current s;
       gen \<leftarrow> rd s a HEAD_CNT;
       head \<leftarrow> rd s a HEAD;
       tail \<leftarrow> rd s a TAIL;
       if head = tail then clean_break s
       else do {
         (view, s) \<leftarrow> insure_in_range s head;
         let a = v_ext view;
         (data_slot, s) \<leftarrow> next_item s head;
         if data_slot = 0 then clean_break s
         else do {
           (view, s) \<leftarrow> insure_in_range s data_slot;
           if v_slot view = 0 then clean_break s
           else do {
             let (curr_time, s) = clock_gettime s;
             (old, s) \<leftarrow> item_exceeds_limit s data_slot timelimit curr_time;
             if \<not> old then clean_break s
             else do {
               (r, s) \<leftarrow> remove_front s head gen HEAD TAIL;
               if r = 0 then clean_break s
               else do {
                 (_, s) \<leftarrow> AFS s a COUNT 1;
                 s \<leftarrow> add_end s head FREE_TAIL;
                 (_, s) \<leftarrow> free_data_slots s data_slot;
                 (status, s) \<leftarrow> enq_release_gate s;
                 if status \<noteq> SH_OK then Some (status, unguard_q_memory s)
                 else clean_loop s timelimit } } } } } } }"

declare clean_loop.simps [code]

definition shr_q_clean :: "qstate option \<Rightarrow> timespec option \<Rightarrow> (sh_status \<times> qstate option) option" where
  "shr_q_clean q timelimit = on_queue q SH_ERR_ARG (\<lambda>s.
     case timelimit of
       None \<Rightarrow> Some (SH_ERR_ARG, s)
     | Some t \<Rightarrow>
         if mode s AND SQ_READ_ONLY = 0 then Some (SH_ERR_STATE, s)
         else clean_loop (guard_q_memory s) t)"

end
