(* ===== verification/Lifecycle.thy ===== *)
theory Lifecycle
  imports Api
begin

text \<open>
  Creating, opening, closing and destroying a queue (\<open>src/shared_int.c\<close>:
  \<open>create_base_object\<close> and what it calls, \<open>map_shared_memory\<close>, \<open>close_base\<close>,
  \<open>release_mapped_memory\<close>; \<open>src/shared_q.c\<close>: \<open>format_as_queue\<close>, \<open>shr_q_create\<close>,
  \<open>shr_q_open\<close>, \<open>shr_q_close\<close>, \<open>shr_q_destroy\<close>, \<open>shr_q_is_valid\<close>).

  The named objects are a map from paths to objects. A process without a handle is a state
  with nothing mapped; opening an object copies it into the state, and the map holds it again
  once the handle is closed.
\<close>

section \<open>Named objects\<close>

record shm_obj =
  so_cells :: "int \<Rightarrow> long"
  so_size :: int
  so_sems :: "int \<Rightarrow> int"

type_synonym objects = "string \<Rightarrow> shm_obj option"

definition stat_objects :: "objects \<Rightarrow> stat_fn" where
  "stat_objects fs p = (case fs p of None \<Rightarrow> Inl ENOENT | Some ob \<Rightarrow> Inr (True, so_size ob))"

definition attach :: "shm_obj \<Rightarrow> qstate \<Rightarrow> qstate" where
  "attach ob s = s\<lparr>cells := so_cells ob, fsize := so_size ob, sems := so_sems ob\<rparr>"

definition detach :: "qstate \<Rightarrow> shm_obj" where
  "detach s = \<lparr>so_cells = cells s, so_size = fsize s, so_sems = sems s\<rparr>"

text \<open>The map again holds the object a handle was opened on, unless it was unlinked.\<close>

definition write_back :: "objects \<Rightarrow> string \<Rightarrow> qstate \<Rightarrow> objects" where
  "write_back fs name s =
    (if fs (object_path name) = None then fs else fs(object_path name := Some (detach s)))"

text \<open>A process before it has a handle; reference 0 stands for \<open>NULL\<close>.\<close>

definition no_handle :: "qstate \<Rightarrow> qstate" where
  "no_handle s = s\<lparr>cells := (\<lambda>_. 0), fsize := 0, sems := (\<lambda>_. 0), extents := (\<lambda>_. None),
     fresh_ext := 1, base_prev := 0, base_current := 0, accessors := 0, mode := 0\<rparr>"

text \<open>\<open>shm_open\<close> without and with \<open>O_CREAT | O_EXCL\<close>.\<close>

definition shm_open :: "objects \<Rightarrow> string \<Rightarrow> qstate \<Rightarrow> (errno + shm_obj) \<times> qstate" where
  "shm_open fs name s =
    (case os_call s of
       (Some e, s) \<Rightarrow> (Inl e, s)
     | (None, s) \<Rightarrow> (case fs (object_path name) of None \<Rightarrow> (Inl ENOENT, s) | Some ob \<Rightarrow> (Inr ob, s)))"

definition shm_create :: "objects \<Rightarrow> string \<Rightarrow> qstate \<Rightarrow> (errno + shm_obj) \<times> qstate" where
  "shm_create fs name s =
    (case os_call s of
       (Some e, s) \<Rightarrow> (Inl e, s)
     | (None, s) \<Rightarrow>
         (case fs (object_path name) of
            Some _ \<Rightarrow> (Inl EEXIST, s)
          | None \<Rightarrow> (Inr \<lparr>so_cells = (\<lambda>_. 0), so_size = 0, so_sems = (\<lambda>_. 0)\<rparr>, s)))"

section \<open>The base object\<close>

definition init_base_struct :: "qstate \<Rightarrow> sh_status \<times> qstate" where
  "init_base_struct s =
    (case os_call s of
       (Some _, s) \<Rightarrow> (SH_ERR_NOMEM, s)
     | (None, s) \<Rightarrow>
         (case os_call s of
            (Some _, s) \<Rightarrow> (SH_ERR_NOMEM, s)
          | (None, s) \<Rightarrow> (SH_OK, s)))"

definition allocate_shared_memory ::
  "objects \<Rightarrow> string \<Rightarrow> long \<Rightarrow> qstate \<Rightarrow> sh_status \<times> objects \<times> qstate" where
  "allocate_shared_memory fs name sz s =
    (case shm_create fs name s of
       (Inl e, s) \<Rightarrow> (if e = EINVAL then SH_ERR_PATH else convert_to_status e, fs, s)
     | (Inr ob, s) \<Rightarrow>
         (case os_call s of
            (Some e, s) \<Rightarrow> (convert_to_status e, fs, s)
          | (None, s) \<Rightarrow>
              let s = do_ftruncate sz (attach ob s)
              in (SH_OK, fs(object_path name := Some (detach s)), s)))"

definition SHRQ :: "byte list" where
  "SHRQ = [0x73, 0x68, 0x72, 0x71]"

abbreviation (input) QVERSION :: int where "QVERSION \<equiv> 3"

definition create_base_object ::
  "objects \<Rightarrow> string \<Rightarrow> byte list \<Rightarrow> long \<Rightarrow> qstate \<Rightarrow> (sh_status \<times> objects \<times> qstate) option" where
  "create_base_object fs name tag version s =
    (if tag = [] then Some (SH_ERR_ARG, fs, s)
     else case init_base_struct s of (status, s) \<Rightarrow>
       if status \<noteq> SH_OK then Some (status, fs, s)
       else case allocate_shared_memory fs name PAGE_SIZE s of (status, fs, s) \<Rightarrow>
         if status \<noteq> SH_OK then Some (status, fs, s)
         else case create_extent s (PAGE_SIZE div 8) of (status, current, s) \<Rightarrow>
           if status \<noteq> SH_OK then Some (status, fs, s)
           else do {
             a \<leftarrow> current;
             let s = s\<lparr>base_current := a, base_prev := a\<rparr>;
             e \<leftarrow> extents s a;
             s \<leftarrow> wr s a SIZE (e_slots e);
             s \<leftarrow> wr s a EXPAND_SIZE (e_size e);
             s \<leftarrow> wr s a DATA_ALLOC BASE;
             s \<leftarrow> wr s a VERSION version;
             s \<leftarrow> store_bytes s a TAG tag;
             Some (SH_OK, fs, s) })"

section \<open>The queue in it\<close>

definition format_as_queue :: "qstate \<Rightarrow> int \<Rightarrow> int \<Rightarrow> (sh_status \<times> qstate) option" where
  "format_as_queue s max_depth md = do {
     s \<leftarrow> init_data_allocator s HDR_END;
     let s = s\<lparr>mode := md\<rparr>;
     let a = base_current s;
     (r, s) \<leftarrow> sem_init s a DEQ_SEM 0;
     if r \<noteq> None then Some (SH_ERR_NOSUPPORT, s)
     else do {
       let max_depth = (if max_depth = 0 then SEM_VALUE_MAX else max_depth);
       s \<leftarrow> wr s a MAX_DEPTH max_depth;
       (r, s) \<leftarrow> sem_init s a ENQ_SEM max_depth;
       if r \<noteq> None then Some (SH_ERR_NOSUPPORT, s)
       else do {
         (r, s) \<leftarrow> sem_init s a EVNT_SEM 0;
         if r \<noteq> None then Some (SH_ERR_NOSUPPORT, s)
         else do {
           s \<leftarrow> prime_list s NODE_SIZE EVENT_HEAD EVENT_HD_CNT EVENT_TAIL EVENT_TL_CNT;
           s \<leftarrow> prime_list s NODE_SIZE HEAD HEAD_CNT TAIL TAIL_CNT;
           Some (SH_OK, s) } } } }"

text \<open>\<open>Some s\<close> as the new handle only on success; the process state is returned as well.\<close>

definition shr_q_create ::
  "objects \<Rightarrow> string option \<Rightarrow> int \<Rightarrow> int \<Rightarrow> qstate \<Rightarrow> (sh_status \<times> qstate option \<times> objects \<times> qstate) option" where
  "shr_q_create fs name max_depth md s =
    (case name of
       None \<Rightarrow> Some (SH_ERR_ARG, None, fs, s)
     | Some nm \<Rightarrow>
         if max_depth > SEM_VALUE_MAX then Some (SH_ERR_ARG, None, fs, s)
         else do {
           (status, _) \<leftarrow> perform_name_validations (stat_objects fs) name False;
           if status = SH_ERR_STATE then Some (SH_ERR_EXIST, None, fs, s)
           else if status \<noteq> SH_ERR_EXIST then Some (status, None, fs, s)
           else do {
             (status, fs, s) \<leftarrow> create_base_object fs nm SHRQ QVERSION (no_handle s);
             if status \<noteq> SH_OK then Some (status, None, fs, s)
             else do {
               (status, s) \<leftarrow> format_as_queue s max_depth md;
               Some (status, if status = SH_OK then Some s else None,
                 write_back fs nm s, s) } } })"

section \<open>Opening and closing\<close>

definition initialize_q_struct :: "int \<Rightarrow> qstate \<Rightarrow> sh_status \<times> qstate" where
  "initialize_q_struct md s =
    (case os_call s of
       (Some _, s) \<Rightarrow> (SH_ERR_NOMEM, s)
     | (None, s) \<Rightarrow>
         (case os_call s of
            (Some _, s) \<Rightarrow> (SH_ERR_NOMEM, s)
          | (None, s) \<Rightarrow> (SH_OK, s\<lparr>base_current := 1, base_prev := 1, fresh_ext := 2, mode := md\<rparr>)))"

text \<open>The mapping is repeated until its length is the size the object claims to have.\<close>

partial_function (option) map_loop :: "qstate \<Rightarrow> int \<Rightarrow> (sh_status \<times> qstate) option" where
  "map_loop s sz =
    (case os_call s of
       (failed, s) \<Rightarrow>
         case mmap_result failed sz of
           Some e \<Rightarrow> Some (convert_to_status e, s)
         | None \<Rightarrow>
             let a = base_current s;
                 s = s\<lparr>extents := (extents s)(a := Some \<lparr>e_next = None, e_size = sz, e_slots = sz div 8\<rparr>)\<rparr>
             in do {
               slots \<leftarrow> rd s a SIZE;
               if sz = wrap64 (slots * 8) then Some (SH_OK, s)
               else map_loop (s\<lparr>extents := (extents s)(a := None)\<rparr>) (wrap64 (slots * 8)) })"

declare map_loop.simps [code]

text \<open>\<open>strdup\<close> is not checked, and \<open>shm_open\<close> of \<open>NULL\<close> does not return.\<close>

definition map_shared_memory :: "objects \<Rightarrow> string \<Rightarrow> int \<Rightarrow> qstate \<Rightarrow> (sh_status \<times> qstate) option" where
  "map_shared_memory fs name sz s =
    (case os_call s of
       (Some _, s) \<Rightarrow> None
     | (None, s) \<Rightarrow>
         (case shm_open fs name s of
            (Inl e, s) \<Rightarrow> Some (convert_to_status e, s)
          | (Inr ob, s) \<Rightarrow> map_loop (attach ob s) sz))"

definition is_valid_queue :: "qstate \<Rightarrow> bool option" where
  "is_valid_queue s = do {
     let a = base_current s;
     tag \<leftarrow> load_bytes s a TAG 4;
     if tag \<noteq> SHRQ then Some False
     else do {
       version \<leftarrow> rd s a VERSION;
       Some (version = QVERSION) } }"

definition close_base :: "qstate \<Rightarrow> qstate option" where
  "close_base s = do {
     s \<leftarrow> release_prev_extents s;
     Some (s\<lparr>extents := (extents s)(base_current s := None)\<rparr>) }"

definition shr_q_close ::
  "objects \<Rightarrow> string \<Rightarrow> qstate option \<Rightarrow> (sh_status \<times> objects) option" where
  "shr_q_close fs name q =
    (case q of
       None \<Rightarrow> Some (SH_ERR_ARG, fs)
     | Some s \<Rightarrow> do {
         s \<leftarrow> close_base s;
         Some (SH_OK, write_back fs name s) })"

definition shr_q_open ::
  "objects \<Rightarrow> string option \<Rightarrow> int \<Rightarrow> qstate \<Rightarrow> (sh_status \<times> qstate option) option" where
  "shr_q_open fs name md s =
    (case name of
       None \<Rightarrow> Some (SH_ERR_ARG, None)
     | Some nm \<Rightarrow> do {
         (status, sz) \<leftarrow> perform_name_validations (stat_objects fs) name True;
         if status \<noteq> SH_OK then Some (status, None)
         else case initialize_q_struct md (no_handle s) of (status, s) \<Rightarrow>
           if status \<noteq> SH_OK then Some (status, None)
           else do {
             (status, s) \<leftarrow> map_shared_memory fs nm sz s;
             if status \<noteq> SH_OK then Some (status, None)
             else do {
               valid \<leftarrow> is_valid_queue s;
               if valid then Some (SH_OK, Some s)
               else do {
                 (_, fs) \<leftarrow> shr_q_close fs nm (Some s);
                 Some (SH_ERR_STATE, None) } } } })"

section \<open>Destroying\<close>

text \<open>\<open>sem_destroy\<close> of a valid semaphore fails only when the system says so.\<close>

definition release_semaphores :: "qstate \<Rightarrow> sh_status \<times> qstate" where
  "release_semaphores s =
    (case os_call s of
       (Some _, s) \<Rightarrow> (SH_ERR_SYS, s)
     | (None, s) \<Rightarrow>
         (case os_call s of
            (Some _, s) \<Rightarrow> (SH_ERR_SYS, s)
          | (None, s) \<Rightarrow>
              (case os_call s of
                 (Some _, s) \<Rightarrow> (SH_ERR_SYS, s)
               | (None, s) \<Rightarrow> (SH_OK, s))))"

definition release_mapped_memory :: "objects \<Rightarrow> string \<Rightarrow> qstate \<Rightarrow> sh_status \<times> objects \<times> qstate" where
  "release_mapped_memory fs name s =
    (let s = s\<lparr>extents := (extents s)(base_current s := None)\<rparr>
     in case os_call s of
          (Some _, s) \<Rightarrow> (SH_ERR_SYS, fs, s)
        | (None, s) \<Rightarrow>
            if fs (object_path name) = None then (SH_ERR_SYS, fs, s)
            else (SH_OK, fs(object_path name := None), s))"

definition shr_q_destroy ::
  "objects \<Rightarrow> string \<Rightarrow> qstate option \<Rightarrow> (sh_status \<times> objects) option" where
  "shr_q_destroy fs name q =
    (case q of
       None \<Rightarrow> Some (SH_ERR_ARG, fs)
     | Some s \<Rightarrow> do {
         s \<leftarrow> release_prev_extents s;
         let fs = write_back fs name s;
         case release_semaphores s of (status, s) \<Rightarrow>
           if status \<noteq> SH_OK then Some (status, fs)
           else case release_mapped_memory fs name s of (status, fs, s) \<Rightarrow> Some (status, fs) })"

definition shr_q_is_valid :: "objects \<Rightarrow> string option \<Rightarrow> qstate \<Rightarrow> bool option" where
  "shr_q_is_valid fs name s = do {
     (status, sz) \<leftarrow> perform_name_validations (stat_objects fs) name True;
     if status \<noteq> SH_OK then Some False
     else do {
       nm \<leftarrow> name;
       case shm_open fs nm (no_handle s) of
         (Inl e, s) \<Rightarrow> Some False
       | (Inr ob, s) \<Rightarrow>
           (case os_call (attach ob s) of
              (failed, s) \<Rightarrow>
                case mmap_result failed sz of
                  Some e \<Rightarrow> Some False
                | None \<Rightarrow>
                    is_valid_queue (s\<lparr>base_current := 1,
                      extents := (extents s)(1 := Some \<lparr>e_next = None, e_size = sz, e_slots = sz div 8\<rparr>)\<rparr>)) } }"

end
