(* ===== verification/Invariant.thy ===== *)
theory Invariant
  imports Lifecycle "HOL-Library.Multiset"
begin

text \<open>
  The invariant of a queue object. A ghost state names the nodes of the four lists, the
  blocks in the buckets, and the entries (block, size, time stamp, payload) that the item
  nodes carry. Every slot behind the header belongs to at most one node or block; nodes and
  blocks that an operation has taken and not yet put anywhere are loose. Each operation on
  the structures is a lemma that moves regions between the parts of the ghost state.
\<close>

section \<open>Regions\<close>

type_synonym region = "int \<times> int"

definition disj :: "region \<Rightarrow> region \<Rightarrow> bool" where
  "disj p q \<longleftrightarrow> fst p + snd p \<le> fst q \<or> fst q + snd q \<le> fst p"

lemma disj_sym: "disj p q = disj q p"
  by (auto simp: disj_def)

definition apart :: "region multiset \<Rightarrow> bool" where
  "apart M \<longleftrightarrow> (\<forall>p\<in>#M. \<forall>q\<in>#M - {#p#}. disj p q)"

lemma apart_add [simp]: "apart (add_mset p M) \<longleftrightarrow> (\<forall>q\<in>#M. disj p q) \<and> apart M"
proof
  assume a: "apart (add_mset p M)"
  have "disj r q" if "r \<in># M" "q \<in># M - {#r#}" for r q
  proof -
    have "q \<in># add_mset p M - {#r#}" using that by (cases "r = p") (auto dest: in_diffD)
    with a that(1) show ?thesis by (auto simp: apart_def)
  qed
  with a show "(\<forall>q\<in>#M. disj p q) \<and> apart M" by (auto simp: apart_def)
next
  assume a: "(\<forall>q\<in>#M. disj p q) \<and> apart M"
  have "disj r q" if "r \<in># add_mset p M" "q \<in># add_mset p M - {#r#}" for r q
  proof (cases "r = p")
    case True
    with a that show ?thesis by simp
  next
    case False
    then have r: "r \<in># M" using that(1) by simp
    then have "add_mset p M - {#r#} = add_mset p (M - {#r#})" using False by (simp add: add_mset_diff_bothsides)
    then have "q = p \<or> q \<in># M - {#r#}" using that(2) by simp
    with a r show ?thesis by (auto simp: apart_def disj_sym)
  qed
  then show "apart (add_mset p M)" by (simp add: apart_def)
qed

lemma apart_empty [simp]: "apart {#}"
  by (simp add: apart_def)

lemma apartD: "apart M \<Longrightarrow> p \<in># M \<Longrightarrow> q \<in># M \<Longrightarrow> p \<noteq> q \<Longrightarrow> disj p q"
  by (auto simp: apart_def in_diff_count)

lemma apart_subset: "apart M \<Longrightarrow> N \<subseteq># M \<Longrightarrow> apart N"
proof (induction M arbitrary: N rule: multiset_induct)
  case (add p M)
  show ?case
  proof (cases "p \<in># N")
    case True
    then obtain K where K: "N = add_mset p K" by (blast dest: multi_member_split)
    then have "K \<subseteq># M" using add.prems(2) by simp
    with add K show ?thesis by (auto dest: mset_subset_eqD)
  next
    case False
    then have "N \<subseteq># M" using add.prems(2) by (metis diff_single_trivial subset_eq_diff_conv add_mset_add_single)
    with add show ?thesis by simp
  qed
qed simp

section \<open>Ghost state\<close>

record entry =
  e_blk :: int
  e_exp :: nat
  e_ts :: timespec
  e_val :: payload

text \<open>
  The first node of the item list and of the event list carries nothing. An entry that an
  operation has taken from the list, or not put there yet, is held.
\<close>

datatype which = Free | Items | Events

record ghost =
  g_list :: "which \<Rightarrow> int list"
  g_stack :: "int list"
  g_pool :: "nat \<Rightarrow> int list"
  g_fifo :: "entry list"
  g_lifo :: "entry list"
  g_evs :: "sq_event list"
  g_held :: "entry list"
  g_loose :: "int list"
  g_loose_blks :: "(int \<times> nat) list"

definition nodes :: "ghost \<Rightarrow> int list" where
  "nodes g = g_loose g @ g_list g Free @ g_list g Items @ g_list g Events @ g_stack g"

definition blks :: "ghost \<Rightarrow> (int \<times> nat) list" where
  "blks g = g_loose_blks g @ map (\<lambda>e. (e_blk e, e_exp e)) (g_held g @ g_fifo g @ g_lifo g)"

definition pool_regs :: "(nat \<Rightarrow> int list) \<Rightarrow> region multiset" where
  "pool_regs p = (\<Sum>k<50. image_mset (\<lambda>x. (x, 2 ^ k)) (mset (p k)))"

abbreviation (input) node_reg :: "int \<Rightarrow> region" where "node_reg x \<equiv> (x, 4)"

definition blk_reg :: "int \<times> nat \<Rightarrow> region" where
  "blk_reg b = (fst b, 2 ^ snd b)"

definition regs :: "ghost \<Rightarrow> region multiset" where
  "regs g = image_mset node_reg (mset (nodes g)) + image_mset blk_reg (mset (blks g)) + pool_regs (g_pool g)"

lemma pool_regs_upd:
  assumes "k < 50"
  shows "pool_regs (p(k := x # p k)) = add_mset (x, 2 ^ k) (pool_regs p)"
proof -
  let ?f = "\<lambda>p k. image_mset (\<lambda>x. (x, 2 ^ k)) (mset (p k)) :: region multiset"
  have "pool_regs q = ?f q k + (\<Sum>j\<in>{..<50} - {k}. ?f q j)" for q
    unfolding pool_regs_def using assms by (intro sum.remove) simp_all
  moreover have "(\<Sum>j\<in>{..<50} - {k}. ?f (p(k := x # p k)) j) = (\<Sum>j\<in>{..<50} - {k}. ?f p j)"
    by (rule sum.cong) auto
  ultimately show ?thesis by simp
qed

lemma in_pool_regs: "r \<in># pool_regs p \<longleftrightarrow> (\<exists>k<50. \<exists>x\<in>set (p k). r = (x, 2 ^ k))"
  by (auto simp: pool_regs_def set_mset_sum)

section \<open>The invariant of the object\<close>

definition reg_ok :: "int \<Rightarrow> region \<Rightarrow> bool" where
  "reg_ok d r \<longleftrightarrow> HDR_END \<le> fst r \<and> 4 dvd fst r \<and> 4 \<le> snd r \<and> fst r + snd r \<le> d"

definition regs_ok :: "(int \<Rightarrow> long) \<Rightarrow> ghost \<Rightarrow> bool" where
  "regs_ok c g \<longleftrightarrow>
     apart (regs g) \<and> (\<forall>r\<in>#regs g. reg_ok (c DATA_ALLOC) r) \<and>
     HDR_END \<le> c DATA_ALLOC \<and> 4 dvd c DATA_ALLOC \<and>
     (\<forall>b\<in>set (blks g). 3 \<le> snd b \<and> snd b \<le> 30) \<and> (\<forall>k. g_pool g k \<noteq> [] \<longrightarrow> 3 \<le> k \<and> k \<le> 30)"

fun hd_slot :: "which \<Rightarrow> int" where
  "hd_slot Free = FREE_HEAD"
| "hd_slot Items = HEAD"
| "hd_slot Events = EVENT_HEAD"

fun tl_slot :: "which \<Rightarrow> int" where
  "tl_slot Free = FREE_TAIL"
| "tl_slot Items = TAIL"
| "tl_slot Events = EVENT_TAIL"

definition lists_ok :: "(int \<Rightarrow> long) \<Rightarrow> ghost \<Rightarrow> bool" where
  "lists_ok c g \<longleftrightarrow> (\<forall>w. list_rep c (hd_slot w) (tl_slot w) (g_list g w))"

definition stacks_ok :: "(int \<Rightarrow> long) \<Rightarrow> ghost \<Rightarrow> bool" where
  "stacks_ok c g \<longleftrightarrow>
     stack_rep c STACK_HEAD (g_stack g) \<and>
     (\<forall>k. 2 \<le> k \<and> k < 50 \<longrightarrow> stack_rep c (bucket k) (g_pool g k))"

definition entry_ok :: "(int \<Rightarrow> long) \<Rightarrow> entry \<Rightarrow> bool" where
  "entry_ok c e \<longleftrightarrow>
     holds c (e_blk e) (e_exp e) (e_ts e) (e_val e) \<and> payload_ok (e_val e) \<and>
     7 + area_slots (e_val e) \<le> 2 ^ e_exp e \<and> in_long (tv_sec (e_ts e)) \<and> in_long (tv_nsec (e_ts e))"

definition carries :: "(int \<Rightarrow> long) \<Rightarrow> int \<Rightarrow> entry \<Rightarrow> bool" where
  "carries c n e \<longleftrightarrow> c (n + VALUE_OFFSET) = e_blk e"

definition items_ok :: "(int \<Rightarrow> long) \<Rightarrow> ghost \<Rightarrow> bool" where
  "items_ok c g \<longleftrightarrow>
     list_all2 (carries c) (tl (g_list g Items)) (g_fifo g) \<and> list_all2 (carries c) (g_stack g) (g_lifo g) \<and>
     (\<forall>e\<in>set (g_held g @ g_fifo g @ g_lifo g). entry_ok c e)"

definition events_ok :: "(int \<Rightarrow> long) \<Rightarrow> ghost \<Rightarrow> bool" where
  "events_ok c g \<longleftrightarrow>
     list_all2 (\<lambda>n ev. c (n + EVENT_OFFSET) = ev \<and> 1 \<le> ev \<and> ev \<le> 6) (tl (g_list g Events)) (g_evs g)"

definition heap_inv :: "(int \<Rightarrow> long) \<Rightarrow> ghost \<Rightarrow> bool" where
  "heap_inv c g \<longleftrightarrow> regs_ok c g \<and> lists_ok c g \<and> stacks_ok c g \<and> items_ok c g \<and> events_ok c g"

text \<open>With the handle: the address space has room for \<open>n\<close> more slots.\<close>

definition inv :: "qstate \<Rightarrow> ghost \<Rightarrow> bool" where
  "inv s g \<longleftrightarrow> base_ok s \<and> calm s \<and> cells s DATA_ALLOC \<le> cells s SIZE \<and> heap_inv (obj s) g"

section \<open>Consequences\<close>

lemma node_region: "x \<in> set (nodes g) \<Longrightarrow> (x, 4) \<in># regs g"
  by (auto simp: regs_def)

lemma blk_region: "b \<in> set (blks g) \<Longrightarrow> blk_reg b \<in># regs g"
  by (auto simp: regs_def)

lemma pool_region: "k < 50 \<Longrightarrow> x \<in> set (g_pool g k) \<Longrightarrow> (x, 2 ^ k) \<in># regs g"
  by (auto simp: regs_def in_pool_regs)

lemma reg_ok_node: "reg_ok d (x, 4) \<Longrightarrow> node_ok d x"
  by (simp add: reg_ok_def node_ok_def)

lemma nodes_ok: "regs_ok c g \<Longrightarrow> x \<in> set (nodes g) \<Longrightarrow> node_ok (c DATA_ALLOC) x"
  using node_region [of x g] by (auto simp: regs_ok_def intro: reg_ok_node)

lemma nodes_distinct:
  assumes "regs_ok c g"
  shows "distinct (nodes g)"
proof -
  have "apart (image_mset node_reg (mset (nodes g)))"
    using assms apart_subset [of "regs g"] by (auto simp: regs_ok_def regs_def)
  moreover have "apart (image_mset node_reg (mset xs)) \<Longrightarrow> distinct xs" for xs
    by (induction xs) (auto simp: disj_def)
  ultimately show ?thesis by blast
qed

lemma pow_neq_4: "3 \<le> k \<Longrightarrow> (2::int) ^ k \<noteq> 4"
proof
  assume k: "3 \<le> k" and eq: "(2::int) ^ k = 4"
  have "(2::int) ^ 3 \<le> 2 ^ k" using k by (intro power_increasing) simp_all
  with eq show False by simp
qed

lemma node_blk_disj:
  assumes "regs_ok c g" and "x \<in> set (nodes g)" and "b \<in> set (blks g)"
  shows "disj (x, 4) (blk_reg b)"
proof -
  have "3 \<le> snd b" using assms(1,3) by (simp add: regs_ok_def)
  then have "(x, 4) \<noteq> blk_reg b" using pow_neq_4 by (auto simp: blk_reg_def)
  with assms show ?thesis
    using node_region [of x g] blk_region [of b g] by (auto simp: regs_ok_def intro: apartD)
qed

lemma node_pool_disj:
  assumes "regs_ok c g" and "x \<in> set (nodes g)" and "k < 50" and "y \<in> set (g_pool g k)"
  shows "disj (x, 4) (y, 2 ^ k)"
proof -
  have "g_pool g k \<noteq> []" using assms(4) by auto
  then have "3 \<le> k" using assms(1) unfolding regs_ok_def by blast
  then have "(x, 4 :: int) \<noteq> (y, 2 ^ k)" using pow_neq_4 by auto
  with assms show ?thesis
    using node_region [of x g] pool_region [of k y g] by (auto simp: regs_ok_def intro: apartD)
qed

section \<open>Changes\<close>

text \<open>At most the header slots \<open>H\<close> and the regions \<open>R\<close> differ.\<close>

definition changes :: "(int \<Rightarrow> long) \<Rightarrow> (int \<Rightarrow> long) \<Rightarrow> int set \<Rightarrow> region set \<Rightarrow> bool" where
  "changes c c' H R \<longleftrightarrow>
     (\<forall>i. c' i \<noteq> c i \<longrightarrow> (i \<in> H \<and> i < HDR_END) \<or> (\<exists>r\<in>R. fst r \<le> i \<and> i < fst r + snd r))"

lemma changes_header: "changes c c' H R \<Longrightarrow> i < HDR_END \<Longrightarrow> i \<notin> H \<Longrightarrow> \<forall>r\<in>R. HDR_END \<le> fst r \<Longrightarrow> c' i = c i"
  unfolding changes_def by fastforce

lemma changes_region:
  assumes "changes c c' H R" and "HDR_END \<le> x" and "\<forall>r\<in>R. disj (x, n) r" and "x \<le> j" and "j < x + n"
  shows "c' j = c j"
proof (rule ccontr)
  assume "c' j \<noteq> c j"
  with assms(1) have "(j \<in> H \<and> j < HDR_END) \<or> (\<exists>r\<in>R. fst r \<le> j \<and> j < fst r + snd r)"
    unfolding changes_def by blast
  with assms(2-5) show False by (fastforce simp: disj_def)
qed

lemma disj_sub: "disj (x, n) r \<Longrightarrow> x \<le> y \<Longrightarrow> y + m \<le> x + n \<Longrightarrow> 0 \<le> m \<Longrightarrow> disj (y, m) r"
  by (auto simp: disj_def)

lemma disj_subr: "disj p (x, n) \<Longrightarrow> x \<le> y \<Longrightarrow> y + m \<le> x + n \<Longrightarrow> 0 \<le> m \<Longrightarrow> disj p (y, m)"
  by (auto simp: disj_def)

text \<open>The link words (first two) and the fields (last two) of nodes.\<close>

lemma links_disj: "node_ok d x \<Longrightarrow> node_ok d' y \<Longrightarrow> x \<noteq> y \<Longrightarrow> disj (x, 2) (y, 2)"
  using node_ok_aligned [of d x d' y] by (auto simp: disj_def)

lemma fields_disj: "node_ok d x \<Longrightarrow> node_ok d' y \<Longrightarrow> disj (x + 2, 2) (y, 2)"
  unfolding disj_def node_ok_def by (simp, presburger)

lemma list_rep_changes:
  assumes rep: "list_rep c h t ns" and ch: "changes c c' H R" and R: "\<forall>r\<in>R. HDR_END \<le> fst r"
    and hdr: "h \<notin> H" "t \<notin> H" "t + 1 \<notin> H" "h < HDR_END" "t + 1 < HDR_END"
    and ns: "\<forall>x\<in>set ns. node_ok d x \<and> (\<forall>r\<in>R. disj (x, 2) r)"
  shows "list_rep c' h t ns"
proof (rule list_rep_cong [OF rep])
  show "c' h = c h" "c' t = c t" "c' (t + 1) = c (t + 1)"
    using changes_header [OF ch _ _ R] hdr by auto
  fix x assume x: "x \<in> set ns"
  then have "HDR_END \<le> x" using ns by (auto simp: node_ok_def)
  from changes_region [OF ch this, of 2] ns x show "c' x = c x \<and> c' (x + 1) = c (x + 1)" by auto
qed

lemma stack_rep_changes:
  assumes rep: "stack_rep c h xs" and ch: "changes c c' H R" and R: "\<forall>r\<in>R. HDR_END \<le> fst r"
    and h: "h \<notin> H" "h < HDR_END" and xs: "\<forall>x\<in>set xs. HDR_END \<le> x \<and> (\<forall>r\<in>R. disj (x, 2) r)"
  shows "stack_rep c' h xs"
proof (rule stack_rep_cong [OF rep])
  show "c' h = c h" using changes_header [OF ch _ _ R] h by simp
  show "c' x = c x" if "x \<in> set xs" for x
    using changes_region [OF ch, of x 2] xs that by auto
qed

lemma entry_changes:
  assumes "entry_ok c e" and "changes c c' H R" and "HDR_END \<le> e_blk e"
    and "\<forall>r\<in>R. disj (blk_reg (e_blk e, e_exp e)) r"
  shows "entry_ok c' e"
proof -
  have "c' j = c j" if "e_blk e \<le> j" "j < e_blk e + 7 + area_slots (e_val e)" for j
    using changes_region [OF assms(2,3), of "2 ^ e_exp e" j] assms(1,4) that
    by (simp add: blk_reg_def entry_ok_def)
  then have "holds c' (e_blk e) (e_exp e) (e_ts e) (e_val e) = holds c (e_blk e) (e_exp e) (e_ts e) (e_val e)"
    by (rule holds_cong)
  with assms(1) show ?thesis by (simp add: entry_ok_def)
qed

lemma field_changes:
  assumes "changes c c' H R" and "node_ok d n" and "\<forall>r\<in>R. disj (n + 2, 2) r"
  shows "c' (n + 2) = c (n + 2)" "c' (n + 3) = c (n + 3)"
  using changes_region [OF assms(1), of "n + 2" 2] assms(2,3) by (auto simp: node_ok_def)

lemma carries_changes:
  assumes "list_all2 (carries c) ns es" and "\<forall>n\<in>set ns. c' (n + 3) = c (n + 3)"
  shows "list_all2 (carries c') ns es"
  using assms by (induction rule: list_all2_induct) (auto simp: carries_def)

text \<open>The header slots the structures use.\<close>

definition list_slots :: "which \<Rightarrow> int set" where
  "list_slots w = {hd_slot w, tl_slot w, tl_slot w + 1}"

definition struct_slots :: "int set" where
  "struct_slots = (\<Union>w. list_slots w) \<union> {STACK_HEAD} \<union> bucket ` {2..<50}"

text \<open>Header words outside these, and loose regions, may be written freely.\<close>

definition loose_regs :: "ghost \<Rightarrow> region set" where
  "loose_regs g = node_reg ` set (g_loose g) \<union> blk_reg ` set (g_loose_blks g)"

definition rest_regs :: "ghost \<Rightarrow> region multiset" where
  "rest_regs g = regs (g\<lparr>g_loose := [], g_loose_blks := []\<rparr>)"

lemma regs_loose:
  "regs g = image_mset node_reg (mset (g_loose g)) + image_mset blk_reg (mset (g_loose_blks g)) + rest_regs g"
  by (simp add: regs_def rest_regs_def nodes_def blks_def)

lemma apart_union: "apart (A + B) \<Longrightarrow> p \<in># A \<Longrightarrow> q \<in># B \<Longrightarrow> disj p q"
  by (induction A) (auto simp: disj_sym)

lemma loose_disj:
  assumes "regs_ok c g" and "p \<in># rest_regs g" and "q \<in> loose_regs g"
  shows "disj p q"
proof -
  have "disj q p"
    using assms apart_union [of "image_mset node_reg (mset (g_loose g)) + image_mset blk_reg (mset (g_loose_blks g))"
        "rest_regs g" q p]
    by (auto simp: regs_ok_def regs_loose [of g] loose_regs_def)
  then show ?thesis by (simp add: disj_sym)
qed

lemma rest_regs_parts:
  "x \<in> set (g_list g Free) \<union> set (g_list g Items) \<union> set (g_list g Events) \<union> set (g_stack g) \<Longrightarrow> (x, 4) \<in># rest_regs g"
  "e \<in> set (g_held g) \<union> set (g_fifo g) \<union> set (g_lifo g) \<Longrightarrow> blk_reg (e_blk e, e_exp e) \<in># rest_regs g"
  "k < 50 \<Longrightarrow> y \<in> set (g_pool g k) \<Longrightarrow> (y, 2 ^ k) \<in># rest_regs g"
  by (auto simp: rest_regs_def regs_def nodes_def blks_def in_pool_regs)

lemma loose_regs_ok: "regs_ok c g \<Longrightarrow> q \<in> loose_regs g \<Longrightarrow> reg_ok (c DATA_ALLOC) q"
  by (auto simp: regs_ok_def regs_loose [of g] loose_regs_def)

lemma tl_subset: "x \<in> set (tl xs) \<Longrightarrow> x \<in> set xs"
  by (cases xs) auto

lemma pow_ge_2: "2 \<le> k \<Longrightarrow> 2 \<le> (2::int) ^ k"
  using power_increasing [of 1 k "2::int"] by simp

text \<open>Parts of the invariant that survive a change whose regions are apart from theirs.\<close>

lemma regs_ok_changes:
  "regs_ok c g \<Longrightarrow> c' DATA_ALLOC = c DATA_ALLOC \<Longrightarrow> regs_ok c' g"
  by (simp add: regs_ok_def)

lemma items_ok_changes:
  assumes "items_ok c g" and "changes c c' H R" and "regs_ok c g"
    and "\<forall>n\<in>set (tl (g_list g Items)) \<union> set (g_stack g). \<forall>r\<in>R. disj (n + 2, 2) r"
    and "\<forall>e\<in>set (g_held g) \<union> set (g_fifo g) \<union> set (g_lifo g). \<forall>r\<in>R. disj (blk_reg (e_blk e, e_exp e)) r"
  shows "items_ok c' g"
proof -
  have f: "c' (n + 3) = c (n + 3)" if "n \<in> set (tl (g_list g Items)) \<union> set (g_stack g)" for n
  proof -
    have "node_ok (c DATA_ALLOC) n" using nodes_ok [OF assms(3)] that tl_subset by (fastforce simp: nodes_def)
    from field_changes(2) [OF assms(2) this] assms(4) that show ?thesis by blast
  qed
  have "entry_ok c' e" if e: "e \<in> set (g_held g @ g_fifo g @ g_lifo g)" for e
  proof -
    have "blk_reg (e_blk e, e_exp e) \<in># regs g" using e by (intro blk_region) (auto simp: blks_def)
    then have "HDR_END \<le> e_blk e" using assms(3) by (auto simp: regs_ok_def reg_ok_def blk_reg_def)
    from entry_changes [OF _ assms(2) this] assms(1,5) e show ?thesis by (auto simp: items_ok_def)
  qed
  then show ?thesis
    using assms(1) f carries_changes unfolding items_ok_def by blast
qed

lemma events_ok_changes:
  assumes "events_ok c g" and "changes c c' H R" and "regs_ok c g"
    and "\<forall>n\<in>set (tl (g_list g Events)). \<forall>r\<in>R. disj (n + 2, 2) r"
  shows "events_ok c' g"
proof -
  have "c' (n + 2) = c (n + 2)" if "n \<in> set (tl (g_list g Events))" for n
  proof -
    have "node_ok (c DATA_ALLOC) n" using nodes_ok [OF assms(3)] that tl_subset by (fastforce simp: nodes_def)
    from field_changes(1) [OF assms(2) this] assms(4) that show ?thesis by blast
  qed
  moreover have "list_all2 (\<lambda>n ev. c' (n + 2) = ev \<and> 1 \<le> ev \<and> ev \<le> 6) ns evs"
    if "list_all2 (\<lambda>n ev. c (n + 2) = ev \<and> 1 \<le> ev \<and> ev \<le> 6) ns evs" "\<forall>n\<in>set ns. c' (n + 2) = c (n + 2)" for ns evs
    using that by (induction rule: list_all2_induct) auto
  ultimately show ?thesis using assms(1) unfolding events_ok_def by blast
qed

lemma list_ok_changes:
  assumes "list_rep c h t ns" and "changes c c' H R" and "regs_ok c g" and "set ns \<subseteq> set (nodes g)"
    and "\<forall>r\<in>R. HDR_END \<le> fst r" and "h \<notin> H" "t \<notin> H" "t + 1 \<notin> H" and "h < HDR_END" "t + 1 < HDR_END"
    and "\<forall>x\<in>set ns. \<forall>r\<in>R. disj (x, 2) r"
  shows "list_rep c' h t ns"
  by (rule list_rep_changes [OF assms(1,2,5-10), of "c DATA_ALLOC"])
    (use assms(4,11) nodes_ok [OF assms(3)] in blast)

lemma pool_ok_changes:
  assumes "stack_rep c (bucket k) (g_pool g k)" and "changes c c' H R" and "regs_ok c g" and "2 \<le> k" "k < 50"
    and "\<forall>r\<in>R. HDR_END \<le> fst r" and "bucket k \<notin> H" and "\<forall>y\<in>set (g_pool g k). \<forall>r\<in>R. disj (y, 2) r"
  shows "stack_rep c' (bucket k) (g_pool g k)"
proof (rule stack_rep_changes [OF assms(1,2,6,7)])
  show "bucket k < HDR_END" using assms(5) by (simp add: bucket_def)
  show "\<forall>y\<in>set (g_pool g k). HDR_END \<le> y \<and> (\<forall>r\<in>R. disj (y, 2) r)"
    using assms(3,5,8) pool_region [of k _ g] by (fastforce simp: regs_ok_def reg_ok_def)
qed

lemma stack_ok_changes:
  assumes "stack_rep c STACK_HEAD (g_stack g)" and "changes c c' H R" and "regs_ok c g"
    and "\<forall>r\<in>R. HDR_END \<le> fst r" and "STACK_HEAD \<notin> H" and "\<forall>y\<in>set (g_stack g). \<forall>r\<in>R. disj (y, 2) r"
  shows "stack_rep c' STACK_HEAD (g_stack g)"
proof (rule stack_rep_changes [OF assms(1,2,4,5)])
  show "\<forall>y\<in>set (g_stack g). HDR_END \<le> y \<and> (\<forall>r\<in>R. disj (y, 2) r)"
    using assms(3,6) nodes_ok [OF assms(3)] by (fastforce simp: nodes_def node_ok_def)
qed simp

text \<open>Header words outside the structures, and regions outside the used ones, may be written.\<close>

lemma frame_each:
  assumes inv: "heap_inv c g" and ch: "changes c c' H R"
    and R: "\<forall>r\<in>R. HDR_END \<le> fst r" "\<forall>r\<in>R. \<forall>p\<in>#rest_regs g. disj p r"
  shows "items_ok c' g" and "events_ok c' g"
    and "list_slots w \<inter> H = {} \<Longrightarrow> list_rep c' (hd_slot w) (tl_slot w) (g_list g w)"
    and "STACK_HEAD \<notin> H \<Longrightarrow> stack_rep c' STACK_HEAD (g_stack g)"
    and "2 \<le> k \<Longrightarrow> k < 50 \<Longrightarrow> bucket k \<notin> H \<Longrightarrow> stack_rep c' (bucket k) (g_pool g k)"
proof -
  have ok: "regs_ok c g" "lists_ok c g" "stacks_ok c g" "items_ok c g" "events_ok c g"
    using inv by (simp_all add: heap_inv_def)
  note hdr = R(1)
  have node: "disj (x, 2) r \<and> disj (x + 2, 2) r"
    if "x \<in> set (g_list g w) \<union> set (g_stack g)" "r \<in> R" for w x r
  proof -
    have "(x, 4) \<in># rest_regs g" by (rule rest_regs_parts(1)) (use that(1) in \<open>cases w; auto\<close>)
    then show ?thesis
      using R(2) that(2) disj_sub [of x 4 r x 2] disj_sub [of x 4 r "x + 2" 2] by simp
  qed
  have f: "disj (n + 2, 2) r"
    if "n \<in> set (tl (g_list g Items)) \<union> set (tl (g_list g Events)) \<union> set (g_stack g)" "r \<in> R" for n r
    using node [of n Items r] node [of n Events r] that tl_subset [of n] by auto
  have b: "disj (blk_reg (e_blk e, e_exp e)) r"
    if "e \<in> set (g_held g) \<union> set (g_fifo g) \<union> set (g_lifo g)" "r \<in> R" for e r
    using R(2) rest_regs_parts(2) [OF that(1)] that(2) by blast
  show "items_ok c' g"
    by (rule items_ok_changes [OF ok(4) ch ok(1)]) (intro ballI, rule f b, blast, assumption)+
  show "events_ok c' g"
    by (rule events_ok_changes [OF ok(5) ch ok(1)]) (intro ballI, rule f, blast, assumption)+
  show "list_rep c' (hd_slot w) (tl_slot w) (g_list g w)" if "list_slots w \<inter> H = {}"
  proof -
    have "hd_slot w \<notin> H" "tl_slot w \<notin> H" "tl_slot w + 1 \<notin> H" using that by (auto simp: list_slots_def)
    moreover have "hd_slot w < HDR_END" "tl_slot w + 1 < HDR_END" by (cases w; simp)+
    moreover have "set (g_list g w) \<subseteq> set (nodes g)" by (cases w) (auto simp: nodes_def)
    moreover have "\<forall>x\<in>set (g_list g w). \<forall>r\<in>R. disj (x, 2) r" using node by blast
    ultimately show ?thesis
      using ok(2) by (intro list_ok_changes [OF _ ch ok(1) _ hdr]) (auto simp: lists_ok_def)
  qed
  have "\<forall>y\<in>set (g_stack g). \<forall>r\<in>R. disj (y, 2) r" using node [of _ Free] by blast
  then show "STACK_HEAD \<notin> H \<Longrightarrow> stack_rep c' STACK_HEAD (g_stack g)"
    by (intro stack_ok_changes [OF _ ch ok(1) hdr]) (use ok(3) in \<open>auto simp: stacks_ok_def\<close>)
  assume k: "2 \<le> k" "k < 50"
  have "disj (y, 2) r" if "y \<in> set (g_pool g k)" "r \<in> R" for y r
    using R(2) rest_regs_parts(3) [of k y g] that k disj_sub [of y "2 ^ k" r y 2] pow_ge_2 [of k] by simp
  then show "bucket k \<notin> H \<Longrightarrow> stack_rep c' (bucket k) (g_pool g k)"
    by (intro pool_ok_changes [OF _ ch ok(1) k hdr]) (use ok(3) k in \<open>auto simp: stacks_ok_def\<close>)
qed

lemma frame_parts:
  assumes inv: "heap_inv c g" and ch: "changes c c' H R" and H: "H \<inter> struct_slots = {}"
    and R: "\<forall>r\<in>R. HDR_END \<le> fst r" "\<forall>r\<in>R. \<forall>p\<in>#rest_regs g. disj p r"
  shows "lists_ok c' g" and "stacks_ok c' g" and "items_ok c' g" and "events_ok c' g"
proof -
  note fr = frame_each [OF inv ch R]
  show "items_ok c' g" "events_ok c' g" by (fact fr(1,2))+
  have "list_slots w \<inter> H = {}" for w using H by (auto simp: struct_slots_def)
  then show "lists_ok c' g" using fr(3) by (simp add: lists_ok_def)
  have "bucket k \<notin> H" if "2 \<le> k" "k < 50" for k using H that by (auto simp: struct_slots_def)
  moreover have "STACK_HEAD \<notin> H" using H by (auto simp: struct_slots_def)
  ultimately show "stacks_ok c' g" using fr(4,5) by (simp add: stacks_ok_def)
qed

lemma heap_frame:
  assumes inv: "heap_inv c g" and ch: "changes c c' H R" and H: "H \<inter> insert DATA_ALLOC struct_slots = {}"
    and R: "\<forall>r\<in>R. \<exists>q\<in>loose_regs g. fst q \<le> fst r \<and> fst r + snd r \<le> fst q + snd q \<and> 0 \<le> snd r"
  shows "heap_inv c' g"
proof -
  have ok: "regs_ok c g" using inv by (simp add: heap_inv_def)
  have hdr: "\<forall>r\<in>R. HDR_END \<le> fst r"
    using R loose_regs_ok [OF ok] by (fastforce simp: reg_ok_def)
  have "disj p r" if p: "p \<in># rest_regs g" and r: "r \<in> R" for p r
  proof -
    obtain q where q: "q \<in> loose_regs g" "fst q \<le> fst r" "fst r + snd r \<le> fst q + snd q" "0 \<le> snd r"
      using R r by blast
    have "disj p q" by (rule loose_disj [OF ok p q(1)])
    with q(2-4) show ?thesis using disj_subr [of p "fst q" "snd q" "fst r" "snd r"] by simp
  qed
  then have parts: "lists_ok c' g" "stacks_ok c' g" "items_ok c' g" "events_ok c' g"
    using H by (intro frame_parts [OF inv ch _ hdr]; blast)+
  have "c' DATA_ALLOC = c DATA_ALLOC" using changes_header [OF ch _ _ hdr] H by simp
  with ok have "regs_ok c' g" by (rule regs_ok_changes)
  with parts show ?thesis by (simp add: heap_inv_def)
qed

text \<open>A change of link words of nodes and of header words: what it cannot touch.\<close>

definition link_regs :: "int set \<Rightarrow> region set" where
  "link_regs N = (\<lambda>n. (n, 2)) ` N"

lemma link_frame:
  assumes inv: "heap_inv c g" and ch: "changes c c' H (link_regs N)" and N: "N \<subseteq> set (nodes g)" and d: "DATA_ALLOC \<notin> H"
  shows "regs_ok c' g" and "items_ok c' g" and "events_ok c' g"
    and "2 \<le> k \<Longrightarrow> k < 50 \<Longrightarrow> bucket k \<notin> H \<Longrightarrow> stack_rep c' (bucket k) (g_pool g k)"
    and "STACK_HEAD \<notin> H \<Longrightarrow> N \<inter> set (g_stack g) = {} \<Longrightarrow> stack_rep c' STACK_HEAD (g_stack g)"
    and "list_rep c h t ns \<Longrightarrow> set ns \<subseteq> set (nodes g) \<Longrightarrow> N \<inter> set ns = {} \<Longrightarrow>
      h \<notin> H \<Longrightarrow> t \<notin> H \<Longrightarrow> t + 1 \<notin> H \<Longrightarrow> h < HDR_END \<Longrightarrow> t + 1 < HDR_END \<Longrightarrow> list_rep c' h t ns"
proof -
  let ?R = "link_regs N"
  have ok: "regs_ok c g" "lists_ok c g" "stacks_ok c g" "items_ok c g" "events_ok c g"
    using inv by (simp_all add: heap_inv_def)
  have nok: "node_ok (c DATA_ALLOC) n" if "n \<in> set (nodes g)" for n using nodes_ok [OF ok(1) that] .
  have hdr: "\<forall>r\<in>?R. HDR_END \<le> fst r" using N nok by (auto simp: link_regs_def node_ok_def)
  have field: "disj (x + 2, 2) r" if "x \<in> set (nodes g)" "r \<in> ?R" for x r
    using that N fields_disj [OF nok nok] by (auto simp: link_regs_def)
  have link: "disj (x, 2) r" if "x \<in> set (nodes g)" "x \<notin> N" "r \<in> ?R" for x r
    using that N links_disj [OF nok nok] by (auto simp: link_regs_def)
  have blk: "disj (blk_reg b) r" if b: "b \<in> set (blks g)" and r: "r \<in> ?R" for b r
  proof -
    obtain n where n: "n \<in> set (nodes g)" "r = (n, 2)" using r N by (auto simp: link_regs_def)
    have "disj (blk_reg b) (n, 4)" using node_blk_disj [OF ok(1) n(1) b] by (simp add: disj_sym)
    then show ?thesis using n(2) disj_subr [of "blk_reg b" n 4 n 2] by simp
  qed
  have "c' DATA_ALLOC = c DATA_ALLOC" using changes_header [OF ch _ d hdr] by simp
  with ok(1) show "regs_ok c' g" by (rule regs_ok_changes)
  have f: "disj (n + 2, 2) r"
    if "n \<in> set (tl (g_list g Items)) \<union> set (tl (g_list g Events)) \<union> set (g_stack g)" "r \<in> ?R" for n r
    by (rule field [OF _ that(2)]) (use that(1) tl_subset [of n] in \<open>auto simp: nodes_def\<close>)
  have b: "disj (blk_reg (e_blk e, e_exp e)) r" if "e \<in> set (g_held g) \<union> set (g_fifo g) \<union> set (g_lifo g)" "r \<in> ?R" for e r
    by (rule blk [OF _ that(2)]) (use that(1) in \<open>auto simp: blks_def\<close>)
  show "items_ok c' g"
    by (rule items_ok_changes [OF ok(4) ch ok(1)]) (intro ballI, rule f b, blast, assumption)+
  show "events_ok c' g"
    by (rule events_ok_changes [OF ok(5) ch ok(1)]) (intro ballI, rule f, simp_all)
  show "stack_rep c' (bucket k) (g_pool g k)" if k: "2 \<le> k" "k < 50" "bucket k \<notin> H"
  proof (rule pool_ok_changes [OF _ ch ok(1) k(1,2) hdr k(3)])
    show "stack_rep c (bucket k) (g_pool g k)" using ok(3) k by (simp add: stacks_ok_def)
    have "disj (y, 2) (n, 2)" if y: "y \<in> set (g_pool g k)" and n: "n \<in> set (nodes g)" for y n
    proof -
      have "disj (n, 4) (y, 2 ^ k)" by (rule node_pool_disj [OF ok(1) n k(2) y])
      then have "disj (n, 2) (y, 2)"
        using disj_sub [of n 4 "(y, 2 ^ k)" n 2] disj_subr [of "(n, 2)" y "2 ^ k" y 2] pow_ge_2 [OF k(1)] by simp
      then show ?thesis by (simp add: disj_sym)
    qed
    then show "\<forall>y\<in>set (g_pool g k). \<forall>r\<in>?R. disj (y, 2) r" using N by (auto simp: link_regs_def)
  qed
  show "stack_rep c' STACK_HEAD (g_stack g)" if st: "STACK_HEAD \<notin> H" "N \<inter> set (g_stack g) = {}"
  proof (rule stack_ok_changes [OF _ ch ok(1) hdr st(1)])
    show "stack_rep c STACK_HEAD (g_stack g)" using ok(3) by (simp add: stacks_ok_def)
    show "\<forall>y\<in>set (g_stack g). \<forall>r\<in>?R. disj (y, 2) r"
      by (intro ballI, rule link) (use st(2) in \<open>auto simp: nodes_def\<close>)
  qed
  show "list_rep c' h t ns" if l: "list_rep c h t ns" "set ns \<subseteq> set (nodes g)" "N \<inter> set ns = {}"
    "h \<notin> H" "t \<notin> H" "t + 1 \<notin> H" "h < HDR_END" "t + 1 < HDR_END"
    by (rule list_ok_changes [OF l(1) ch ok(1) l(2) hdr l(4-8)], intro ballI, rule link)
      (use l(2,3) in auto)
qed

section \<open>Moving nodes\<close>

lemma regs_ok_move:
  assumes "regs_ok c g" and "mset (nodes g') = mset (nodes g)" and "mset (blks g') = mset (blks g)"
    and "g_pool g' = g_pool g"
  shows "regs_ok c g'"
proof -
  have "set (blks g') = set (blks g)" using assms(3) by (metis set_mset_mset)
  moreover have "regs g' = regs g" using assms(2-4) by (simp add: regs_def)
  ultimately show ?thesis using assms(1,4) by (simp add: regs_ok_def)
qed

lemma hd_slot_cases: "hd_slot w \<in> {4, 124, 120}"
  by (cases w) simp_all

lemma tl_slot_cases: "tl_slot w \<in> {12, 112, 110}"
  by (cases w) simp_all

lemma which_hdr [simp]: "hdr_pair (hd_slot w)" "hdr_pair (tl_slot w)" "hd_slot v \<noteq> tl_slot w" "tl_slot w \<noteq> hd_slot v"
    "hd_slot w \<noteq> DATA_ALLOC" "tl_slot w \<noteq> DATA_ALLOC" "hd_slot w < 163" "tl_slot w < 163"
  using hd_slot_cases [of w] hd_slot_cases [of v] tl_slot_cases [of w] by auto

lemma which_neq: "v \<noteq> w \<Longrightarrow> hd_slot v \<noteq> hd_slot w \<and> tl_slot v \<noteq> tl_slot w"
  by (cases v; cases w; simp)

lemma which_pairs: "hd_slot v \<noteq> tl_slot w + 1" "tl_slot w \<noteq> hd_slot v + 1"
    "hd_slot v \<noteq> hd_slot w + 1" "tl_slot v \<noteq> tl_slot w + 1"
  using hd_slot_cases [of v] hd_slot_cases [of w] tl_slot_cases [of w] tl_slot_cases [of v] by auto

lemma which_hdr_slots: "hd_slot v \<noteq> STACK_HEAD" "tl_slot v \<noteq> STACK_HEAD"
    "hd_slot v + 1 \<noteq> STACK_HEAD" "tl_slot v + 1 \<noteq> STACK_HEAD" "hd_slot v + 1 \<noteq> DATA_ALLOC" "tl_slot v + 1 \<noteq> DATA_ALLOC"
    "hd_slot v \<noteq> ID_CNTR" "tl_slot v \<noteq> ID_CNTR" "tl_slot v + 1 \<noteq> ID_CNTR"
  using hd_slot_cases [of v] tl_slot_cases [of v] by auto

lemma which_bucket: "2 \<le> k \<Longrightarrow> k < 50 \<Longrightarrow>
    bucket k \<notin> {hd_slot w, hd_slot w + 1, tl_slot w, tl_slot w + 1, ID_CNTR, STACK_HEAD, STACK_HEAD + 1, DATA_ALLOC}"
  using bucket_range [of k] hd_slot_cases [of w] tl_slot_cases [of w] by auto

lemma list_nodes: "set (g_list g w) \<subseteq> set (nodes g)"
  by (cases w) (auto simp: nodes_def)

lemma nodes_apart:
  assumes "regs_ok c g"
  shows "v \<noteq> w \<Longrightarrow> set (g_list g v) \<inter> set (g_list g w) = {}"
    and "set (g_list g w) \<inter> set (g_stack g) = {}" and "set (g_list g w) \<inter> set (g_loose g) = {}"
    and "set (g_stack g) \<inter> set (g_loose g) = {}"
  using nodes_distinct [OF assms] by (cases v; cases w; auto simp: nodes_def)+

text \<open>The front node leaves a list.\<close>

lemma changes_remove_front:
  "changes c (remove_front_cells c x (hd_slot w)) {hd_slot w, hd_slot w + 1} (link_regs {x})"
  using hd_slot_cases [of w] unfolding changes_def remove_front_cells_def link_regs_def by (auto split: if_splits)

lemma take_parts:
  assumes inv: "heap_inv c g" and l: "g_list g w = x # y # ys"
  defines "c' \<equiv> remove_front_cells c x (hd_slot w)"
  shows "regs_ok c' g" and "items_ok c' g" and "events_ok c' g" and "stacks_ok c' g"
    and "lists_ok c' (g\<lparr>g_list := (g_list g)(w := y # ys)\<rparr>)"
proof -
  have ok: "regs_ok c g" "lists_ok c g" "stacks_ok c g" "items_ok c g" "events_ok c g"
    using inv by (simp_all add: heap_inv_def)
  have ch: "changes c c' {hd_slot w, hd_slot w + 1} (link_regs {x})"
    unfolding c'_def by (rule changes_remove_front)
  have x: "x \<in> set (g_list g w)" using l by simp
  have N: "{x} \<subseteq> set (nodes g)" and d: "DATA_ALLOC \<notin> {hd_slot w, hd_slot w + 1}"
    using x list_nodes [of g w] which_hdr(5) [of w] which_hdr_slots(5) [of w] by auto
  note fr = link_frame [OF inv ch N d]
  show "regs_ok c' g" "items_ok c' g" "events_ok c' g" by (fact fr(1-3))+
  have "x \<notin> set (g_stack g)" using nodes_apart(2) [OF ok(1), of w] x by auto
  then have "stack_rep c' STACK_HEAD (g_stack g)" using which_hdr_slots(1,3) [of w] by (intro fr(5)) auto
  moreover have "stack_rep c' (bucket k) (g_pool g k)" if "2 \<le> k" "k < 50" for k
    using which_bucket [OF that, of w] that by (intro fr(4)) auto
  ultimately show "stacks_ok c' g" by (simp add: stacks_ok_def)
  have nok: "node_ok (c DATA_ALLOC) z" if "z \<in> set (g_list g v)" for z v
    using nodes_ok [OF ok(1)] list_nodes that by blast
  have "list_rep c' (hd_slot v) (tl_slot v) (((g_list g)(w := y # ys)) v)" for v
  proof (cases "v = w")
    case True
    have "list_rep c (hd_slot w) (tl_slot w) (x # y # ys)" using ok(2) l unfolding lists_ok_def by metis
    then have "list_rep c' (hd_slot w) (tl_slot w) (y # ys)"
      unfolding c'_def by (rule list_rep_remove_front) (use nok [of _ w] l in auto)
    with True show ?thesis by simp
  next
    case False
    have rep: "list_rep c (hd_slot v) (tl_slot v) (g_list g v)" using ok(2) by (simp add: lists_ok_def)
    have "x \<notin> set (g_list g v)" using nodes_apart(1) [OF ok(1) False] x by auto
    then have "list_rep c' (hd_slot v) (tl_slot v) (g_list g v)"
      unfolding c'_def
      by (intro list_rep_remove_front_other [OF rep, of "c DATA_ALLOC"])
        (use nok x which_neq [OF False] in auto)
    with False show ?thesis by simp
  qed
  then show "lists_ok c' (g\<lparr>g_list := (g_list g)(w := y # ys)\<rparr>)" by (simp add: lists_ok_def)
qed

text \<open>A loose node joins the end of a list.\<close>

lemma changes_add_end:
  "changes c (add_end_cells c l x (tl_slot w)) {ID_CNTR, tl_slot w, tl_slot w + 1} (link_regs {x, l})"
  using tl_slot_cases [of w] unfolding changes_def add_end_cells_def link_regs_def by (auto split: if_splits)

lemma put_parts:
  fixes w :: which
  assumes inv: "heap_inv c g" and x: "x \<in> set (g_loose g)"
  defines "c' \<equiv> add_end_cells c (last (g_list g w)) x (tl_slot w)"
  shows "regs_ok c' g" and "items_ok c' g" and "events_ok c' g" and "stacks_ok c' g"
    and "lists_ok c' (g\<lparr>g_list := (g_list g)(w := g_list g w @ [x])\<rparr>)"
proof -
  let ?l = "last (g_list g w)"
  have ok: "regs_ok c g" "lists_ok c g" "stacks_ok c g" "items_ok c g" "events_ok c g"
    using inv by (simp_all add: heap_inv_def)
  have rep: "list_rep c (hd_slot v) (tl_slot v) (g_list g v)" for v using ok(2) by (simp add: lists_ok_def)
  have l: "?l \<in> set (g_list g w)" using rep [of w] by (auto simp: list_rep_def)
  have xn: "x \<in> set (nodes g)" using x by (simp add: nodes_def)
  have ch: "changes c c' {ID_CNTR, tl_slot w, tl_slot w + 1} (link_regs {x, ?l})"
    unfolding c'_def by (rule changes_add_end)
  have N: "{x, ?l} \<subseteq> set (nodes g)" and d: "DATA_ALLOC \<notin> {ID_CNTR, tl_slot w, tl_slot w + 1}"
    using l xn list_nodes [of g w] which_hdr(6) [of w] which_hdr_slots(6) [of w] by auto
  note fr = link_frame [OF inv ch N d]
  show "regs_ok c' g" "items_ok c' g" "events_ok c' g" by (fact fr(1-3))+
  have "?l \<notin> set (g_stack g)" "x \<notin> set (g_stack g)"
    using nodes_apart(2) [OF ok(1), of w] nodes_apart(4) [OF ok(1)] l x by auto
  then have "stack_rep c' STACK_HEAD (g_stack g)" using which_hdr_slots(2,4) [of w] by (intro fr(5)) auto
  moreover have "stack_rep c' (bucket k) (g_pool g k)" if "2 \<le> k" "k < 50" for k
    using which_bucket [OF that, of w] that by (intro fr(4)) auto
  ultimately show "stacks_ok c' g" by (simp add: stacks_ok_def)
  have nok: "node_ok (c DATA_ALLOC) z" if "z \<in> set (g_list g v)" for z v
    using nodes_ok [OF ok(1)] list_nodes that by blast
  have xok: "node_ok (c DATA_ALLOC) x" by (rule nodes_ok [OF ok(1) xn])
  have xv: "x \<notin> set (g_list g v)" for v using nodes_apart(3) [OF ok(1), of v] x by auto
  have "list_rep c' (hd_slot v) (tl_slot v) (((g_list g)(w := g_list g w @ [x])) v)" for v
  proof (cases "v = w")
    case True
    have "list_rep c' (hd_slot w) (tl_slot w) (g_list g w @ [x])"
      unfolding c'_def by (rule list_rep_add_end [OF list_rep_lag [OF rep] _ _ _ _ xok xv]) (use nok in auto)
    with True show ?thesis by simp
  next
    case False
    have "?l \<notin> set (g_list g v)" using nodes_apart(1) [OF ok(1) False] l by auto
    then have "list_rep c' (hd_slot v) (tl_slot v) (g_list g v)"
      unfolding c'_def
      by (intro list_rep_add_end_other [OF rep, of v "c DATA_ALLOC" _ _ "c DATA_ALLOC"])
        (use nok l xok xv which_neq [OF False] in auto)
    with False show ?thesis by simp
  qed
  then show "lists_ok c' (g\<lparr>g_list := (g_list g)(w := g_list g w @ [x])\<rparr>)" by (simp add: lists_ok_def)
qed

end
