(* ===== verification/Moves.thy ===== *)
theory Moves
  imports Invariant
begin

text \<open>
  The moves of the ghost state: a node leaves or joins a list or the stack, an entry goes
  with it, a block is freed, reused or cut from unused space. Each lemma says that the words
  an operation writes turn an object that satisfies the invariant into one that satisfies it
  after the move.
\<close>

lemma heap_inv_parts:
  "heap_inv c g \<Longrightarrow> regs_ok c g" "heap_inv c g \<Longrightarrow> lists_ok c g" "heap_inv c g \<Longrightarrow> stacks_ok c g"
  "heap_inv c g \<Longrightarrow> items_ok c g" "heap_inv c g \<Longrightarrow> events_ok c g"
  by (simp_all add: heap_inv_def)

lemma heap_invI:
  "regs_ok c g \<Longrightarrow> lists_ok c g \<Longrightarrow> stacks_ok c g \<Longrightarrow> items_ok c g \<Longrightarrow> events_ok c g \<Longrightarrow> heap_inv c g"
  by (simp add: heap_inv_def)

text \<open>Parts of the invariant depend on parts of the ghost state.\<close>

lemma lists_ok_cong: "g_list g' = g_list g \<Longrightarrow> lists_ok c g' = lists_ok c g"
  by (simp add: lists_ok_def)

lemma stacks_ok_cong: "g_stack g' = g_stack g \<Longrightarrow> g_pool g' = g_pool g \<Longrightarrow> stacks_ok c g' = stacks_ok c g"
  by (simp add: stacks_ok_def)

lemma items_ok_cong:
  "g_list g' Items = g_list g Items \<Longrightarrow> g_fifo g' = g_fifo g \<Longrightarrow> g_stack g' = g_stack g \<Longrightarrow> g_lifo g' = g_lifo g \<Longrightarrow>
   g_held g' = g_held g \<Longrightarrow> items_ok c g' = items_ok c g"
  by (simp add: items_ok_def)

lemma events_ok_cong:
  "g_list g' Events = g_list g Events \<Longrightarrow> g_evs g' = g_evs g \<Longrightarrow> events_ok c g' = events_ok c g"
  by (simp add: events_ok_def)

text \<open>Where the structures keep their words in the header.\<close>

lemma struct_slots_header: "struct_slots \<subseteq> {4, 12, 13, 110, 111, 112, 113, 120, 124, 142} \<union> {14..<110}"
proof
  fix i assume "i \<in> struct_slots"
  then consider w where "i \<in> list_slots w" | "i = STACK_HEAD" | k where "2 \<le> k" "k < 50" "i = bucket k"
    by (auto simp: struct_slots_def)
  then show "i \<in> {4, 12, 13, 110, 111, 112, 113, 120, 124, 142} \<union> {14..<110}"
  proof cases
    case (1 w)
    then show ?thesis using hd_slot_cases [of w] tl_slot_cases [of w] by (auto simp: list_slots_def)
  next
    case 3
    then show ?thesis using bucket_range [of k] by simp
  qed simp
qed

section \<open>Nodes of the lists\<close>

lemma heap_take_free:
  assumes inv: "heap_inv c g" and l: "g_list g Free = x # y # ys"
  shows "heap_inv (remove_front_cells c x FREE_HEAD)
    (g\<lparr>g_list := (g_list g)(Free := y # ys), g_loose := x # g_loose g\<rparr>)"
proof -
  note p = take_parts [OF inv l, unfolded hd_slot.simps]
  show ?thesis
    by (rule heap_invI) (use p l in \<open>auto simp: nodes_def blks_def items_ok_def events_ok_def stacks_ok_def lists_ok_def
      intro: regs_ok_move [OF p(1)]\<close>)
qed

lemma heap_take_item:
  assumes inv: "heap_inv c g" and l: "g_list g Items = x # y # ys" and f: "g_fifo g = e # es"
  shows "heap_inv (remove_front_cells c x HEAD)
    (g\<lparr>g_list := (g_list g)(Items := y # ys), g_loose := x # g_loose g, g_fifo := es, g_held := e # g_held g\<rparr>)"
proof -
  note p = take_parts [OF inv l, unfolded hd_slot.simps]
  have "items_ok (remove_front_cells c x HEAD)
    (g\<lparr>g_list := (g_list g)(Items := y # ys), g_loose := x # g_loose g, g_fifo := es, g_held := e # g_held g\<rparr>)"
    using p(2) l f by (auto simp: items_ok_def)
  with p l f show ?thesis
    by (intro heap_invI) (auto simp: nodes_def blks_def events_ok_def stacks_ok_def lists_ok_def
      intro: regs_ok_move [OF p(1)])
qed

lemma heap_take_event:
  assumes inv: "heap_inv c g" and l: "g_list g Events = x # y # ys" and f: "g_evs g = ev # evs"
  shows "heap_inv (remove_front_cells c x EVENT_HEAD)
    (g\<lparr>g_list := (g_list g)(Events := y # ys), g_loose := x # g_loose g, g_evs := evs\<rparr>)"
proof -
  note p = take_parts [OF inv l, unfolded hd_slot.simps]
  show ?thesis
    by (rule heap_invI) (use p l f in \<open>auto simp: nodes_def blks_def items_ok_def events_ok_def stacks_ok_def lists_ok_def
      intro: regs_ok_move [OF p(1)]\<close>)
qed

lemma list_ne: "lists_ok c g \<Longrightarrow> g_list g w \<noteq> []"
  unfolding lists_ok_def list_rep_def using chain_not_Nil by blast

lemma tl_snoc: "xs \<noteq> [] \<Longrightarrow> tl (xs @ [x]) = tl xs @ [x]"
  by (cases xs) auto

lemma heap_put_free:
  assumes inv: "heap_inv c g" and x: "g_loose g = x # L"
  shows "heap_inv (add_end_cells c (last (g_list g Free)) x FREE_TAIL)
    (g\<lparr>g_list := (g_list g)(Free := g_list g Free @ [x]), g_loose := L\<rparr>)"
proof -
  have "x \<in> set (g_loose g)" using x by simp
  note p = put_parts [OF inv this, of Free, unfolded tl_slot.simps]
  show ?thesis
    by (rule heap_invI) (use p x in \<open>auto simp: nodes_def blks_def items_ok_def events_ok_def stacks_ok_def lists_ok_def
      intro: regs_ok_move [OF p(1)]\<close>)
qed

text \<open>The fields of a node that joins a list stay as they are.\<close>

lemma add_end_field:
  assumes inv: "heap_inv c g" and x: "x \<in> set (g_loose g)" and n: "n \<in> set (nodes g)"
  shows "add_end_cells c (last (g_list g w)) x (tl_slot w) (n + 2) = c (n + 2)"
    "add_end_cells c (last (g_list g w)) x (tl_slot w) (n + 3) = c (n + 3)"
proof -
  note ok = heap_inv_parts(1,2) [OF inv]
  have l: "last (g_list g w) \<in> set (nodes g)" using list_ne [OF ok(2), of w] list_nodes [of g w] by (auto dest: last_in_set)
  have xn: "x \<in> set (nodes g)" using x by (simp add: nodes_def)
  let ?R = "link_regs {x, last (g_list g w)}"
  have "disj (n + 2, 2) r" if "r \<in> ?R" for r
    using that fields_disj [OF nodes_ok [OF ok(1) n] nodes_ok [OF ok(1) xn]]
      fields_disj [OF nodes_ok [OF ok(1) n] nodes_ok [OF ok(1) l]] by (auto simp: link_regs_def)
  then show "add_end_cells c (last (g_list g w)) x (tl_slot w) (n + 2) = c (n + 2)"
    "add_end_cells c (last (g_list g w)) x (tl_slot w) (n + 3) = c (n + 3)"
    using field_changes [OF changes_add_end [of c "last (g_list g w)" x w] nodes_ok [OF ok(1) n]] by blast+
qed

lemma heap_put_item:
  assumes inv: "heap_inv c g" and x: "g_loose g = x # L" and e: "g_held g = e # es" "c (x + 3) = e_blk e"
  shows "heap_inv (add_end_cells c (last (g_list g Items)) x TAIL)
    (g\<lparr>g_list := (g_list g)(Items := g_list g Items @ [x]), g_loose := L, g_fifo := g_fifo g @ [e], g_held := es\<rparr>)"
proof -
  have xl: "x \<in> set (g_loose g)" using x by simp
  then have xn: "x \<in> set (nodes g)" by (simp add: nodes_def)
  note p = put_parts [OF inv xl, of Items, unfolded tl_slot.simps]
  have "carries (add_end_cells c (last (g_list g Items)) x TAIL) x e"
    using add_end_field(2) [OF inv xl xn, of Items] e(2) by (simp add: carries_def)
  then have "items_ok (add_end_cells c (last (g_list g Items)) x TAIL)
    (g\<lparr>g_list := (g_list g)(Items := g_list g Items @ [x]), g_loose := L, g_fifo := g_fifo g @ [e], g_held := es\<rparr>)"
    using p(2) e list_ne [OF heap_inv_parts(2) [OF inv], of Items]
    by (auto simp: items_ok_def tl_snoc intro: list_all2_appendI)
  with p x e show ?thesis
    by (intro heap_invI) (auto simp: nodes_def blks_def events_ok_def stacks_ok_def lists_ok_def
      intro: regs_ok_move [OF p(1)])
qed

lemma heap_put_event:
  assumes inv: "heap_inv c g" and x: "g_loose g = x # L" and e: "c (x + 2) = ev" "1 \<le> ev" "ev \<le> 6"
  shows "heap_inv (add_end_cells c (last (g_list g Events)) x EVENT_TAIL)
    (g\<lparr>g_list := (g_list g)(Events := g_list g Events @ [x]), g_loose := L, g_evs := g_evs g @ [ev]\<rparr>)"
proof -
  have xl: "x \<in> set (g_loose g)" using x by simp
  then have xn: "x \<in> set (nodes g)" by (simp add: nodes_def)
  note p = put_parts [OF inv xl, of Events, unfolded tl_slot.simps]
  have "add_end_cells c (last (g_list g Events)) x EVENT_TAIL (x + 2) = ev"
    using add_end_field(1) [OF inv xl xn, of Events] e(1) by simp
  then have "events_ok (add_end_cells c (last (g_list g Events)) x EVENT_TAIL)
    (g\<lparr>g_list := (g_list g)(Events := g_list g Events @ [x]), g_loose := L, g_evs := g_evs g @ [ev]\<rparr>)"
    using p(3) e list_ne [OF heap_inv_parts(2) [OF inv], of Events]
    by (auto simp: events_ok_def tl_snoc intro: list_all2_appendI)
  with p x show ?thesis
    by (intro heap_invI) (auto simp: nodes_def blks_def items_ok_def stacks_ok_def lists_ok_def
      intro: regs_ok_move [OF p(1)])
qed

section \<open>The stack\<close>

lemma changes_push: "changes c (push_cells c x STACK_HEAD) {STACK_HEAD, STACK_HD_CNT} (link_regs {x})"
  unfolding changes_def push_cells_def link_regs_def by (auto split: if_splits)

lemma changes_pop:
  "changes c ((pop_cells c x STACK_HEAD)(x := 0, x + 1 := 0)) {STACK_HEAD, STACK_HD_CNT} (link_regs {x})"
  unfolding changes_def pop_cells_def link_regs_def by (auto split: if_splits)

lemma stack_move:
  assumes inv: "heap_inv c g" and ch: "changes c c' {STACK_HEAD, STACK_HD_CNT} (link_regs {x})"
    and x: "x \<in> set (g_loose g) \<union> set (g_stack g)"
  shows "regs_ok c' g" and "items_ok c' g" and "events_ok c' g" and "lists_ok c' g"
    and "2 \<le> k \<Longrightarrow> k < 50 \<Longrightarrow> stack_rep c' (bucket k) (g_pool g k)"
    and "n \<in> set (nodes g) \<Longrightarrow> c' (n + 3) = c (n + 3)"
proof -
  note ok = heap_inv_parts [OF inv]
  have N: "{x} \<subseteq> set (nodes g)" and d: "DATA_ALLOC \<notin> {STACK_HEAD, STACK_HD_CNT}" using x by (auto simp: nodes_def)
  note fr = link_frame [OF inv ch N d]
  show "regs_ok c' g" "items_ok c' g" "events_ok c' g" by (fact fr(1-3))+
  have "{x} \<inter> set (g_list g w) = {}" for w
    using nodes_apart(2,3) [OF ok(1), of w] x by auto
  moreover have "hd_slot w \<notin> {STACK_HEAD, STACK_HD_CNT}" "tl_slot w \<notin> {STACK_HEAD, STACK_HD_CNT}"
    "tl_slot w + 1 \<notin> {STACK_HEAD, STACK_HD_CNT}" "hd_slot w < HDR_END" "tl_slot w + 1 < HDR_END" for w
    by (cases w; simp)+
  moreover have "list_rep c (hd_slot w) (tl_slot w) (g_list g w)" for w
    using ok(2) by (simp add: lists_ok_def)
  ultimately have "list_rep c' (hd_slot w) (tl_slot w) (g_list g w)" for w
    by (intro fr(6) list_nodes)
  then show "lists_ok c' g" by (simp add: lists_ok_def)
  show "2 \<le> k \<Longrightarrow> k < 50 \<Longrightarrow> stack_rep c' (bucket k) (g_pool g k)"
    using which_bucket [of k] by (intro fr(4)) auto
  assume n: "n \<in> set (nodes g)"
  have "\<forall>r\<in>link_regs {x}. disj (n + 2, 2) r"
    using fields_disj [OF nodes_ok [OF ok(1) n] nodes_ok [OF ok(1)], of x] N by (auto simp: link_regs_def)
  then show "c' (n + 3) = c (n + 3)" using field_changes(2) [OF ch nodes_ok [OF ok(1) n]] by blast
qed

lemma heap_push:
  assumes inv: "heap_inv c g" and x: "g_loose g = x # L" and e: "g_held g = e # es" "c (x + 3) = e_blk e"
  shows "heap_inv (push_cells c x STACK_HEAD)
    (g\<lparr>g_stack := x # g_stack g, g_loose := L, g_lifo := e # g_lifo g, g_held := es\<rparr>)"
proof -
  note ok = heap_inv_parts [OF inv]
  have xl: "x \<in> set (g_loose g) \<union> set (g_stack g)" "x \<in> set (nodes g)" using x by (auto simp: nodes_def)
  note m = stack_move [OF inv changes_push xl(1)]
  have "stack_rep (push_cells c x STACK_HEAD) STACK_HEAD (x # g_stack g)"
  proof (rule stack_rep_push)
    show "stack_rep c STACK_HEAD (g_stack g)" using ok(3) by (simp add: stacks_ok_def)
    show "x \<notin> set (g_stack g)" using nodes_apart(4) [OF ok(1)] x by auto
    show "\<forall>y\<in>set (x # g_stack g). node_ok (c DATA_ALLOC) y"
      using nodes_ok [OF ok(1)] xl(2) by (auto simp: nodes_def)
  qed simp
  moreover have "items_ok (push_cells c x STACK_HEAD)
      (g\<lparr>g_stack := x # g_stack g, g_loose := L, g_lifo := e # g_lifo g, g_held := es\<rparr>)"
    using m(2) m(6) [OF xl(2)] e by (auto simp: items_ok_def carries_def)
  ultimately show ?thesis
    using m x e
    by (intro heap_invI) (auto simp: nodes_def blks_def events_ok_def stacks_ok_def lists_ok_def
      intro: regs_ok_move [OF m(1)])
qed

lemma heap_pop:
  assumes inv: "heap_inv c g" and x: "g_stack g = x # xs" and e: "g_lifo g = e # es"
  shows "heap_inv ((pop_cells c x STACK_HEAD)(x := 0, x + 1 := 0))
    (g\<lparr>g_stack := xs, g_loose := x # g_loose g, g_lifo := es, g_held := e # g_held g\<rparr>)"
proof -
  let ?c = "(pop_cells c x STACK_HEAD)(x := 0, x + 1 := 0)"
  note ok = heap_inv_parts [OF inv]
  have xl: "x \<in> set (g_loose g) \<union> set (g_stack g)" "x \<in> set (nodes g)" using x by (auto simp: nodes_def)
  note m = stack_move [OF inv changes_pop xl(1)]
  have nok: "\<forall>y\<in>set (x # xs). node_ok (c DATA_ALLOC) y"
    using nodes_ok [OF ok(1)] x by (auto simp: nodes_def)
  have rep: "stack_rep c STACK_HEAD (x # xs)" using ok(3) x by (simp add: stacks_ok_def)
  then have dx: "x \<notin> set xs" by (simp add: stack_rep_def)
  have "stack_rep ?c STACK_HEAD xs"
  proof (rule stack_rep_pop [OF rep nok])
    fix y assume y: "y \<in> set xs"
    then have "node_ok (c DATA_ALLOC) y" "node_ok (c DATA_ALLOC) x" "y \<noteq> x" using nok dx by auto
    from node_ok_aligned [OF this] show "?c y = pop_cells c x STACK_HEAD y" by auto
  next
    show "?c STACK_HEAD = pop_cells c x STACK_HEAD STACK_HEAD" using nok by (auto simp: node_ok_def)
  qed simp
  moreover have "items_ok ?c
      (g\<lparr>g_stack := xs, g_loose := x # g_loose g, g_lifo := es, g_held := e # g_held g\<rparr>)"
    using m(2) x e by (auto simp: items_ok_def)
  ultimately show ?thesis
    using m x e
    by (intro heap_invI) (auto simp: nodes_def blks_def events_ok_def stacks_ok_def lists_ok_def
      intro: regs_ok_move [OF m(1)])
qed

section \<open>Blocks\<close>

lemma blk_ok:
  assumes "regs_ok c g" and "b \<in> set (blks g)"
  shows "reg_ok (c DATA_ALLOC) (blk_reg b)" "3 \<le> snd b" "snd b \<le> 30" "node_ok (c DATA_ALLOC) (fst b)"
    "fst b + 2 ^ snd b \<le> c DATA_ALLOC"
proof -
  show r: "reg_ok (c DATA_ALLOC) (blk_reg b)" and b: "3 \<le> snd b" "snd b \<le> 30"
    using assms blk_region by (auto simp: regs_ok_def)
  have "(2::int) ^ 2 \<le> 2 ^ snd b" using b(1) by (intro power_increasing) simp_all
  then show "node_ok (c DATA_ALLOC) (fst b)" "fst b + 2 ^ snd b \<le> c DATA_ALLOC"
    using r by (auto simp: reg_ok_def node_ok_def blk_reg_def)
qed

lemma pool_ok:
  assumes "regs_ok c g" and "y \<in> set (g_pool g k)"
  shows "3 \<le> k" "k \<le> 30" "node_ok (c DATA_ALLOC) y" "y + 2 ^ k \<le> c DATA_ALLOC" "reg_ok (c DATA_ALLOC) (y, 2 ^ k)"
proof -
  have "g_pool g k \<noteq> []" using assms(2) by auto
  then show k: "3 \<le> k" "k \<le> 30" using assms(1) unfolding regs_ok_def by blast+
  then show r: "reg_ok (c DATA_ALLOC) (y, 2 ^ k)"
    using assms pool_region [of k y g] by (auto simp: regs_ok_def)
  have "(2::int) ^ 2 \<le> 2 ^ k" using k(1) by (intro power_increasing) simp_all
  then show "node_ok (c DATA_ALLOC) y" "y + 2 ^ k \<le> c DATA_ALLOC"
    using r by (auto simp: reg_ok_def node_ok_def)
qed

text \<open>Letting go of a held entry: its block is loose.\<close>

lemma heap_drop_held:
  assumes inv: "heap_inv c g" and e: "g_held g = e # es"
  shows "heap_inv c (g\<lparr>g_held := es, g_loose_blks := (e_blk e, e_exp e) # g_loose_blks g\<rparr>)"
proof -
  note ok = heap_inv_parts [OF inv]
  show ?thesis
    using ok(2-) e
    by (intro heap_invI) (auto simp: nodes_def blks_def events_ok_def stacks_ok_def lists_ok_def items_ok_def
      intro: regs_ok_move [OF ok(1)])
qed

text \<open>A loose block that has been filled is a held entry.\<close>

lemma heap_hold:
  assumes inv: "heap_inv c g" and b: "g_loose_blks g = (e_blk e, e_exp e) # B" and e: "entry_ok c e"
  shows "heap_inv c (g\<lparr>g_loose_blks := B, g_held := e # g_held g\<rparr>)"
proof -
  note ok = heap_inv_parts [OF inv]
  show ?thesis
    using ok(2-) b e
    by (intro heap_invI) (auto simp: nodes_def blks_def events_ok_def stacks_ok_def lists_ok_def items_ok_def
      intro: regs_ok_move [OF ok(1)])
qed

lemma changes_push_blk:
  "2 \<le> k \<Longrightarrow> k < 50 \<Longrightarrow> changes c (push_cells c b (bucket k)) {bucket k, bucket k + 1} {(b, 2)}"
  using bucket_range [of k] unfolding changes_def push_cells_def by (auto split: if_splits)

lemma bucket_slots:
  assumes "2 \<le> k" and "k < 50"
  shows "list_slots w \<inter> {bucket k, bucket k + 1} = {}" and "STACK_HEAD \<notin> {bucket k, bucket k + 1}"
    and "DATA_ALLOC \<notin> {bucket k, bucket k + 1}"
    and "j \<noteq> k \<Longrightarrow> bucket j \<notin> {bucket k, bucket k + 1}"
  using bucket_range [OF assms] hd_slot_cases [of w] tl_slot_cases [of w] bucket_pair_neq [of j k]
  by (auto simp: list_slots_def)

lemma heap_free_blk:
  assumes inv: "heap_inv c g" and e: "g_held g = e # es"
  shows "heap_inv (push_cells c (e_blk e) (bucket (e_exp e)))
    (g\<lparr>g_held := es, g_pool := (g_pool g)(e_exp e := e_blk e # g_pool g (e_exp e))\<rparr>)"
proof -
  let ?b = "e_blk e" and ?k = "e_exp e"
  let ?g = "g\<lparr>g_held := es, g_loose_blks := (?b, ?k) # g_loose_blks g\<rparr>" and ?c = "push_cells c ?b (bucket ?k)"
  have inv': "heap_inv c ?g" by (rule heap_drop_held [OF inv e])
  note ok = heap_inv_parts [OF inv]
  have bm: "(?b, ?k) \<in> set (blks g)" using e by (simp add: blks_def)
  note b = blk_ok [OF ok(1) bm, simplified]
  have k: "2 \<le> ?k" "?k < 50" using b by simp_all
  note ch = changes_push_blk [OF k, of c ?b]
  have lr: "(?b, 2 ^ ?k) \<in> loose_regs ?g" by (auto simp: loose_regs_def blk_reg_def)
  have R: "\<forall>r\<in>{(?b, 2)}. HDR_END \<le> fst r" "\<forall>r\<in>{(?b, 2)}. \<forall>p\<in>#rest_regs ?g. disj p r"
    using b loose_disj [OF heap_inv_parts(1) [OF inv'] _ lr] disj_subr [of _ ?b "2 ^ ?k" ?b 2] pow_ge_2 [OF k(1)]
    by (auto simp: node_ok_def)
  note fr = frame_each [OF inv' ch R]
  note bs = bucket_slots [OF k]
  have lists: "list_rep ?c (hd_slot w) (tl_slot w) (g_list g w)" for w using fr(3) [OF bs(1), of w] by simp
  have other: "stack_rep ?c (bucket j) (g_pool g j)" if "2 \<le> j" "j < 50" "j \<noteq> ?k" for j
    using fr(5) [OF that(1,2) bs(4) [OF that(3)]] by simp
  have "stack_rep ?c (bucket ?k) (?b # g_pool g ?k)"
  proof (rule stack_rep_push)
    show "stack_rep c (bucket ?k) (g_pool g ?k)" using ok(3) k by (simp add: stacks_ok_def)
    show "?b \<notin> set (g_pool g ?k)"
    proof
      assume "?b \<in> set (g_pool g ?k)"
      then have "(?b, 2 ^ ?k) \<in># rest_regs ?g" using k(2) rest_regs_parts(3) [of ?k ?b ?g] by simp
      from loose_disj [OF heap_inv_parts(1) [OF inv'] this lr] show False by (simp add: disj_def)
    qed
    show "\<forall>y\<in>set (?b # g_pool g ?k). node_ok (c DATA_ALLOC) y"
      using b(4) pool_ok(3) [OF ok(1)] by auto
    show "bucket ?k < 163" using bucket_range [OF k] by simp
  qed
  with other have stacks: "stack_rep ?c (bucket j) (((g_pool g)(?k := ?b # g_pool g ?k)) j)" if "2 \<le> j" "j < 50" for j
    using that by simp
  have d: "?c DATA_ALLOC = c DATA_ALLOC" using changes_header [OF ch _ bs(3) R(1)] by simp
  let ?g' = "g\<lparr>g_held := es, g_pool := (g_pool g)(?k := ?b # g_pool g ?k)\<rparr>"
  have "regs ?g' = regs g"
    using e pool_regs_upd [OF k(2), of "g_pool g" ?b] by (simp add: regs_def nodes_def blks_def blk_reg_def)
  moreover have "set (blks ?g') \<subseteq> set (blks g)" using e by (auto simp: blks_def)
  ultimately have "regs_ok ?c ?g'" using ok(1) d b(2,3) by (auto simp: regs_ok_def)
  with fr(1,2) fr(4) [OF bs(2)] lists stacks show ?thesis
    by (intro heap_invI) (auto simp: events_ok_def stacks_ok_def lists_ok_def items_ok_def)
qed

text \<open>A freed block is used again.\<close>

lemma heap_pop_blk:
  assumes inv: "heap_inv c g" and k: "k < 50" and x: "g_pool g k = x # xs"
  shows "heap_inv (pop_cells c x (bucket k))
    (g\<lparr>g_pool := (g_pool g)(k := xs), g_loose_blks := (x, k) # g_loose_blks g\<rparr>)"
proof -
  let ?c = "pop_cells c x (bucket k)" and ?g = "g\<lparr>g_pool := (g_pool g)(k := xs), g_loose_blks := (x, k) # g_loose_blks g\<rparr>"
  note ok = heap_inv_parts [OF inv]
  have xm: "x \<in> set (g_pool g k)" using x by simp
  note p = pool_ok [OF ok(1) xm]
  have k2: "2 \<le> k" using p(1) by simp
  have ch: "changes c ?c {bucket k, bucket k + 1} {}"
    using bucket_range [OF k2 k] unfolding changes_def pop_cells_def by (auto split: if_splits)
  note fr = frame_each [OF inv ch, simplified]
  note bs = bucket_slots [OF k2 k]
  have lists: "list_rep ?c (hd_slot w) (tl_slot w) (g_list g w)" for w using fr(3) bs(1) by simp
  have other: "stack_rep ?c (bucket j) (g_pool g j)" if "2 \<le> j" "j < 50" "j \<noteq> k" for j
    using fr(5) [OF that(1,2)] bs(4) [OF that(3)] by simp
  have "stack_rep ?c (bucket k) xs"
  proof (rule stack_rep_pop)
    show "stack_rep c (bucket k) (x # xs)" using ok(3) k2 k x by (auto simp: stacks_ok_def)
    show "\<forall>y\<in>set (x # xs). node_ok (c DATA_ALLOC) y" using pool_ok(3) [OF ok(1), of _ k] x by simp
    show "bucket k < 163" using bucket_range [OF k2 k] by simp
  qed simp_all
  with other have stacks: "stack_rep ?c (bucket j) (((g_pool g)(k := xs)) j)" if "2 \<le> j" "j < 50" for j
    using that by simp
  have d: "?c DATA_ALLOC = c DATA_ALLOC" using changes_header [OF ch] bs(3) by simp
  have "pool_regs (g_pool g) = add_mset (x, 2 ^ k) (pool_regs ((g_pool g)(k := xs)))"
    using pool_regs_upd [OF k, of "(g_pool g)(k := xs)" x] x by (simp add: fun_upd_idem)
  then have "regs ?g = regs g" by (simp add: regs_def nodes_def blks_def blk_reg_def)
  moreover have "set (blks ?g) = insert (x, k) (set (blks g))" by (auto simp: blks_def)
  ultimately have "regs_ok ?c ?g" using ok(1) d p(1,2) by (auto simp: regs_ok_def)
  with fr(1,2,4) bs(2) lists stacks show ?thesis
    by (intro heap_invI) (auto simp: events_ok_def stacks_ok_def lists_ok_def items_ok_def)
qed

lemma heap_write_loose:
  assumes "heap_inv c g" and "q \<in> loose_regs g"
    and "\<And>i. c' i \<noteq> c i \<Longrightarrow> fst q \<le> i \<and> i < fst q + snd q"
  shows "heap_inv c' g"
proof (rule heap_frame [OF assms(1), of c' "{}" "{q}"])
  show "changes c c' {} {q}" using assms(3) by (auto simp: changes_def)
  have "reg_ok (c DATA_ALLOC) q" by (rule loose_regs_ok [OF heap_inv_parts(1) [OF assms(1)] assms(2)])
  then show "\<forall>r\<in>{q}. \<exists>q\<in>loose_regs g. fst q \<le> fst r \<and> fst r + snd r \<le> fst q + snd q \<and> 0 \<le> snd r"
    using assms(2) by (auto simp: reg_ok_def)
qed simp

lemma heap_reuse_blk:
  assumes inv: "heap_inv c g" and j: "j < 50" and x: "g_pool g j = x # xs" and k: "k \<le> j"
  shows "heap_inv (reuse_cells c x j k)
    (g\<lparr>g_pool := (g_pool g)(j := xs), g_loose_blks := (x, j) # g_loose_blks g\<rparr>)"
proof (rule heap_write_loose [OF heap_pop_blk [OF inv j x], of "(x, 2 ^ j)"])
  have p: "(2::int) ^ k \<le> 2 ^ j" "(1::int) \<le> 2 ^ j" using k by (intro power_increasing) simp_all
  fix i assume "reuse_cells c x j k i \<noteq> pop_cells c x (bucket j) i"
  then have "i = x \<or> x + 1 \<le> i \<and> i < x + 2 ^ k"
    by (auto simp: reuse_cells_def zero_range_def split: if_splits)
  then have "x \<le> i \<and> i < x + 2 ^ j" using p by linarith
  then show "fst (x, 2 ^ j) \<le> i \<and> i < fst (x, 2 ^ j) + snd (x, 2 ^ j)" by simp
qed (auto simp: loose_regs_def blk_reg_def)

section \<open>Unused space\<close>

lemma apart_fresh:
  assumes "regs_ok c g" and "r \<in># regs g"
  shows "disj (c DATA_ALLOC, n) r"
  using assms by (auto simp: regs_ok_def reg_ok_def disj_def)

lemma heap_fresh:
  assumes inv: "heap_inv c g" and g': "regs g' = add_mset (c DATA_ALLOC, n) (regs g)"
    and n: "4 \<le> n" "4 dvd n" and b: "\<forall>b\<in>set (blks g'). 3 \<le> snd b \<and> snd b \<le> 30"
    and q: "(c DATA_ALLOC, n) \<in> loose_regs g'"
    and same: "g_list g' = g_list g" "g_stack g' = g_stack g" "g_pool g' = g_pool g" "g_fifo g' = g_fifo g"
      "g_lifo g' = g_lifo g" "g_evs g' = g_evs g" "g_held g' = g_held g"
  shows "heap_inv (c(DATA_ALLOC := c DATA_ALLOC + n, c DATA_ALLOC := n)) g'"
proof -
  let ?d = "c DATA_ALLOC" and ?c = "c(DATA_ALLOC := c DATA_ALLOC + n)"
  note ok = heap_inv_parts [OF inv]
  have d: "HDR_END \<le> ?d" "4 dvd ?d" using ok(1) by (simp_all add: regs_ok_def)
  have ch: "changes c ?c {DATA_ALLOC} {}" by (simp add: changes_def)
  have sl: "{DATA_ALLOC} \<inter> struct_slots = {}" using struct_slots_header by auto
  note fr = frame_parts [OF inv ch sl, simplified]
  have "regs_ok ?c g'"
    using ok(1) b n d same(3) apart_fresh [OF ok(1), of _ n] unfolding regs_ok_def g'
    by (auto simp: reg_ok_def)
  with fr have inv': "heap_inv ?c g'"
    using lists_ok_cong [OF same(1)] stacks_ok_cong [OF same(2,3)] items_ok_cong [OF _ same(4,2,5,7)]
      events_ok_cong [OF _ same(6)] same(1) by (simp add: heap_inv_def)
  show ?thesis
    by (rule heap_write_loose [OF inv' q]) (use n(1) in \<open>auto split: if_splits\<close>)
qed

lemma heap_fresh_node:
  assumes "heap_inv c g"
  shows "heap_inv (c(DATA_ALLOC := c DATA_ALLOC + 4, c DATA_ALLOC := 4)) (g\<lparr>g_loose := c DATA_ALLOC # g_loose g\<rparr>)"
  by (rule heap_fresh [OF assms])
    (use heap_inv_parts(1) [OF assms] in \<open>auto simp: regs_def nodes_def blks_def regs_ok_def loose_regs_def\<close>)

lemma heap_fresh_blk:
  assumes inv: "heap_inv c g" and k: "3 \<le> k" "k \<le> 30"
  shows "heap_inv (c(DATA_ALLOC := c DATA_ALLOC + 2 ^ k, c DATA_ALLOC := 2 ^ k))
    (g\<lparr>g_loose_blks := (c DATA_ALLOC, k) # g_loose_blks g\<rparr>)"
proof (rule heap_fresh [OF inv])
  show "(4::int) \<le> 2 ^ k" using power_increasing [of 2 k "2::int"] k(1) by simp
  show "(4::int) dvd 2 ^ k" using le_imp_power_dvd [of 2 k "2::int"] k(1) by simp
qed (use heap_inv_parts(1) [OF inv] k in \<open>auto simp: regs_def nodes_def blks_def regs_ok_def loose_regs_def blk_reg_def\<close>)

lemma heap_zero_node:
  assumes "heap_inv c g" and "x \<in> set (g_loose g)"
  shows "heap_inv (zero4 c x) g"
  by (rule heap_write_loose [OF assms(1), of "(x, 4)"])
    (use assms(2) in \<open>auto simp: loose_regs_def zero4_def split: if_splits\<close>)

lemma heap_write_field:
  assumes "heap_inv c g" and "x \<in> set (g_loose g)" and "x \<le> i" and "i < x + 4"
  shows "heap_inv (c(i := v)) g"
  by (rule heap_write_loose [OF assms(1), of "(x, 4)"])
    (use assms(2-) in \<open>auto simp: loose_regs_def split: if_splits\<close>)

text \<open>Header words that no structure uses.\<close>

lemma heap_header:
  assumes "heap_inv c g" and "\<And>i. c' i \<noteq> c i \<Longrightarrow> i < HDR_END \<and> i \<notin> insert DATA_ALLOC struct_slots"
  shows "heap_inv c' g"
  by (rule heap_frame [OF assms(1), of c' "{i. c' i \<noteq> c i}" "{}"]) (use assms(2) in \<open>auto simp: changes_def\<close>)

end
