(* ===== verification/Steps.thy ===== *)
theory Steps
  imports Moves
begin

text \<open>
  The operations on the structures, run on a state that satisfies the invariant: each
  returns, keeps the invariant after the move of the ghost state it makes, and touches only
  the header words named.
\<close>

definition used :: "qstate \<Rightarrow> int" where
  "used s = cells s DATA_ALLOC"

text \<open>From \<open>s\<close> to \<open>t\<close> the handle is kept, header words outside \<open>H\<close> are as they were, and at most
  \<open>n\<close> more slots are used.\<close>

definition moves :: "int set \<Rightarrow> int \<Rightarrow> qstate \<Rightarrow> qstate \<Rightarrow> bool" where
  "moves H n s t \<longleftrightarrow> keeps s t \<and> (\<forall>i<HDR_END. i \<notin> H \<longrightarrow> obj t i = obj s i) \<and> used t \<le> used s + n"

lemma moves_refl [simp]: "0 \<le> n \<Longrightarrow> moves H n s s"
  by (simp add: moves_def)

lemma moves_trans: "moves H n s t \<Longrightarrow> moves K m t u \<Longrightarrow> moves (H \<union> K) (n + m) s u"
  by (auto simp: moves_def intro: keeps_trans)

lemma moves_mono: "moves H n s t \<Longrightarrow> H \<subseteq> K \<Longrightarrow> n \<le> m \<Longrightarrow> moves K m s t"
  by (auto simp: moves_def)

lemma moves_keeps: "moves H n s t \<Longrightarrow> keeps s t"
  by (simp add: moves_def)

lemma moves_word: "moves H n s t \<Longrightarrow> i < HDR_END \<Longrightarrow> i \<notin> H \<Longrightarrow> i \<noteq> SIZE \<Longrightarrow> i \<noteq> EXPAND_SIZE \<Longrightarrow> cells t i = cells s i"
  using obj_eq unfolding moves_def by metis

lemma moves_used: "moves H n s t \<Longrightarrow> used t \<le> used s + n"
  by (simp add: moves_def)

lemma room_used: "room s n \<longleftrightarrow> BASE \<le> used s \<and> used s + 2 * n + 1024 \<le> 2 ^ 44"
  by (simp add: room_def used_def)

lemma moves_room: "moves H n s t \<Longrightarrow> inv t g \<Longrightarrow> room s m \<Longrightarrow> n + 2 * k \<le> 2 * m \<Longrightarrow> room t k"
  using moves_used [of H n s t]
  by (auto simp: room_used inv_def heap_inv_def regs_ok_def obj_eq used_def)

section \<open>What the invariant gives\<close>

lemma inv_parts:
  assumes "inv s g"
  shows "base_ok s" "calm s" "quiet s" "used s \<le> cells s SIZE" "heap_inv (obj s) g" "obj s DATA_ALLOC = used s"
    "HDR_END \<le> used s" "mapped s (base_current s) 512" "mapped s (base_current s) (cur_slots s)"
proof -
  show s: "base_ok s" "calm s" "used s \<le> cells s SIZE" "heap_inv (obj s) g"
    using assms by (simp_all add: inv_def used_def)
  show "quiet s" using s(2) by simp
  show d: "obj s DATA_ALLOC = used s" by (simp add: used_def obj_eq)
  show "HDR_END \<le> used s" using s(4) d by (simp add: heap_inv_def regs_ok_def)
  show "mapped s (base_current s) 512" "mapped s (base_current s) (cur_slots s)"
    using base_ok_cur_header [OF s(1)] base_ok_cur_mapped [OF s(1)] by simp_all
qed

lemma invI:
  "base_ok s \<Longrightarrow> calm s \<Longrightarrow> used s \<le> cells s SIZE \<Longrightarrow> heap_inv (obj s) g \<Longrightarrow> inv s g"
  by (simp add: inv_def used_def)

lemma inv_upd [simp]:
  "inv (s\<lparr>sems := m\<rparr>) g = inv s g" "inv (s\<lparr>os_n := k\<rparr>) g = inv s g" "inv (s\<lparr>clock_n := n\<rparr>) g = inv s g"
  "inv (s\<lparr>signals := l\<rparr>) g = inv s g" "inv (s\<lparr>accessors := x\<rparr>) g = inv s g" "inv (tick s) g = inv s g"
  by (simp_all add: inv_def tick_def)

lemma inv_node:
  assumes "inv s g" and "x \<in> set (nodes g)"
  shows "node_ok (used s) x" "node_ok (cells s SIZE) x"
proof -
  show "node_ok (used s) x"
    using nodes_ok [OF heap_inv_parts(1) [OF inv_parts(5) [OF assms(1)]] assms(2)] inv_parts(6) [OF assms(1)] by simp
  then show "node_ok (cells s SIZE) x" using inv_parts(4) [OF assms(1)] by (simp add: node_ok_def)
qed

lemma inv_list:
  assumes "inv s g"
  shows "list_rep (cells s) (hd_slot w) (tl_slot w) (g_list g w)" "\<forall>x\<in>set (g_list g w). node_ok (cells s SIZE) x"
proof -
  show n: "\<forall>x\<in>set (g_list g w). node_ok (cells s SIZE) x"
    using inv_node(2) [OF assms] list_nodes by blast
  have "list_rep (obj s) (hd_slot w) (tl_slot w) (g_list g w)"
    using heap_inv_parts(2) [OF inv_parts(5) [OF assms]] by (simp add: lists_ok_def)
  then show "list_rep (cells s) (hd_slot w) (tl_slot w) (g_list g w)"
    using list_rep_obj [OF which_hdr(1,2) n] by simp
qed

lemma inv_nodes_rep: "inv s g \<Longrightarrow> nodes_rep (hd_slot w) (tl_slot w) s (g_list g w)"
  using inv_list inv_parts(1,2) by (simp add: nodes_rep_def)

lemma inv_pool:
  assumes "inv s g" and "2 \<le> j" and "j < 50"
  shows "cells s (bucket j) = (case g_pool g j of [] \<Rightarrow> 0 | x # _ \<Rightarrow> x)"
    and "g_pool g j = x # xs \<Longrightarrow> j \<le> 30 \<and> node_ok (used s) x \<and> x + 2 ^ j \<le> used s"
proof -
  have h: "heap_inv (obj s) g" and d: "obj s DATA_ALLOC = used s" using inv_parts(5,6) [OF assms(1)] .
  have "stack_rep (obj s) (bucket j) (g_pool g j)"
    using heap_inv_parts(3) [OF h] assms(2,3) by (simp add: stacks_ok_def)
  moreover have "obj s (bucket j) = cells s (bucket j)"
    using bucket_range [OF assms(2,3)] by (intro obj_eq) auto
  ultimately show "cells s (bucket j) = (case g_pool g j of [] \<Rightarrow> 0 | x # _ \<Rightarrow> x)"
    by (auto simp: stack_rep_def split: list.splits)
  assume "g_pool g j = x # xs"
  then have "x \<in> set (g_pool g j)" by simp
  from pool_ok [OF heap_inv_parts(1) [OF h] this] d
  show "j \<le> 30 \<and> node_ok (used s) x \<and> x + 2 ^ j \<le> used s" by simp
qed

lemma inv_can_alloc:
  assumes "inv s g" and "2 \<le> k" "k \<le> 30" and "room s (2 ^ k)"
  shows "can_alloc s k"
proof -
  have "j \<le> 30 \<and> node_ok (cells s DATA_ALLOC) (cells s (bucket j)) \<and> cells s (bucket j) + 2 ^ j \<le> cells s DATA_ALLOC"
    if j: "k \<le> j" "j < 50" "cells s (bucket j) \<noteq> 0" for j
  proof -
    have j2: "2 \<le> j" using assms(2) j(1) by simp
    from inv_pool(1) [OF assms(1) j2 j(2)] j(3) obtain xs where "g_pool g j = cells s (bucket j) # xs"
      by (auto split: list.splits)
    from inv_pool(2) [OF assms(1) j2 j(2) this] show ?thesis by (simp add: used_def)
  qed
  then have "tops_ok s k" by (auto simp: tops_ok_def)
  then show ?thesis
    using assms inv_parts [OF assms(1)] by (simp add: can_alloc_def used_def)
qed

text \<open>Writing one word of the object.\<close>

lemma inv_write:
  assumes "inv s g" and "heap_inv ((obj s)(i := v)) g'" and "i \<noteq> SIZE" "i \<noteq> EXPAND_SIZE" "i \<noteq> DATA_ALLOC"
  shows "inv (s\<lparr>cells := (cells s)(i := v)\<rparr>) g'"
  using assms by (intro invI) (auto simp: obj_write used_def inv_def)

lemma moves_write:
  "i \<noteq> SIZE \<Longrightarrow> i \<noteq> EXPAND_SIZE \<Longrightarrow> i \<noteq> DATA_ALLOC \<Longrightarrow> moves (insert i H) 0 s (s\<lparr>cells := (cells s)(i := v)\<rparr>)"
  by (simp add: moves_def obj_write used_def)

lemma moves_cells:
  assumes "keeps s t" and "used t \<le> used s + n" and "\<And>i. i < HDR_END \<Longrightarrow> i \<notin> H \<Longrightarrow> obj t i = obj s i"
  shows "moves H n s t"
  using assms by (simp add: moves_def)

section \<open>Lists\<close>

lemma inv_add_end:
  assumes inv: "inv s g" and x: "x \<in> set (g_loose g)" "x + 4 \<le> cur_slots s"
  obtains s' where "add_end s x (tl_slot w) = Some s'" and "base_ok s'" and "calm s'"
    and "moves {ID_CNTR, tl_slot w, tl_slot w + 1} 0 s s'" and "cells s' SIZE = cells s SIZE" and "used s' = used s"
    and "obj s' = add_end_cells (obj s) (last (g_list g w)) x (tl_slot w)"
proof -
  note s = inv_parts [OF inv] and l = inv_list [OF inv, of w]
  have xn: "x \<in> set (nodes g)" using x(1) by (simp add: nodes_def)
  have xok: "node_ok (cur_slots s) x" "node_ok (cells s SIZE) x"
    using inv_node(2) [OF inv xn] x(2) by (auto simp: node_ok_def)
  have xw: "x \<notin> set (g_list g w)"
    using nodes_apart(3) [OF heap_inv_parts(1) [OF s(5)], of w] x(1) by auto
  obtain s' where s': "add_end s x (tl_slot w) = Some s'" "base_ok s'" "calm s'" "keeps s s'"
    "cells s' = add_end_cells (cells s) (last (g_list g w)) x (tl_slot w)"
    by (rule add_end_ok [OF s(1,2) list_rep_lag [OF l(1)] l(2) which_hdr(2) xok(1) xw])
  have ln: "node_ok (cells s SIZE) (last (g_list g w))" using l by (auto simp: list_rep_def)
  have big: "164 \<le> x" "164 \<le> last (g_list g w)" using xok(2) ln by (auto simp: node_ok_def)
  have t: "12 \<le> tl_slot w" "tl_slot w \<le> 112" using tl_slot_cases [of w] by auto
  have o: "obj s' = add_end_cells (obj s) (last (g_list g w)) x (tl_slot w)"
    using big t by (auto simp: obj_def s'(5) add_end_cells_def fun_eq_iff)
  have z: "cells s' SIZE = cells s SIZE" "used s' = used s"
    using big t by (simp_all add: s'(5) add_end_cells_def used_def)
  have "moves {ID_CNTR, tl_slot w, tl_slot w + 1} 0 s s'"
    using s'(4) z big by (intro moves_cells) (auto simp: o add_end_cells_def)
  with s' o z show thesis by (intro that [of s']) auto
qed

text \<open>Back to the free list.\<close>

lemma inv_put_free:
  assumes inv: "inv s g" and x: "g_loose g = x # L" "x + 4 \<le> cur_slots s"
  obtains s' where "add_end s x FREE_TAIL = Some s'"
    and "inv s' (g\<lparr>g_list := (g_list g)(Free := g_list g Free @ [x]), g_loose := L\<rparr>)"
    and "moves {ID_CNTR, FREE_TAIL, FREE_TL_CNT} 0 s s'"
proof -
  have "x \<in> set (g_loose g)" using x(1) by simp
  from inv_add_end [OF inv this x(2), of Free] obtain s' where s': "add_end s x FREE_TAIL = Some s'" "base_ok s'" "calm s'"
    "moves {ID_CNTR, FREE_TAIL, FREE_TL_CNT} 0 s s'" "cells s' SIZE = cells s SIZE" "used s' = used s"
    "obj s' = add_end_cells (obj s) (last (g_list g Free)) x FREE_TAIL" by auto
  have "inv s' (g\<lparr>g_list := (g_list g)(Free := g_list g Free @ [x]), g_loose := L\<rparr>)"
    using s' inv_parts(4) [OF inv] heap_put_free [OF inv_parts(5) [OF inv] x(1)] by (intro invI) simp_all
  with s' show thesis by (intro that [of s'])
qed

lemma inv_put_item:
  assumes inv: "inv s g" and x: "g_loose g = x # L" "x + 4 \<le> cur_slots s" and e: "g_held g = e # es" "cells s (x + 3) = e_blk e"
  obtains s' where "add_end s x TAIL = Some s'"
    and "inv s' (g\<lparr>g_list := (g_list g)(Items := g_list g Items @ [x]), g_loose := L, g_fifo := g_fifo g @ [e], g_held := es\<rparr>)"
    and "moves {ID_CNTR, TAIL, TAIL_CNT} 0 s s'"
proof -
  have xl: "x \<in> set (g_loose g)" using x(1) by simp
  then have "node_ok (used s) x" by (intro inv_node(1) [OF inv]) (simp add: nodes_def)
  then have v: "obj s (x + 3) = e_blk e" using e(2) by (simp add: obj_eq node_ok_def)
  from inv_add_end [OF inv xl x(2), of Items] obtain s' where s': "add_end s x TAIL = Some s'" "base_ok s'" "calm s'"
    "moves {ID_CNTR, TAIL, TAIL_CNT} 0 s s'" "cells s' SIZE = cells s SIZE" "used s' = used s"
    "obj s' = add_end_cells (obj s) (last (g_list g Items)) x TAIL" by auto
  have "inv s' (g\<lparr>g_list := (g_list g)(Items := g_list g Items @ [x]), g_loose := L, g_fifo := g_fifo g @ [e], g_held := es\<rparr>)"
    using s' inv_parts(4) [OF inv] heap_put_item [OF inv_parts(5) [OF inv] x(1) e(1) v] by (intro invI) simp_all
  with s' show thesis by (intro that [of s'])
qed

lemma inv_put_event:
  assumes inv: "inv s g" and x: "g_loose g = x # L" "x + 4 \<le> cur_slots s" and e: "cells s (x + 2) = ev" "1 \<le> ev" "ev \<le> 6"
  obtains s' where "add_end s x EVENT_TAIL = Some s'"
    and "inv s' (g\<lparr>g_list := (g_list g)(Events := g_list g Events @ [x]), g_loose := L, g_evs := g_evs g @ [ev]\<rparr>)"
    and "moves {ID_CNTR, EVENT_TAIL, EVENT_TL_CNT} 0 s s'"
proof -
  have xl: "x \<in> set (g_loose g)" using x(1) by simp
  then have "node_ok (used s) x" by (intro inv_node(1) [OF inv]) (simp add: nodes_def)
  then have v: "obj s (x + 2) = ev" using e(1) by (simp add: obj_eq node_ok_def)
  from inv_add_end [OF inv xl x(2), of Events] obtain s' where s': "add_end s x EVENT_TAIL = Some s'" "base_ok s'" "calm s'"
    "moves {ID_CNTR, EVENT_TAIL, EVENT_TL_CNT} 0 s s'" "cells s' SIZE = cells s SIZE" "used s' = used s"
    "obj s' = add_end_cells (obj s) (last (g_list g Events)) x EVENT_TAIL" by auto
  have "inv s' (g\<lparr>g_list := (g_list g)(Events := g_list g Events @ [x]), g_loose := L, g_evs := g_evs g @ [ev]\<rparr>)"
    using s' inv_parts(4) [OF inv] heap_put_event [OF inv_parts(5) [OF inv] x(1) v e(2,3)] by (intro invI) simp_all
  with s' show thesis by (intro that [of s'])
qed

lemma inv_front:
  assumes inv: "inv s g" and l: "g_list g w = x # y # ys"
  obtains s' where "remove_front s x (cells s (hd_slot w + 1)) (hd_slot w) (tl_slot w) = Some (x, s')"
    and "base_ok s'" and "calm s'" and "moves {hd_slot w, hd_slot w + 1} 0 s s'" and "cells s' SIZE = cells s SIZE"
    and "used s' = used s" and "obj s' = remove_front_cells (obj s) x (hd_slot w)"
    and "\<And>i. HDR_END \<le> i \<Longrightarrow> i \<noteq> x \<Longrightarrow> i \<noteq> x + 1 \<Longrightarrow> cells s' i = cells s i"
proof -
  note s = inv_parts [OF inv] and lr = inv_list [OF inv, of w]
  have n: "node_ok (cells s SIZE) x" using lr(2) l by simp
  have at: "cells s (hd_slot w) = x" "cells s (tl_slot w) \<noteq> x"
    using lr(1) l last_in_set [of "y # ys"] by (auto simp: list_rep_def)
  obtain s' where s': "remove_front s x (cells s (hd_slot w + 1)) (hd_slot w) (tl_slot w) = Some (x, s')"
    "base_ok s'" "calm s'" "keeps s s'" "cells s' = remove_front_cells (cells s) x (hd_slot w)"
    by (rule remove_front_ok [OF s(1,2) n which_hdr(1,2) at])
  have h: "4 \<le> hd_slot w" "hd_slot w \<le> 124" "hd_slot w \<noteq> 5" using hd_slot_cases [of w] by auto
  have x: "164 \<le> x" using n by (simp add: node_ok_def)
  have o: "obj s' = remove_front_cells (obj s) x (hd_slot w)"
    using h x by (auto simp: obj_def s'(5) remove_front_cells_def fun_eq_iff)
  have z: "cells s' SIZE = cells s SIZE" "used s' = used s"
    using h x hd_slot_cases [of w] by (auto simp: s'(5) remove_front_cells_def used_def)
  have "moves {hd_slot w, hd_slot w + 1} 0 s s'"
    using s'(4) z x by (intro moves_cells) (auto simp: o remove_front_cells_def)
  moreover have "cells s' i = cells s i" if "HDR_END \<le> i" "i \<noteq> x" "i \<noteq> x + 1" for i
    using that h by (simp add: s'(5) remove_front_cells_def)
  ultimately show thesis using s' o z by (intro that [of s']) auto
qed

lemma inv_take_item:
  assumes inv: "inv s g" and l: "g_list g Items = x # y # ys" and f: "g_fifo g = e # es"
  obtains s' where "remove_front s x (cells s HEAD_CNT) HEAD TAIL = Some (x, s')"
    and "inv s' (g\<lparr>g_list := (g_list g)(Items := y # ys), g_loose := x # g_loose g, g_fifo := es, g_held := e # g_held g\<rparr>)"
    and "moves {HEAD, HEAD_CNT} 0 s s'"
proof -
  from inv_front [OF inv l] obtain s' where s': "remove_front s x (cells s HEAD_CNT) HEAD TAIL = Some (x, s')"
    "base_ok s'" "calm s'" "moves {HEAD, HEAD_CNT} 0 s s'" "cells s' SIZE = cells s SIZE" "used s' = used s"
    "obj s' = remove_front_cells (obj s) x HEAD" by auto
  have "inv s' (g\<lparr>g_list := (g_list g)(Items := y # ys), g_loose := x # g_loose g, g_fifo := es, g_held := e # g_held g\<rparr>)"
    using s' inv_parts(4) [OF inv] heap_take_item [OF inv_parts(5) [OF inv] l f] by (intro invI) simp_all
  with s' show thesis by (intro that [of s'])
qed

lemma inv_take_event:
  assumes inv: "inv s g" and l: "g_list g Events = x # y # ys" and f: "g_evs g = ev # evs"
  obtains s' where "remove_front s x (cells s EVENT_HD_CNT) EVENT_HEAD EVENT_TAIL = Some (x, s')"
    and "inv s' (g\<lparr>g_list := (g_list g)(Events := y # ys), g_loose := x # g_loose g, g_evs := evs\<rparr>)"
    and "moves {EVENT_HEAD, EVENT_HD_CNT} 0 s s'"
proof -
  from inv_front [OF inv l] obtain s' where s': "remove_front s x (cells s EVENT_HD_CNT) EVENT_HEAD EVENT_TAIL = Some (x, s')"
    "base_ok s'" "calm s'" "moves {EVENT_HEAD, EVENT_HD_CNT} 0 s s'" "cells s' SIZE = cells s SIZE" "used s' = used s"
    "obj s' = remove_front_cells (obj s) x EVENT_HEAD" by auto
  have "inv s' (g\<lparr>g_list := (g_list g)(Events := y # ys), g_loose := x # g_loose g, g_evs := evs\<rparr>)"
    using s' inv_parts(4) [OF inv] heap_take_event [OF inv_parts(5) [OF inv] l f] by (intro invI) simp_all
  with s' show thesis by (intro that [of s'])
qed

section \<open>Allocation\<close>

text \<open>The header words that allocation may change.\<close>

definition node_words :: "int set" where
  "node_words = {FREE_HEAD, FREE_HD_CNT, DATA_ALLOC}"

definition blk_words :: "int set" where
  "blk_words = insert DATA_ALLOC {MEM_BKT_START..<BASE}"

lemma inv_alloc_idx:
  assumes inv: "inv s g" and room: "room s 4"
  obtains s' f x where "alloc_idx_slots s = Some (\<lparr>v_status = SH_OK, v_slot = x, v_ext = base_current s'\<rparr>, s')"
    and "inv s' (g\<lparr>g_list := (g_list g)(Free := f), g_loose := x # g_loose g\<rparr>)"
    and "moves node_words 4 s s'" and "x + 4 \<le> cur_slots s'" and "node_ok (used s') x"
proof -
  note s = inv_parts [OF inv]
  have ne: "g_list g Free \<noteq> []" using list_ne [OF heap_inv_parts(2) [OF s(5)]] .
  note rep = inv_nodes_rep [OF inv, of Free, unfolded hd_slot.simps tl_slot.simps]
  show thesis
  proof (cases "tl (g_list g Free)")
    case Nil
    then obtain y where l: "g_list g Free = [y]" using ne by (cases "g_list g Free") auto
    have r: "realloc_pooled_mem s 4 FREE_HEAD FREE_HD_CNT FREE_TAIL =
        Some (\<lparr>v_status = SH_OK, v_slot = 0, v_ext = base_current s\<rparr>, s)"
      using take_single [of FREE_HEAD FREE_TAIL s y 4] rep l by simp
    have d: "BASE \<le> cells s DATA_ALLOC" "used s + 2 * 4 + 512 \<le> 2 ^ 44" "(0::int) < 4" "(4::int) \<le> 2 ^ 44"
      using room by (simp_all add: room_used used_def)
    obtain v s' where a: "alloc_new_data s 4 = Some (v, s')" "base_ok s'" "keeps s s'" "cells s SIZE \<le> cells s' SIZE"
      "v_status v = SH_OK \<Longrightarrow> v_slot v = cells s DATA_ALLOC \<and> v_ext v = base_current s' \<and> v_slot v + 4 < cur_slots s' \<and>
        obj s' = (obj s)(DATA_ALLOC := cells s DATA_ALLOC + 4, cells s DATA_ALLOC := 4)"
      "v_status v \<noteq> SH_OK \<Longrightarrow> v_slot v = 0 \<and> obj s' = obj s"
      "calm s \<Longrightarrow> cells s DATA_ALLOC + 2 * 4 + 512 \<le> 2 ^ 44 \<Longrightarrow> v_status v = SH_OK \<and> calm s'"
      by (rule alloc_new_data_ok [OF s(1) quiet_no_eintr [OF s(3)] d(1,3,4)]) blast
    have st: "v_status v = SH_OK" "calm s'" using a(7) [OF s(2)] d(2) by (auto simp: used_def)
    note v = a(5) [OF st(1)]
    have o: "obj s' = (obj s)(DATA_ALLOC := obj s DATA_ALLOC + 4, obj s DATA_ALLOC := 4)" using v s(6) by (simp add: used_def)
    have u: "used s' = used s + 4" using o s(6,7) inv_parts(6) obj_eq [of DATA_ALLOC s'] by (simp add: used_def)
    have "inv s' (g\<lparr>g_list := (g_list g)(Free := g_list g Free), g_loose := used s # g_loose g\<rparr>)"
      using heap_fresh_node [OF s(5)] a(2) st(2) o u v s(6) base_ok_bounds(2) [OF a(2)]
      by (intro invI) (auto simp: used_def)
    moreover have "moves node_words 4 s s'"
      using a(3) u s(7) by (intro moves_cells) (auto simp: o node_words_def s(6))
    moreover have "v = \<lparr>v_status = SH_OK, v_slot = used s, v_ext = base_current s'\<rparr>"
      using v st(1) by (simp add: used_def)
    moreover have "alloc_idx_slots s = Some (v, s')" using r a(1) by (simp add: alloc_idx_slots_def)
    moreover have "node_ok (used s') (used s)"
      using heap_inv_parts(1) [OF s(5)] s(6,7) u by (auto simp: node_ok_def regs_ok_def)
    ultimately show thesis using v by (intro that [of "used s" s' "g_list g Free"]) (simp_all add: used_def)
  next
    case (Cons y ys)
    then obtain x where l: "g_list g Free = x # y # ys" using ne by (cases "g_list g Free") auto
    have x: "node_ok (used s) x" using inv_node(1) [OF inv, of x] l by (simp add: nodes_def)
    have hp: "hdr_pair 4" "hdr_pair 12" by simp_all
    have rep': "nodes_rep FREE_HEAD FREE_TAIL s (x # y # ys)" using rep l by simp
    have bound: "x + 1024 \<le> 2 ^ 44" using x room by (simp add: node_ok_def room_used)
    obtain s' where a: "realloc_pooled_mem s 4 FREE_HEAD (FREE_HEAD + 1) FREE_TAIL =
        Some (\<lparr>v_status = SH_OK, v_slot = x, v_ext = base_current s'\<rparr>, s')"
      "base_ok s'" "calm s'" "keeps s s'" "cells s SIZE \<le> cells s' SIZE" "x + 4 < cur_slots s'"
      "obj s' = zero4 (remove_front_cells (obj s) x FREE_HEAD) x"
      by (rule take_first [OF rep' hp bound])
    let ?g = "g\<lparr>g_list := (g_list g)(Free := y # ys), g_loose := x # g_loose g\<rparr>"
    have x0: "164 \<le> x" using x by (simp add: node_ok_def)
    have "heap_inv (obj s') ?g"
      unfolding a(7) by (rule heap_zero_node [OF heap_take_free [OF s(5) l]]) simp
    moreover have u: "used s' = used s"
    proof -
      have "obj s' DATA_ALLOC = obj s DATA_ALLOC" using x0 by (simp add: a(7) zero4_def remove_front_cells_def)
      then show ?thesis using s(6) by (simp add: obj_eq used_def)
    qed
    ultimately have "inv s' ?g" using a(2,3,5) s(4) by (intro invI) simp_all
    moreover have "moves node_words 4 s s'"
      using a(4) u x0 by (intro moves_cells) (auto simp: a(7) node_words_def zero4_def remove_front_cells_def)
    moreover have "alloc_idx_slots s = Some (\<lparr>v_status = SH_OK, v_slot = x, v_ext = base_current s'\<rparr>, s')"
      using a(1) x0 by (simp add: alloc_idx_slots_def)
    ultimately show thesis using a(6) x u by (intro that [of x s' "y # ys"]) simp_all
  qed
qed

section \<open>Blocks\<close>

lemma bucket_words: "2 \<le> k \<Longrightarrow> k < 50 \<Longrightarrow> bucket k \<in> blk_words \<and> bucket k + 1 \<in> blk_words"
  using bucket_range [of k] by (simp add: blk_words_def)

lemma inv_held:
  assumes inv: "inv s g" and e: "e \<in> set (g_held g @ g_fifo g @ g_lifo g)"
  shows "entry_ok (obj s) e" "node_ok (used s) (e_blk e)" "e_blk e + 2 ^ e_exp e \<le> used s" "3 \<le> e_exp e" "e_exp e \<le> 30"
    "cells s (e_blk e) = 2 ^ e_exp e"
proof -
  note h = inv_parts(5,6) [OF inv]
  show eo: "entry_ok (obj s) e" using heap_inv_parts(4) [OF h(1)] e by (auto simp: items_ok_def)
  have "(e_blk e, e_exp e) \<in> set (blks g)" using e by (auto simp: blks_def)
  from blk_ok [OF heap_inv_parts(1) [OF h(1)] this]
  show n: "node_ok (used s) (e_blk e)" "e_blk e + 2 ^ e_exp e \<le> used s" "3 \<le> e_exp e" "e_exp e \<le> 30"
    using h(2) by simp_all
  then show "cells s (e_blk e) = 2 ^ e_exp e" using eo by (simp add: entry_ok_def holds_def node_ok_def obj_eq)
qed

lemma inv_free_blk:
  assumes inv: "inv s g" and e: "g_held g = e # es" "e_blk e + 1 < cur_slots s"
  obtains s' where "free_data_slots s (e_blk e) = Some (SH_OK, s')"
    and "inv s' (g\<lparr>g_held := es, g_pool := (g_pool g)(e_exp e := e_blk e # g_pool g (e_exp e))\<rparr>)"
    and "moves blk_words 0 s s'"
proof -
  let ?b = "e_blk e" and ?k = "e_exp e" and ?s = "s\<lparr>cells := push_cells (cells s) (e_blk e) (bucket (e_exp e))\<rparr>"
  note s = inv_parts [OF inv]
  have "e \<in> set (g_held g @ g_fifo g @ g_lifo g)" using e by simp
  note h = inv_held [OF inv this]
  have k: "2 \<le> ?k" "?k < 50" using h by simp_all
  have b: "164 \<le> ?b" using h(2) by (simp add: node_ok_def)
  note br = bucket_range [OF k]
  have f: "free_data_slots s ?b = Some (SH_OK, ?s)" by (rule free_data_slots_ok [OF s(1) b e(2) h(6) k])
  have o: "obj ?s = push_cells (obj s) ?b (bucket ?k)"
    using b br by (auto simp: obj_def push_cells_def fun_eq_iff)
  have z: "cells ?s SIZE = cells s SIZE" "cells ?s EXPAND_SIZE = cells s EXPAND_SIZE" "used ?s = used s"
    using b br by (simp_all add: push_cells_def used_def)
  have "inv ?s (g\<lparr>g_held := es, g_pool := (g_pool g)(?k := ?b # g_pool g ?k)\<rparr>)"
  proof (rule invI)
    show "base_ok ?s" "calm ?s" "used ?s \<le> cells ?s SIZE" using s z by simp_all
    show "heap_inv (obj ?s) (g\<lparr>g_held := es, g_pool := (g_pool g)(?k := ?b # g_pool g ?k)\<rparr>)"
      unfolding o by (rule heap_free_blk [OF s(5) e(1)])
  qed
  moreover have "moves blk_words 0 s ?s"
  proof (rule moves_cells [OF keeps_cells(1)])
    show "used ?s \<le> used s + 0" using z(3) by simp
    fix i assume "i < HDR_END" "i \<notin> blk_words"
    then have "push_cells (obj s) ?b (bucket ?k) i = obj s i"
      using b bucket_words [OF k] by (auto simp: push_cells_def)
    then show "obj ?s i = obj s i" by (simp only: o)
  qed
  ultimately show thesis using f by (intro that [of ?s])
qed

lemma heap_new_block:
  assumes inv: "heap_inv c g" and k: "3 \<le> k" "k \<le> 30" and a: "alloc_cells c k = (x, c1)"
  obtains p where "heap_inv c1 (g\<lparr>g_pool := p, g_loose_blks := (x, alloc_exp c k) # g_loose_blks g\<rparr>)"
    and "c1 DATA_ALLOC \<le> c DATA_ALLOC + 2 ^ k"
    and "\<And>i. i < HDR_END \<Longrightarrow> i \<notin> blk_words \<Longrightarrow> c1 i = c i"
proof (cases "first_bucket c k")
  case None
  then have c1: "c1 = c(DATA_ALLOC := c DATA_ALLOC + 2 ^ k, c DATA_ALLOC := 2 ^ k)" "x = c DATA_ALLOC" "alloc_exp c k = k"
    using a by (auto simp: alloc_cells_def alloc_exp_def)
  have d: "HDR_END \<le> c DATA_ALLOC" using heap_inv_parts(1) [OF inv] by (simp add: regs_ok_def)
  show thesis
  proof (rule that [of "g_pool g"])
    show "heap_inv c1 (g\<lparr>g_pool := g_pool g, g_loose_blks := (x, alloc_exp c k) # g_loose_blks g\<rparr>)"
      using heap_fresh_blk [OF inv k] by (simp add: c1)
  qed (use d in \<open>simp_all add: c1 blk_words_def\<close>)
next
  case (Some j)
  then have c1: "x = c (bucket j)" "c1 = reuse_cells c x j k" "alloc_exp c k = j"
    using a by (auto simp: alloc_cells_def alloc_exp_def)
  note fb = first_bucket_Some [OF Some]
  have j: "2 \<le> j" "j < 50" "k \<le> j" using fb k(1) by simp_all
  have "stack_rep c (bucket j) (g_pool g j)" using heap_inv_parts(3) [OF inv] j by (simp add: stacks_ok_def)
  then obtain xs where l: "g_pool g j = x # xs"
    using fb c1(1) by (cases "g_pool g j") (auto simp: stack_rep_def)
  have x: "164 \<le> x" using pool_ok(3) [OF heap_inv_parts(1) [OF inv], of x j] l by (simp add: node_ok_def)
  have w: "c1 i = c i" if "i < HDR_END" "i \<notin> {bucket j, bucket j + 1}" for i
    using that x by (auto simp: c1 reuse_cells_def zero_range_def pop_cells_def)
  show thesis
  proof (rule that [of "(g_pool g)(j := xs)"])
    show "heap_inv c1 (g\<lparr>g_pool := (g_pool g)(j := xs), g_loose_blks := (x, alloc_exp c k) # g_loose_blks g\<rparr>)"
      unfolding c1(2,3) by (rule heap_reuse_blk [OF inv j(2) l j(3)])
    show "c1 DATA_ALLOC \<le> c DATA_ALLOC + 2 ^ k" using w [of DATA_ALLOC] bucket_range [OF j(1,2)] by auto
    show "c1 i = c i" if "i < HDR_END" "i \<notin> blk_words" for i
      using w [OF that(1)] bucket_words [OF j(1,2)] that(2) by auto
  qed
qed

text \<open>A block that is written inside its first words and nowhere else holds what is written.\<close>

lemma heap_fill:
  assumes inv: "heap_inv c g" and b: "g_loose_blks g = (e_blk e, e_exp e) # B"
    and c': "\<And>i. c' i \<noteq> c i \<Longrightarrow> i = ID_CNTR \<or> e_blk e \<le> i \<and> i < e_blk e + 2 ^ e_exp e" and e: "entry_ok c' e"
  shows "heap_inv c' (g\<lparr>g_loose_blks := B, g_held := e # g_held g\<rparr>)"
proof (rule heap_hold [OF _ b e])
  show "heap_inv c' g"
  proof (rule heap_frame [OF inv])
    show "changes c c' {ID_CNTR} {(e_blk e, 2 ^ e_exp e)}" 
      unfolding changes_def
    proof (intro allI impI)
      fix i assume "c' i \<noteq> c i"
      from c' [OF this] show "i \<in> {ID_CNTR} \<and> i < HDR_END \<or> (\<exists>r\<in>{(e_blk e, 2 ^ e_exp e)}. fst r \<le> i \<and> i < fst r + snd r)"
        by auto
    qed
    show "{ID_CNTR} \<inter> insert DATA_ALLOC struct_slots = {}" using struct_slots_header by auto
    show "\<forall>r\<in>{(e_blk e, 2 ^ e_exp e)}. \<exists>q\<in>loose_regs g. fst q \<le> fst r \<and> fst r + snd r \<le> fst q + snd q \<and> 0 \<le> snd r"
      using b by (auto simp: loose_regs_def blk_reg_def)
  qed
qed

definition clock_ok :: "qstate \<Rightarrow> bool" where
  "clock_ok s \<longleftrightarrow> (\<forall>k. in_long (tv_sec (clock s k)) \<and> 0 \<le> tv_nsec (clock s k) \<and> tv_nsec (clock s k) < 1000000000)"

lemma clock_ok_now: "clock_ok s \<Longrightarrow> in_long (tv_sec (now s)) \<and> in_long (tv_nsec (now s))"
proof -
  assume "clock_ok s"
  then have "in_long (tv_sec (now s)) \<and> 0 \<le> tv_nsec (now s) \<and> tv_nsec (now s) < 1000000000"
    unfolding clock_ok_def now_def by blast
  then show ?thesis by (simp add: in_long_def)
qed

lemma heap_buffer: "heap_inv c g \<Longrightarrow> heap_inv (buffer_cells c n m) g"
proof (erule heap_header)
  fix i assume "buffer_cells c n m i \<noteq> c i"
  then have "i = BUFFER" by (auto simp: buffer_cells_def split: if_splits)
  then show "i < HDR_END \<and> i \<notin> insert DATA_ALLOC struct_slots" using struct_slots_header by auto
qed

text \<open>The words \<open>copy_value\<close> and \<open>copy_vector\<close> may change.\<close>

definition copy_words :: "int set" where
  "copy_words = blk_words \<union> {BUFFER, ID_CNTR}"

lemma alloc_exp_buffer' [simp]: "alloc_exp (buffer_cells c n m) k = alloc_exp c k"
  by (simp add: alloc_exp_def)

text \<open>The part common to values and vectors: what was written makes the new block an entry.\<close>

lemma inv_new_entry:
  assumes inv: "inv s g" and k: "3 \<le> k" "k \<le> 30"
    and a: "alloc_cells (buffer_cells (obj s) n m) k = (x, c1)"
    and s': "base_ok s'" "calm s'" "keeps (tick s) s'" "cells s SIZE \<le> cells s' SIZE" "x + 2 ^ k < cur_slots s'"
      "x + 2 ^ alloc_exp (obj s) k \<le> cells s' SIZE"
    and w: "\<And>i. i \<noteq> ID_CNTR \<Longrightarrow> i \<le> x \<or> x + 7 + area_slots v \<le> i \<Longrightarrow> obj s' i = c1 i"
    and h: "holds (obj s') x (alloc_exp (obj s) k) ts v" and v: "payload_ok v" "7 + area_slots v \<le> 2 ^ k"
    and ts: "in_long (tv_sec ts)" "in_long (tv_nsec ts)" and x: "HDR_END \<le> x"
  defines "e \<equiv> \<lparr>e_blk = x, e_exp = alloc_exp (obj s) k, e_ts = ts, e_val = v\<rparr>"
  obtains p where "inv s' (g\<lparr>g_pool := p, g_held := e # g_held g\<rparr>)" and "moves copy_words (2 ^ k) (tick s) s'"
proof -
  let ?j = "alloc_exp (obj s) k" and ?c0 = "buffer_cells (obj s) n m"
  have h0: "heap_inv ?c0 g" using heap_buffer inv_parts(5) [OF inv] .
  have a': "alloc_cells ?c0 k = (x, c1)" using a .
  obtain p where p: "heap_inv c1 (g\<lparr>g_pool := p, g_loose_blks := (x, ?j) # g_loose_blks g\<rparr>)"
    "c1 DATA_ALLOC \<le> ?c0 DATA_ALLOC + 2 ^ k" "\<And>i. i < HDR_END \<Longrightarrow> i \<notin> blk_words \<Longrightarrow> c1 i = ?c0 i"
    by (rule heap_new_block [OF h0 k a']) auto
  let ?g = "g\<lparr>g_pool := p, g_loose_blks := (x, ?j) # g_loose_blks g\<rparr>"
  have jk: "(2::int) ^ k \<le> 2 ^ ?j" using alloc_exp_ge by (intro power_increasing) simp_all
  have area: "7 + area_slots v \<le> 2 ^ ?j" using v(2) jk by linarith
  have eo: "entry_ok (obj s') e"
    using h v(1) area ts by (simp add: entry_ok_def e_def)
  have "heap_inv (obj s') (?g\<lparr>g_loose_blks := g_loose_blks g, g_held := e # g_held ?g\<rparr>)"
  proof (rule heap_fill [OF p(1) _ _ eo])
    show "g_loose_blks ?g = (e_blk e, e_exp e) # g_loose_blks g" by (simp add: e_def)
    fix i assume ne: "obj s' i \<noteq> c1 i"
    have "i = ID_CNTR \<or> x < i \<and> i < x + 7 + area_slots v" using w [of i] ne by force
    then show "i = ID_CNTR \<or> e_blk e \<le> i \<and> i < e_blk e + 2 ^ e_exp e" using area by (auto simp: e_def)
  qed
  then have hi: "heap_inv (obj s') (g\<lparr>g_pool := p, g_held := e # g_held g\<rparr>)" by simp
  have d: "obj s' DATA_ALLOC = c1 DATA_ALLOC" by (rule w) (use x in auto)
  have u: "used s' \<le> used s + 2 ^ k"
    using d p(2) inv_parts(6) [OF inv] by (simp add: used_def obj_eq buffer_cells_def)
  have "used s' \<le> cells s' SIZE"
  proof (cases "first_bucket (obj s) k")
    case None
    moreover have "?c0 DATA_ALLOC = used s" using inv_parts(6) [OF inv] by (simp add: buffer_cells_def)
    ultimately have "c1 DATA_ALLOC = x + 2 ^ k"
      using a inv_parts(7) [OF inv] by (auto simp: alloc_cells_def)
    then show ?thesis using d s'(5) base_ok_bounds(2) [OF s'(1)] by (simp add: used_def obj_eq)
  next
    case (Some j)
    then have "c1 = reuse_cells ?c0 x j k" "x = ?c0 (bucket j)" using a by (auto simp: alloc_cells_def)
    moreover have "2 \<le> j" "j < 50" using first_bucket_Some [OF Some] k by auto
    ultimately have "c1 DATA_ALLOC = ?c0 DATA_ALLOC"
      using x bucket_range [of j] by (simp add: reuse_cells_def zero_range_def pop_cells_def)
    then show ?thesis
      using d inv_parts(4,6) [OF inv] s'(4) by (simp add: used_def obj_eq buffer_cells_def)
  qed
  with s' hi have "inv s' (g\<lparr>g_pool := p, g_held := e # g_held g\<rparr>)" by (intro invI)
  moreover have "moves copy_words (2 ^ k) (tick s) s'"
  proof (rule moves_cells [OF s'(3)])
    show "used s' \<le> used (tick s) + 2 ^ k" using u by (simp add: used_def)
    fix i :: int assume i: "i < HDR_END" "i \<notin> copy_words"
    then have "obj s' i = c1 i" using x by (intro w) (auto simp: copy_words_def)
    also have "\<dots> = ?c0 i" using i by (intro p(3)) (auto simp: copy_words_def)
    also have "\<dots> = obj (tick s) i" using i by (simp add: buffer_cells_def copy_words_def)
    finally show "obj s' i = obj (tick s) i" .
  qed
  ultimately show thesis by (rule that)
qed

lemma fits_exp_3: "fits_exp n k \<Longrightarrow> 8 \<le> n \<Longrightarrow> 3 \<le> k"
proof (rule ccontr)
  assume f: "fits_exp n k" "8 \<le> n" "\<not> 3 \<le> k"
  then have "(2::int) ^ k \<le> 2 ^ 2" by (intro power_increasing) simp_all
  with fits_exp_bounds [OF f(1)] f(2) show False by simp
qed

lemma inv_copy_value:
  assumes inv: "inv s g" and cl: "clock_ok s" and fit: "fits_exp (7 + slots_of len) k" and room: "room s (2 ^ k)"
    and len: "0 < len" "len \<le> int (length bytes)" and t: "0 \<le> type" "type < 2 ^ 32"
  obtains x s' j p where "copy_value s (Some bytes) len type = Some (x, s')"
    and "inv s' (g\<lparr>g_pool := p, g_held := \<lparr>e_blk = x, e_exp = j, e_ts = now s,
        e_val = Value type (take (nat len) bytes)\<rparr> # g_held g\<rparr>)"
    and "moves copy_words (2 ^ k) (tick s) s'" and "HDR_END \<le> x" and "x + 7 < cur_slots s'"
proof -
  let ?v = "Value type (take (nat len) bytes)"
  have lb: "int (length (take (nat len) bytes)) = len" "take (nat len) bytes \<noteq> []" using len by auto
  have fb: "7 + slots_of len \<le> 2 ^ k" "k \<le> 30" using fits_exp_bounds [OF fit] by auto
  have "8 \<le> 7 + slots_of len" using slots_of_pos [OF len(1)] by simp
  with fit have k3: "3 \<le> k" by (rule fits_exp_3)
  have k8: "(8::int) \<le> 2 ^ k" using power_increasing [OF k3, of "2::int"] by simp
  have can: "can_alloc s k" using inv_can_alloc [OF inv] k3 fb(2) room by simp
  obtain x s' c1 where c: "copy_value s (Some bytes) len type = Some (x, s')" "base_ok s'" "calm s'" "keeps (tick s) s'"
    "cells s SIZE \<le> cells s' SIZE" "HDR_END \<le> x" "x + 2 ^ k < cur_slots s'"
    "alloc_cells (buffer_cells (obj s) (7 + slots_of len) SIZEOF_VEC) k = (x, c1)" "c1 x = 2 ^ alloc_exp (obj s) k"
    "obj s' = value_cells c1 x (now s) type (take (nat len) bytes)"
    "x + 2 ^ alloc_exp (obj s) k \<le> cells s' SIZE" "alloc_exp (obj s) k \<le> 30"
    by (rule copy_value_ok [OF can fit len])
  have "len < 2 ^ 40"
  proof -
    have "(2::int) ^ k \<le> 2 ^ 30" using fb(2) by (intro power_increasing) simp_all
    then show ?thesis using slots_of_bounds(1) [of len] fb(1) by simp
  qed
  then have v: "payload_ok ?v" "7 + area_slots ?v \<le> 2 ^ k" using t lb fb(1) by simp_all
  have w: "obj s' i = c1 i" if "i \<noteq> ID_CNTR" "i \<le> x \<or> x + 7 + area_slots ?v \<le> i" for i
    using that unfolding c(10) by (intro value_cells_other) auto
  have h: "holds (obj s') x (alloc_exp (obj s) k) (now s) ?v"
    unfolding c(10) using c(6,9) by (rule value_cells_holds)
  obtain p where "inv s' (g\<lparr>g_pool := p, g_held := \<lparr>e_blk = x, e_exp = alloc_exp (obj s) k, e_ts = now s, e_val = ?v\<rparr> # g_held g\<rparr>)"
    "moves copy_words (2 ^ k) (tick s) s'"
    by (rule inv_new_entry [OF inv k3 fb(2) c(8,2-5,7,11) w h v _ _ c(6)]) (use clock_ok_now [OF cl] in auto)
  moreover have "x + 7 < cur_slots s'" using c(7) k8 by linarith
  ultimately show thesis using c(1,6) by (intro that)
qed

lemma vec_slots_entry: "(t, bs) \<in> set es \<Longrightarrow> 2 + slots_of (int (length bs)) \<le> vec_slots es"
proof (induction es)
  case (Cons e es)
  then show ?case
    using area_slots_nonneg [of "Vector es"] slots_of_nonneg [of "length (snd e)"] by (cases e) fastforce
qed simp

lemma vec_slots_length: "2 * int (length es) \<le> vec_slots es"
proof (induction es)
  case (Cons e es)
  then show ?case using slots_of_nonneg [of "length (snd e)"] by (cases e) simp
qed simp

lemma vec_payload_ok:
  assumes "2 \<le> length vs" and "\<forall>v\<in>set vs. vec_ok v" and "\<forall>v\<in>set vs. vec_type v < 2 ^ 32" and "7 + vec_slots (map vec_entry vs) \<le> 2 ^ k" and "k \<le> 30"
  shows "payload_ok (Vector (map vec_entry vs))"
proof -
  have "(2::int) ^ k \<le> 2 ^ 30" using assms(5) by (intro power_increasing) simp_all
  then have b: "vec_slots (map vec_entry vs) \<le> 2 ^ 30" using assms(4) by linarith
  have "int (length bs) < 2 ^ 40" if "(t, bs) \<in> set (map vec_entry vs)" for t bs
    using vec_slots_entry [OF that] b slots_of_bounds(1) [of "int (length bs)"] by simp
  moreover have "0 < t \<and> t < 2 ^ 32 \<and> bs \<noteq> []" if e: "(t, bs) \<in> set (map vec_entry vs)" for t bs
  proof -
    obtain v where v: "v \<in> set vs" "vec_entry v = (t, bs)" using e by auto
    then have "vec_ok v" "vec_type v < 2 ^ 32" using assms(2,3) by auto
    with v(2) vec_entry_length [OF this(1)] show ?thesis by (auto simp: vec_ok_def vec_entry_def)
  qed
  ultimately have "\<forall>(t, bs)\<in>set (map vec_entry vs). 0 < t \<and> t < 2 ^ 32 \<and> bs \<noteq> [] \<and> int (length bs) < 2 ^ 40"
    by (auto simp del: set_map)
  moreover have "length vs < 2 ^ 31" using vec_slots_length [of "map vec_entry vs"] b by simp
  ultimately show ?thesis using assms(1) by (simp del: set_map)
qed

lemma inv_copy_vector:
  assumes inv: "inv s g" and cl: "clock_ok s" and fit: "fits_exp (calc_vector_slots vs) k" and room: "room s (2 ^ k)"
    and vs: "2 \<le> length vs" "\<forall>v\<in>set vs. vec_ok v" "\<forall>v\<in>set vs. vec_type v < 2 ^ 32"
  obtains x s' j p where "copy_vector s (Some vs) (int (length vs)) = Some (x, s')"
    and "inv s' (g\<lparr>g_pool := p, g_held := \<lparr>e_blk = x, e_exp = j, e_ts = now s,
        e_val = Vector (map vec_entry vs)\<rparr> # g_held g\<rparr>)"
    and "moves copy_words (2 ^ k) (tick s) s'" and "HDR_END \<le> x" and "x + 7 < cur_slots s'"
proof -
  let ?v = "Vector (map vec_entry vs)"
  have fb: "calc_vector_slots vs \<le> 2 ^ k" "k \<le> 30" using fits_exp_bounds [OF fit] by auto
  have "8 \<le> calc_vector_slots vs"
    using calc_vector_slots_ge [OF vs(2), of 7] vec_slots_length [of "map vec_entry vs"] vs(1)
    by (simp add: calc_vector_slots_def)
  with fit have k3: "3 \<le> k" by (rule fits_exp_3)
  have k8: "(8::int) \<le> 2 ^ k" using power_increasing [OF k3, of "2::int"] by simp
  have can: "can_alloc s k" using inv_can_alloc [OF inv] k3 fb(2) room by simp
  obtain x s' c1 len where c: "copy_vector s (Some vs) (int (length vs)) = Some (x, s')" "base_ok s'" "calm s'"
    "keeps (tick s) s'" "cells s SIZE \<le> cells s' SIZE" "HDR_END \<le> x" "x + 2 ^ k < cur_slots s'"
    "alloc_cells (buffer_cells (obj s) (calc_vector_slots vs) (int (length vs) * SIZEOF_VEC)) k = (x, c1)"
    "c1 x = 2 ^ alloc_exp (obj s) k" "obj s' = vector_cells c1 x (now s) len (map vec_entry vs)"
    "7 + vec_slots (map vec_entry vs) \<le> 2 ^ k" "x + 2 ^ alloc_exp (obj s) k \<le> cells s' SIZE" "alloc_exp (obj s) k \<le> 30"
    by (rule copy_vector_ok [OF can fit vs(1,2)])
  have v: "payload_ok ?v" "7 + area_slots ?v \<le> 2 ^ k" using vec_payload_ok [OF vs c(11) fb(2)] c(11) by simp_all
  have w: "obj s' i = c1 i" if "i \<noteq> ID_CNTR" "i \<le> x \<or> x + 7 + area_slots ?v \<le> i" for i
    using that unfolding c(10) by (intro vector_cells_other) auto
  have h: "holds (obj s') x (alloc_exp (obj s) k) (now s) ?v"
    unfolding c(10) using c(6,9) by (rule vector_cells_holds)
  obtain p where "inv s' (g\<lparr>g_pool := p, g_held := \<lparr>e_blk = x, e_exp = alloc_exp (obj s) k, e_ts = now s, e_val = ?v\<rparr> # g_held g\<rparr>)"
    "moves copy_words (2 ^ k) (tick s) s'"
    by (rule inv_new_entry [OF inv k3 fb(2) c(8,2-5,7,12) w h v _ _ c(6)]) (use clock_ok_now [OF cl] in auto)
  moreover have "x + 7 < cur_slots s'" using c(7) k8 by linarith
  ultimately show thesis using c(1,6) by (intro that)
qed

section \<open>The stack of nodes\<close>

lemma inv_stack:
  assumes "inv s g"
  shows "cells s STACK_HEAD = (case g_stack g of [] \<Rightarrow> 0 | x # _ \<Rightarrow> x)"
    and "g_stack g = x # y # ys \<Longrightarrow> cells s x = y" and "g_stack g = [x] \<Longrightarrow> cells s x = 0"
proof -
  have r: "stack_rep (obj s) STACK_HEAD (g_stack g)"
    using heap_inv_parts(3) [OF inv_parts(5) [OF assms]] by (simp add: stacks_ok_def)
  then show "cells s STACK_HEAD = (case g_stack g of [] \<Rightarrow> 0 | x # _ \<Rightarrow> x)"
    by (auto simp: stack_rep_def obj_eq split: list.splits)
  have o: "obj s x = cells s x" if "x \<in> set (g_stack g)"
    using inv_node(1) [OF assms, of x] that by (intro obj_eq) (auto simp: nodes_def node_ok_def)
  show "g_stack g = x # y # ys \<Longrightarrow> cells s x = y" "g_stack g = [x] \<Longrightarrow> cells s x = 0"
    using r o by (auto simp: stack_rep_def)
qed

lemma inv_push:
  assumes inv: "inv s g" and x: "g_loose g = x # L" "x + 4 \<le> cur_slots s" and e: "g_held g = e # es" "cells s (x + 3) = e_blk e"
  obtains s' where "lifo_add s x = Some s'"
    and "inv s' (g\<lparr>g_stack := x # g_stack g, g_loose := L, g_lifo := e # g_lifo g, g_held := es\<rparr>)"
    and "moves {STACK_HEAD, STACK_HD_CNT} 0 s s'"
proof -
  let ?s = "s\<lparr>cells := push_cells (cells s) x STACK_HEAD\<rparr>" and ?a = "base_current s"
  note s = inv_parts [OF inv]
  have xn: "node_ok (used s) x" by (rule inv_node(1) [OF inv]) (simp add: nodes_def x(1))
  then have x0: "164 \<le> x" by (simp add: node_ok_def)
  have r: "insure_in_range s x = Some (\<lparr>v_status = SH_OK, v_slot = x, v_ext = ?a\<rparr>, s)"
    by (rule insure_in_range_mapped [OF s(1)]) (use x0 x(2) in auto)
  have rd: "rd (s\<lparr>cells := c\<rparr>) ?a i = Some (c i)" if "0 \<le> i" "i < cur_slots s" for c i
    using rd_mapped [of "s\<lparr>cells := c\<rparr>" ?a "cur_slots s"] s(9) that by simp
  have wr: "wr (s\<lparr>cells := c\<rparr>) ?a i v = Some (s\<lparr>cells := c(i := v)\<rparr>)" if "0 \<le> i" "i < cur_slots s" for c i v
    using wr_mapped [of "s\<lparr>cells := c\<rparr>" ?a "cur_slots s"] s(9) that by simp
  note rd0 = rd [of _ "cells s", simplified] and wr0 = wr [of _ "cells s", simplified]
  let ?c = "(cells s)(x := cells s STACK_HEAD, x + 1 := cells s STACK_HD_CNT)"
  have d: "DWCAS (s\<lparr>cells := ?c\<rparr>) ?a STACK_HEAD (cells s STACK_HEAD, cells s STACK_HD_CNT)
      (x, wrap64 (cells s STACK_HD_CNT + 1)) = Some (True, ?s)"
    using DWCAS_mapped [of "s\<lparr>cells := ?c\<rparr>" ?a 512 STACK_HEAD] s(8) x0
    by (simp add: push_cells_def fun_upd_twist)
  have "lifo_add s x = Some ?s"
    using r d rd0 wr0 rd wr x0 x(2) by (simp add: lifo_add_def lifo_add_loop.simps rd2_def)
  moreover have o: "obj ?s = push_cells (obj s) x STACK_HEAD"
    using x0 by (auto simp: obj_def push_cells_def fun_eq_iff)
  have z: "cells ?s SIZE = cells s SIZE" "cells ?s EXPAND_SIZE = cells s EXPAND_SIZE" "used ?s = used s"
    using x0 by (simp_all add: push_cells_def used_def)
  have v: "obj s (x + 3) = e_blk e" using e(2) x0 by (simp add: obj_eq)
  have "inv ?s (g\<lparr>g_stack := x # g_stack g, g_loose := L, g_lifo := e # g_lifo g, g_held := es\<rparr>)"
  proof (rule invI)
    show "base_ok ?s" "calm ?s" "used ?s \<le> cells ?s SIZE" using s z by simp_all
    show "heap_inv (obj ?s) (g\<lparr>g_stack := x # g_stack g, g_loose := L, g_lifo := e # g_lifo g, g_held := es\<rparr>)"
      unfolding o by (rule heap_push [OF s(5) x(1) e(1) v])
  qed
  moreover have "moves {STACK_HEAD, STACK_HD_CNT} 0 s ?s"
  proof (rule moves_cells [OF keeps_cells(1)])
    show "used ?s \<le> used s + 0" using z(3) by simp
    fix i :: int assume "i < HDR_END" "i \<notin> {STACK_HEAD, STACK_HD_CNT}"
    then have "push_cells (obj s) x STACK_HEAD i = obj s i" using x0 by (auto simp: push_cells_def)
    then show "obj ?s i = obj s i" by (simp only: o)
  qed
  ultimately show thesis by (intro that [of ?s])
qed

lemma inv_range:
  assumes inv: "inv s g" and slot: "0 < slot" "slot < cells s SIZE"
  obtains s' where "insure_in_range s slot = Some (\<lparr>v_status = SH_OK, v_slot = slot, v_ext = base_current s'\<rparr>, s')"
    and "inv s' g" and "moves {} 0 s s'" and "cells s' = cells s" and "slot < cur_slots s'"
proof -
  note s = inv_parts [OF inv]
  obtain s' where r: "insure_in_range s slot = Some (\<lparr>v_status = SH_OK, v_slot = slot, v_ext = base_current s'\<rparr>, s')"
    "base_ok s'" "keeps s s'" "cells s' = cells s" "slot < cur_slots s'" "calm s'"
    by (rule insure_in_range_ok [OF s(1,2) slot])
  have "inv s' g" using r s(4,5) by (intro invI) (simp_all add: used_def obj_cells [OF r(4)])
  moreover have "moves {} 0 s s'" using r(3,4) by (simp add: moves_def used_def obj_cells [OF r(4)])
  ultimately show thesis using r by (intro that [of s'])
qed

lemma inv_node_mapped:
  assumes "inv s g" and "node_ok d x" and "x < cur_slots s"
  shows "x + 4 \<le> cur_slots s"
  using node_ok_mapped [OF inv_parts(1) [OF assms(1)] assms(2,3)] .

lemma inv_rd: "inv s g \<Longrightarrow> 0 \<le> i \<Longrightarrow> i < cur_slots s \<Longrightarrow> rd s (base_current s) i = Some (cells s i)"
  using rd_mapped inv_parts(9) by blast

lemma inv_rd_header: "inv s g \<Longrightarrow> 0 \<le> i \<Longrightarrow> i < HDR_END \<Longrightarrow> rd s (base_current s) i = Some (cells s i)"
  using rd_mapped [OF inv_parts(8)] by simp

lemma inv_rd2_header: "inv s g \<Longrightarrow> 0 \<le> i \<Longrightarrow> i + 1 < HDR_END \<Longrightarrow> rd2 s (base_current s) i = Some (cells s i, cells s (i + 1))"
  using rd2_mapped [OF inv_parts(8)] by simp

lemma inv_carries:
  assumes inv: "inv s g"
  shows "g_stack g = x # xs \<Longrightarrow> g_lifo g = e # es \<Longrightarrow> cells s (x + 3) = e_blk e"
    and "g_list g Items = w # x # xs \<Longrightarrow> g_fifo g = e # es \<Longrightarrow> cells s (x + 3) = e_blk e"
proof -
  have i: "items_ok (obj s) g" by (rule heap_inv_parts(4) [OF inv_parts(5) [OF inv]])
  have o: "obj s (x + 3) = cells s (x + 3)" if "x \<in> set (nodes g)"
    using inv_node(1) [OF inv that] by (intro obj_eq) (auto simp: node_ok_def)
  show "g_stack g = x # xs \<Longrightarrow> g_lifo g = e # es \<Longrightarrow> cells s (x + 3) = e_blk e"
    "g_list g Items = w # x # xs \<Longrightarrow> g_fifo g = e # es \<Longrightarrow> cells s (x + 3) = e_blk e"
    using i o by (auto simp: items_ok_def carries_def nodes_def)
qed

lemma inv_pop:
  assumes inv: "inv s g" and x: "g_stack g = x # xs" and e: "g_lifo g = e # es"
  obtains s' where "lifo_remove s = Some (e_blk e, s')"
    and "inv s' (g\<lparr>g_list := (g_list g)(Free := g_list g Free @ [x]), g_stack := xs, g_lifo := es, g_held := e # g_held g\<rparr>)"
    and "moves {STACK_HEAD, STACK_HD_CNT, ID_CNTR, FREE_TAIL, FREE_TL_CNT} 0 s s'"
proof -
  note s = inv_parts [OF inv]
  have xn: "node_ok (used s) x" "node_ok (cells s SIZE) x" by (rule inv_node [OF inv]; simp add: nodes_def x)+
  then have x0: "164 \<le> x" "even x" "0 < x" "x < cells s SIZE" using node_ok_even by (auto simp: node_ok_def)
  obtain s1 where r: "insure_in_range s x = Some (\<lparr>v_status = SH_OK, v_slot = x, v_ext = base_current s1\<rparr>, s1)"
    "inv s1 g" "moves {} 0 s s1" "cells s1 = cells s" "x < cur_slots s1"
    by (rule inv_range [OF inv x0(3,4)])
  note s1 = inv_parts [OF r(2)]
  have x4: "x + 4 \<le> cur_slots s1" by (rule inv_node_mapped [OF r(2) xn(1) r(5)])
  let ?a = "base_current s1" and ?c = "cells s"
  let ?s2 = "s1\<lparr>cells := (pop_cells ?c x STACK_HEAD)(x := 0, x + 1 := 0)\<rparr>"
  have top: "?c STACK_HEAD = x" using inv_stack(1) [OF inv] x by simp
  have r': "insure_in_range s1 x = Some (\<lparr>v_status = SH_OK, v_slot = x, v_ext = ?a\<rparr>, s1)"
    by (rule insure_in_range_mapped [OF s1(1) x0(3) r(5)])
  let ?s1' = "s1\<lparr>cells := pop_cells ?c x STACK_HEAD\<rparr>"
  have d: "DWCAS s1 ?a STACK_HEAD (x, ?c STACK_HD_CNT) (?c x, wrap64 (?c STACK_HD_CNT + 1)) = Some (True, ?s1')"
    using DWCAS_mapped [OF s1(8), of STACK_HEAD] top r(4) by (simp add: pop_cells_def)
  have cl: "clear_slots ?s1' ?a x 2 = Some ?s2"
  proof -
    have "mapped ?s1' ?a (cur_slots s1)" using s1(9) by simp
    then have "clear_slots ?s1' ?a x 2 = Some (?s1'\<lparr>cells := \<lambda>j. if x \<le> j \<and> j < x + 2 then 0 else pop_cells ?c x STACK_HEAD j\<rparr>)"
      using clear_slots_mapped [of ?s1' ?a "cur_slots s1" x 2] x0 x4 by (simp cong: if_cong)
    moreover have "(\<lambda>j. if x \<le> j \<and> j < x + 2 then 0 else pop_cells ?c x STACK_HEAD j) = (pop_cells ?c x STACK_HEAD)(x := 0, x + 1 := 0)"
      by (auto simp: fun_eq_iff)
    ultimately show ?thesis by simp
  qed
  have rt: "remove_top s1 x (?c STACK_HD_CNT) = Some (x, ?s2)"
    using inv_rd2_header [OF r(2), of STACK_HEAD] r(4) r' x0 top inv_rd [OF r(2), of x] r(5) d cl
    by (simp add: remove_top_def)
  let ?g = "g\<lparr>g_stack := xs, g_loose := x # g_loose g, g_lifo := es, g_held := e # g_held g\<rparr>"
  have o: "obj ?s2 = (pop_cells (obj s) x STACK_HEAD)(x := 0, x + 1 := 0)"
    using x0 by (auto simp: obj_def pop_cells_def fun_eq_iff)
  have z: "cells ?s2 SIZE = cells s1 SIZE" "cells ?s2 EXPAND_SIZE = cells s1 EXPAND_SIZE" "used ?s2 = used s"
    using x0 by (simp_all add: pop_cells_def used_def r(4))
  have inv2: "inv ?s2 ?g"
  proof (rule invI)
    show "base_ok ?s2" "calm ?s2" using s1 z by simp_all
    show "used ?s2 \<le> cells ?s2 SIZE" using s(4) z r(4) by simp
    show "heap_inv (obj ?s2) ?g" unfolding o by (rule heap_pop [OF s(5) x e])
  qed
  have m2: "moves {STACK_HEAD, STACK_HD_CNT} 0 s ?s2"
  proof (rule moves_cells)
    show "keeps s ?s2" using moves_keeps [OF r(3)] keeps_cells(1) keeps_trans by blast
    show "used ?s2 \<le> used s + 0" using z(3) by simp
    fix i :: int assume "i < HDR_END" "i \<notin> {STACK_HEAD, STACK_HD_CNT}"
    then have "((pop_cells (obj s) x STACK_HEAD)(x := 0, x + 1 := 0)) i = obj s i" using x0 by (auto simp: pop_cells_def)
    then show "obj ?s2 i = obj s i" by (simp only: o)
  qed
  have "g_loose ?g = x # g_loose g" "x + 4 \<le> cur_slots ?s2" using x4 by simp_all
  from inv_put_free [OF inv2 this] obtain s' where s': "add_end ?s2 x FREE_TAIL = Some s'"
    "inv s' (?g\<lparr>g_list := (g_list ?g)(Free := g_list ?g Free @ [x]), g_loose := g_loose g\<rparr>)"
    "moves {ID_CNTR, FREE_TAIL, FREE_TL_CNT} 0 ?s2 s'" by blast
  have "e_blk e \<noteq> 0"
    using inv_held(2) [OF inv, of e] e by (auto simp: node_ok_def)
  then have "lifo_remove s = Some (e_blk e, s')"
    using inv_rd_header [OF inv] top r(1) inv_rd [OF r(2), of "x + 3"] x0 x4 r(4) inv_carries(1) [OF inv x e] rt s'(1)
    by (simp add: lifo_remove_def)
  moreover have "moves {STACK_HEAD, STACK_HD_CNT, ID_CNTR, FREE_TAIL, FREE_TL_CNT} 0 s s'"
    using moves_trans [OF m2 s'(3)] by (simp add: insert_commute)
  moreover have eq: "?g\<lparr>g_list := (g_list ?g)(Free := g_list ?g Free @ [x]), g_loose := g_loose g\<rparr> =
    g\<lparr>g_list := (g_list g)(Free := g_list g Free @ [x]), g_stack := xs, g_lifo := es, g_held := e # g_held g\<rparr>"
    by (cases g) simp
  ultimately show thesis using s'(2) unfolding eq by (intro that)
qed

section \<open>The front of the item list\<close>

lemma inv_front_link:
  assumes inv: "inv s g" and l: "g_list g w = x # y # ys"
  shows "cells s (hd_slot w) = x" "cells s (tl_slot w) \<noteq> x" "cells s x = y"
    "node_ok (used s) x" "node_ok (used s) y"
proof -
  have r: "list_rep (cells s) (hd_slot w) (tl_slot w) (x # y # ys)" using inv_list(1) [OF inv, of w] l by simp
  note rep = r [unfolded list_rep_def]
  have "cells s (hd_slot w) = hd (x # y # ys)" using rep by blast
  then show "cells s (hd_slot w) = x" by simp
  have "distinct (x # y # ys)" "cells s (tl_slot w) = last (x # y # ys)" using rep by blast+
  then have "x \<notin> set (y # ys)" "cells s (tl_slot w) = last (y # ys)" by simp_all
  with last_in_set [of "y # ys"] show "cells s (tl_slot w) \<noteq> x" by (metis list.distinct(1))
  have "chain (cells s) (x # y # ys)" using rep by blast
  from chain_Cons [OF this] show "cells s x = y" by simp
  have "x \<in> set (nodes g)" "y \<in> set (nodes g)" using list_nodes [of g w] l by simp_all
  then show "node_ok (used s) x" "node_ok (used s) y" using inv_node(1) [OF inv] by blast+
qed

lemma moves_eq: "moves {} 0 s s1 \<Longrightarrow> moves H n s1 t \<Longrightarrow> moves H n s t"
  using moves_trans [of "{}" 0 s s1 H n t] by simp

lemma inv_next_item:
  assumes inv: "inv s g" and l: "g_list g Items = x # y # ys" and f: "g_fifo g = e # es" and m: "x < cur_slots s"
  obtains s' where "next_item s x = Some (e_blk e, s')" and "inv s' g" and "moves {} 0 s s'" and "cells s' = cells s"
proof -
  note fl = inv_front_link [OF inv l]
  have x: "0 < x" and y: "0 < y + 3" "y + 3 < cells s SIZE" "HDR_END \<le> y"
    using fl(4,5) inv_parts(4) [OF inv] by (auto simp: node_ok_def)
  have r: "insure_in_range s x = Some (\<lparr>v_status = SH_OK, v_slot = x, v_ext = base_current s\<rparr>, s)"
    by (rule insure_in_range_mapped [OF inv_parts(1) [OF inv] x m])
  obtain s1 where r1: "insure_in_range s (y + 3) = Some (\<lparr>v_status = SH_OK, v_slot = y + 3, v_ext = base_current s1\<rparr>, s1)"
    "inv s1 g" "moves {} 0 s s1" "cells s1 = cells s" "y + 3 < cur_slots s1"
    by (rule inv_range [OF inv y(1,2)])
  have "rd s1 (base_current s1) (y + 3) = Some (e_blk e)"
    using inv_rd [OF r1(2), of "y + 3"] y(3) r1(4,5) inv_carries(2) [OF inv l f] by simp
  then have "next_item s x = Some (e_blk e, s1)"
    using r r1(1) x y inv_rd [OF inv, of x] m fl(3) by (simp add: next_item_def)
  then show thesis using r1 by (intro that)
qed

lemma inv_fifo_remove:
  assumes inv: "inv s g" and l: "g_list g Items = x # y # ys" and f: "g_fifo g = e # es"
  obtains s' where "fifo_remove s = Some (e_blk e, s')"
    and "inv s' (g\<lparr>g_list := (g_list g)(Items := y # ys, Free := g_list g Free @ [x]), g_fifo := es, g_held := e # g_held g\<rparr>)"
    and "moves {HEAD, HEAD_CNT, ID_CNTR, FREE_TAIL, FREE_TL_CNT} 0 s s'"
proof -
  note fl = inv_front_link [OF inv l, unfolded hd_slot.simps tl_slot.simps]
  have x: "0 < x" "x < cells s SIZE" using fl(4) inv_parts(4) [OF inv] by (auto simp: node_ok_def)
  obtain s1 where r1: "insure_in_range s x = Some (\<lparr>v_status = SH_OK, v_slot = x, v_ext = base_current s1\<rparr>, s1)"
    "inv s1 g" "moves {} 0 s s1" "cells s1 = cells s" "x < cur_slots s1"
    by (rule inv_range [OF inv x])
  obtain s2 where r2: "next_item s1 x = Some (e_blk e, s2)" "inv s2 g" "moves {} 0 s1 s2" "cells s2 = cells s1"
    by (rule inv_next_item [OF r1(2) l f r1(5)])
  obtain s3 where r3: "remove_front s2 x (cells s2 HEAD_CNT) HEAD TAIL = Some (x, s3)"
    "inv s3 (g\<lparr>g_list := (g_list g)(Items := y # ys), g_loose := x # g_loose g, g_fifo := es, g_held := e # g_held g\<rparr>)"
    "moves {HEAD, HEAD_CNT} 0 s2 s3"
    by (rule inv_take_item [OF r2(2) l f])
  let ?g = "g\<lparr>g_list := (g_list g)(Items := y # ys), g_loose := x # g_loose g, g_fifo := es, g_held := e # g_held g\<rparr>"
  have "x + 4 \<le> cur_slots s1" by (rule inv_node_mapped [OF r1(2) fl(4) r1(5)])
  moreover have "cur_slots s1 \<le> cur_slots s3" using r2(3) r3(3) by (auto simp: moves_def keeps_def)
  ultimately have "g_loose ?g = x # g_loose g" "x + 4 \<le> cur_slots s3" by simp_all
  from inv_put_free [OF r3(2) this] obtain s' where s': "add_end s3 x FREE_TAIL = Some s'"
    "inv s' (?g\<lparr>g_list := (g_list ?g)(Free := g_list ?g Free @ [x]), g_loose := g_loose g\<rparr>)"
    "moves {ID_CNTR, FREE_TAIL, FREE_TL_CNT} 0 s3 s'" by blast
  have "e_blk e \<noteq> 0" using inv_held(2) [OF inv, of e] f by (auto simp: node_ok_def)
  then have "fifo_remove s = Some (e_blk e, s')"
    using inv_rd_header [OF inv] fl(1,2) r1(1) r2(1) r3(1) r1(4) r2(4) x s'(1)
    by (simp add: fifo_remove_def)
  moreover have "moves {HEAD, HEAD_CNT, ID_CNTR, FREE_TAIL, FREE_TL_CNT} 0 s s'"
    using moves_eq [OF r1(3) moves_eq [OF r2(3) moves_trans [OF r3(3) s'(3)]]] by (simp add: insert_commute)
  moreover have eq: "?g\<lparr>g_list := (g_list ?g)(Free := g_list ?g Free @ [x]), g_loose := g_loose g\<rparr> =
    g\<lparr>g_list := (g_list g)(Items := y # ys, Free := g_list g Free @ [x]), g_fifo := es, g_held := e # g_held g\<rparr>"
    by (cases g) simp
  ultimately show thesis using s'(2) unfolding eq by (intro that)
qed

text \<open>What will be removed, in order: the stack from its top, then the list.\<close>

definition queue_of :: "ghost \<Rightarrow> entry list" where
  "queue_of g = g_lifo g @ g_fifo g"

definition same_rest :: "ghost \<Rightarrow> ghost \<Rightarrow> bool" where
  "same_rest g g' \<longleftrightarrow> g_loose g' = g_loose g \<and> g_loose_blks g' = g_loose_blks g"

lemma same_rest_trans: "same_rest g h \<Longrightarrow> same_rest h k \<Longrightarrow> same_rest g k"
  by (simp add: same_rest_def)

definition deq_words :: "int set" where
  "deq_words = {STACK_HEAD, STACK_HD_CNT, HEAD, HEAD_CNT, ID_CNTR, FREE_TAIL, FREE_TL_CNT}"

lemma inv_lengths:
  assumes "inv s g"
  shows "length (g_stack g) = length (g_lifo g)" "length (tl (g_list g Items)) = length (g_fifo g)"
    "length (tl (g_list g Events)) = length (g_evs g)"
proof -
  have "items_ok (obj s) g" "events_ok (obj s) g" using heap_inv_parts(4,5) [OF inv_parts(5) [OF assms]] .
  then show "length (g_stack g) = length (g_lifo g)" "length (tl (g_list g Items)) = length (g_fifo g)"
    "length (tl (g_list g Events)) = length (g_evs g)"
    by (auto simp: items_ok_def events_ok_def dest: list_all2_lengthD)
qed

lemma inv_items_cases:
  assumes inv: "inv s g"
  obtains x where "g_list g Items = [x]" and "g_fifo g = []" and "cells s HEAD = cells s TAIL"
  | x y ys e es where "g_list g Items = x # y # ys" and "g_fifo g = e # es" and "cells s HEAD \<noteq> cells s TAIL"
proof -
  have r: "list_rep (cells s) HEAD TAIL (g_list g Items)" using inv_list(1) [OF inv, of Items] by simp
  then obtain x xs where l: "g_list g Items = x # xs" using chain_not_Nil by (cases "g_list g Items") (auto simp: list_rep_def)
  show thesis
  proof (cases xs)
    case Nil
    then show thesis using that(1) l inv_lengths(2) [OF inv] r by (simp add: list_rep_def)
  next
    case (Cons y ys)
    then obtain e es where "g_fifo g = e # es" using l inv_lengths(2) [OF inv] by (cases "g_fifo g") auto
    with that(2) l Cons inv_front_link(1,2) [OF inv, of Items x y ys] show thesis by simp
  qed
qed

lemma inv_deq_empty:
  assumes "inv s g" and "queue_of g = []"
  shows "deq_loop s (base_current s) = Some (0, s)"
proof -
  have f: "g_fifo g = []" "g_stack g = []" using assms inv_lengths(1) [OF assms(1)] by (auto simp: queue_of_def)
  have "cells s HEAD = cells s TAIL" by (rule inv_items_cases [OF assms(1)]) (use f(1) in simp_all)
  then show ?thesis
    using f inv_stack(1) [OF assms(1)] inv_rd_header [OF assms(1)] by (subst deq_loop.simps) simp
qed

lemma inv_deq_slot:
  assumes inv: "inv s g" and q: "queue_of g = e # es"
  obtains s' g' where "deq_loop s (base_current s) = Some (e_blk e, s')" and "inv s' g'"
    and "moves deq_words 0 s s'" and "queue_of g' = es" and "g_held g' = e # g_held g" and "g_evs g' = g_evs g"
    and "same_rest g g'" and "g_lifo g = [] \<Longrightarrow> g_lifo g' = []"
proof -
  have "e \<in> set (queue_of g)" using q by simp
  then have "e \<in> set (g_held g @ g_fifo g @ g_lifo g)" by (auto simp: queue_of_def)
  from inv_held(2) [OF inv this] have e0: "e_blk e \<noteq> 0" by (simp add: node_ok_def)
  show thesis
  proof (cases "g_lifo g")
    case Nil
    then have f: "g_fifo g = e # es" and st: "g_stack g = []"
      using q inv_lengths(1) [OF inv] by (auto simp: queue_of_def)
    show thesis
    proof (rule inv_items_cases [OF inv])
      fix x y ys e' es' assume l: "g_list g Items = x # y # ys" "cells s HEAD \<noteq> cells s TAIL"
      obtain s' where s': "fifo_remove s = Some (e_blk e, s')"
        "inv s' (g\<lparr>g_list := (g_list g)(Items := y # ys, Free := g_list g Free @ [x]), g_fifo := es, g_held := e # g_held g\<rparr>)"
        "moves {HEAD, HEAD_CNT, ID_CNTR, FREE_TAIL, FREE_TL_CNT} 0 s s'"
        by (rule inv_fifo_remove [OF inv l(1) f])
      have "deq_loop s (base_current s) = Some (e_blk e, s')"
        using e0 l(2) st inv_stack(1) [OF inv] inv_rd_header [OF inv] s'(1) by (subst deq_loop.simps) simp
      moreover have "moves deq_words 0 s s'" using s'(3) by (rule moves_mono) (auto simp: deq_words_def)
      ultimately show thesis using Nil by (intro that [OF _ s'(2)]) (auto simp: queue_of_def same_rest_def)
    qed (use f in simp)
  next
    case (Cons e' es')
    then have e': "e' = e" using q by (simp add: queue_of_def)
    obtain x xs where st: "g_stack g = x # xs" using inv_lengths(1) [OF inv] Cons by (cases "g_stack g") auto
    have x0: "x \<noteq> 0" using inv_node(1) [OF inv, of x] st by (auto simp: nodes_def node_ok_def)
    have l: "g_lifo g = e # es'" using Cons e' by simp
    obtain s' where s': "lifo_remove s = Some (e_blk e, s')"
      "inv s' (g\<lparr>g_list := (g_list g)(Free := g_list g Free @ [x]), g_stack := xs, g_lifo := es', g_held := e # g_held g\<rparr>)"
      "moves {STACK_HEAD, STACK_HD_CNT, ID_CNTR, FREE_TAIL, FREE_TL_CNT} 0 s s'"
      by (rule inv_pop [OF inv st l])
    have "deq_loop s (base_current s) = Some (e_blk e, s')"
      using e0 st x0 inv_stack(1) [OF inv] inv_rd_header [OF inv] s'(1) by (subst deq_loop.simps) simp
    moreover have "moves deq_words 0 s s'" using s'(3) by (rule moves_mono) (auto simp: deq_words_def)
    ultimately show thesis using l q by (intro that [OF _ s'(2)]) (auto simp: queue_of_def same_rest_def)
  qed
qed

end
