(* ===== verification/Process.thy ===== *)
theory Process
  imports Steps
begin

text \<open>
  Adding and removing as a whole, between the gates: events, time stamps and signals around
  the moves of theory Steps.
\<close>

section \<open>What an operation keeps\<close>

text \<open>Like \<open>moves\<close>, but semaphores, signals and the clock may have moved on.\<close>

definition runs :: "int set \<Rightarrow> int \<Rightarrow> qstate \<Rightarrow> qstate \<Rightarrow> bool" where
  "runs H n s t \<longleftrightarrow>
     accessors t = accessors s \<and> mode t = mode s \<and> clock t = clock s \<and> osr t = osr s \<and> my_pid t = my_pid s \<and>
     cur_slots s \<le> cur_slots t \<and> (\<forall>a n. mapped s a n \<longrightarrow> mapped t a n) \<and>
     (\<forall>i<HDR_END. i \<notin> H \<longrightarrow> obj t i = obj s i) \<and> used t \<le> used s + n"

lemma runs_refl [simp]: "0 \<le> n \<Longrightarrow> runs H n s s"
  by (simp add: runs_def)

lemma runs_trans: "runs H n s t \<Longrightarrow> runs K m t u \<Longrightarrow> runs (H \<union> K) (n + m) s u"
  by (auto simp: runs_def)

lemma runs_mono: "runs H n s t \<Longrightarrow> H \<subseteq> K \<Longrightarrow> n \<le> m \<Longrightarrow> runs K m s t"
  by (auto simp: runs_def)

lemma moves_runs: "moves H n s t \<Longrightarrow> runs H n s t"
  by (simp add: moves_def runs_def keeps_def)

lemma moves_sems: "moves H n s t \<Longrightarrow> sems t = sems s \<and> signals t = signals s \<and> clock_n t = clock_n s"
  by (simp add: moves_def keeps_def)

lemma runs_env [simp]:
  "runs H n s (t\<lparr>sems := m\<rparr>) = runs H n s t" "runs H n s (t\<lparr>os_n := k\<rparr>) = runs H n s t"
  "runs H n s (t\<lparr>clock_n := k\<rparr>) = runs H n s t" "runs H n s (t\<lparr>signals := l\<rparr>) = runs H n s t"
  "runs H n s (tick t) = runs H n s t" "runs H n (tick s) t = runs H n s t"
  by (simp_all add: runs_def used_def tick_def)

lemma runs_word: "runs H n s t \<Longrightarrow> i < HDR_END \<Longrightarrow> i \<notin> H \<Longrightarrow> i \<noteq> SIZE \<Longrightarrow> i \<noteq> EXPAND_SIZE \<Longrightarrow> cells t i = cells s i"
  using obj_eq unfolding runs_def by metis

lemma runs_mapped: "runs H n s t \<Longrightarrow> mapped s a k \<Longrightarrow> mapped t a k"
  by (simp add: runs_def)

lemma runs_slots: "runs H n s t \<Longrightarrow> cur_slots s \<le> cur_slots t"
  by (simp add: runs_def)

lemma runs_clock: "runs H n s t \<Longrightarrow> clock_ok t = clock_ok s"
  by (simp add: runs_def clock_ok_def)

lemma runs_room: "runs H n s t \<Longrightarrow> inv t g \<Longrightarrow> room s m \<Longrightarrow> n + 2 * k \<le> 2 * m \<Longrightarrow> room t k"
  using inv_parts(7) [of t g] by (auto simp: room_used runs_def)

text \<open>The parts of the ghost state that say what the queue holds.\<close>

definition stable :: "ghost \<Rightarrow> ghost \<Rightarrow> bool" where
  "stable g g' \<longleftrightarrow> g_fifo g' = g_fifo g \<and> g_lifo g' = g_lifo g \<and> g_held g' = g_held g \<and> same_rest g g'"

lemma stable_refl [simp]: "stable g g"
  by (simp add: stable_def same_rest_def)

lemma stable_trans: "stable g h \<Longrightarrow> stable h k \<Longrightarrow> stable g k"
  by (simp add: stable_def same_rest_def)

lemma stable_queue: "stable g g' \<Longrightarrow> queue_of g' = queue_of g"
  by (simp add: stable_def queue_of_def)

section \<open>Header words\<close>

definition free_word :: "int \<Rightarrow> bool" where
  "free_word i \<longleftrightarrow> 0 \<le> i \<and> i < HDR_END \<and> i \<noteq> SIZE \<and> i \<noteq> EXPAND_SIZE \<and> i \<notin> insert DATA_ALLOC struct_slots"

lemma free_words [simp]:
  "free_word COUNT" "free_word FLAGS" "free_word TS_SEC" "free_word TS_NSEC" "free_word EMPTY_SEC" "free_word EMPTY_NSEC"
  "free_word CALL_BLOCKS" "free_word CALL_UNBLOCKS" "free_word BUFFER" "free_word ID_CNTR" "free_word LEVEL"
  "free_word LIMIT_SEC" "free_word LIMIT_NSEC" "free_word TARGET_SEC" "free_word TARGET_NSEC"
  "free_word NOTIFY_PID" "free_word NOTIFY_SIGNAL" "free_word LISTEN_PID" "free_word LISTEN_SIGNAL"
  "free_word CALL_PID" "free_word CALL_SIGNAL"
  using struct_slots_header by (auto simp: free_word_def)

lemma inv_header:
  assumes inv: "inv s g" and c: "\<And>i. c i \<noteq> cells s i \<Longrightarrow> free_word i \<and> i \<in> H"
  shows "inv (s\<lparr>cells := c\<rparr>) g" and "moves H 0 s (s\<lparr>cells := c\<rparr>)"
proof -
  let ?s = "s\<lparr>cells := c\<rparr>"
  note s = inv_parts [OF inv]
  have o: "obj ?s i = obj s i" if "\<not> free_word i \<or> i \<notin> H" for i
    using c [of i] that by (auto simp: obj_def)
  have z: "c SIZE = cells s SIZE" "c EXPAND_SIZE = cells s EXPAND_SIZE" "c DATA_ALLOC = cells s DATA_ALLOC"
    using c by (auto simp: free_word_def)
  have "heap_inv (obj ?s) g"
    by (rule heap_header [OF s(5)]) (use o in \<open>auto simp: free_word_def\<close>)
  with s z show "inv ?s g" by (intro invI) (simp_all add: used_def)
  show "moves H 0 s ?s" using o z by (intro moves_cells) (auto simp: used_def)
qed

lemma inv_word:
  assumes "inv s g" and "free_word i"
  shows "inv (s\<lparr>cells := (cells s)(i := v)\<rparr>) g" and "moves {i} 0 s (s\<lparr>cells := (cells s)(i := v)\<rparr>)"
  by (rule inv_header [OF assms(1), where H = "{i}"]; use assms(2) in \<open>auto split: if_splits\<close>)+

lemma inv_word2:
  assumes "inv s g" and "free_word i" and "free_word (i + 1)"
  shows "inv (s\<lparr>cells := (cells s)(i := v, i + 1 := w)\<rparr>) g"
    and "moves {i, i + 1} 0 s (s\<lparr>cells := (cells s)(i := v, i + 1 := w)\<rparr>)"
  by (rule inv_header [OF assms(1), where H = "{i, i + 1}"]; use assms(2,3) in \<open>auto split: if_splits\<close>)+

section \<open>Events\<close>

text \<open>An event that is subscribed to is recorded, and its subscription ends.\<close>

fun fire :: "sq_event \<Rightarrow> long \<times> sq_event list \<Rightarrow> long \<times> sq_event list" where
  "fire ev (flags, evs) =
    (if flags AND get_event_flag ev \<noteq> 0 then (flags AND NOT (get_event_flag ev), evs @ [ev]) else (flags, evs))"

definition event_words :: "int set" where
  "event_words = node_words \<union> {ID_CNTR, EVENT_TAIL, EVENT_TL_CNT, FLAGS}"

lemma event_disabled_eq [exec]:
  "mapped s a 512 \<Longrightarrow> event_disabled s a ev = Some (cells s FLAGS AND get_event_flag ev = 0)"
  by (simp add: event_disabled_def exec)

lemma inv_add_event:
  assumes inv: "inv s g" and room: "room s 4" and sem: "sems s EVNT_SEM < SEM_VALUE_MAX" and ev: "1 \<le> ev" "ev \<le> 6"
  defines "added \<equiv> cells s FLAGS AND get_event_flag ev \<noteq> 0"
  obtains s' g' where "add_event s ev = Some (added, s')" and "inv s' g'" and "runs event_words 4 s s'"
    and "(cells s' FLAGS, g_evs g') = fire ev (cells s FLAGS, g_evs g)" and "stable g g'"
    and "sems s' = (sems s)(EVNT_SEM := sems s EVNT_SEM + (if added then 1 else 0))"
    and "signals s' = signals s" and "clock_n s' = clock_n s"
proof (cases added)
  case False
  then have "add_event s ev = Some (False, s)"
    using inv_parts(8) [OF inv] ev by (simp add: add_event_def exec added_def)
  with False inv show thesis by (intro that [of s g]) (simp_all add: added_def)
next
  case True
  note s = inv_parts [OF inv]
  let ?f = "get_event_flag ev"
  let ?s1 = "s\<lparr>cells := (cells s)(FLAGS := cells s FLAGS AND NOT ?f)\<rparr>"
  have cas: "CAS s (base_current s) FLAGS (cells s FLAGS) (cells s FLAGS AND NOT ?f) = Some (True, ?s1)"
    using CAS_mapped [OF s(8)] by simp
  have i1: "inv ?s1 g" and m1: "moves {FLAGS} 0 s ?s1" by (rule inv_word [OF inv]; simp)+
  have "room ?s1 4" using room by (simp add: room_used used_def)
  then obtain s2 f x where a: "alloc_idx_slots ?s1 = Some (\<lparr>v_status = SH_OK, v_slot = x, v_ext = base_current s2\<rparr>, s2)"
    "inv s2 (g\<lparr>g_list := (g_list g)(Free := f), g_loose := x # g_loose g\<rparr>)" "moves node_words 4 ?s1 s2"
    "x + 4 \<le> cur_slots s2" "node_ok (used s2) x"
    by (rule inv_alloc_idx [OF i1])
  let ?g2 = "g\<lparr>g_list := (g_list g)(Free := f), g_loose := x # g_loose g\<rparr>"
  let ?s3 = "s2\<lparr>cells := (cells s2)(x + 2 := ev)\<rparr>"
  have x0: "164 \<le> x" using a(5) by (simp add: node_ok_def)
  note s2 = inv_parts [OF a(2)]
  have w: "wr s2 (base_current s2) (x + 2) ev = Some ?s3"
    using wr_mapped [OF s2(9)] x0 a(4) by simp
  have i3: "inv ?s3 ?g2"
    by (rule inv_write [OF a(2)], rule heap_write_field [OF s2(5)]) (use x0 in auto)
  have m3: "moves {} 0 s2 ?s3"
    using x0 by (intro moves_cells) (auto simp: used_def obj_def)
  have lx: "g_loose ?g2 = x # g_loose g" "x + 4 \<le> cur_slots ?s3" "cells ?s3 (x + 2) = ev" using a(4) by simp_all
  from inv_put_event [OF i3 lx ev] obtain s4 where s4: "add_end ?s3 x EVENT_TAIL = Some s4"
    "inv s4 (?g2\<lparr>g_list := (g_list ?g2)(Events := g_list ?g2 Events @ [x]), g_loose := g_loose g, g_evs := g_evs ?g2 @ [ev]\<rparr>)"
    "moves {ID_CNTR, EVENT_TAIL, EVENT_TL_CNT} 0 ?s3 s4" by blast
  let ?g4 = "?g2\<lparr>g_list := (g_list ?g2)(Events := g_list ?g2 Events @ [x]), g_loose := g_loose g, g_evs := g_evs ?g2 @ [ev]\<rparr>"
  let ?s5 = "s4\<lparr>os_n := Suc (os_n s4), sems := (sems s4)(EVNT_SEM := sems s4 EVNT_SEM + 1)\<rparr>"
  have m: "moves event_words 4 s s4"
    using moves_trans [OF m1 moves_trans [OF a(3) moves_trans [OF m3 s4(3)]]]
    by (rule moves_mono) (auto simp: event_words_def)
  have se: "sems s4 = sems s" "signals s4 = signals s" "clock_n s4 = clock_n s" using moves_sems [OF m] by auto
  have "mapped s4 (base_current s2) 512"
    using keeps_mapped [OF moves_keeps [OF moves_trans [OF m3 s4(3)]]] s2(8) by blast
  then have post: "sem_post s4 (base_current s2) EVNT_SEM = Some (None, ?s5)"
    using sem se inv_parts(3) [OF s4(2)] in_mapI [of s4 "base_current s2" 512 EVNT_SEM]
    by (simp add: sem_post_def quiet_os_call)
  have "add_event s ev = Some (True, ?s5)"
    using True s(8) ev cas a(1) x0 w s4(1) post
    by (simp add: add_event_def exec added_def)
  moreover have "inv ?s5 ?g4" using s4(2) by simp
  moreover have "runs event_words 4 s ?s5" using moves_runs [OF m] by simp
  moreover have "cells s4 FLAGS = cells s FLAGS AND NOT ?f"
  proof -
    have "cells s4 FLAGS = cells ?s1 FLAGS"
      by (rule moves_word [OF moves_trans [OF a(3) moves_trans [OF m3 s4(3)]]]) (simp_all add: node_words_def)
    then show ?thesis by simp
  qed
  ultimately show thesis
    using True se by (intro that [of ?s5 ?g4]) (simp_all add: added_def stable_def same_rest_def)
qed

text \<open>A piece of work around the structures: it may record events, move the clock, send
  signals and write the words named, and keeps what the queue holds.\<close>

definition work_words :: "int set" where
  "work_words = event_words \<union> {EMPTY_SEC, EMPTY_NSEC, TS_SEC, TS_NSEC}"

definition works :: "int \<Rightarrow> qstate \<Rightarrow> ghost \<Rightarrow> qstate \<Rightarrow> ghost \<Rightarrow> bool" where
  "works n s g t g' \<longleftrightarrow> inv t g' \<and> runs work_words n s t \<and> stable g g' \<and> clock_n s \<le> clock_n t \<and>
     sems t = (sems s)(EVNT_SEM := sems s EVNT_SEM + int (length (g_evs g')) - int (length (g_evs g)))"

lemma works_trans: "works n s g t h \<Longrightarrow> works m t h u k \<Longrightarrow> works (n + m) s g u k"
  unfolding works_def using runs_trans [of work_words n s t work_words m u] stable_trans by auto

lemma works_refl: "inv s g \<Longrightarrow> 0 \<le> n \<Longrightarrow> works n s g s g"
  by (simp add: works_def)

lemma works_inv: "works n s g t g' \<Longrightarrow> inv t g'"
  by (simp add: works_def)

lemma works_env [simp]:
  "works n s g (t\<lparr>signals := l\<rparr>) g' = works n s g t g'"
  by (simp_all add: works_def)

lemma works_tick: "works n s g t g' \<Longrightarrow> works n s g (tick t) g'" "works n (tick s) g t g' \<Longrightarrow> works n s g t g'"
  by (simp_all add: works_def) (simp_all add: tick_def)

lemma works_word:
  "works n s g t g' \<Longrightarrow> i < HDR_END \<Longrightarrow> i \<notin> work_words \<Longrightarrow> i \<noteq> SIZE \<Longrightarrow> i \<noteq> EXPAND_SIZE \<Longrightarrow> cells t i = cells s i"
  unfolding works_def using runs_word by blast

lemma works_mapped: "works n s g t g' \<Longrightarrow> mapped s a k \<Longrightarrow> mapped t a k"
  unfolding works_def using runs_mapped by blast

lemma works_room: "works n s g t g' \<Longrightarrow> room s m \<Longrightarrow> n + 2 * k \<le> 2 * m \<Longrightarrow> room t k"
  unfolding works_def using runs_room by blast

lemma works_sem: "works n s g t g' \<Longrightarrow> i \<noteq> EVNT_SEM \<Longrightarrow> sems t i = sems s i"
  by (simp add: works_def)

text \<open>Recording an event under a condition.\<close>

definition fire_if :: "bool \<Rightarrow> sq_event \<Rightarrow> long \<times> sq_event list \<Rightarrow> long \<times> sq_event list" where
  "fire_if b ev fe = (if b then fire ev fe else fe)"

lemma fire_length: "length (snd fe) \<le> length (snd (fire_if b ev fe))" "length (snd (fire_if b ev fe)) \<le> Suc (length (snd fe))"
  by (cases fe; simp add: fire_if_def)+

lemma works_event:
  assumes inv: "inv s g" and room: "room s 4" and sem: "sems s EVNT_SEM < SEM_VALUE_MAX" and ev: "1 \<le> ev" "ev \<le> 6"
  obtains added s' g' where "(if b then add_event s ev else Some (False, s)) = Some (added, s')" and "works 4 s g s' g'"
    and "(cells s' FLAGS, g_evs g') = fire_if b ev (cells s FLAGS, g_evs g)"
    and "sems s' EVNT_SEM \<le> sems s EVNT_SEM + 1"
    and "added = (b \<and> cells s FLAGS AND get_event_flag ev \<noteq> 0)"
    and "signals s' = signals s" and "clock_n s' = clock_n s"
proof (cases b)
  case False
  with inv show thesis by (intro that [of False s g]) (simp_all add: works_refl fire_if_def)
next
  case True
  let ?added = "cells s FLAGS AND get_event_flag ev \<noteq> 0"
  obtain s' g' where e: "add_event s ev = Some (?added, s')" "inv s' g'" "runs event_words 4 s s'"
    "(cells s' FLAGS, g_evs g') = fire ev (cells s FLAGS, g_evs g)" "stable g g'"
    "sems s' = (sems s)(EVNT_SEM := sems s EVNT_SEM + (if ?added then 1 else 0))" "signals s' = signals s"
    "clock_n s' = clock_n s"
    by (rule inv_add_event [OF inv room sem ev])
  have "g_evs g' = (if ?added then g_evs g @ [ev] else g_evs g)" using e(4) by (auto split: if_splits)
  moreover have "runs work_words 4 s s'"
    by (rule runs_mono [OF e(3)]) (auto simp: work_words_def)
  ultimately have "works 4 s g s' g'" using e(2,5,6,8) by (simp add: works_def)
  with e True show thesis by (intro that [of ?added s' g']) (simp_all add: fire_if_def)
qed

section \<open>Signals and time stamps\<close>

lemma signal_event_eq [exec]:
  "mapped s (base_current s) 512 \<Longrightarrow> signal_event s =
     Some (if cells s NOTIFY_PID = 0 \<or> cells s NOTIFY_SIGNAL = 0 then s
           else sigqueue (cells s NOTIFY_PID) (cells s NOTIFY_SIGNAL) 0 s)"
  by (simp add: signal_event_def exec)

lemma signal_arrival_eq [exec]:
  "mapped s (base_current s) 512 \<Longrightarrow> signal_arrival s =
     Some (if cells s LISTEN_SIGNAL \<noteq> 0 \<and> cells s LISTEN_PID \<noteq> 0 \<and> sems s DEQ_SEM = 0
           then sigqueue (cells s LISTEN_PID) (cells s LISTEN_SIGNAL) 0 s else s)"
  by (auto simp: signal_arrival_def exec Let_def)

lemma signal_call_eq [exec]:
  "mapped s (base_current s) 512 \<Longrightarrow> signal_call s =
     Some (if cells s CALL_PID = 0 \<or> cells s CALL_SIGNAL = 0 then s
           else sigqueue (cells s CALL_PID) (cells s CALL_SIGNAL) 0 s)"
  by (simp add: signal_call_def exec)

lemma predicates_eq [exec]:
  "mapped s a 512 \<Longrightarrow> is_monitored s a = Some (cells s NOTIFY_SIGNAL \<noteq> 0 \<and> cells s NOTIFY_PID \<noteq> 0)"
  "mapped s a 512 \<Longrightarrow> is_call_monitored s a = Some (cells s CALL_SIGNAL \<noteq> 0 \<and> cells s CALL_PID \<noteq> 0)"
  "mapped s a 512 \<Longrightarrow> is_discard_on_expire s a = Some (cells s FLAGS AND FLAG_DISCARD_EXPIRED \<noteq> 0)"
  "mapped s a 512 \<Longrightarrow> is_adaptive_lifo s a = Some (cells s FLAGS AND FLAG_LIFO_ON_LEVEL \<noteq> 0)"
  "mapped s a 512 \<Longrightarrow> is_codel_active s a =
     Some ((cells s TARGET_NSEC \<noteq> 0 \<or> cells s TARGET_SEC \<noteq> 0) \<and> (cells s LIMIT_NSEC \<noteq> 0 \<or> cells s LIMIT_SEC \<noteq> 0))"
  by (simp_all add: is_monitored_def is_call_monitored_def is_discard_on_expire_def is_adaptive_lifo_def
      is_codel_active_def exec)

definition ts_at :: "qstate \<Rightarrow> int \<Rightarrow> timespec" where
  "ts_at s i = \<lparr>tv_sec = cells s i, tv_nsec = cells s (i + 1)\<rparr>"

lemma rd_ts_eq [exec]: "mapped s a 512 \<Longrightarrow> 0 \<le> i \<Longrightarrow> i < 511 \<Longrightarrow> rd_ts s a i = Some (ts_at s i)"
  by (simp add: rd_ts_def exec ts_at_def)

lemma update_empty_eq [exec]:
  "mapped s a 512 \<Longrightarrow> update_empty_timestamp s a =
     Some (if timespeccmp (now s) (ts_at s EMPTY_SEC) (>)
           then (tick s)\<lparr>cells := (cells s)(EMPTY_SEC := tv_sec (now s), EMPTY_NSEC := tv_nsec (now s))\<rparr>
           else tick s)"
  by (simp add: update_empty_timestamp_def exec update_empty_loop.simps ts_at_def)

lemma store_pair_eq [exec]:
  "mapped s a 512 \<Longrightarrow> 0 \<le> i \<Longrightarrow> i < 511 \<Longrightarrow> even i \<Longrightarrow>
   store_pair_loop s a i v = Some (s\<lparr>cells := (cells s)(i := fst v, i + 1 := snd v)\<rparr>)"
  by (simp add: store_pair_loop.simps exec)

lemma works_signal: "inv s g \<Longrightarrow> signal_event s = Some s' \<Longrightarrow> works 0 s g s' g"
  using inv_parts(8) [of s g] by (auto simp: exec sigqueue_def works_refl split: if_splits)

lemma works_pair:
  assumes "inv s g" and "i = EMPTY_SEC \<or> i = TS_SEC"
  shows "works 0 s g (s\<lparr>cells := (cells s)(i := v, i + 1 := w)\<rparr>) g"
proof -
  have f: "free_word i" "free_word (i + 1)" using assms(2) by auto
  note h = inv_word2 [OF assms(1) f, of v w]
  have "runs work_words 0 s (s\<lparr>cells := (cells s)(i := v, i + 1 := w)\<rparr>)"
    using moves_runs [OF h(2)] assms(2) by (elim runs_mono) (auto simp: work_words_def)
  with h show ?thesis by (simp add: works_def)
qed

lemma works_empty_ts:
  assumes "inv s g" and m: "mapped s a 512"
  obtains s' where "(if b then update_empty_timestamp s a else Some s) = Some s'" and "works 0 s g s' g"
    and "cells s' FLAGS = cells s FLAGS" and "sems s' = sems s"
proof (cases "b \<and> timespeccmp (now s) (ts_at s EMPTY_SEC) (>)")
  case True
  have "inv (tick s) g" using assms(1) by simp
  from works_pair [OF this, of EMPTY_SEC] have
    "works 0 (tick s) g ((tick s)\<lparr>cells := (cells s)(EMPTY_SEC := tv_sec (now s), EMPTY_NSEC := tv_nsec (now s))\<rparr>) g"
    by simp
  then have "works 0 s g ((tick s)\<lparr>cells := (cells s)(EMPTY_SEC := tv_sec (now s), EMPTY_NSEC := tv_nsec (now s))\<rparr>) g"
    by (rule works_tick(2))
  with True m show thesis
    by (intro that [of "(tick s)\<lparr>cells := (cells s)(EMPTY_SEC := tv_sec (now s), EMPTY_NSEC := tv_nsec (now s))\<rparr>"])
      (simp_all add: exec)
next
  case False
  show thesis
  proof (cases b)
    case b: True
    with False m works_tick(1) [OF works_refl [OF assms(1), of 0]] show thesis
      by (intro that [of "tick s"]) (simp_all add: exec)
  next
    case False
    with works_refl [OF assms(1)] show thesis by (intro that [of s]) simp_all
  qed
qed

section \<open>After adding\<close>

text \<open>The events of an addition that found \<open>n\<close> items.\<close>

definition activate :: "long \<times> sq_event list \<Rightarrow> long \<times> sq_event list" where
  "activate fe =
    (if fst fe AND FLAG_ACTIVATED = 0 then fire SQ_EVNT_INIT (fst fe OR FLAG_ACTIVATED, snd fe) else fe)"

definition enq_events :: "long \<Rightarrow> long \<Rightarrow> long \<times> sq_event list \<Rightarrow> long \<times> sq_event list" where
  "enq_events n max_depth fe =
    fire_if (n = max_depth - 1) SQ_EVNT_LIMIT (fire_if (n = 0) SQ_EVNT_NONEMPTY (activate fe))"

lemma works_activate:
  assumes inv: "inv s g" and m: "mapped s a 512" and room: "room s 4" and sem: "sems s EVNT_SEM < SEM_VALUE_MAX"
  obtains added s' g' where
    "(if cells s FLAGS AND FLAG_ACTIVATED = 0 then do {
        (set, s) \<leftarrow> set_flag s a FLAG_ACTIVATED;
        if set then add_event s SQ_EVNT_INIT else Some (False, s) }
      else Some (False, s)) = Some (added, s')"
    and "works 4 s g s' g'" and "(cells s' FLAGS, g_evs g') = activate (cells s FLAGS, g_evs g)"
    and "sems s' EVNT_SEM \<le> sems s EVNT_SEM + 1"
proof (cases "cells s FLAGS AND FLAG_ACTIVATED = 0")
  case False
  with works_refl [OF inv] show thesis by (intro that [of False s g]) (simp_all add: activate_def)
next
  case True
  let ?s1 = "s\<lparr>cells := (cells s)(FLAGS := cells s FLAGS OR FLAG_ACTIVATED)\<rparr>"
  have i1: "inv ?s1 g" and m1: "moves {FLAGS} 0 s ?s1" by (rule inv_word [OF inv]; simp)+
  have w1: "works 0 s g ?s1 g"
    using i1 runs_mono [OF moves_runs [OF m1], of work_words 0] by (simp add: works_def work_words_def event_words_def)
  have r1: "room ?s1 4" "sems ?s1 EVNT_SEM < SEM_VALUE_MAX" using room sem by (simp_all add: room_used used_def)
  obtain added s' g' where
    e: "(if True then add_event ?s1 SQ_EVNT_INIT else Some (False, ?s1)) = Some (added, s')" "works 4 ?s1 g s' g'"
    "(cells s' FLAGS, g_evs g') = fire_if True SQ_EVNT_INIT (cells ?s1 FLAGS, g_evs g)"
    "sems s' EVNT_SEM \<le> sems ?s1 EVNT_SEM + 1"
    by (rule works_event [OF i1 r1, of 1 True]) auto
  have "set_flag s a FLAG_ACTIVATED = Some (True, ?s1)" using True m by (simp add: exec)
  with e True works_trans [OF w1 e(2)] show thesis
    by (intro that [of added s' g']) (simp_all add: activate_def fire_if_def)
qed

lemma works_signal_if:
  assumes "inv s g" and "mapped s a 512"
  obtains m s' where "(if b then is_monitored s a else Some False) = Some m"
    and "(if m then signal_event s else Some s) = Some s'" and "works 0 s g s' g" and "cells s' = cells s" and "sems s' = sems s"
proof -
  let ?m = "b \<and> cells s NOTIFY_SIGNAL \<noteq> 0 \<and> cells s NOTIFY_PID \<noteq> 0"
  let ?t = "if ?m then sigqueue (cells s NOTIFY_PID) (cells s NOTIFY_SIGNAL) 0 s else s"
  show thesis
    using assms works_refl [OF assms(1)] inv_parts(8) [OF assms(1)]
    by (intro that [of ?m ?t]) (simp_all add: exec sigqueue_def)
qed

lemma works_stamp:
  assumes inv: "inv s g" and m: "mapped s a 512"
  obtains prev s1 s' where "rd2 s a TS_SEC = Some prev" and "DWCAS s a TS_SEC prev t = Some (True, s1)"
    and "signal_arrival s1 = Some s'" and "works 0 s g s' g" and "cells s' FLAGS = cells s FLAGS" and "sems s' = sems s"
proof -
  let ?s1 = "s\<lparr>cells := (cells s)(TS_SEC := fst t, TS_SEC + 1 := snd t)\<rparr>"
  have w: "works 0 s g ?s1 g" by (rule works_pair [OF inv]) simp
  obtain s' where s': "signal_arrival ?s1 = Some s'" "works 0 s g s' g" "cells s' FLAGS = cells s FLAGS" "sems s' = sems s"
    using inv_parts(8) [OF works_inv [OF w]] w signal_arrival_eq [of ?s1] by (auto simp: sigqueue_def)
  then show thesis using m by (intro that [of "(cells s TS_SEC, cells s (TS_SEC + 1))" ?s1 s']) (simp_all add: exec)
qed

lemma works_post_enq:
  assumes inv: "inv s g" and room: "room s 12" and sem: "sems s EVNT_SEM + 3 \<le> SEM_VALUE_MAX"
  obtains s' g' where "post_process_enq s n stamp = Some s'" and "works 12 s g s' g'"
    and "(cells s' FLAGS, g_evs g') = enq_events n (cells s MAX_DEPTH) (cells s FLAGS, g_evs g)"
proof -
  let ?a = "base_current s"
  note h = inv_parts(8) [OF inv]
  obtain s1 where s1: "(if n = 0 then update_empty_timestamp s ?a else Some s) = Some s1" "works 0 s g s1 g"
    "cells s1 FLAGS = cells s FLAGS" "sems s1 = sems s"
    by (rule works_empty_ts [OF inv h])
  note i1 = works_inv [OF s1(2)] and h1 = works_mapped [OF s1(2) h]
  have r1: "room s1 4" "sems s1 EVNT_SEM < SEM_VALUE_MAX"
    using works_room [OF s1(2) room, of 4] sem s1(4) by simp_all
  obtain b2 s2 g2 where s2:
    "(if cells s1 FLAGS AND FLAG_ACTIVATED = 0 then do {
        (set, s) \<leftarrow> set_flag s1 ?a FLAG_ACTIVATED;
        if set then add_event s SQ_EVNT_INIT else Some (False, s) }
      else Some (False, s1)) = Some (b2, s2)"
    "works 4 s1 g s2 g2" "(cells s2 FLAGS, g_evs g2) = activate (cells s1 FLAGS, g_evs g)"
    "sems s2 EVNT_SEM \<le> sems s1 EVNT_SEM + 1"
    by (rule works_activate [OF i1 h1 r1])
  note w2 = works_trans [OF s1(2) s2(2)]
  have r2: "room s2 4" "sems s2 EVNT_SEM < SEM_VALUE_MAX"
    using works_room [OF w2 room, of 4] sem s1(4) s2(4) by simp_all
  obtain b3 s3 g3 where s3: "(if n = 0 then add_event s2 SQ_EVNT_NONEMPTY else Some (False, s2)) = Some (b3, s3)"
    "works 4 s2 g2 s3 g3" "(cells s3 FLAGS, g_evs g3) = fire_if (n = 0) SQ_EVNT_NONEMPTY (cells s2 FLAGS, g_evs g2)"
    "sems s3 EVNT_SEM \<le> sems s2 EVNT_SEM + 1"
    by (rule works_event [OF works_inv [OF w2] r2, of 6 "n = 0"]) auto
  note w3 = works_trans [OF w2 s3(2)]
  have md: "cells s3 MAX_DEPTH = cells s MAX_DEPTH"
    by (rule works_word [OF w3]) (simp_all add: work_words_def event_words_def node_words_def)
  have r3: "room s3 4" "sems s3 EVNT_SEM < SEM_VALUE_MAX"
    using works_room [OF w3 room, of 4] sem s1(4) s2(4) s3(4) by simp_all
  obtain b4 s4 g4 where s4:
    "(if n = cells s MAX_DEPTH - 1 then add_event s3 SQ_EVNT_LIMIT else Some (False, s3)) = Some (b4, s4)"
    "works 4 s3 g3 s4 g4"
    "(cells s4 FLAGS, g_evs g4) = fire_if (n = cells s MAX_DEPTH - 1) SQ_EVNT_LIMIT (cells s3 FLAGS, g_evs g3)"
    by (rule works_event [OF works_inv [OF w3] r3, of 2 "n = cells s MAX_DEPTH - 1"]) auto
  note w4 = works_trans [OF w3 s4(2)]
  obtain m s5 where s5: "(if (b2 \<or> b3) \<or> b4 then is_monitored s4 ?a else Some False) = Some m"
    "(if m then signal_event s4 else Some s4) = Some s5" "works 0 s4 g4 s5 g4" "cells s5 = cells s4" "sems s5 = sems s4"
    by (rule works_signal_if [OF works_inv [OF w4] works_mapped [OF w4 h]])
  note w5 = works_trans [OF w4 s5(3)]
  obtain prev s6 s7 where s7: "rd2 s5 ?a TS_SEC = Some prev" "DWCAS s5 ?a TS_SEC prev stamp = Some (True, s6)"
    "signal_arrival s6 = Some s7" "works 0 s5 g4 s7 g4" "cells s7 FLAGS = cells s5 FLAGS" "sems s7 = sems s5"
    by (rule works_stamp [OF works_inv [OF w5] works_mapped [OF w5 h]])
  have "post_process_enq s n stamp = Some s7"
    using s1(1) s2(1) s3(1) s4(1) s5(1,2) s7(1-3) md h1 rd_mapped [OF works_mapped [OF w3 h], of MAX_DEPTH]
    by (simp add: post_process_enq_def rd_mapped [OF h1] Let_def)
  moreover have "works 12 s g s7 g4" using works_trans [OF w5 s7(4)] by simp
  moreover have "(cells s7 FLAGS, g_evs g4) = enq_events n (cells s MAX_DEPTH) (cells s FLAGS, g_evs g)"
    using s7(5) s5(4) s4(3) s3(3) s2(3) s1(3) by (simp add: enq_events_def)
  ultimately show thesis by (rule that)
qed

section \<open>Adding\<close>

text \<open>The whole of an operation, after the mappings of the past have been released.\<close>

definition ends :: "int set \<Rightarrow> int \<Rightarrow> qstate \<Rightarrow> qstate \<Rightarrow> bool" where
  "ends H n s t \<longleftrightarrow>
     accessors t = accessors s \<and> mode t = mode s \<and> clock t = clock s \<and> osr t = osr s \<and> my_pid t = my_pid s \<and>
     (\<forall>i<HDR_END. i \<notin> H \<longrightarrow> obj t i = obj s i) \<and> used t \<le> used s + n"

lemma ends_refl [simp]: "0 \<le> n \<Longrightarrow> ends H n s s"
  by (simp add: ends_def)

lemma runs_ends: "runs H n s t \<Longrightarrow> ends H n s t"
  by (simp add: runs_def ends_def)

lemma ends_trans: "ends H n s t \<Longrightarrow> ends K m t u \<Longrightarrow> ends (H \<union> K) (n + m) s u"
  by (auto simp: ends_def)

lemma ends_mono: "ends H n s t \<Longrightarrow> H \<subseteq> K \<Longrightarrow> n \<le> m \<Longrightarrow> ends K m s t"
  by (auto simp: ends_def)

lemma ends_word: "ends H n s t \<Longrightarrow> i < HDR_END \<Longrightarrow> i \<notin> H \<Longrightarrow> i \<noteq> SIZE \<Longrightarrow> i \<noteq> EXPAND_SIZE \<Longrightarrow> cells t i = cells s i"
  using obj_eq unfolding ends_def by metis

lemma ends_env [simp]:
  "ends H n s (t\<lparr>sems := m\<rparr>) = ends H n s t" "ends H n s (t\<lparr>os_n := k\<rparr>) = ends H n s t"
  "ends H n s (t\<lparr>clock_n := k\<rparr>) = ends H n s t" "ends H n s (t\<lparr>signals := l\<rparr>) = ends H n s t"
  "ends H n (s\<lparr>sems := m\<rparr>) t = ends H n s t" "ends H n (s\<lparr>os_n := k\<rparr>) t = ends H n s t"
  "ends H n s (tick t) = ends H n s t" "ends H n (tick s) t = ends H n s t"
  by (simp_all add: ends_def used_def tick_def)

lemma inv_release:
  assumes inv: "inv s g"
  obtains s' where "release_prev_extents s = Some s'" and "inv s' g" and "ends {} 0 s s'" and "cells s' = cells s"
    and "sems s' = sems s" and "signals s' = signals s" and "clock_n s' = clock_n s"
proof -
  note s = inv_parts [OF inv]
  obtain s' where r: "release_prev_extents s = Some s'" "base_ok s'" "cells s' = cells s" "sems s' = sems s"
    "accessors s' = accessors s" "mode s' = mode s" "osr s' = osr s" "clock s' = clock s" "clock_n s' = clock_n s"
    "signals s' = signals s" "my_pid s' = my_pid s"
    by (rule release_prev_extents_ok [OF s(1)])
  have "calm s'" using s(2) r(3,7) by (simp add: calm_def quiet_def)
  with r s have "inv s' g" by (intro invI) (simp_all add: used_def obj_cells [OF r(3)])
  moreover have "ends {} 0 s s'" using r by (simp add: ends_def used_def obj_cells [OF r(3)])
  ultimately show thesis using r by (intro that)
qed

definition enq_words :: "int set" where
  "enq_words = work_words \<union> {COUNT, TAIL, TAIL_CNT, STACK_HEAD, STACK_HD_CNT}"

text \<open>Whether the next item goes on the stack.\<close>

definition lifo_now :: "(int \<Rightarrow> long) \<Rightarrow> bool" where
  "lifo_now c \<longleftrightarrow> c FLAGS AND FLAG_LIFO_ON_LEVEL \<noteq> 0 \<and> c LEVEL \<le> c COUNT"

text \<open>The queue with one more entry.\<close>

definition puts :: "bool \<Rightarrow> entry \<Rightarrow> ghost \<Rightarrow> ghost \<Rightarrow> bool" where
  "puts lifo e g g' \<longleftrightarrow>
     (if lifo then g_lifo g' = e # g_lifo g \<and> g_fifo g' = g_fifo g
      else g_lifo g' = g_lifo g \<and> g_fifo g' = g_fifo g @ [e]) \<and> same_rest g g'"

lemma inv_add_node:
  assumes inv: "inv s g" and x: "g_loose g = x # L" "x + 4 \<le> cur_slots s" and e: "g_held g = e # es" "cells s (x + 3) = e_blk e"
  obtains s' g' where "(if lifo then lifo_add s x else fifo_add s x) = Some s'" and "inv s' g'"
    and "moves {ID_CNTR, TAIL, TAIL_CNT, STACK_HEAD, STACK_HD_CNT} 0 s s'"
    and "puts lifo e (g\<lparr>g_loose := L\<rparr>) g'" and "g_held g' = es" and "g_evs g' = g_evs g"
proof (cases lifo)
  case True
  obtain s' where s': "lifo_add s x = Some s'"
    "inv s' (g\<lparr>g_stack := x # g_stack g, g_loose := L, g_lifo := e # g_lifo g, g_held := es\<rparr>)"
    "moves {STACK_HEAD, STACK_HD_CNT} 0 s s'"
    by (rule inv_push [OF inv x e])
  have "moves {ID_CNTR, TAIL, TAIL_CNT, STACK_HEAD, STACK_HD_CNT} 0 s s'" by (rule moves_mono [OF s'(3)]) auto
  with s' True show thesis by (intro that [OF _ s'(2)]) (simp_all add: puts_def same_rest_def)
next
  case False
  obtain s' where s': "add_end s x TAIL = Some s'"
    "inv s' (g\<lparr>g_list := (g_list g)(Items := g_list g Items @ [x]), g_loose := L, g_fifo := g_fifo g @ [e], g_held := es\<rparr>)"
    "moves {ID_CNTR, TAIL, TAIL_CNT} 0 s s'"
    by (rule inv_put_item [OF inv x e])
  have "moves {ID_CNTR, TAIL, TAIL_CNT, STACK_HEAD, STACK_HD_CNT} 0 s s'" by (rule moves_mono [OF s'(3)]) auto
  with s' False show thesis by (intro that [OF _ s'(2)]) (simp_all add: puts_def same_rest_def fifo_add_def)
qed

lemma enq_data_ok:
  assumes inv: "inv s g" and room: "room s 16" and sem: "sems s EVNT_SEM + 3 \<le> SEM_VALUE_MAX"
    and e: "g_held g = e # es" "e_blk e + 7 < cur_slots s" and n: "0 \<le> cells s COUNT" "cells s COUNT < 2 ^ 62"
  obtains s' g' where "enq_data s (e_blk e) = Some (SH_OK, s')" and "inv s' g'" and "ends enq_words 16 s s'"
    and "puts (lifo_now (cells s)) e g g'" and "g_held g' = es" and "cells s' COUNT = cells s COUNT + 1"
    and "(cells s' FLAGS, g_evs g') = enq_events (cells s COUNT) (cells s MAX_DEPTH) (cells s FLAGS, g_evs g)"
    and "sems s' = (sems s)(EVNT_SEM := sems s EVNT_SEM + int (length (g_evs g')) - int (length (g_evs g)))"
    and "clock_n s \<le> clock_n s'"
proof -
  let ?b = "e_blk e"
  have b0: "164 \<le> ?b" using inv_held(2) [OF inv, of e] e(1) by (simp add: node_ok_def)
  have rb: "rd s (base_current s) (?b + 1) = Some (cells s (?b + 1))" "rd s (base_current s) (?b + 2) = Some (cells s (?b + 2))"
    using inv_rd [OF inv] b0 e(2) by simp_all
  have "room s 4" using room by (simp add: room_used)
  then obtain s1 f x where a: "alloc_idx_slots s = Some (\<lparr>v_status = SH_OK, v_slot = x, v_ext = base_current s1\<rparr>, s1)"
    "inv s1 (g\<lparr>g_list := (g_list g)(Free := f), g_loose := x # g_loose g\<rparr>)" "moves node_words 4 s s1"
    "x + 4 \<le> cur_slots s1" "node_ok (used s1) x"
    by (rule inv_alloc_idx [OF inv])
  let ?g1 = "g\<lparr>g_list := (g_list g)(Free := f), g_loose := x # g_loose g\<rparr>" and ?a = "base_current s1"
  let ?s2 = "s1\<lparr>cells := (cells s1)(x + 3 := ?b)\<rparr>"
  have x0: "164 \<le> x" using a(5) by (simp add: node_ok_def)
  have w: "wr s1 ?a (x + 3) ?b = Some ?s2" using wr_mapped [OF inv_parts(9) [OF a(2)]] x0 a(4) by simp
  have i2: "inv ?s2 ?g1"
    by (rule inv_write [OF a(2)], rule heap_write_field [OF inv_parts(5) [OF a(2)]]) (use x0 in auto)
  have m2: "moves {} 0 s1 ?s2" using x0 by (intro moves_cells) (auto simp: used_def obj_def)
  have m12: "moves node_words 4 s ?s2" using moves_trans [OF a(3) m2] by simp
  have wd: "cells ?s2 i = cells s i" if "i \<in> {FLAGS, COUNT, LEVEL, MAX_DEPTH}" for i
    by (rule moves_word [OF m12]) (use that in \<open>auto simp: node_words_def\<close>)
  have h2: "mapped ?s2 ?a 512" using inv_parts(8) [OF a(2)] by simp
  have lx: "g_loose ?g1 = x # g_loose g" "x + 4 \<le> cur_slots ?s2" "g_held ?g1 = e # es" "cells ?s2 (x + 3) = e_blk e"
    using a(4) e(1) by simp_all
  obtain s3 g3 where s3: "(if lifo_now (cells s) then lifo_add ?s2 x else fifo_add ?s2 x) = Some s3" "inv s3 g3"
    "moves {ID_CNTR, TAIL, TAIL_CNT, STACK_HEAD, STACK_HD_CNT} 0 ?s2 s3"
    "puts (lifo_now (cells s)) e (?g1\<lparr>g_loose := g_loose g\<rparr>) g3" "g_held g3 = es" "g_evs g3 = g_evs ?g1"
    by (rule inv_add_node [OF i2 lx])
  note m3 = moves_trans [OF m12 s3(3)]
  have wd3: "cells s3 i = cells s i" if "i \<in> {FLAGS, COUNT, MAX_DEPTH}" for i
    by (rule moves_word [OF m3]) (use that in \<open>auto simp: node_words_def\<close>)
  have "mapped s3 ?a 512" by (rule keeps_mapped [OF moves_keeps [OF s3(3)] h2])
  let ?s4 = "s3\<lparr>cells := (cells s3)(COUNT := cells s COUNT + 1)\<rparr>"
  have afa: "AFA s3 ?a COUNT 1 = Some (cells s COUNT, ?s4)"
    using \<open>mapped s3 ?a 512\<close> wd3 n by (simp add: exec)
  have i4: "inv ?s4 g3" and m4: "moves {COUNT} 0 s3 ?s4" by (rule inv_word [OF s3(2)]; simp)+
  note m34 = moves_trans [OF m3 m4]
  have r4: "room ?s4 12" "sems ?s4 EVNT_SEM + 3 \<le> SEM_VALUE_MAX"
    using moves_room [OF m34 i4 room] sem moves_sems [OF m34] by simp_all
  obtain s5 g5 where s5: "post_process_enq ?s4 (cells s COUNT) (cells s (?b + 1), cells s (?b + 2)) = Some s5" "works 12 ?s4 g3 s5 g5"
    "(cells s5 FLAGS, g_evs g5) = enq_events (cells s COUNT) (cells ?s4 MAX_DEPTH) (cells ?s4 FLAGS, g_evs g3)"
    by (rule works_post_enq [OF i4 r4])
  obtain s6 where s6: "release_prev_extents s5 = Some s6" "inv s6 g5" "ends {} 0 s5 s6" "cells s6 = cells s5" "sems s6 = sems s5"
    "signals s6 = signals s5" "clock_n s6 = clock_n s5"
    by (rule inv_release [OF works_inv [OF s5(2)]])
  have "enq_data s ?b = Some (SH_OK, s6)"
    using rb a(1) x0 w wd [of FLAGS] wd [of COUNT] wd [of LEVEL] rd_mapped [OF h2] s3(1) afa s5(1) s6(1)
    by (simp add: enq_data_def predicates_eq(4) [OF h2] lifo_now_def)
  moreover have "ends enq_words 16 s s6"
  proof -
    have "runs work_words 12 ?s4 s5" using s5(2) by (simp add: works_def)
    from ends_trans [OF ends_trans [OF runs_ends [OF moves_runs [OF m34]] runs_ends [OF this]] s6(3)]
    show ?thesis by (rule ends_mono) (auto simp: enq_words_def work_words_def event_words_def)
  qed
  moreover have "puts (lifo_now (cells s)) e g g5"
    using s3(4) s5(2) by (auto simp: puts_def works_def stable_def same_rest_def split: if_splits)
  moreover have "g_held g5 = es" using s3(5) s5(2) by (simp add: works_def stable_def)
  moreover have "cells s6 COUNT = cells s COUNT + 1"
    using works_word [OF s5(2), of COUNT] s6(4) by (simp add: work_words_def event_words_def node_words_def)
  moreover have "(cells s6 FLAGS, g_evs g5) = enq_events (cells s COUNT) (cells s MAX_DEPTH) (cells s FLAGS, g_evs g)"
    using s5(3) s6(4) wd3 s3(6) by simp
  moreover have "sems s6 = (sems s)(EVNT_SEM := sems s EVNT_SEM + int (length (g_evs g5)) - int (length (g_evs g)))"
    using s5(2) s6(5) s3(6) moves_sems [OF m34] by (simp add: works_def)
  moreover have "clock_n s \<le> clock_n s6" using s5(2) s6(7) moves_sems [OF m34] by (simp add: works_def)
  ultimately show thesis using s6(2) by (intro that)
qed

text \<open>The state after \<open>v\<close> has been added.\<close>

definition added :: "payload \<Rightarrow> int \<Rightarrow> qstate \<Rightarrow> ghost \<Rightarrow> qstate \<Rightarrow> ghost \<Rightarrow> bool" where
  "added v n s g t g' \<longleftrightarrow>
     inv t g' \<and> ends (enq_words \<union> copy_words) n s t \<and>
     (\<exists>e. e_val e = v \<and> e_ts e = now s \<and> puts (lifo_now (cells s)) e g g') \<and> g_held g' = g_held g \<and>
     cells t COUNT = cells s COUNT + 1 \<and>
     clock_n s \<le> clock_n t \<and>
     (cells t FLAGS, g_evs g') = enq_events (cells s COUNT) (cells s MAX_DEPTH) (cells s FLAGS, g_evs g) \<and>
     sems t = (sems s)(EVNT_SEM := sems s EVNT_SEM + int (length (g_evs g')) - int (length (g_evs g)))"

lemma copy_words_other: "i \<in> {FLAGS, COUNT, LEVEL, MAX_DEPTH} \<Longrightarrow> i \<notin> copy_words"
  by (auto simp: copy_words_def blk_words_def)

lemma enq_held_ok:
  assumes s1: "inv s1 (g\<lparr>g_pool := p, g_held := e # g_held g\<rparr>)" and m: "moves copy_words (2 ^ k) (tick s) s1"
    and room: "room s (2 ^ k + 16)" and sem: "sems s EVNT_SEM + 3 \<le> SEM_VALUE_MAX"
    and e: "e_blk e + 7 < cur_slots s1" "e_ts e = now s" and n: "0 \<le> cells s COUNT" "cells s COUNT < 2 ^ 62"
  obtains s' g' where "enq_data s1 (e_blk e) = Some (SH_OK, s')" and "added (e_val e) (2 ^ k + 16) s g s' g'"
proof -
  let ?g = "g\<lparr>g_pool := p, g_held := e # g_held g\<rparr>"
  have w: "cells s1 i = cells s i" if "i \<in> {FLAGS, COUNT, LEVEL, MAX_DEPTH}" for i
    using moves_word [OF m _ copy_words_other [OF that]] that by auto
  have c: "cells s1 FLAGS = cells s FLAGS" "cells s1 COUNT = cells s COUNT" "cells s1 LEVEL = cells s LEVEL"
    "cells s1 MAX_DEPTH = cells s MAX_DEPTH" by (rule w; simp)+
  have "room (tick s) (2 ^ k + 16)" using room by (simp add: room_used used_def)
  then have r: "room s1 16" using moves_room [OF m s1] by simp
  have se: "sems s1 = sems s" using moves_sems [OF m] by simp
  have pre: "sems s1 EVNT_SEM + 3 \<le> SEM_VALUE_MAX" "g_held ?g = e # g_held g" "0 \<le> cells s1 COUNT" "cells s1 COUNT < 2 ^ 62"
    using sem se n c by simp_all
  obtain s' g' where s': "enq_data s1 (e_blk e) = Some (SH_OK, s')" "inv s' g'" "ends enq_words 16 s1 s'"
    "puts (lifo_now (cells s1)) e ?g g'" "g_held g' = g_held g" "cells s' COUNT = cells s1 COUNT + 1"
    "(cells s' FLAGS, g_evs g') = enq_events (cells s1 COUNT) (cells s1 MAX_DEPTH) (cells s1 FLAGS, g_evs ?g)"
    "sems s' = (sems s1)(EVNT_SEM := sems s1 EVNT_SEM + int (length (g_evs g')) - int (length (g_evs ?g)))"
    "clock_n s1 \<le> clock_n s'"
    by (rule enq_data_ok [OF s1 r pre(1,2) e(1) pre(3,4)])
  have "lifo_now (cells s1) = lifo_now (cells s)" by (simp add: lifo_now_def c)
  then have "puts (lifo_now (cells s)) e g g'" using s'(4) by (simp add: puts_def same_rest_def)
  moreover have "ends (enq_words \<union> copy_words) (2 ^ k + 16) s s'"
    using ends_trans [OF runs_ends [OF moves_runs [OF m]] s'(3)] by (simp add: Un_commute)
  ultimately have "added (e_val e) (2 ^ k + 16) s g s' g'"
    unfolding added_def using s' c se e(2) moves_sems [OF m] by (auto simp: tick_def)
  with s'(1) show thesis by (rule that)
qed

lemma enq_ok:
  assumes inv: "inv s g" and cl: "clock_ok s" and fit: "fits_exp (7 + slots_of len) k" and room: "room s (2 ^ k + 16)"
    and sem: "sems s EVNT_SEM + 3 \<le> SEM_VALUE_MAX" and len: "0 < len" "len \<le> int (length bytes)"
    and t: "0 \<le> type" "type < 2 ^ 32" and n: "0 \<le> cells s COUNT" "cells s COUNT < 2 ^ 62"
  obtains s' g' where "enq s (Some bytes) len type = Some (SH_OK, s')"
    and "added (Value type (take (nat len) bytes)) (2 ^ k + 16) s g s' g'"
proof -
  have r: "room s (2 ^ k)" using room by (simp add: room_used)
  obtain x s1 j p where c: "copy_value s (Some bytes) len type = Some (x, s1)"
    "inv s1 (g\<lparr>g_pool := p, g_held := \<lparr>e_blk = x, e_exp = j, e_ts = now s, e_val = Value type (take (nat len) bytes)\<rparr> # g_held g\<rparr>)"
    "moves copy_words (2 ^ k) (tick s) s1" "HDR_END \<le> x" "x + 7 < cur_slots s1"
    by (rule inv_copy_value [OF inv cl fit r len t])
  obtain s' g' where "enq_data s1 x = Some (SH_OK, s')" "added (Value type (take (nat len) bytes)) (2 ^ k + 16) s g s' g'"
    using enq_held_ok [OF c(2,3) room sem _ _ n] c(5) by auto
  then show thesis using c(1,4) len by (intro that) (simp_all add: enq_def)
qed

lemma enqv_ok:
  assumes inv: "inv s g" and cl: "clock_ok s" and fit: "fits_exp (calc_vector_slots vs) k" and room: "room s (2 ^ k + 16)"
    and sem: "sems s EVNT_SEM + 3 \<le> SEM_VALUE_MAX"
    and vs: "2 \<le> length vs" "\<forall>v\<in>set vs. vec_ok v" "\<forall>v\<in>set vs. vec_type v < 2 ^ 32"
    and n: "0 \<le> cells s COUNT" "cells s COUNT < 2 ^ 62"
  obtains s' g' where "enqv s (Some vs) (int (length vs)) = Some (SH_OK, s')"
    and "added (Vector (map vec_entry vs)) (2 ^ k + 16) s g s' g'"
proof -
  have r: "room s (2 ^ k)" using room by (simp add: room_used)
  obtain x s1 j p where c: "copy_vector s (Some vs) (int (length vs)) = Some (x, s1)"
    "inv s1 (g\<lparr>g_pool := p, g_held := \<lparr>e_blk = x, e_exp = j, e_ts = now s, e_val = Vector (map vec_entry vs)\<rparr> # g_held g\<rparr>)"
    "moves copy_words (2 ^ k) (tick s) s1" "HDR_END \<le> x" "x + 7 < cur_slots s1"
    by (rule inv_copy_vector [OF inv cl fit r vs])
  obtain s' g' where "enq_data s1 x = Some (SH_OK, s')" "added (Vector (map vec_entry vs)) (2 ^ k + 16) s g s' g'"
    using enq_held_ok [OF c(2,3) room sem _ _ n] c(5) by auto
  then show thesis using c(1,4) vs(1) by (intro that) (simp_all add: enqv_def)
qed

section \<open>Expiry\<close>

text \<open>Age against a limit, as \<open>timercmp\<close> of the C library would have it; a limit of zero is none.\<close>

definition exceeds :: "timespec \<Rightarrow> timespec \<Rightarrow> timespec \<Rightarrow> bool" where
  "exceeds limit stamp t \<longleftrightarrow>
     \<not> (tv_sec limit = 0 \<and> tv_nsec limit = 0) \<and> timespeccmp (timespecsub t stamp) limit (>)"

text \<open>The limit in force: the target while the queue has not been empty for longer than the limit
  (CoDel), the limit otherwise.\<close>

definition limit_now :: "(int \<Rightarrow> long) \<Rightarrow> timespec \<Rightarrow> timespec" where
  "limit_now c t =
    (let at = \<lambda>i. \<lparr>tv_sec = c i, tv_nsec = c (i + 1)\<rparr>; limit = at LIMIT_SEC
     in if (c TARGET_NSEC \<noteq> 0 \<or> c TARGET_SEC \<noteq> 0) \<and> (c LIMIT_NSEC \<noteq> 0 \<or> c LIMIT_SEC \<noteq> 0) \<and> c EMPTY_SEC \<noteq> 0 \<and>
           timespeccmp (at EMPTY_SEC) (timespecsub t limit) (<)
        then at TARGET_SEC else limit)"

lemma inv_exceeds_delay:
  assumes inv: "inv s g" and m: "mapped s a 512" and e: "e \<in> set (g_held g)" and x: "e_blk e + 7 < cur_slots s"
  shows "item_exceeds_delay s (e_blk e) a = Some (exceeds (limit_now (cells s) (now s)) (e_ts e) (now s), tick s)"
proof -
  let ?b = "e_blk e"
  have em: "e \<in> set (g_held g @ g_fifo g @ g_lifo g)" using e by simp
  note h = inv_held [OF inv em]
  have b: "164 \<le> ?b" using h(2) by (simp add: node_ok_def)
  have ts: "cells s (?b + 1) = tv_sec (e_ts e)" "cells s (?b + 2) = tv_nsec (e_ts e)"
    using h(1) b by (simp_all add: entry_ok_def holds_def obj_eq)
  have lim: "item_exceeds_limit (tick s) ?b l t = Some (exceeds l (e_ts e) t, tick s)" for l t
  proof -
    have "inv (tick s) g" using inv by simp
    have r: "insure_in_range (tick s) ?b = Some (\<lparr>v_status = SH_OK, v_slot = ?b, v_ext = base_current s\<rparr>, tick s)"
      using insure_in_range_mapped [of "tick s" ?b] inv_parts(1) [OF inv] b x by simp
    have "rd_ts (tick s) (base_current s) (?b + 1) = Some (e_ts e)"
      using inv_rd [OF \<open>inv (tick s) g\<close>] b x ts by (simp add: rd_ts_def rd2_def add.commute)
    then show ?thesis using r b by (simp add: item_exceeds_limit_def exceeds_def)
  qed
  have m': "mapped (tick s) a 512" using m by simp
  show ?thesis
    using b by (simp add: item_exceeds_delay_def clock_gettime_eq predicates_eq(5) [OF m'] rd_ts_eq [OF m'] lim
        limit_now_def ts_at_def Let_def)
qed

section \<open>Removing\<close>

lemma inv_copy_out:
  assumes inv: "inv s g" and e: "e \<in> set (g_held g)" and b: "ubuf_ok b"
  obtains it' b' mem s' where "safely_copy_data s (e_blk e) it b = Some (True, it', b', s')"
    and "ub_mem b' = Some mem" and "ubuf_ok b'" and "i_status it' = i_status it" and "shows_item it' mem (e_ts e) (e_val e)"
    and "inv s' g" and "runs {} 0 s s'" and "cells s' = cells s" and "sems s' = sems s" and "signals s' = signals s"
    and "clock_n s' = clock_n s" and "e_blk e + 7 < cur_slots s'"
proof -
  let ?x = "e_blk e" and ?k = "e_exp e"
  have em: "e \<in> set (g_held g @ g_fifo g @ g_lifo g)" using e by simp
  note h = inv_held [OF inv em]
  have k8: "(8::int) \<le> 2 ^ ?k" using power_increasing [OF h(4), of "2::int"] by simp
  have x: "164 \<le> ?x" "?x < cells s SIZE" "?x + 2 ^ ?k - 1 < cells s SIZE" "0 < ?x" "0 < ?x + 2 ^ ?k - 1"
    using h(2,3) inv_parts(4) [OF inv] k8 by (auto simp: node_ok_def)
  obtain s1 where s1: "insure_in_range s ?x = Some (\<lparr>v_status = SH_OK, v_slot = ?x, v_ext = base_current s1\<rparr>, s1)"
    "inv s1 g" "moves {} 0 s s1" "cells s1 = cells s" "?x < cur_slots s1"
    by (rule inv_range [OF inv x(4,2)])
  have x3: "?x + 2 ^ ?k - 1 < cells s1 SIZE" using x(3) s1(4) by simp
  obtain s2 where s2: "insure_in_range s1 (?x + 2 ^ ?k - 1) = Some (\<lparr>v_status = SH_OK, v_slot = ?x + 2 ^ ?k - 1, v_ext = base_current s2\<rparr>, s2)"
    "inv s2 g" "moves {} 0 s1 s2" "cells s2 = cells s1" "?x + 2 ^ ?k - 1 < cur_slots s2"
    by (rule inv_range [OF s1(2) x(5) x3])
  have eo: "entry_ok (obj s) e" by (rule h(1))
  have hold: "holds (cells s2) ?x ?k (e_ts e) (e_val e)"
  proof -
    have "holds (obj s) ?x ?k (e_ts e) (e_val e)" using eo by (simp add: entry_ok_def)
    moreover have "cells s2 j = obj s j" if "?x \<le> j" "j < ?x + 7 + area_slots (e_val e)" for j
      using that x(1) s1(4) s2(4) by (simp add: obj_eq)
    ultimately show ?thesis using holds_cong by metis
  qed
  have v: "payload_ok (e_val e)" "7 + area_slots (e_val e) \<le> 2 ^ ?k" "in_long (tv_sec (e_ts e))" "in_long (tv_nsec (e_ts e))"
    using eo by (simp_all add: entry_ok_def)
  have m: "mapped s2 (base_current s2) (cur_slots s2)" "?x + 2 ^ ?k \<le> cur_slots s2" "?k \<le> 40"
    using inv_parts(9) [OF s2(2)] s2(5) h(5) by simp_all
  obtain it' b' mem i where c: "copy_to_buffer s2 (base_current s2) ?x it b = Some (it', b', s2\<lparr>os_n := i\<rparr>)"
    "ub_mem b' = Some mem" "ubuf_ok b'" "i_status it' = i_status it" "shows_item it' mem (e_ts e) (e_val e)"
    using copy_to_buffer_ok [OF m(1) x(1) m(2) hold v(1,2) m(3) inv_parts(3) [OF s2(2)] b v(3,4), of it] by blast
  have "rd s1 (base_current s1) ?x = Some (2 ^ ?k)" using inv_rd [OF s1(2), of ?x] x(1) s1(4,5) h(6) by simp
  then have "safely_copy_data s ?x it b = Some (True, it', b', s2\<lparr>os_n := i\<rparr>)"
    using s1(1) s2(1) c(1) x by (simp add: safely_copy_data_def)
  moreover have "runs {} 0 s (s2\<lparr>os_n := i\<rparr>)"
    using moves_runs [OF moves_trans [OF s1(3) s2(3)]] by simp
  moreover have "?x + 7 < cur_slots (s2\<lparr>os_n := i\<rparr>)" using s2(5) k8 by simp
  moreover have "inv (s2\<lparr>os_n := i\<rparr>) g" using s2(2) by simp
  ultimately show thesis
    using c s1(4) s2(4) moves_sems [OF moves_trans [OF s1(3) s2(3)]]
    by (intro that [of it' b' "s2\<lparr>os_n := i\<rparr>" mem]) simp_all
qed

definition codel :: "(int \<Rightarrow> long) \<Rightarrow> bool" where
  "codel c \<longleftrightarrow> (c TARGET_NSEC \<noteq> 0 \<or> c TARGET_SEC \<noteq> 0) \<and> (c LIMIT_NSEC \<noteq> 0 \<or> c LIMIT_SEC \<noteq> 0)"

text \<open>Whether a removal at time \<open>t\<close> drops the item: the last item is never held to the CoDel target,
  for its removal clears the time stamp of the last emptiness first.\<close>

definition drops :: "(int \<Rightarrow> long) \<Rightarrow> timespec \<Rightarrow> timespec \<Rightarrow> bool" where
  "drops c stamp t \<longleftrightarrow>
     c FLAGS AND FLAG_DISCARD_EXPIRED \<noteq> 0 \<and>
     exceeds (limit_now (if codel c \<and> c COUNT = 1 then c(EMPTY_SEC := 0, EMPTY_NSEC := 0) else c) t) stamp t"

definition deq_events :: "long \<Rightarrow> bool \<Rightarrow> long \<times> sq_event list \<Rightarrow> long \<times> sq_event list" where
  "deq_events n expired fe = fire_if expired SQ_EVNT_TIME (fire_if (n = 1) SQ_EVNT_EMPTY fe)"

lemma and_not_disjoint: "m AND d = 0 \<Longrightarrow> (f AND NOT m) AND d = f AND (d :: int)"
proof (rule bit_eqI)
  fix n assume "m AND d = 0"
  then have "\<not> (bit m n \<and> bit d n)" by (metis bit_and_iff bit_0_eq bot_apply bot_bool_def)
  then show "bit ((f AND NOT m) AND d) n = bit (f AND d) n" by (auto simp: bit_simps)
qed

lemma event_flag_discard [simp]: "get_event_flag ev AND FLAG_DISCARD_EXPIRED = 0"
  by (simp add: get_event_flag_def)

lemma fire_if_discard: "fst (fire_if b ev fe) AND FLAG_DISCARD_EXPIRED = fst fe AND FLAG_DISCARD_EXPIRED"
  by (cases fe) (simp add: fire_if_def and_not_disjoint)

lemma works_clear_empty:
  assumes "inv s g" and m: "mapped s a 512"
  obtains s' where "(if b then clear_empty_timestamp s a else Some s) = Some s'" and "works 0 s g s' g"
    and "cells s' = (if b then (cells s)(EMPTY_SEC := 0, EMPTY_NSEC := 0) else cells s)" and "sems s' = sems s"
    and "clock_n s' = clock_n s"
proof (cases b)
  case True
  let ?s = "s\<lparr>cells := (cells s)(EMPTY_SEC := 0, EMPTY_SEC + 1 := 0)\<rparr>"
  have "works 0 s g ?s g" by (rule works_pair [OF assms(1)]) simp
  with True m show thesis by (intro that [of ?s]) (simp_all add: clear_empty_timestamp_def store_pair_eq)
next
  case False
  with works_refl [OF assms(1)] show thesis by (intro that [of s]) simp_all
qed

definition deq_post_words :: "int set" where
  "deq_post_words = work_words \<union> blk_words \<union> {COUNT}"

lemma post_deq_ok:
  assumes inv: "inv s g" and e: "g_held g = e # es" "e_blk e + 7 < cur_slots s" and room: "room s 8"
    and sem: "sems s EVNT_SEM + 2 \<le> SEM_VALUE_MAX" and n: "0 < cells s COUNT" "cells s COUNT < 2 ^ 62"
  defines "expired \<equiv> drops (cells s) (e_ts e) (now s)"
  obtains s' g' where "post_process_deq s (e_blk e) item =
      Some (if expired then empty_item SH_ERR_EXIST else item\<lparr>i_status := SH_OK\<rparr>, s')"
    and "inv s' g'" and "runs deq_post_words 8 s s'" and "g_fifo g' = g_fifo g" and "g_lifo g' = g_lifo g"
    and "g_held g' = es" and "same_rest g g'" and "cells s' COUNT = cells s COUNT - 1"
    and "(cells s' FLAGS, g_evs g') = deq_events (cells s COUNT) expired (cells s FLAGS, g_evs g)"
    and "sems s' = (sems s)(EVNT_SEM := sems s EVNT_SEM + int (length (g_evs g')) - int (length (g_evs g)))"
    and "clock_n s \<le> clock_n s'"
proof -
  let ?a = "base_current s" and ?n = "cells s COUNT"
  note h = inv_parts(8) [OF inv]
  let ?s1 = "s\<lparr>cells := (cells s)(COUNT := ?n - 1)\<rparr>"
  have afs: "AFS s ?a COUNT 1 = Some (?n, ?s1)" using AFS_mapped [OF h] n by simp
  have i1: "inv ?s1 g" and m1: "moves {COUNT} 0 s ?s1" by (rule inv_word [OF inv]; simp)+
  have h1: "mapped ?s1 ?a 512" using h by simp
  obtain s2 where s2: "(if codel (cells s) \<and> ?n = 1 then clear_empty_timestamp ?s1 ?a else Some ?s1) = Some s2"
    "works 0 ?s1 g s2 g" "cells s2 = (if codel (cells s) \<and> ?n = 1 then (cells ?s1)(EMPTY_SEC := 0, EMPTY_NSEC := 0) else cells ?s1)"
    "sems s2 = sems ?s1" "clock_n s2 = clock_n ?s1"
    by (rule works_clear_empty [OF i1 h1])
  note i2 = works_inv [OF s2(2)] and h2 = works_mapped [OF s2(2) h1]
  have r2: "runs work_words 0 ?s1 s2" using s2(2) by (simp add: works_def)
  have now2: "now s2 = now s" using r2 s2(5) by (simp add: now_def runs_def)
  have x2: "e_blk e + 7 < cur_slots s2" using e(2) runs_slots [OF r2] by simp
  have em: "e \<in> set (g_held g)" using e(1) by simp
  let ?d = "cells s FLAGS AND FLAG_DISCARD_EXPIRED \<noteq> 0"
  have fl2: "cells s2 FLAGS = cells s FLAGS" using s2(3) by simp
  have lim: "limit_now (cells s2) t =
      limit_now (if codel (cells s) \<and> ?n = 1 then (cells s)(EMPTY_SEC := 0, EMPTY_NSEC := 0) else cells s) t" for t
    using s2(3) by (cases "codel (cells s) \<and> ?n = 1") (auto simp: limit_now_def Let_def)
  define s3 where "s3 = (if ?d then tick s2 else s2)"
  have ex: "(if ?d then item_exceeds_delay s2 (e_blk e) ?a else Some (False, s2)) = Some (expired, s3)"
    using inv_exceeds_delay [OF i2 h2 em x2] by (simp add: s3_def expired_def drops_def lim now2)
  have w3: "works 0 ?s1 g s3 g" using s2(2) works_tick(1) [OF s2(2)] by (simp add: s3_def)
  have s3: "cells s3 = cells s2" "sems s3 = sems s" using s2(4) by (simp_all add: s3_def)
  have room1: "room ?s1 8" using room by (simp add: room_used used_def)
  have r3: "room s3 4" "sems s3 EVNT_SEM < SEM_VALUE_MAX" using works_room [OF w3 room1, of 4] sem s3(2) by simp_all
  obtain b4 s4 g4 where s4: "(if ?n = 1 then add_event s3 SQ_EVNT_EMPTY else Some (False, s3)) = Some (b4, s4)"
    "works 4 s3 g s4 g4" "(cells s4 FLAGS, g_evs g4) = fire_if (?n = 1) SQ_EVNT_EMPTY (cells s3 FLAGS, g_evs g)"
    "sems s4 EVNT_SEM \<le> sems s3 EVNT_SEM + 1"
    by (rule works_event [OF works_inv [OF w3] r3, of 5 "?n = 1"]) auto
  note w4 = works_trans [OF w3 s4(2)]
  have r4: "room s4 4" "sems s4 EVNT_SEM < SEM_VALUE_MAX" using works_room [OF w4 room1, of 4] sem s3(2) s4(4) by simp_all
  obtain b5 s5 g5 where s5: "(if expired then add_event s4 SQ_EVNT_TIME else Some (False, s4)) = Some (b5, s5)"
    "works 4 s4 g4 s5 g5" "(cells s5 FLAGS, g_evs g5) = fire_if expired SQ_EVNT_TIME (cells s4 FLAGS, g_evs g4)"
    by (rule works_event [OF works_inv [OF w4] r4, of 3 expired]) auto
  note w5 = works_trans [OF w4 s5(2)]
  have fe: "(cells s5 FLAGS, g_evs g5) = deq_events ?n expired (cells s FLAGS, g_evs g)"
    using s5(3) s4(3) s3(1) fl2 by (simp add: deq_events_def)
  have d5: "cells s5 FLAGS AND FLAG_DISCARD_EXPIRED = cells s FLAGS AND FLAG_DISCARD_EXPIRED"
    using arg_cong [OF fe, of fst] by (simp add: deq_events_def fire_if_discard)
  have exd: "expired \<Longrightarrow> ?d" by (simp add: expired_def drops_def)
  have r5: "runs work_words 8 ?s1 s5" using w5 by (simp add: works_def)
  have h5: "mapped s5 ?a 512" by (rule works_mapped [OF w5 h1])
  have held5: "g_held g5 = e # es" using w5 e(1) by (simp add: works_def stable_def)
  have x5: "e_blk e + 1 < cur_slots s5" using e(2) runs_slots [OF r5] by simp
  obtain s6 where s6: "free_data_slots s5 (e_blk e) = Some (SH_OK, s6)"
    "inv s6 (g5\<lparr>g_held := es, g_pool := (g_pool g5)(e_exp e := e_blk e # g_pool g5 (e_exp e))\<rparr>)" "moves blk_words 0 s5 s6"
    by (rule inv_free_blk [OF works_inv [OF w5] held5 x5])
  let ?g6 = "g5\<lparr>g_held := es, g_pool := (g_pool g5)(e_exp e := e_blk e # g_pool g5 (e_exp e))\<rparr>"
  have h6: "mapped s6 ?a 512" by (rule keeps_mapped [OF moves_keeps [OF s6(3)] h5])
  obtain m s7 where s7: "(if b4 \<or> b5 then is_monitored s6 ?a else Some False) = Some m"
    "(if m then signal_event s6 else Some s6) = Some s7" "works 0 s6 ?g6 s7 ?g6" "cells s7 = cells s6" "sems s7 = sems s6"
    by (rule works_signal_if [OF s6(2) h6])
  have disc5: "is_discard_on_expire s5 ?a = Some ?d" using predicates_eq(3) [OF h5] d5 by simp
  have codel: "is_codel_active ?s1 ?a = Some (codel (cells s))"
    using predicates_eq(5) [OF h1] by (simp add: codel_def)
  have item: "(if expired \<and> dd then do { (_, s) \<leftarrow> free_data_slots s5 (e_blk e); Some (empty_item SH_ERR_EXIST, s) }
      else do { (status, s) \<leftarrow> free_data_slots s5 (e_blk e); Some (item\<lparr>i_status := status\<rparr>, s) }) =
      Some (if expired \<and> dd then empty_item SH_ERR_EXIST else item\<lparr>i_status := SH_OK\<rparr>, s6)" for dd
    using s6(1) by simp
  have "post_process_deq s (e_blk e) item =
      Some (if expired then empty_item SH_ERR_EXIST else item\<lparr>i_status := SH_OK\<rparr>, s7)"
  proof -
    have "(if expired then is_discard_on_expire s5 ?a else Some False) = Some expired" using disc5 exd by simp
    then show ?thesis
      using afs codel s2(1) ex s4(1) s5(1) s7(1,2) item [of expired] predicates_eq(3) [OF h2] fl2
      by (simp add: post_process_deq_def Let_def)
  qed
  moreover have "runs deq_post_words 8 s s7"
  proof -
    have "runs work_words 0 s6 s7" using s7(3) by (simp add: works_def)
    from runs_trans [OF runs_trans [OF runs_trans [OF moves_runs [OF m1] r5] moves_runs [OF s6(3)]] this]
    show ?thesis by (rule runs_mono) (auto simp: deq_post_words_def)
  qed
  moreover have st: "stable g g5" using w5 by (simp add: works_def)
  moreover have "cells s7 COUNT = ?n - 1"
  proof -
    have "cells s5 COUNT = cells ?s1 COUNT"
      by (rule runs_word [OF r5]) (simp_all add: work_words_def event_words_def node_words_def)
    moreover have "cells s6 COUNT = cells s5 COUNT" by (rule moves_word [OF s6(3)]) (simp_all add: blk_words_def)
    ultimately show ?thesis using s7(4) by simp
  qed
  moreover have "(cells s7 FLAGS, g_evs ?g6) = deq_events ?n expired (cells s FLAGS, g_evs g)"
  proof -
    have "cells s6 FLAGS = cells s5 FLAGS" by (rule moves_word [OF s6(3)]) (simp_all add: blk_words_def)
    then show ?thesis using s7(4) fe by simp
  qed
  moreover have "sems s7 = (sems s)(EVNT_SEM := sems s EVNT_SEM + int (length (g_evs ?g6)) - int (length (g_evs g)))"
    using w5 s7(5) moves_sems [OF s6(3)] by (simp add: works_def)
  moreover have "clock_n s \<le> clock_n s7" using w5 s7(3) moves_sems [OF s6(3)] by (simp add: works_def)
  ultimately show thesis
    using works_inv [OF s7(3)] by (intro that [of s7 ?g6]) (simp_all add: stable_def same_rest_def)
qed

definition deq_all_words :: "int set" where
  "deq_all_words = deq_words \<union> deq_post_words"

text \<open>The state after the front entry \<open>e\<close> has been removed, at the time \<open>s\<close> shows.\<close>

definition removed :: "entry \<Rightarrow> qstate \<Rightarrow> ghost \<Rightarrow> qstate \<Rightarrow> ghost \<Rightarrow> bool" where
  "removed e s g t g' \<longleftrightarrow>
     inv t g' \<and> ends deq_all_words 8 s t \<and> queue_of g = e # queue_of g' \<and> g_held g' = g_held g \<and>
     (g_lifo g = [] \<longrightarrow> g_lifo g' = []) \<and> same_rest g g' \<and> clock_n s \<le> clock_n t \<and> cells t COUNT = cells s COUNT - 1 \<and>
     (cells t FLAGS, g_evs g') =
       deq_events (cells s COUNT) (drops (cells s) (e_ts e) (now s)) (cells s FLAGS, g_evs g) \<and>
     sems t = (sems s)(EVNT_SEM := sems s EVNT_SEM + int (length (g_evs g')) - int (length (g_evs g)))"

lemma shows_item_status [simp]: "shows_item (it\<lparr>i_status := st\<rparr>) m ts v = shows_item it m ts v"
  by (cases v) (simp_all add: shows_buffer_def)

lemma deq_ok:
  assumes inv: "inv s g" and q: "queue_of g = e # es" and b: "ubuf_ok b" and room: "room s 8"
    and sem: "sems s EVNT_SEM + 2 \<le> SEM_VALUE_MAX" and n: "0 < cells s COUNT" "cells s COUNT < 2 ^ 62"
  obtains item b' s' g' where "deq s b = Some (item, b', s')" and "removed e s g s' g'" and "ubuf_ok b'"
    and "if drops (cells s) (e_ts e) (now s) then item = empty_item SH_ERR_EXIST
         else i_status item = SH_OK \<and> (\<exists>mem. ub_mem b' = Some mem \<and> shows_item item mem (e_ts e) (e_val e))"
proof -
  let ?a = "base_current s"
  obtain s1 g1 where s1: "deq_loop s ?a = Some (e_blk e, s1)" "inv s1 g1" "moves deq_words 0 s s1"
    "queue_of g1 = es" "g_held g1 = e # g_held g" "g_evs g1 = g_evs g" "same_rest g g1" "g_lifo g = [] \<Longrightarrow> g_lifo g1 = []"
    by (rule inv_deq_slot [OF inv q]) blast
  have "e \<in> set (g_held g1 @ g_fifo g1 @ g_lifo g1)" using s1(5) by simp
  from inv_held(2) [OF s1(2) this] have b0: "e_blk e \<noteq> 0" by (simp add: node_ok_def)
  have em: "e \<in> set (g_held g1)" using s1(5) by simp
  obtain it b' mem s2 where s2: "safely_copy_data s1 (e_blk e) (empty_item SH_ERR_EMPTY) b = Some (True, it, b', s2)"
    "ub_mem b' = Some mem" "ubuf_ok b'" "i_status it = i_status (empty_item SH_ERR_EMPTY)"
    "shows_item it mem (e_ts e) (e_val e)" "inv s2 g1" "runs {} 0 s1 s2" "cells s2 = cells s1" "sems s2 = sems s1"
    "signals s2 = signals s1" "clock_n s2 = clock_n s1" "e_blk e + 7 < cur_slots s2"
    by (rule inv_copy_out [OF s1(2) em b])
  have r2: "runs deq_words 0 s s2" using runs_trans [OF moves_runs [OF s1(3)] s2(7)] by simp
  have w: "cells s2 i = cells s i"
    if "i \<in> {COUNT, FLAGS, LIMIT_SEC, LIMIT_NSEC, TARGET_SEC, TARGET_NSEC, EMPTY_SEC, EMPTY_NSEC}" for i
    by (rule runs_word [OF r2]) (use that in \<open>auto simp: deq_words_def\<close>)
  have now2: "now s2 = now s"
    using r2 s2(11) moves_sems [OF s1(3)] by (simp add: now_def runs_def)
  have c2: "cells s2 COUNT = cells s COUNT" "cells s2 FLAGS = cells s FLAGS" by (rule w; simp)+
  have dr: "drops (cells s2) (e_ts e) (now s2) = drops (cells s) (e_ts e) (now s)"
    unfolding drops_def now2 codel_def limit_now_def Let_def using w by simp
  have se: "sems s2 = sems s" using s2(9) moves_sems [OF s1(3)] by simp
  have pre: "room s2 8" "sems s2 EVNT_SEM + 2 \<le> SEM_VALUE_MAX" "0 < cells s2 COUNT" "cells s2 COUNT < 2 ^ 62"
    using runs_room [OF r2 s2(6) room] sem se n c2 by simp_all
  let ?x = "drops (cells s2) (e_ts e) (now s2)"
  obtain s3 g3 where s3: "post_process_deq s2 (e_blk e) it =
      Some (if ?x then empty_item SH_ERR_EXIST else it\<lparr>i_status := SH_OK\<rparr>, s3)"
    "inv s3 g3" "runs deq_post_words 8 s2 s3" "g_fifo g3 = g_fifo g1" "g_lifo g3 = g_lifo g1"
    "g_held g3 = g_held g" "same_rest g1 g3" "cells s3 COUNT = cells s2 COUNT - 1"
    "(cells s3 FLAGS, g_evs g3) = deq_events (cells s2 COUNT) ?x (cells s2 FLAGS, g_evs g1)"
    "sems s3 = (sems s2)(EVNT_SEM := sems s2 EVNT_SEM + int (length (g_evs g3)) - int (length (g_evs g1)))"
    "clock_n s2 \<le> clock_n s3"
    by (rule post_deq_ok [OF s2(6) s1(5) s2(12) pre])
  obtain s4 where s4: "release_prev_extents s3 = Some s4" "inv s4 g3" "ends {} 0 s3 s4" "cells s4 = cells s3" "sems s4 = sems s3"
    "signals s4 = signals s3" "clock_n s4 = clock_n s3"
    by (rule inv_release [OF s3(2)])
  have "deq s b = Some (if ?x then empty_item SH_ERR_EXIST else it\<lparr>i_status := SH_OK\<rparr>, b', s4)"
    using s1(1) b0 s2(1) s3(1) s4(1) by (simp add: deq_def)
  moreover have "ends deq_all_words 8 s s4"
    using ends_trans [OF runs_ends [OF runs_trans [OF r2 s3(3)]] s4(3)] by (simp add: deq_all_words_def)
  moreover have "queue_of g3 = es" using s1(4) s3(4,5) by (simp add: queue_of_def)
  moreover have "same_rest g g3" by (rule same_rest_trans [OF s1(7) s3(7)])
  moreover have "clock_n s \<le> clock_n s4" using s2(11) s3(11) s4(7) moves_sems [OF s1(3)] by simp
  ultimately show thesis
    using s2(2,3,5) s3 s4 s1(6,8) dr c2 se q
    by (intro that [of "if ?x then empty_item SH_ERR_EXIST else it\<lparr>i_status := SH_OK\<rparr>" b' s4 g3])
      (simp_all add: removed_def)
qed

lemma deq_empty_ok:
  assumes inv: "inv s g" and q: "queue_of g = []"
  obtains s' where "deq s b = Some (empty_item SH_ERR_EMPTY, b, s')" and "inv s' g" and "ends {} 0 s s'"
    and "cells s' = cells s" and "sems s' = sems s"
proof -
  obtain s' where "release_prev_extents s = Some s'" "inv s' g" "ends {} 0 s s'" "cells s' = cells s" "sems s' = sems s"
    by (rule inv_release [OF inv])
  with inv_deq_empty [OF inv q] show thesis by (intro that [of s']) (simp_all add: deq_def)
qed

end
