(* ===== verification/Contracts.thy ===== *)
theory Contracts
  imports Process
begin

text \<open>
  The contract of a queue: the invariant that holds between calls, the interface of the
  gates with its implementations, and what adding and removing through a gate do to the
  entries the queue holds.
\<close>

section \<open>The invariant between calls\<close>

definition queue_inv :: "qstate \<Rightarrow> ghost \<Rightarrow> bool" where
  "queue_inv s g \<longleftrightarrow>
     inv s g \<and> clock_ok s \<and> in_long (accessors s) \<and> g_held g = [] \<and> g_loose g = [] \<and> g_loose_blks g = [] \<and>
     cells s COUNT = int (length (queue_of g)) \<and> cells s COUNT \<le> cells s MAX_DEPTH \<and>
     cells s MAX_DEPTH \<le> SEM_VALUE_MAX \<and>
     sems s DEQ_SEM = cells s COUNT \<and> sems s ENQ_SEM = cells s MAX_DEPTH - cells s COUNT \<and>
     sems s EVNT_SEM = int (length (g_evs g))"

lemma unguard_guard: "in_long a \<Longrightarrow> wrap64 (wrap64 (a + 1) - 1) = a"
  using wrap64_add_wrap64 [of "a + 1" "- 1"] by simp

lemma inv_guard [simp]: "inv (guard_q_memory s) g = inv s g" "inv (unguard_q_memory s) g = inv s g"
  by (simp_all add: guard_q_memory_def unguard_q_memory_def)

lemma guard_simps [simp]:
  "cells (guard_q_memory s) = cells s" "sems (guard_q_memory s) = sems s" "clock (guard_q_memory s) = clock s"
  "clock_n (guard_q_memory s) = clock_n s" "base_current (guard_q_memory s) = base_current s" "signals (guard_q_memory s) = signals s"
  "mapped (guard_q_memory s) a n = mapped s a n" "mode (guard_q_memory s) = mode s" "my_pid (guard_q_memory s) = my_pid s"
  "accessors (guard_q_memory s) = wrap64 (accessors s + 1)"
  "cells (unguard_q_memory s) = cells s" "sems (unguard_q_memory s) = sems s" "clock (unguard_q_memory s) = clock s"
  "clock_n (unguard_q_memory s) = clock_n s" "accessors (unguard_q_memory s) = wrap64 (accessors s - 1)"
  "signals (unguard_q_memory s) = signals s" "mode (unguard_q_memory s) = mode s"
  by (simp_all add: guard_q_memory_def unguard_q_memory_def)

lemma clock_ok_guard [simp]: "clock_ok (guard_q_memory s) = clock_ok s" "clock_ok (unguard_q_memory s) = clock_ok s"
  by (simp_all add: clock_ok_def)

section \<open>The interface of the gates\<close>

text \<open>Nothing but the counters of calls, the semaphores, the clock and the signals may differ.\<close>

definition same_handle :: "qstate \<Rightarrow> qstate \<Rightarrow> bool" where
  "same_handle s t \<longleftrightarrow>
     fsize t = fsize s \<and> extents t = extents s \<and> fresh_ext t = fresh_ext s \<and> base_prev t = base_prev s \<and>
     base_current t = base_current s \<and> accessors t = accessors s \<and> mode t = mode s \<and> clock t = clock s \<and>
     osr t = osr s \<and> my_pid t = my_pid s \<and> clock_n s \<le> clock_n t \<and>
     (\<forall>i. i \<noteq> CALL_BLOCKS \<and> i \<noteq> CALL_UNBLOCKS \<longrightarrow> cells t i = cells s i)"

lemma same_handle_upd:
  "same_handle s t \<Longrightarrow>
   t = s\<lparr>cells := cells t, sems := sems t, os_n := os_n t, clock_n := clock_n t, signals := signals t\<rparr>"
  by (rule qstate.equality) (simp_all add: same_handle_def)

text \<open>A gate that lets its caller pass takes one token; one that turns its caller away takes none.\<close>

definition passes :: "int \<Rightarrow> qstate \<Rightarrow> qstate \<Rightarrow> bool" where
  "passes tokens s t \<longleftrightarrow> same_handle s t \<and> sems t = (sems s)(tokens := sems s tokens - 1)"

definition refuses :: "qstate \<Rightarrow> qstate \<Rightarrow> bool" where
  "refuses s t \<longleftrightarrow> same_handle s t \<and> sems t = sems s"

locale gate =
  fixes tokens :: int
    and enter :: "qstate \<Rightarrow> (sh_status \<times> qstate) option"
  assumes opens: "inv s g \<Longrightarrow> clock_ok s \<Longrightarrow> 0 < sems s tokens \<Longrightarrow> \<exists>t. enter s = Some (SH_OK, t) \<and> passes tokens s t"

text \<open>The gates that do not wait for ever.\<close>

locale closing_gate = gate +
  fixes closed :: sh_status
  assumes shuts: "inv s g \<Longrightarrow> clock_ok s \<Longrightarrow> sems s tokens = 0 \<Longrightarrow> \<exists>t. enter s = Some (closed, t) \<and> refuses s t"
    and closed: "closed \<noteq> SH_OK"

lemma same_handle_ok:
  assumes h: "same_handle s t" and inv: "inv s g"
  shows "inv t g" and "ends {CALL_BLOCKS, CALL_UNBLOCKS} 0 s t" and "clock_n s \<le> clock_n t" and "clock_ok t = clock_ok s"
    and "i \<noteq> CALL_BLOCKS \<Longrightarrow> i \<noteq> CALL_UNBLOCKS \<Longrightarrow> cells t i = cells s i"
proof -
  have "free_word i \<and> i \<in> {CALL_BLOCKS, CALL_UNBLOCKS}" if "cells t i \<noteq> cells s i" for i
  proof -
    have "i = CALL_BLOCKS \<or> i = CALL_UNBLOCKS" using h that unfolding same_handle_def by blast
    then show ?thesis by auto
  qed
  note c = inv_header [OF inv this]
  note t = same_handle_upd [OF h]
  show "inv t g" by (subst t) (use c(1) in simp)
  have "ends {CALL_BLOCKS, CALL_UNBLOCKS} 0 s (s\<lparr>cells := cells t\<rparr>)"
    by (rule runs_ends [OF moves_runs [OF c(2)]])
  then show "ends {CALL_BLOCKS, CALL_UNBLOCKS} 0 s t" by (subst t) simp
  show "clock_n s \<le> clock_n t" "clock_ok t = clock_ok s" "i \<noteq> CALL_BLOCKS \<Longrightarrow> i \<noteq> CALL_UNBLOCKS \<Longrightarrow> cells t i = cells s i"
    using h by (simp_all add: same_handle_def clock_ok_def)
qed

section \<open>The gates\<close>

lemma sem_calls_eq:
  assumes "quiet s" and "mapped s a 512" and "0 \<le> i" "i < 512"
  shows "sem_trywait s a i = Some (if sems s i = 0 then (Some EAGAIN, s\<lparr>os_n := Suc (os_n s)\<rparr>)
      else (None, s\<lparr>os_n := Suc (os_n s), sems := (sems s)(i := sems s i - 1)\<rparr>))"
    and "sem_wait s a i = (if sems s i = 0 then None
      else Some (None, s\<lparr>os_n := Suc (os_n s), sems := (sems s)(i := sems s i - 1)\<rparr>))"
    and "sem_timedwait s a i ts = Some (if sems s i = 0
      then (Some (if tv_nsec ts < 0 \<or> tv_nsec ts \<ge> 1000000000 then EINVAL else ETIMEDOUT), s\<lparr>os_n := Suc (os_n s)\<rparr>)
      else (None, s\<lparr>os_n := Suc (os_n s), sems := (sems s)(i := sems s i - 1)\<rparr>))"
    and "sem_post s a i = Some (if sems s i = SEM_VALUE_MAX then (Some EOVERFLOW, s\<lparr>os_n := Suc (os_n s)\<rparr>)
      else (None, s\<lparr>os_n := Suc (os_n s), sems := (sems s)(i := sems s i + 1)\<rparr>))"
  using in_mapI [OF assms(2-4)] assms(1)
  by (simp_all add: sem_trywait_def sem_wait_def sem_timedwait_def sem_post_def quiet_os_call)

lemma post_loop_eq:
  assumes "inv s g" and "sems s i < SEM_VALUE_MAX" and "0 \<le> i" "i < 512"
  shows "post_loop s i = Some (SH_OK, s\<lparr>os_n := Suc (os_n s), sems := (sems s)(i := sems s i + 1)\<rparr>)"
  using sem_calls_eq(4) [OF inv_parts(3,8) [OF assms(1)] assms(3,4)] assms(2) by (simp add: post_loop.simps)

lemma same_handle_simp [simp]:
  "same_handle s (t\<lparr>os_n := k\<rparr>) = same_handle s t" "same_handle s (t\<lparr>sems := m\<rparr>) = same_handle s t"
  "same_handle s (t\<lparr>signals := l\<rparr>) = same_handle s t" "same_handle s s"
  by (simp_all add: same_handle_def)

interpretation enq_try: closing_gate ENQ_SEM enq_gate_try SH_ERR_LIMIT
proof
  fix s g assume i: "inv s g"
  note e = sem_calls_eq(1) [OF inv_parts(3,8) [OF i], of ENQ_SEM]
  show "\<exists>t. enq_gate_try s = Some (SH_OK, t) \<and> passes ENQ_SEM s t" if "0 < sems s ENQ_SEM"
    using e that by (simp add: enq_gate_try.simps passes_def)
  show "\<exists>t. enq_gate_try s = Some (SH_ERR_LIMIT, t) \<and> refuses s t" if "sems s ENQ_SEM = 0"
    using e that by (simp add: enq_gate_try.simps refuses_def)
qed simp

interpretation deq_try: closing_gate DEQ_SEM deq_gate_try SH_ERR_EMPTY
proof
  fix s g assume i: "inv s g"
  note e = sem_calls_eq(1) [OF inv_parts(3,8) [OF i], of DEQ_SEM]
  show "\<exists>t. deq_gate_try s = Some (SH_OK, t) \<and> passes DEQ_SEM s t" if "0 < sems s DEQ_SEM"
    using e that by (simp add: deq_gate_try.simps passes_def)
  show "\<exists>t. deq_gate_try s = Some (SH_ERR_EMPTY, t) \<and> refuses s t" if "sems s DEQ_SEM = 0"
    using e that inv_parts(8) [OF i]
    by (simp add: deq_gate_try.simps refuses_def exec sigqueue_def)
qed simp

interpretation enq_blk: gate ENQ_SEM enq_gate_blk
proof
  fix s g assume i: "inv s g"
  show "\<exists>t. enq_gate_blk s = Some (SH_OK, t) \<and> passes ENQ_SEM s t" if "0 < sems s ENQ_SEM"
    using sem_calls_eq(2) [OF inv_parts(3,8) [OF i], of ENQ_SEM] that
    by (simp add: enq_gate_blk.simps passes_def)
qed

text \<open>A time-out that is normalised, as the documentation of the waiting calls demands.\<close>

definition timeout_ok :: "timespec \<Rightarrow> bool" where
  "timeout_ok t \<longleftrightarrow> 0 \<le> tv_nsec t \<and> tv_nsec t < 1000000000"

lemma deadline_ok: "clock_ok s \<Longrightarrow> timeout_ok t \<Longrightarrow> timeout_ok (timespecadd (now s) t)"
proof -
  assume "clock_ok s" "timeout_ok t"
  then have "0 \<le> tv_nsec (now s)" "tv_nsec (now s) < 1000000000" "timeout_ok t"
    by (auto simp: clock_ok_def now_def)
  then show ?thesis by (auto simp: timespecadd_def timeout_ok_def Let_def)
qed

interpretation enq_tm: gate ENQ_SEM "\<lambda>s. enq_gate_tm s t" for t
proof
  fix s g assume i: "inv s g"
  then have i': "inv (tick s) g" by simp
  show "\<exists>u. enq_gate_tm s t = Some (SH_OK, u) \<and> passes ENQ_SEM s u" if "0 < sems s ENQ_SEM"
    using sem_calls_eq(3) [OF inv_parts(3,8) [OF i'], of ENQ_SEM] that
    by (simp add: enq_gate_tm_def clock_gettime_eq enq_timed_loop.simps passes_def) (simp add: same_handle_def tick_def)
qed

lemma enq_tm_closing: "timeout_ok t \<Longrightarrow> closing_gate ENQ_SEM (\<lambda>s. enq_gate_tm s t) SH_ERR_LIMIT"
proof
  fix s g assume t: "timeout_ok t" and i: "inv s g" and c: "clock_ok s" and z: "sems s ENQ_SEM = 0"
  from i have i': "inv (tick s) g" by simp
  show "\<exists>u. enq_gate_tm s t = Some (SH_ERR_LIMIT, u) \<and> refuses s u"
    using sem_calls_eq(3) [OF inv_parts(3,8) [OF i'], of ENQ_SEM] z deadline_ok [OF c t]
    by (simp add: enq_gate_tm_def clock_gettime_eq enq_timed_loop.simps refuses_def timeout_ok_def)
      (simp add: same_handle_def tick_def)
qed simp

text \<open>The waiting gates of the removing side count the call and signal it, whatever the tokens.\<close>

lemma deq_call_start:
  assumes "inv s g"
  obtains s1 m s2 where "AFA s (base_current s) CALL_BLOCKS 1 = Some (cells s CALL_BLOCKS, s1)"
    and "is_call_monitored s1 (base_current s1) = Some m" and "(if m then signal_call s1 else Some s1) = Some s2"
    and "inv s2 g" and "same_handle s s2" and "sems s2 = sems s"
proof -
  let ?s1 = "s\<lparr>cells := (cells s)(CALL_BLOCKS := wrap64 (cells s CALL_BLOCKS + 1))\<rparr>"
  have i1: "inv ?s1 g" by (rule inv_word [OF assms]) simp
  have h: "mapped ?s1 (base_current ?s1) 512" by (rule inv_parts(8) [OF i1])
  let ?m = "cells ?s1 CALL_SIGNAL \<noteq> 0 \<and> cells ?s1 CALL_PID \<noteq> 0"
  let ?s2 = "if ?m then sigqueue (cells ?s1 CALL_PID) (cells ?s1 CALL_SIGNAL) 0 ?s1 else ?s1"
  show thesis
  proof (rule that [of ?s1 ?m ?s2])
    show "AFA s (base_current s) CALL_BLOCKS 1 = Some (cells s CALL_BLOCKS, ?s1)"
      using AFA_mapped [OF inv_parts(8) [OF assms]] by simp
    show "is_call_monitored ?s1 (base_current ?s1) = Some ?m" using predicates_eq(2) [OF h] by simp
    show "(if ?m then signal_call ?s1 else Some ?s1) = Some ?s2" using signal_call_eq [OF h] by simp
    show "inv ?s2 g" using i1 by (simp add: sigqueue_def)
    show "same_handle s ?s2" by (simp add: same_handle_def sigqueue_def)
    show "sems ?s2 = sems s" by (simp add: sigqueue_def)
  qed
qed

lemma deq_call_end:
  assumes "inv s g"
  obtains t where "AFA s (base_current s) CALL_UNBLOCKS 1 = Some (cells s CALL_UNBLOCKS, t)" and "same_handle s t" and "sems t = sems s"
  using AFA_mapped [OF inv_parts(8) [OF assms], of CALL_UNBLOCKS 1] by (simp add: same_handle_def)

lemma same_handle_trans: "same_handle s t \<Longrightarrow> same_handle t u \<Longrightarrow> same_handle s u"
  by (auto simp: same_handle_def)

interpretation deq_blk: gate DEQ_SEM deq_gate_blk
proof
  fix s g assume i: "inv s g" and z: "0 < sems s DEQ_SEM"
  obtain s1 m s2 where a: "AFA s (base_current s) CALL_BLOCKS 1 = Some (cells s CALL_BLOCKS, s1)"
    "is_call_monitored s1 (base_current s1) = Some m" "(if m then signal_call s1 else Some s1) = Some s2"
    "inv s2 g" "same_handle s s2" "sems s2 = sems s" by (rule deq_call_start [OF i])
  let ?s3 = "s2\<lparr>os_n := Suc (os_n s2), sems := (sems s2)(DEQ_SEM := sems s2 DEQ_SEM - 1)\<rparr>"
  have w: "deq_wait_loop s2 = Some (SH_OK, ?s3)"
    using sem_calls_eq(2) [OF inv_parts(3,8) [OF a(4)], of DEQ_SEM] z a(6) by (simp add: deq_wait_loop.simps)
  have "inv ?s3 g" using a(4) by simp
  then obtain t where t: "AFA ?s3 (base_current ?s3) CALL_UNBLOCKS 1 = Some (cells ?s3 CALL_UNBLOCKS, t)" "same_handle ?s3 t"
    "sems t = sems ?s3" by (rule deq_call_end)
  have "deq_gate_blk s = Some (SH_OK, t)" using a(1-3) w t(1) by (simp add: deq_gate_blk_def)
  moreover have "same_handle s t" by (rule same_handle_trans [OF _ t(2)]) (use a(5) in simp)
  ultimately show "\<exists>t. deq_gate_blk s = Some (SH_OK, t) \<and> passes DEQ_SEM s t"
    using t(3) a(6) by (simp add: passes_def)
qed

lemma deq_tm_run:
  assumes i: "inv s g" and nonneg: "0 \<le> sems s DEQ_SEM"
  shows "\<exists>t. deq_gate_tm s d = Some (if 0 < sems s DEQ_SEM then SH_OK else if sems s DEQ_SEM = 0 \<and> timeout_ok (timespecadd (now s) d) then SH_ERR_EMPTY else SH_ERR_STATE, t) \<and>
    same_handle s t \<and> sems t = (if sems s DEQ_SEM = 0 then sems s else (sems s)(DEQ_SEM := sems s DEQ_SEM - 1))"
proof -
  obtain s1 m s2 where a: "AFA s (base_current s) CALL_BLOCKS 1 = Some (cells s CALL_BLOCKS, s1)"
    "is_call_monitored s1 (base_current s1) = Some m" "(if m then signal_call s1 else Some s1) = Some s2"
    "inv s2 g" "same_handle s s2" "sems s2 = sems s" by (rule deq_call_start [OF i])
  have n: "now s2 = now s"
  proof -
    have "clock_n s2 = clock_n s"
      using a(1,3) AFA_mapped [OF inv_parts(8) [OF i], of CALL_BLOCKS 1] inv_parts(8) [OF i]
      by (auto simp: signal_call_eq sigqueue_def split: if_splits)
    then show ?thesis using a(5) by (simp add: now_def same_handle_def)
  qed
  let ?s3 = "tick s2"
  have i3: "inv ?s3 g" using a(4) by simp
  let ?z = "sems s DEQ_SEM = 0"
  let ?st = "if ?z then (if timeout_ok (timespecadd (now s) d) then SH_ERR_EMPTY else SH_ERR_STATE) else SH_OK"
  let ?s4 = "?s3\<lparr>os_n := Suc (os_n ?s3), sems := (if ?z then sems s else (sems s)(DEQ_SEM := sems s DEQ_SEM - 1))\<rparr>"
  have eq: "?s3\<lparr>os_n := k\<rparr> = ?s3\<lparr>os_n := k, sems := sems s\<rparr>" for k using a(6) by (intro qstate.equality) simp_all
  have w: "deq_timed_loop ?s3 (timespecadd (now s2) d) = Some (?st, ?s4)"
    using sem_calls_eq(3) [OF inv_parts(3,8) [OF i3], of DEQ_SEM] a(6) n eq
    by (auto simp: deq_timed_loop.simps timeout_ok_def)
  have "inv ?s4 g" using i3 by simp
  then obtain t where t: "AFA ?s4 (base_current ?s4) CALL_UNBLOCKS 1 = Some (cells ?s4 CALL_UNBLOCKS, t)" "same_handle ?s4 t"
    "sems t = sems ?s4" by (rule deq_call_end)
  have "deq_gate_tm s d = Some (?st, t)" using a(1-3) w t(1) by (simp add: deq_gate_tm_def clock_gettime_eq)
  moreover have "same_handle s t"
    by (rule same_handle_trans [OF a(5) same_handle_trans [OF _ t(2)]]) (simp add: same_handle_def tick_def)
  ultimately show ?thesis using t(3) nonneg by auto
qed

interpretation deq_tm: gate DEQ_SEM "\<lambda>s. deq_gate_tm s d" for d
proof
  fix s g assume "inv s g" and z: "0 < sems s DEQ_SEM"
  from deq_tm_run [OF this(1), of d] z show "\<exists>t. deq_gate_tm s d = Some (SH_OK, t) \<and> passes DEQ_SEM s t"
    by (auto simp: passes_def)
qed

lemma deq_tm_closing: "timeout_ok d \<Longrightarrow> closing_gate DEQ_SEM (\<lambda>s. deq_gate_tm s d) SH_ERR_EMPTY"
proof
  fix s g assume "timeout_ok d" "inv s g" "clock_ok s" "sems s DEQ_SEM = 0"
  with deq_tm_run [of s g d] deadline_ok [of s d]
  show "\<exists>t. deq_gate_tm s d = Some (SH_ERR_EMPTY, t) \<and> refuses s t" by (auto simp: refuses_def)
qed simp

section \<open>Adding through a gate\<close>

lemma works_level_event:
  assumes inv: "inv s g" and room: "room s 4" and sem: "sems s EVNT_SEM < SEM_VALUE_MAX"
  obtains s' g' where "check_for_level_event s = Some s'" and "works 4 s g s' g'"
    and "(cells s' FLAGS, g_evs g') =
      fire_if (0 < cells s LEVEL \<and> cells s LEVEL \<le> cells s COUNT) SQ_EVNT_LEVEL (cells s FLAGS, g_evs g)"
proof -
  let ?b = "0 < cells s LEVEL \<and> cells s LEVEL \<le> cells s COUNT"
  note h = inv_parts(8) [OF inv]
  obtain b s1 g1 where e: "(if ?b then add_event s SQ_EVNT_LEVEL else Some (False, s)) = Some (b, s1)" "works 4 s g s1 g1"
    "(cells s1 FLAGS, g_evs g1) = fire_if ?b SQ_EVNT_LEVEL (cells s FLAGS, g_evs g)"
    "b = (?b \<and> cells s FLAGS AND get_event_flag SQ_EVNT_LEVEL \<noteq> 0)"
    by (rule works_event [OF inv room sem, of SQ_EVNT_LEVEL ?b]) auto
  show thesis
  proof (cases b)
    case True
    obtain s2 where s2: "signal_event s1 = Some s2" using signal_event_eq [OF inv_parts(8) [OF works_inv [OF e(2)]]] by blast
    have w: "works 4 s g s2 g1" using works_trans [OF e(2) works_signal [OF works_inv [OF e(2)] s2]] by simp
    have "cells s2 FLAGS = cells s1 FLAGS"
      using s2 signal_event_eq [OF inv_parts(8) [OF works_inv [OF e(2)]]] by (auto simp: sigqueue_def split: if_splits)
    with w s2 True e show thesis
      by (intro that [of s2 g1]) (auto simp: check_for_level_event_def rd_mapped [OF h] event_disabled_eq [OF h] Let_def split: if_splits)
  next
    case False
    then have "s1 = s" "?b \<longrightarrow> cells s FLAGS AND get_event_flag SQ_EVNT_LEVEL = 0"
      using e(1,4) h by (auto simp: add_event_def event_disabled_eq [OF h] split: if_splits)
    with e(2,3) False e(1) show thesis
      by (intro that [of s g1]) (auto simp: check_for_level_event_def rd_mapped [OF h] event_disabled_eq [OF h] Let_def split: if_splits)
  qed
qed

text \<open>An operation that adds the payload \<open>v\<close> and needs \<open>m\<close> slots for it.\<close>

definition adder :: "(qstate \<Rightarrow> (sh_status \<times> qstate) option) \<Rightarrow> payload \<Rightarrow> int \<Rightarrow> bool" where
  "adder add v m \<longleftrightarrow>
     0 \<le> m \<and>
     (\<forall>s g. inv s g \<and> clock_ok s \<and> room s m \<and> sems s EVNT_SEM + 3 \<le> SEM_VALUE_MAX \<and>
        0 \<le> cells s COUNT \<and> cells s COUNT < 2 ^ 62 \<longrightarrow>
        (\<exists>s' g'. add s = Some (SH_OK, s') \<and> added v m s g s' g'))"

definition add_events :: "(int \<Rightarrow> long) \<Rightarrow> long \<times> sq_event list \<Rightarrow> long \<times> sq_event list" where
  "add_events c fe =
     fire_if (0 < c LEVEL \<and> c LEVEL \<le> c COUNT + 1) SQ_EVNT_LEVEL (enq_events (c COUNT) (c MAX_DEPTH) fe)"

definition add_words :: "int set" where
  "add_words = enq_words \<union> copy_words \<union> {CALL_BLOCKS, CALL_UNBLOCKS}"

text \<open>The queue after \<open>v\<close> has been added, at a time read during the call.\<close>

definition add_result :: "payload \<Rightarrow> int \<Rightarrow> qstate \<Rightarrow> ghost \<Rightarrow> qstate \<Rightarrow> ghost \<Rightarrow> bool" where
  "add_result v m s g t g' \<longleftrightarrow>
     queue_inv t g' \<and> ends add_words (m + 4) s t \<and>
     (\<exists>e k. e_val e = v \<and> clock_n s \<le> k \<and> e_ts e = clock s k \<and> puts (lifo_now (cells s)) e g g') \<and>
     (cells t FLAGS, g_evs g') = add_events (cells s) (cells s FLAGS, g_evs g)"

lemma puts_length: "puts b e g g' \<Longrightarrow> length (queue_of g') = Suc (length (queue_of g))"
  by (auto simp: puts_def queue_of_def split: if_splits)

lemma event_lengths:
  "length (snd (enq_events n d fe)) \<le> length (snd fe) + 3"
proof -
  have "length (snd (activate fe)) \<le> length (snd fe) + 1" by (simp add: activate_def)
  then show ?thesis
    using fire_length(2) [where fe = "activate fe" and b = "n = 0" and ev = SQ_EVNT_NONEMPTY]
      fire_length(2) [where fe = "fire_if (n = 0) SQ_EVNT_NONEMPTY (activate fe)" and b = "n = d - 1" and ev = SQ_EVNT_LIMIT]
    by (simp add: enq_events_def)
qed

locale enq_gate = gate ENQ_SEM enter for enter
begin

lemma add_through_ok:
  assumes q: "queue_inv s g" and space: "cells s COUNT < cells s MAX_DEPTH" and room: "room s (m + 4)"
    and evs: "int (length (g_evs g)) + 4 \<le> SEM_VALUE_MAX" and ad: "adder add v m"
  shows "\<exists>t g'. add_through s enter add = Some (SH_OK, t) \<and> add_result v m s g t g'"
proof -
  let ?s0 = "guard_q_memory s"
  have s: "inv s g" "clock_ok s" "in_long (accessors s)" "g_held g = []" "g_loose g = []" "g_loose_blks g = []"
    "cells s COUNT = int (length (queue_of g))" "cells s MAX_DEPTH \<le> SEM_VALUE_MAX"
    "sems s DEQ_SEM = cells s COUNT" "sems s ENQ_SEM = cells s MAX_DEPTH - cells s COUNT"
    "sems s EVNT_SEM = int (length (g_evs g))"
    using q by (simp_all add: queue_inv_def)
  have m0: "0 \<le> m" using ad by (simp add: adder_def)
  have s0: "inv ?s0 g" "clock_ok ?s0" "0 < sems ?s0 ENQ_SEM" using s space by simp_all
  from opens [OF s0] obtain s1 where s1: "enter ?s0 = Some (SH_OK, s1)" "passes ENQ_SEM ?s0 s1" by blast
  have sh: "same_handle ?s0 s1" and se1: "sems s1 = (sems s)(ENQ_SEM := sems s ENQ_SEM - 1)"
    using s1(2) by (simp_all add: passes_def)
  note h1 = same_handle_ok [OF sh s0(1)]
  have c1: "cells s1 i = cells s i" if "i \<noteq> CALL_BLOCKS" "i \<noteq> CALL_UNBLOCKS" for i using h1(5) [OF that] by simp
  have u1: "used s1 = used s" using c1 [of DATA_ALLOC] by (simp add: used_def)
  have "room s1 m" using room u1 m0 by (simp add: room_used)
  moreover have "clock_ok s1" using h1(4) s(2) by simp
  moreover have "sems s1 EVNT_SEM + 3 \<le> SEM_VALUE_MAX" "0 \<le> cells s1 COUNT" "cells s1 COUNT < 2 ^ 62"
    using se1 s evs space c1 [of COUNT] by simp_all
  ultimately obtain s2 g2 where s2: "add s1 = Some (SH_OK, s2)" "added v m s1 g s2 g2"
    using ad h1(1) unfolding adder_def by blast
  obtain e where e: "e_val e = v" "e_ts e = now s1" "puts (lifo_now (cells s1)) e g g2"
    using s2(2) by (auto simp: added_def)
  have a: "inv s2 g2" "ends (enq_words \<union> copy_words) m s1 s2" "g_held g2 = []" "cells s2 COUNT = cells s COUNT + 1"
    "(cells s2 FLAGS, g_evs g2) = enq_events (cells s COUNT) (cells s MAX_DEPTH) (cells s FLAGS, g_evs g)"
    "sems s2 = (sems s1)(EVNT_SEM := sems s1 EVNT_SEM + int (length (g_evs g2)) - int (length (g_evs g)))"
    using s2(2) s(4) c1 by (simp_all add: added_def)
  have words: "cells s2 i = cells s i" if "i \<in> {MAX_DEPTH, LEVEL}" for i
    using ends_word [OF a(2), of i] c1 [of i] that
    by (auto simp: enq_words_def copy_words_def blk_words_def work_words_def event_words_def node_words_def)
  let ?s3 = "s2\<lparr>os_n := Suc (os_n s2), sems := (sems s2)(DEQ_SEM := sems s2 DEQ_SEM + 1)\<rparr>"
  have "sems s2 DEQ_SEM < SEM_VALUE_MAX" using a(6) se1 s space by simp
  then have rel: "deq_release_gate s2 = Some (SH_OK, ?s3)"
    using post_loop_eq [OF a(1), of DEQ_SEM] by (simp add: deq_release_gate_def)
  have i3: "inv ?s3 g2" using a(1) by simp
  have ev2: "sems s2 EVNT_SEM = int (length (g_evs g2))" using a(6) se1 s(11) by simp
  have "length (g_evs g2) \<le> length (g_evs g) + 3"
    using event_lengths [of "cells s COUNT" "cells s MAX_DEPTH" "(cells s FLAGS, g_evs g)"] a(5) by (metis snd_conv)
  then have sem3: "sems ?s3 EVNT_SEM < SEM_VALUE_MAX" using ev2 evs by simp
  have "used s2 \<le> used s + m" using a(2) u1 by (simp add: ends_def)
  then have r3: "room ?s3 4" using room inv_parts(7) [OF i3] m0 by (simp add: room_used used_def)
  obtain s4 g4 where s4: "check_for_level_event ?s3 = Some s4" "works 4 ?s3 g2 s4 g4"
    "(cells s4 FLAGS, g_evs g4) =
      fire_if (0 < cells ?s3 LEVEL \<and> cells ?s3 LEVEL \<le> cells ?s3 COUNT) SQ_EVNT_LEVEL (cells ?s3 FLAGS, g_evs g2)"
    by (rule works_level_event [OF i3 r3 sem3])
  let ?t = "unguard_q_memory s4"
  have w4: "inv s4 g4" "runs work_words 4 ?s3 s4" "stable g2 g4"
    "sems s4 = (sems ?s3)(EVNT_SEM := sems ?s3 EVNT_SEM + int (length (g_evs g4)) - int (length (g_evs g2)))"
    using s4(2) by (simp_all add: works_def)
  have p4: "puts (lifo_now (cells s)) e g g4"
  proof -
    have "lifo_now (cells s1) = lifo_now (cells s)" using c1 by (simp add: lifo_now_def)
    then show ?thesis using e(3) w4(3) by (auto simp: puts_def stable_def same_rest_def split: if_splits)
  qed
  have acc: "accessors s4 = wrap64 (accessors s + 1)" and ck: "clock s4 = clock s"
    using w4(2) a(2) sh by (simp_all add: runs_def ends_def same_handle_def guard_q_memory_def)
  have c4: "cells s4 COUNT = cells s COUNT + 1" "cells s4 MAX_DEPTH = cells s MAX_DEPTH"
    using works_word [OF s4(2), of COUNT] works_word [OF s4(2), of MAX_DEPTH] a(4) words
    by (simp_all add: work_words_def event_words_def node_words_def)
  have "queue_inv ?t g4"
    unfolding queue_inv_def
    using w4 acc c4 s a puts_length [OF p4] p4 se1 unguard_guard [OF s(3)] space ck
    by (auto simp: puts_def same_rest_def stable_def clock_ok_def)
  moreover have "ends add_words (m + 4) s ?t"
  proof -
    have "ends (enq_words \<union> copy_words) m s1 ?s3" using a(2) by simp
    from ends_trans [OF ends_trans [OF h1(2) this] runs_ends [OF w4(2)]] have "ends add_words (m + 4) ?s0 s4"
      by (rule ends_mono) (auto simp: add_words_def enq_words_def)
    then show ?thesis using unguard_guard [OF s(3)] by (simp add: ends_def guard_q_memory_def unguard_q_memory_def used_def)
  qed
  moreover have "(cells ?t FLAGS, g_evs g4) = add_events (cells s) (cells s FLAGS, g_evs g)"
    using s4(3) a(4,5) words by (simp add: add_events_def)
  moreover have "clock_n s \<le> clock_n s1 \<and> now s1 = clock s (clock_n s1)"
    using sh by (simp add: same_handle_def now_def)
  ultimately have "add_result v m s g ?t g4" using p4 e(1,2) by (auto simp: add_result_def)
  moreover have "add_through s enter add = Some (SH_OK, ?t)"
    using s1(1) s2(1) rel s4(1) by (simp add: add_through_def)
  ultimately show ?thesis by blast
qed

end

text \<open>A gate that is closed turns the addition away: the queue is as it was.\<close>

locale enq_closing_gate = closing_gate ENQ_SEM enter closed for enter closed

sublocale enq_closing_gate \<subseteq> enq_gate ..

lemma queue_inv_refused:
  assumes q: "queue_inv s g" and r: "refuses (guard_q_memory s) t"
  shows "queue_inv (unguard_q_memory t) g" and "ends {CALL_BLOCKS, CALL_UNBLOCKS} 0 s (unguard_q_memory t)"
proof -
  let ?s0 = "guard_q_memory s"
  have i: "inv ?s0 g" and a: "in_long (accessors s)" using q by (simp_all add: queue_inv_def)
  have sh: "same_handle ?s0 t" and se: "sems t = sems s" using r by (simp_all add: refuses_def)
  note h = same_handle_ok [OF sh i]
  have c: "cells t COUNT = cells s COUNT" "cells t MAX_DEPTH = cells s MAX_DEPTH" using h(5) by simp_all
  have ac: "accessors t = wrap64 (accessors s + 1)" using sh by (simp add: same_handle_def)
  show "queue_inv (unguard_q_memory t) g"
    using q h(1,4) se c ac unguard_guard [OF a] by (simp add: queue_inv_def)
  show "ends {CALL_BLOCKS, CALL_UNBLOCKS} 0 s (unguard_q_memory t)"
    using h(2) ac unguard_guard [OF a] by (simp add: ends_def guard_q_memory_def unguard_q_memory_def used_def)
qed

context enq_closing_gate
begin

lemma add_through_full:
  assumes q: "queue_inv s g" and full: "cells s COUNT = cells s MAX_DEPTH"
  shows "\<exists>t. add_through s enter add = Some (closed, t) \<and> queue_inv t g \<and> ends {CALL_BLOCKS, CALL_UNBLOCKS} 0 s t"
proof -
  let ?s0 = "guard_q_memory s"
  have "inv ?s0 g" "clock_ok ?s0" "sems ?s0 ENQ_SEM = 0" using q full by (simp_all add: queue_inv_def)
  from shuts [OF this] obtain t where t: "enter ?s0 = Some (closed, t)" "refuses ?s0 t" by blast
  from queue_inv_refused [OF q t(2)] t(1) closed show ?thesis by (simp add: add_through_def)
qed

end

section \<open>Removing through a gate\<close>

text \<open>An entry that is older than one of the limits at a reading of the clock, the \<open>n\<close>-th or later.\<close>

definition stale :: "(int \<Rightarrow> long) \<Rightarrow> (nat \<Rightarrow> timespec) \<Rightarrow> nat \<Rightarrow> entry \<Rightarrow> bool" where
  "stale c clk n e \<longleftrightarrow>
     c FLAGS AND FLAG_DISCARD_EXPIRED \<noteq> 0 \<and>
     (\<exists>k\<ge>n. \<exists>i\<in>{LIMIT_SEC, TARGET_SEC}. exceeds \<lparr>tv_sec = c i, tv_nsec = c (i + 1)\<rparr> (e_ts e) (clk k))"

lemma limit_now_cases:
  "limit_now c t \<in> {\<lparr>tv_sec = c LIMIT_SEC, tv_nsec = c LIMIT_NSEC\<rparr>, \<lparr>tv_sec = c TARGET_SEC, tv_nsec = c TARGET_NSEC\<rparr>}"
  by (simp add: limit_now_def Let_def)

lemma drops_stale: "drops c (e_ts e) (clk k) \<Longrightarrow> n \<le> k \<Longrightarrow> stale c clk n e"
proof -
  assume k: "n \<le> k"
  let ?c = "if codel c \<and> c COUNT = 1 then c(EMPTY_SEC := 0, EMPTY_NSEC := 0) else c"
  assume d: "drops c (e_ts e) (clk k)"
  then have f: "c FLAGS AND FLAG_DISCARD_EXPIRED \<noteq> 0" "exceeds (limit_now ?c (clk k)) (e_ts e) (clk k)"
    by (simp_all add: drops_def)
  have same: "?c LIMIT_SEC = c LIMIT_SEC" "?c LIMIT_NSEC = c LIMIT_NSEC" "?c TARGET_SEC = c TARGET_SEC" "?c TARGET_NSEC = c TARGET_NSEC"
    by simp_all
  from limit_now_cases [of ?c "clk k"] f show ?thesis
    unfolding stale_def same using k by auto
qed

definition rem_words :: "int set" where
  "rem_words = deq_all_words \<union> {CALL_BLOCKS, CALL_UNBLOCKS}"

lemma rem_words_other:
  "i \<in> {LIMIT_SEC, LIMIT_NSEC, TARGET_SEC, TARGET_NSEC, MAX_DEPTH, LEVEL} \<Longrightarrow> i \<notin> rem_words"
  by (auto simp: rem_words_def deq_all_words_def deq_words_def deq_post_words_def work_words_def event_words_def
      node_words_def blk_words_def)

text \<open>What a removal of \<open>e\<close> hands to its caller.\<close>

definition shows_entry :: "entry \<Rightarrow> sq_item \<Rightarrow> ubuf \<Rightarrow> bool" where
  "shows_entry e item b \<longleftrightarrow>
     i_status item = SH_OK \<and> (\<exists>mem. ub_mem b = Some mem \<and> shows_item item mem (e_ts e) (e_val e))"

lemma deq_events_length: "length (snd (deq_events n x fe)) \<le> length (snd fe) + 2"
  using fire_length(2) [where fe = fe and b = "n = 1" and ev = SQ_EVNT_EMPTY]
    fire_length(2) [where fe = "fire_if (n = 1) SQ_EVNT_EMPTY fe" and b = x and ev = SQ_EVNT_TIME]
  by (simp add: deq_events_def)

locale deq_gate = gate DEQ_SEM enter for enter
begin

lemma remove_step:
  assumes q: "queue_inv s g" and e: "queue_of g = e # es" and b: "ubuf_ok b" and room: "room s 8"
    and evs: "int (length (g_evs g)) + 2 \<le> SEM_VALUE_MAX"
  obtains s1 item b' s2 s3 g' where "enter s = Some (SH_OK, s1)" and "deq s1 b = Some (item, b', s2)"
    and "enq_release_gate s2 = Some (SH_OK, s3)" and "queue_inv s3 g'" and "queue_of g' = es" and "ubuf_ok b'"
    and "ends rem_words 8 s s3"
    and "\<exists>k\<ge>clock_n s. (if drops (cells s) (e_ts e) (clock s k) then item = empty_item SH_ERR_EXIST else shows_entry e item b') \<and>
      (cells s3 FLAGS, g_evs g') = deq_events (cells s COUNT) (drops (cells s) (e_ts e) (clock s k)) (cells s FLAGS, g_evs g)"
    and "cells s3 FLAGS AND FLAG_DISCARD_EXPIRED = cells s FLAGS AND FLAG_DISCARD_EXPIRED"
    and "length (g_evs g') \<le> length (g_evs g) + 2" and "clock_n s \<le> clock_n s3"
proof -
  have s: "inv s g" "clock_ok s" "g_held g = []" "cells s COUNT = int (length (queue_of g))"
    "cells s COUNT \<le> cells s MAX_DEPTH" "cells s MAX_DEPTH \<le> SEM_VALUE_MAX"
    "sems s DEQ_SEM = cells s COUNT" "sems s ENQ_SEM = cells s MAX_DEPTH - cells s COUNT"
    "sems s EVNT_SEM = int (length (g_evs g))"
    using q by (simp_all add: queue_inv_def)
  have n: "0 < cells s COUNT" using s(4) e by simp
  then have "0 < sems s DEQ_SEM" using s(7) by simp
  from opens [OF s(1,2) this] obtain s1 where s1: "enter s = Some (SH_OK, s1)" "passes DEQ_SEM s s1" by blast
  have sh: "same_handle s s1" and se1: "sems s1 = (sems s)(DEQ_SEM := sems s DEQ_SEM - 1)"
    using s1(2) by (simp_all add: passes_def)
  note h1 = same_handle_ok [OF sh s(1)]
  have c1: "cells s1 i = cells s i" if "i \<noteq> CALL_BLOCKS" "i \<noteq> CALL_UNBLOCKS" for i using h1(5) [OF that] by simp
  have u1: "used s1 = used s" using c1 [of DATA_ALLOC] by (simp add: used_def)
  have pre: "room s1 8" "sems s1 EVNT_SEM + 2 \<le> SEM_VALUE_MAX" "0 < cells s1 COUNT" "cells s1 COUNT < 2 ^ 62"
    using room u1 se1 evs s n c1 [of COUNT] by (simp_all add: room_used)
  have dr: "drops (cells s1) (e_ts e) (now s1) = drops (cells s) (e_ts e) (clock s (clock_n s1))"
    using c1 sh by (simp add: drops_def codel_def limit_now_def Let_def now_def same_handle_def)
  obtain item b' s2 g2 where s2: "deq s1 b = Some (item, b', s2)" "removed e s1 g s2 g2" "ubuf_ok b'"
    "if drops (cells s1) (e_ts e) (now s1) then item = empty_item SH_ERR_EXIST
     else i_status item = SH_OK \<and> (\<exists>mem. ub_mem b' = Some mem \<and> shows_item item mem (e_ts e) (e_val e))"
    by (rule deq_ok [OF h1(1) e b pre])
  have a: "inv s2 g2" "ends deq_all_words 8 s1 s2" "queue_of g2 = es" "g_held g2 = []" "cells s2 COUNT = cells s COUNT - 1"
    "(cells s2 FLAGS, g_evs g2) = deq_events (cells s COUNT) (drops (cells s1) (e_ts e) (now s1)) (cells s FLAGS, g_evs g)"
    "sems s2 = (sems s1)(EVNT_SEM := sems s1 EVNT_SEM + int (length (g_evs g2)) - int (length (g_evs g)))"
    "same_rest g g2" "clock_n s1 \<le> clock_n s2"
    using s2(2) s(3) e c1 by (simp_all add: removed_def)
  let ?s3 = "s2\<lparr>os_n := Suc (os_n s2), sems := (sems s2)(ENQ_SEM := sems s2 ENQ_SEM + 1)\<rparr>"
  have "sems s2 ENQ_SEM = cells s MAX_DEPTH - cells s COUNT" using a(7) se1 s(8) by simp
  then have "sems s2 ENQ_SEM < SEM_VALUE_MAX" using s(6) n by linarith
  then have rel: "enq_release_gate s2 = Some (SH_OK, ?s3)"
    using post_loop_eq [OF a(1), of ENQ_SEM] by (simp add: enq_release_gate_def)
  have ends: "ends rem_words 8 s ?s3"
  proof -
    have "ends deq_all_words 8 s1 ?s3" using a(2) by simp
    from ends_trans [OF h1(2) this] show ?thesis by (rule ends_mono) (auto simp: rem_words_def)
  qed
  have md: "cells s2 MAX_DEPTH = cells s MAX_DEPTH"
    using ends_word [OF ends, of MAX_DEPTH] rem_words_other [of MAX_DEPTH] by simp
  have lp: "g_loose g = []" "g_loose_blks g = []" "in_long (accessors s)" using q by (simp_all add: queue_inv_def)
  have "queue_inv ?s3 g2"
    unfolding queue_inv_def
    using a s h1(4) lp md se1 ends e by (auto simp: same_rest_def clock_ok_def ends_def)
  moreover have "cells ?s3 FLAGS AND FLAG_DISCARD_EXPIRED = cells s FLAGS AND FLAG_DISCARD_EXPIRED"
    using arg_cong [OF a(6), of fst] by (simp add: deq_events_def fire_if_discard)
  moreover have "length (g_evs g2) \<le> length (g_evs g) + 2"
    using deq_events_length [of "cells s COUNT" "drops (cells s1) (e_ts e) (now s1)" "(cells s FLAGS, g_evs g)"] a(6)
    by (metis snd_conv)
  moreover have "clock_n s \<le> clock_n s1" by (rule h1(3))
  moreover have "\<exists>k\<ge>clock_n s. (if drops (cells s) (e_ts e) (clock s k) then item = empty_item SH_ERR_EXIST else shows_entry e item b') \<and>
      (cells ?s3 FLAGS, g_evs g2) = deq_events (cells s COUNT) (drops (cells s) (e_ts e) (clock s k)) (cells s FLAGS, g_evs g)"
    using s2(4) dr h1(3) a(6) by (intro exI [of _ "clock_n s1"]) (simp add: shows_entry_def)
  ultimately show thesis using s1(1) s2(1,3) rel a(3,9) ends by (intro that [of s1 item b' s2 ?s3 g2]) simp_all
qed

text \<open>Without discarding, the front entry comes out.\<close>

lemma remove_front_entry:
  assumes q: "queue_inv s g" and e: "queue_of g = e # es" and b: "ubuf_ok b" and room: "room s 8"
    and evs: "int (length (g_evs g)) + 2 \<le> SEM_VALUE_MAX" and keep: "cells s FLAGS AND FLAG_DISCARD_EXPIRED = 0"
  shows "\<exists>item' b' t g'. remove_loop enter s item b = Some (item', b', t) \<and> queue_inv t g' \<and> queue_of g' = es \<and>
    ends rem_words 8 s t \<and> ubuf_ok b' \<and> shows_entry e item' b' \<and>
    (cells t FLAGS, g_evs g') = deq_events (cells s COUNT) False (cells s FLAGS, g_evs g)"
proof -
  obtain s1 it b' s2 s3 g' where r: "enter s = Some (SH_OK, s1)" "deq s1 b = Some (it, b', s2)"
    "enq_release_gate s2 = Some (SH_OK, s3)" "queue_inv s3 g'" "queue_of g' = es" "ubuf_ok b'" "ends rem_words 8 s s3"
    "\<exists>k\<ge>clock_n s. (if drops (cells s) (e_ts e) (clock s k) then it = empty_item SH_ERR_EXIST else shows_entry e it b') \<and>
      (cells s3 FLAGS, g_evs g') = deq_events (cells s COUNT) (drops (cells s) (e_ts e) (clock s k)) (cells s FLAGS, g_evs g)"
    by (rule remove_step [OF q e b room evs])
  have fresh: "\<not> drops (cells s) (e_ts e) (clock s k)" for k using keep by (simp add: drops_def)
  have sh: "shows_entry e it b'" "(cells s3 FLAGS, g_evs g') = deq_events (cells s COUNT) False (cells s FLAGS, g_evs g)"
    using r(8) fresh by auto
  then have "i_status it = SH_OK" by (simp add: shows_entry_def)
  then have "remove_loop enter s item b = Some (it\<lparr>i_status := SH_OK\<rparr>, b', s3)"
    using r(1-3) by (subst remove_loop.simps) simp
  moreover have "shows_entry e (it\<lparr>i_status := SH_OK\<rparr>) b'" using sh(1) by (simp add: shows_entry_def)
  ultimately show ?thesis using r(4-7) sh(2) by blast
qed

end

locale deq_closing_gate = closing_gate DEQ_SEM enter closed for enter closed

sublocale deq_closing_gate \<subseteq> deq_gate ..

text \<open>The outcome of a removal from \<open>q\<close>: stale entries are dropped from the front, then the next one
  comes out, or there is none.\<close>

fun rem_events :: "int \<Rightarrow> nat \<Rightarrow> bool \<Rightarrow> long \<times> sq_event list \<Rightarrow> long \<times> sq_event list" where
  "rem_events n 0 got fe = (if got then deq_events n False fe else fe)"
| "rem_events n (Suc d) got fe = rem_events (n - 1) d got (deq_events n True fe)"

definition outcome ::
  "sh_status \<Rightarrow> (entry \<Rightarrow> bool) \<Rightarrow> entry list \<Rightarrow> long \<times> sq_event list \<Rightarrow> entry list \<Rightarrow> long \<times> sq_event list \<Rightarrow>
   sq_item \<Rightarrow> ubuf \<Rightarrow> bool" where
  "outcome closed old q fe rest fe' item b \<longleftrightarrow>
     (\<exists>dropped got. (\<forall>e\<in>set dropped. old e) \<and> fe' = rem_events (int (length q)) (length dropped) got fe \<and>
        (if got then (\<exists>e. q = dropped @ e # rest \<and> shows_entry e item b)
         else q = dropped \<and> rest = [] \<and> item = empty_item closed))"

lemma outcome_drop:
  assumes e: "old e" and o: "outcome c old q (deq_events (int (length (e # q))) True fe) rest fe' it b"
  shows "outcome c old (e # q) fe rest fe' it b"
proof -
  from o obtain d got where d: "\<forall>x\<in>set d. old x" "fe' = rem_events (int (length q)) (length d) got (deq_events (int (length (e # q))) True fe)"
    "if got then \<exists>x. q = d @ x # rest \<and> shows_entry x it b else q = d \<and> rest = [] \<and> it = empty_item c"
    unfolding outcome_def by blast
  have "fe' = rem_events (int (length (e # q))) (length (e # d)) got fe" using d(2) by simp
  moreover have "if got then \<exists>x. e # q = (e # d) @ x # rest \<and> shows_entry x it b else e # q = e # d \<and> rest = [] \<and> it = empty_item c"
    using d(3) by (auto split: if_splits)
  moreover have "\<forall>x\<in>set (e # d). old x" using d(1) e by simp
  ultimately show ?thesis unfolding outcome_def by blast
qed

lemma outcome_mono:
  "outcome c old q fe rest fe' it b \<Longrightarrow> (\<And>x. old x \<Longrightarrow> old' x) \<Longrightarrow> outcome c old' q fe rest fe' it b"
  unfolding outcome_def by blast

lemma stale_cong:
  "stale c' clk' m e \<Longrightarrow> c' FLAGS AND FLAG_DISCARD_EXPIRED = c FLAGS AND FLAG_DISCARD_EXPIRED \<Longrightarrow>
   (\<And>i. i \<in> {LIMIT_SEC, LIMIT_NSEC, TARGET_SEC, TARGET_NSEC} \<Longrightarrow> c' i = c i) \<Longrightarrow> clk' = clk \<Longrightarrow> n \<le> m \<Longrightarrow>
   stale c clk n e"
proof -
  assume old: "stale c' clk' m e" and fl: "c' FLAGS AND FLAG_DISCARD_EXPIRED = c FLAGS AND FLAG_DISCARD_EXPIRED"
    and eq: "\<And>i. i \<in> {LIMIT_SEC, LIMIT_NSEC, TARGET_SEC, TARGET_NSEC} \<Longrightarrow> c' i = c i" and clk: "clk' = clk" and n: "n \<le> m"
  from old obtain k i where k: "m \<le> k" "i \<in> {LIMIT_SEC, TARGET_SEC}"
    "exceeds \<lparr>tv_sec = c' i, tv_nsec = c' (i + 1)\<rparr> (e_ts e) (clk' k)" and f: "c' FLAGS AND FLAG_DISCARD_EXPIRED \<noteq> 0"
    unfolding stale_def by blast
  have "c' i = c i" "c' (i + 1) = c (i + 1)" using k(2) by (auto intro!: eq)
  then have "exceeds \<lparr>tv_sec = c i, tv_nsec = c (i + 1)\<rparr> (e_ts e) (clk k)" using k(3) clk by simp
  moreover have "n \<le> k" using n k(1) by linarith
  ultimately show ?thesis unfolding stale_def using k(2) f fl by metis
qed

context deq_closing_gate
begin

lemma remove_loop_ok:
  assumes "queue_inv s g" and "ubuf_ok b" and "room s (8 * int (length (queue_of g)))"
    and "int (length (g_evs g)) + 2 * int (length (queue_of g)) \<le> SEM_VALUE_MAX"
  shows "\<exists>item b' t g'. remove_loop enter s (empty_item st) b = Some (item, b', t) \<and> queue_inv t g' \<and>
    ends rem_words (8 * int (length (queue_of g))) s t \<and>
    outcome closed (stale (cells s) (clock s) (clock_n s)) (queue_of g) (cells s FLAGS, g_evs g)
      (queue_of g') (cells t FLAGS, g_evs g') item b'"
  using assms
proof (induction "queue_of g" arbitrary: s g b st)
  case Nil
  have s: "inv s g" "clock_ok s" "sems s DEQ_SEM = 0"
    using Nil.prems(1) Nil.hyps by (simp_all add: queue_inv_def)
  from shuts [OF s] obtain t where t: "enter s = Some (closed, t)" "refuses s t" by blast
  have sh: "same_handle s t" "sems t = sems s" using t(2) by (simp_all add: refuses_def)
  note h = same_handle_ok [OF sh(1) s(1)]
  have "cells t COUNT = cells s COUNT" "cells t MAX_DEPTH = cells s MAX_DEPTH" using h(5) by simp_all
  then have "queue_inv t g" using Nil.prems(1) h(1,4) sh by (simp add: queue_inv_def same_handle_def)
  moreover have "remove_loop enter s (empty_item st) b = Some (empty_item closed, b, t)"
    using t(1) closed by (subst remove_loop.simps) (simp add: empty_item_def)
  moreover have "ends rem_words 0 s t" by (rule ends_mono [OF h(2)]) (auto simp: rem_words_def)
  moreover have "cells t FLAGS = cells s FLAGS" using h(5) [of FLAGS] by simp
  then have "outcome closed (stale (cells s) (clock s) (clock_n s)) [] (cells s FLAGS, g_evs g) []
      (cells t FLAGS, g_evs g) (empty_item closed) b"
    unfolding outcome_def by (intro exI [of _ "[]"] exI [of _ False]) simp
  ultimately show ?case using Nil.hyps [symmetric] by auto
next
  case (Cons e es)
  let ?old = "stale (cells s) (clock s) (clock_n s)"
  have len: "length (queue_of g) = Suc (length es)" using Cons.hyps(2) by (metis length_Cons)
  have pre: "queue_of g = e # es" "room s 8" "int (length (g_evs g)) + 2 \<le> SEM_VALUE_MAX"
    using Cons.hyps(2) Cons.prems(3,4) len by (simp_all add: room_used)
  obtain s1 it b' s2 s3 g' where r: "enter s = Some (SH_OK, s1)" "deq s1 b = Some (it, b', s2)"
    "enq_release_gate s2 = Some (SH_OK, s3)" "queue_inv s3 g'" "queue_of g' = es" "ubuf_ok b'" "ends rem_words 8 s s3"
    "\<exists>k\<ge>clock_n s. (if drops (cells s) (e_ts e) (clock s k) then it = empty_item SH_ERR_EXIST else shows_entry e it b') \<and>
      (cells s3 FLAGS, g_evs g') = deq_events (cells s COUNT) (drops (cells s) (e_ts e) (clock s k)) (cells s FLAGS, g_evs g)"
    "cells s3 FLAGS AND FLAG_DISCARD_EXPIRED = cells s FLAGS AND FLAG_DISCARD_EXPIRED"
    "length (g_evs g') \<le> length (g_evs g) + 2" "clock_n s \<le> clock_n s3"
    by (rule remove_step [OF Cons.prems(1) pre(1) Cons.prems(2) pre(2,3)])
  obtain k where k: "clock_n s \<le> k"
    "if drops (cells s) (e_ts e) (clock s k) then it = empty_item SH_ERR_EXIST else shows_entry e it b'"
    "(cells s3 FLAGS, g_evs g') = deq_events (cells s COUNT) (drops (cells s) (e_ts e) (clock s k)) (cells s FLAGS, g_evs g)"
    using r(8) by blast
  have cnt: "cells s COUNT = int (length (e # es))" using Cons.prems(1) pre(1) by (simp add: queue_inv_def)
  show ?case
  proof (cases "drops (cells s) (e_ts e) (clock s k)")
    case False
    then have sh: "shows_entry e it b'" using k(2) by simp
    then have "i_status it = SH_OK" by (simp add: shows_entry_def)
    then have "remove_loop enter s (empty_item st) b = Some (it\<lparr>i_status := SH_OK\<rparr>, b', s3)"
      using r(1-3) by (subst remove_loop.simps) simp
    moreover have "ends rem_words (8 * int (length (queue_of g))) s s3" by (rule ends_mono [OF r(7)]) (simp_all add: len)
    moreover have "shows_entry e (it\<lparr>i_status := SH_OK\<rparr>) b'" using sh by (simp add: shows_entry_def)
    then have "outcome closed ?old (queue_of g) (cells s FLAGS, g_evs g) (queue_of g') (cells s3 FLAGS, g_evs g') (it\<lparr>i_status := SH_OK\<rparr>) b'"
      using pre(1) r(5) k(3) False cnt unfolding outcome_def by (intro exI [of _ "[]"] exI [of _ True]) simp
    ultimately show ?thesis using r(4) by blast
  next
    case True
    then have it: "it = empty_item SH_ERR_EXIST" using k(2) by simp
    have old: "?old e" using True k(1) by (rule drops_stale [where clk = "clock s" and k = k])
    have "used s3 \<le> used s + 8" using r(7) by (simp add: ends_def)
    then have "room s3 (8 * int (length es))"
      using Cons.prems(3) len inv_parts(7) [of s3 g'] r(4) by (simp add: room_used queue_inv_def)
    moreover have "int (length (g_evs g')) + 2 * int (length es) \<le> SEM_VALUE_MAX" using r(10) Cons.prems(4) len by simp
    ultimately obtain item b2 t g2 where ih: "remove_loop enter s3 (empty_item SH_ERR_EXIST) b' = Some (item, b2, t)"
      "queue_inv t g2" "ends rem_words (8 * int (length es)) s3 t"
      "outcome closed (stale (cells s3) (clock s3) (clock_n s3)) es (cells s3 FLAGS, g_evs g') (queue_of g2) (cells t FLAGS, g_evs g2) item b2"
      using Cons.hyps(1) [OF r(5) [symmetric] r(4,6), of SH_ERR_EXIST] unfolding r(5) by blast
    have words: "cells s3 i = cells s i" if "i \<in> {LIMIT_SEC, LIMIT_NSEC, TARGET_SEC, TARGET_NSEC}" for i
      by (rule ends_word [OF r(7) _ rem_words_other]) (use that in auto)
    have clk: "clock s3 = clock s" using r(7) by (simp add: ends_def)
    have mono: "?old x" if "stale (cells s3) (clock s3) (clock_n s3) x" for x
      using that r(9) words clk r(11) by (rule stale_cong)
    have "outcome closed ?old es (cells s3 FLAGS, g_evs g') (queue_of g2) (cells t FLAGS, g_evs g2) item b2"
      using ih(4) mono by (rule outcome_mono)
    then have "outcome closed ?old es (deq_events (int (length (e # es))) True (cells s FLAGS, g_evs g)) (queue_of g2) (cells t FLAGS, g_evs g2) item b2"
      using k(3) True cnt by simp
    with old have "outcome closed ?old (e # es) (cells s FLAGS, g_evs g) (queue_of g2) (cells t FLAGS, g_evs g2) item b2"
      by (rule outcome_drop [where old = ?old])
    then have "outcome closed ?old (queue_of g) (cells s FLAGS, g_evs g) (queue_of g2) (cells t FLAGS, g_evs g2) item b2" unfolding pre(1) .
    moreover have "remove_loop enter s (empty_item st) b = Some (item, b2, t)"
      using r(1-3) it ih(1) by (subst remove_loop.simps) (simp add: empty_item_def)
    moreover have "ends rem_words (8 * int (length (queue_of g))) s t"
      by (rule ends_mono [OF ends_trans [OF r(7) ih(3)]]) (simp_all add: len)
    ultimately show ?thesis using ih(2) by blast
  qed
qed

end

end
