(* ===== verification/Creation.thy ===== *)
theory Creation
  imports Contracts
begin

text \<open>
  Creating a queue establishes the invariant: the lists a new object starts with, and the
  handle \<open>shr_q_create\<close> returns.
\<close>

section \<open>Priming a list\<close>

definition prime_cells :: "(int \<Rightarrow> long) \<Rightarrow> int \<Rightarrow> int \<Rightarrow> (int \<Rightarrow> long)" where
  "prime_cells c h t =
    (let d = c DATA_ALLOC; n = c ID_CNTR
     in c(DATA_ALLOC := d + 4, d := d, d + 1 := n, h := d, ID_CNTR := wrap64 (n + 1), h + 1 := n, t := d, t + 1 := n))"

lemma prime_cells_cong: "(\<And>i. 4 \<le> i \<Longrightarrow> c i = c' i) \<Longrightarrow> 4 \<le> i \<Longrightarrow> prime_cells c h t i = prime_cells c' h t i"
  by (simp add: prime_cells_def Let_def)

lemma hdr_pair_bounds: "hdr_pair t \<Longrightarrow> 4 \<le> t \<and> t + 1 < HDR_END \<and> t \<noteq> ID_CNTR \<and> t + 1 \<noteq> ID_CNTR"
  by (auto simp: hdr_pair_def)

lemma prime_list_ok:
  assumes ok: "base_ok s" "calm s" and d: "HDR_END \<le> cells s DATA_ALLOC" "cells s DATA_ALLOC + 4 \<le> 512"
    and h: "hdr_pair h" "hdr_pair t" "h \<noteq> t" "h \<noteq> DATA_ALLOC" "t \<noteq> DATA_ALLOC"
  obtains s' where "prime_list s 4 h (h + 1) t (t + 1) = Some s'" and "base_ok s'" and "calm s'" and "keeps s s'"
    and "\<And>i. 4 \<le> i \<Longrightarrow> cells s' i = prime_cells (cells s) h t i" and "cells s SIZE \<le> cells s' SIZE"
    and "\<And>i. i < 2 \<Longrightarrow> cells s' i = cells s i"
proof -
  let ?d = "cells s DATA_ALLOC"
  have b: "BASE \<le> ?d" and r: "?d + 2 * 4 + 512 \<le> 2 ^ 44" using d by simp_all
  have p: "0 < (4 :: int)" "(4 :: int) \<le> 2 ^ 44" by simp_all
  obtain v s1 where v: "alloc_new_data s 4 = Some (v, s1)" "base_ok s1" "keeps s s1" "cells s SIZE \<le> cells s1 SIZE"
    "v_status v = SH_OK \<Longrightarrow> v_slot v = ?d \<and> v_ext v = base_current s1 \<and>
      v_slot v + 4 < cur_slots s1 \<and> obj s1 = (obj s)(DATA_ALLOC := ?d + 4, ?d := 4)"
    "calm s \<Longrightarrow> ?d + 2 * 4 + 512 \<le> 2 ^ 44 \<Longrightarrow> v_status v = SH_OK \<and> calm s1"
    by (rule alloc_new_data_ok [OF ok(1) quiet_no_eintr [OF calm_quiet [OF ok(2)]] b p]) blast
  have c: "calm s1" "v_slot v = ?d" "obj s1 = (obj s)(DATA_ALLOC := ?d + 4, ?d := 4)"
    using v(5) v(6) [OF ok(2) r] by simp_all
  have m: "mapped s1 (base_current s) 512" using v(3) base_ok_cur_header [OF ok(1)] by (simp add: keeps_def)
  note hb = hdr_pair_bounds [OF h(1)] hdr_pair_bounds [OF h(2)]
  have ne: "h + 1 \<noteq> t" "t + 1 \<noteq> h" "h + 1 \<noteq> DATA_ALLOC" "t + 1 \<noteq> DATA_ALLOC"
    using hdr_pair_even [OF h(1)] hdr_pair_even [OF h(2)] by presburger+
  let ?n = "cells s1 ID_CNTR"
  let ?c = "(cells s1)(h := ?d, ID_CNTR := wrap64 (?n + 1), h + 1 := ?n, t := ?d, t + 1 := ?n, ?d := ?d, ?d + 1 := ?n)"
  have run: "prime_list s 4 h (h + 1) t (t + 1) = Some (s1\<lparr>cells := ?c\<rparr>)"
    using m hb ne d h c(2) by (simp add: prime_list_def v(1) exec)
  have n: "?n = obj s ID_CNTR" using fun_cong [OF c(3), of ID_CNTR] d(1) by (simp add: obj_def)
  have size: "?c SIZE = cells s1 SIZE" "?c EXPAND_SIZE = cells s1 EXPAND_SIZE" using hb d(1) by auto
  show thesis
  proof (rule that [OF run])
    show "base_ok (s1\<lparr>cells := ?c\<rparr>)" using v(2) base_ok_cells [of ?c s1, OF size] by simp
    show "calm (s1\<lparr>cells := ?c\<rparr>)" using c(1) size by (simp add: calm_def)
    show "keeps s (s1\<lparr>cells := ?c\<rparr>)" by (rule keeps_trans [OF v(3) keeps_cells(1)])
    show "cells s SIZE \<le> cells (s1\<lparr>cells := ?c\<rparr>) SIZE" using v(4) size(1) by simp
    have od: "obj s DATA_ALLOC = ?d" by (simp add: obj_def)
    have "obj (s1\<lparr>cells := ?c\<rparr>) = (obj s1)(h := ?d, ID_CNTR := wrap64 (?n + 1), h + 1 := ?n, t := ?d, t + 1 := ?n, ?d := ?d, ?d + 1 := ?n)"
      using hb d(1) by (auto simp: obj_def fun_eq_iff)
    then have o: "obj (s1\<lparr>cells := ?c\<rparr>) = prime_cells (obj s) h t"
      unfolding c(3) prime_cells_def Let_def od n using hb d(1) h ne by (auto simp: fun_eq_iff)
    fix i :: int assume i: "4 \<le> i"
    have "cells (s1\<lparr>cells := ?c\<rparr>) i = obj (s1\<lparr>cells := ?c\<rparr>) i" using i by (intro obj_eq [symmetric]) simp_all
    also have "\<dots> = prime_cells (cells s) h t i" unfolding o by (rule prime_cells_cong [OF _ i]) (simp add: obj_def)
    finally show "cells (s1\<lparr>cells := ?c\<rparr>) i = prime_cells (cells s) h t i" .
  next
    fix i :: int assume i: "i < 2"
    have "cells s1 i = obj s1 i" using i by (intro obj_eq [symmetric]) simp_all
    also have "\<dots> = cells s i" using i d(1) by (simp add: c(3)) (simp add: obj_def)
    finally show "cells (s1\<lparr>cells := ?c\<rparr>) i = cells s i" using i hb d(1) by simp
  qed
qed

section \<open>The new queue\<close>

text \<open>Every list has its first node and nothing else is in use.\<close>

definition empty_ghost :: ghost where
  "empty_ghost = \<lparr>g_list = (\<lambda>w. case w of Free \<Rightarrow> [164] | Events \<Rightarrow> [168] | Items \<Rightarrow> [172]), g_stack = [], g_pool = (\<lambda>_. []),
     g_fifo = [], g_lifo = [], g_evs = [], g_held = [], g_loose = [], g_loose_blks = []\<rparr>"

definition fresh_cells :: "int \<Rightarrow> int \<Rightarrow> long" where
  "fresh_cells d = (\<lambda>_. 0)(DATA_ALLOC := 176, ID_CNTR := 3, MAX_DEPTH := d,
     FREE_HEAD := 164, FREE_HD_CNT := 0, FREE_TAIL := 164, FREE_TL_CNT := 0, 164 := 164,
     EVENT_HEAD := 168, EVENT_HD_CNT := 1, EVENT_TAIL := 168, EVENT_TL_CNT := 1, 168 := 168, 169 := 1,
     HEAD := 172, HEAD_CNT := 2, TAIL := 172, TAIL_CNT := 2, 172 := 172, 173 := 2)"

lemma bucket_fresh: "2 \<le> k \<Longrightarrow> k < 50 \<Longrightarrow> fresh_cells d (bucket k) = 0"
  using bucket_range [of k] by (simp add: fresh_cells_def)

lemma fresh_heap:
  assumes c: "\<And>i. 4 \<le> i \<Longrightarrow> c i = fresh_cells d i"
  shows "heap_inv c empty_ghost"
proof (rule heap_invI)
  have regs: "regs empty_ghost = {#(164, 4), (172, 4), (168, 4)#}"
    by (simp add: regs_def nodes_def blks_def pool_regs_def empty_ghost_def)
  show "regs_ok c empty_ghost"
    unfolding regs_ok_def regs by (simp add: disj_def reg_ok_def c) (simp add: fresh_cells_def blks_def empty_ghost_def)
  show "lists_ok c empty_ghost"
    unfolding lists_ok_def
  proof
    fix w show "list_rep c (hd_slot w) (tl_slot w) (g_list empty_ghost w)"
      by (cases w) (simp_all add: list_rep_def empty_ghost_def c, simp_all add: fresh_cells_def)
  qed
  have "c STACK_HEAD = 0" by (simp add: c) (simp add: fresh_cells_def)
  moreover have "c (bucket k) = 0" if "2 \<le> k" "k < 50" for k
    using c [of "bucket k"] bucket_fresh [OF that] bucket_range [OF that] by simp
  ultimately show "stacks_ok c empty_ghost" by (simp add: stacks_ok_def stack_rep_Nil empty_ghost_def)
  show "items_ok c empty_ghost" by (simp add: items_ok_def empty_ghost_def)
  show "events_ok c empty_ghost" by (simp add: events_ok_def empty_ghost_def)
qed

lemma mode_upd [simp]: "base_ok (s\<lparr>mode := x\<rparr>) = base_ok s" "calm (s\<lparr>mode := x\<rparr>) = calm s" "quiet (s\<lparr>mode := x\<rparr>) = quiet s"
  by (simp_all add: base_ok_def extent_ok_def calm_def quiet_def)

lemma sem_init_ok:
  assumes "quiet s" and "mapped s a 512" and "0 \<le> i" "i < 512" and "v \<le> SEM_VALUE_MAX"
  shows "sem_init s a i v = Some (None, s\<lparr>os_n := Suc (os_n s), sems := (sems s)(i := v)\<rparr>)"
  using in_mapI [OF assms(2-4)] assms(1,5) by (simp add: sem_init_def quiet_os_call)

lemma format_ok:
  assumes ok: "base_ok s" "calm s" and z: "\<And>i. 4 \<le> i \<Longrightarrow> i \<noteq> DATA_ALLOC \<Longrightarrow> cells s i = 0" and d: "0 \<le> depth" "depth \<le> SEM_VALUE_MAX"
  defines "n \<equiv> (if depth = 0 then SEM_VALUE_MAX else depth)"
  obtains t where "format_as_queue s depth md = Some (SH_OK, t)" and "base_ok t" and "calm t" and "mode t = md"
    and "accessors t = accessors s" and "clock t = clock s" and "clock_n t = clock_n s" and "my_pid t = my_pid s"
    and "signals t = signals s" and "sems t = (sems s)(DEQ_SEM := 0, ENQ_SEM := n, EVNT_SEM := 0)"
    and "\<And>i. 4 \<le> i \<Longrightarrow> cells t i = fresh_cells n i" and "\<And>i. i < 2 \<Longrightarrow> cells t i = cells s i"
proof -
  note m = base_ok_cur_header [OF ok(1)]
  let ?s1 = "s\<lparr>cells := (cells s)(DATA_ALLOC := HDR_END)\<rparr>"
  have s1: "base_ok ?s1" "calm ?s1" using ok by (simp_all add: calm_def)
  let ?c2 = "(\<lambda>_. 0)(DATA_ALLOC := 168, ID_CNTR := 1, FREE_HEAD := 164, FREE_TAIL := 164, 164 := 164) :: int \<Rightarrow> long"
  obtain s2 where s2: "prime_list ?s1 4 FREE_HEAD (FREE_HEAD + 1) FREE_TAIL (FREE_TAIL + 1) = Some s2"
    "base_ok s2" "calm s2" "keeps ?s1 s2" "\<And>i. 4 \<le> i \<Longrightarrow> cells s2 i = prime_cells (cells ?s1) FREE_HEAD FREE_TAIL i"
    "\<And>i. i < 2 \<Longrightarrow> cells s2 i = cells ?s1 i"
    by (rule prime_list_ok [OF s1, of FREE_HEAD FREE_TAIL]) simp_all
  have c2: "cells s2 i = ?c2 i" if "4 \<le> i" for i
    using that by (simp add: s2(5)) (simp add: prime_cells_def z)
  have m2: "mapped s2 (base_current s2) 512" by (rule base_ok_cur_header [OF s2(2)])
  let ?s3 = "s2\<lparr>mode := md, os_n := os_n s2 + 3, cells := (cells s2)(MAX_DEPTH := n),
    sems := (sems s)(DEQ_SEM := 0, ENQ_SEM := n, EVNT_SEM := 0)\<rparr>"
  have s3: "base_ok ?s3" "calm ?s3" using s2(2,3) by (simp_all add: calm_def)
  obtain s4 where s4: "prime_list ?s3 4 EVENT_HEAD (EVENT_HEAD + 1) EVENT_TAIL (EVENT_TAIL + 1) = Some s4"
    "base_ok s4" "calm s4" "keeps ?s3 s4" "\<And>i. 4 \<le> i \<Longrightarrow> cells s4 i = prime_cells (cells ?s3) EVENT_HEAD EVENT_TAIL i"
    "\<And>i. i < 2 \<Longrightarrow> cells s4 i = cells ?s3 i"
    by (rule prime_list_ok [OF s3, of EVENT_HEAD EVENT_TAIL]) (simp_all add: c2)
  let ?c4 = "?c2(DATA_ALLOC := 172, ID_CNTR := 2, MAX_DEPTH := n, EVENT_HEAD := 168, EVENT_HD_CNT := 1, EVENT_TAIL := 168,
    EVENT_TL_CNT := 1, 168 := 168, 169 := 1)"
  have c4: "cells s4 i = ?c4 i" if "4 \<le> i" for i
    using that by (simp add: s4(5)) (simp add: prime_cells_def c2)
  obtain s5 where s5: "prime_list s4 4 HEAD (HEAD + 1) TAIL (TAIL + 1) = Some s5"
    "base_ok s5" "calm s5" "keeps s4 s5" "\<And>i. 4 \<le> i \<Longrightarrow> cells s5 i = prime_cells (cells s4) HEAD TAIL i"
    "\<And>i. i < 2 \<Longrightarrow> cells s5 i = cells s4 i"
    by (rule prime_list_ok [OF s4(2,3), of HEAD TAIL]) (simp_all add: c4)
  have c5: "cells s5 i = fresh_cells n i" if "4 \<le> i" for i
    using that by (simp add: s5(5)) (simp add: prime_cells_def c4 fresh_cells_def)
  have k: "keeps ?s1 s2" "keeps ?s3 s4" "keeps s4 s5" by (rule s2 s4 s5)+
  have n: "n \<le> SEM_VALUE_MAX" using d by (simp add: n_def)
  have q2: "quiet s2" by (rule calm_quiet [OF s2(3)])
  have run: "format_as_queue s depth md = Some (SH_OK, s5)"
  proof -
    have i: "init_data_allocator s HDR_END = Some s2"
      using s2(1) m by (simp add: init_data_allocator_def exec)
    have e: "?s3 = s2\<lparr>mode := md, cells := (cells s2)(MAX_DEPTH := n), os_n := Suc (Suc (Suc (os_n s2))),
        sems := (sems s2)(DEQ_SEM := 0, ENQ_SEM := n, EVNT_SEM := 0)\<rparr>"
      using k(1) by (intro qstate.equality) (simp_all add: keeps_def)
    show ?thesis
      using q2 m2 n s4(1) s5(1) unfolding e
      by (simp add: format_as_queue_def i sem_init_ok wr_mapped Let_def flip: n_def)
  qed
  show thesis
    by (rule that [OF run s5(2,3)]) (use k c5 s2(6) s4(6) s5(6) in \<open>simp_all add: keeps_def\<close>)
qed

section \<open>The abstract state of a queue\<close>

text \<open>What a caller knows: the time stamps and payloads in the order they will be removed, and the
  events not yet collected.\<close>

definition contents :: "ghost \<Rightarrow> (timespec \<times> payload) list" where
  "contents g = map (\<lambda>e. (e_ts e, e_val e)) (queue_of g)"

definition queue_holds :: "qstate \<Rightarrow> (timespec \<times> payload) list \<Rightarrow> sq_event list \<Rightarrow> bool" where
  "queue_holds s q evs \<longleftrightarrow> (\<exists>g. queue_inv s g \<and> contents g = q \<and> g_evs g = evs)"

lemma fresh_inv:
  assumes "base_ok t" and "calm t" and c: "\<And>i. 4 \<le> i \<Longrightarrow> cells t i = fresh_cells d i" and size: "cells s SIZE \<le> cells t SIZE"
  shows "inv t empty_ghost"
  unfolding inv_def
proof (intro conjI assms(1,2))
  have "512 \<le> cells t SIZE" by (rule base_ok_bounds(6) [OF assms(1)])
  then show "cells t DATA_ALLOC \<le> cells t SIZE" by (simp add: c) (simp add: fresh_cells_def)
  show "heap_inv (obj t) empty_ghost"
    by (rule fresh_heap [where d = d]) (simp add: c obj_def)
qed

section \<open>Creating\<close>

text \<open>A process in an environment where no call fails.\<close>

text \<open>The first two words tell a queue of this version from anything else.\<close>

definition branded :: "(int \<Rightarrow> long) \<Rightarrow> bool" where
  "branded c \<longleftrightarrow> get_bytes c TAG 4 = SHRQ \<and> c VERSION = QVERSION"

lemma branded_cong: "c TAG = c' TAG \<Longrightarrow> c VERSION = c' VERSION \<Longrightarrow> branded c = branded c'"
  by (simp add: branded_def get_bytes_def slots_of_def)

definition new_queue :: "int \<Rightarrow> int \<Rightarrow> qstate \<Rightarrow> qstate \<Rightarrow> bool" where
  "new_queue depth md p t \<longleftrightarrow>
     queue_holds t [] [] \<and> mode t = md \<and> accessors t = 0 \<and> clock t = clock p \<and> clock_n t = clock_n p \<and>
     my_pid t = my_pid p \<and> branded (cells t) \<and>
     (\<forall>i\<ge>4. cells t i = fresh_cells (if depth = 0 then SEM_VALUE_MAX else depth) i)"

lemma create_base_ok:
  assumes q: "quiet p" and free: "fs (object_path nm) = None"
  obtains s where "create_base_object fs nm SHRQ QVERSION (no_handle p) =
      Some (SH_OK, fs(object_path nm := Some \<lparr>so_cells = \<lambda>_. 0, so_size = 4096, so_sems = \<lambda>_. 0\<rparr>), s)"
    and "base_ok s" and "calm s" and "accessors s = 0" and "clock s = clock p" and "clock_n s = clock_n p" and "my_pid s = my_pid p"
    and "\<And>i. 4 \<le> i \<Longrightarrow> i \<noteq> DATA_ALLOC \<Longrightarrow> cells s i = 0" and "sems s = (\<lambda>_. 0)"
    and "branded (cells s)"
proof -
  have q': "osr p k = None" for k using q by (simp add: quiet_def)
  let ?e = "\<lparr>e_next = None, e_size = 4096, e_slots = 512\<rparr>"
  let ?s = "p\<lparr>accessors := 0, mode := 0, cells := \<lambda>_. 0, sems := \<lambda>_. 0, fsize := 4096, fresh_ext := Suc (Suc 0),
    os_n := Suc (Suc (Suc (Suc (Suc (Suc (os_n p)))))), extents := [Suc 0 \<mapsto> ?e], base_current := Suc 0, base_prev := Suc 0\<rparr>"
  let ?c = "put_bytes ((\<lambda>_. 0)(SIZE := 512, EXPAND_SIZE := 4096, DATA_ALLOC := BASE, VERSION := QVERSION)) TAG SHRQ"
  have other: "?c i = ((\<lambda>_. 0)(SIZE := 512, EXPAND_SIZE := 4096, DATA_ALLOC := BASE, VERSION := QVERSION)) i" if "0 < i" for i
    by (rule put_bytes_other) (use that in \<open>simp add: SHRQ_def slots_of_def\<close>)
  show thesis
  proof (rule that [of "?s\<lparr>cells := ?c\<rparr>"])
    show "create_base_object fs nm SHRQ QVERSION (no_handle p) =
      Some (SH_OK, fs(object_path nm := Some \<lparr>so_cells = \<lambda>_. 0, so_size = 4096, so_sems = \<lambda>_. 0\<rparr>), ?s\<lparr>cells := ?c\<rparr>)"
      using free q'
      by (simp add: create_base_object_def init_base_struct_def os_call_def allocate_shared_memory_def
          shm_create_def create_extent_def mmap_result_def no_handle_def attach_def do_ftruncate_def detach_def Let_def
          wr_def in_map_def mapped_def store_bytes_def SHRQ_def slots_of_def)
    have "\<exists>rs. ext_path (extents ?s) (base_current ?s) (base_prev ?s) rs \<and> distinct rs" by (intro exI [of _ "[]"]) simp
    then show b: "base_ok (?s\<lparr>cells := ?c\<rparr>)" by (simp add: base_ok_def extent_ok_def other)
    show "calm (?s\<lparr>cells := ?c\<rparr>)" using q by (simp add: calm_def other quiet_def)
    have "get_bytes ?c TAG (length SHRQ) = SHRQ" by (rule get_put_bytes)
    moreover have "length SHRQ = 4" "?c VERSION = QVERSION" using other [of VERSION] by (simp_all add: SHRQ_def)
    ultimately show "branded (cells (?s\<lparr>cells := ?c\<rparr>))" by (simp add: branded_def)
  qed (simp_all add: other)
qed

lemma fresh_queue:
  assumes t: "base_ok t" "calm t" "clock_ok t" "accessors t = 0" and c: "\<And>i. 4 \<le> i \<Longrightarrow> cells t i = fresh_cells n i"
    and se: "sems t DEQ_SEM = 0" "sems t ENQ_SEM = n" "sems t EVNT_SEM = 0" and n: "0 < n" "n \<le> SEM_VALUE_MAX"
  shows "queue_holds t [] []"
proof -
  have i: "inv t empty_ghost" by (rule fresh_inv [OF t(1,2) c order_refl])
  have w: "cells t COUNT = 0" "cells t MAX_DEPTH = n" using c [of COUNT] c [of MAX_DEPTH] by (simp_all add: fresh_cells_def)
  have g: "g_held empty_ghost = []" "g_loose empty_ghost = []" "g_loose_blks empty_ghost = []" "queue_of empty_ghost = []"
    "g_evs empty_ghost = []"
    by (simp_all add: empty_ghost_def queue_of_def)
  have "queue_inv t empty_ghost" using i w g t(3,4) se n by (simp add: queue_inv_def in_long_def)
  then show ?thesis using g by (auto simp: queue_holds_def contents_def)
qed

lemma create_run:
  assumes q: "quiet p" "clock_ok p" and nm: "NUL \<notin> set nm" "nm \<noteq> []" "length nm \<le> 4096" and free: "fs (object_path nm) = None"
    and d: "0 \<le> depth" "depth \<le> SEM_VALUE_MAX"
  obtains t where "shr_q_create fs (Some nm) depth md p = Some (SH_OK, Some t, fs(object_path nm := Some (detach t)), t)"
    and "new_queue depth md p t"
proof -
  let ?n = "if depth = 0 then SEM_VALUE_MAX else depth"
  obtain s where s: "create_base_object fs nm SHRQ QVERSION (no_handle p) =
      Some (SH_OK, fs(object_path nm := Some \<lparr>so_cells = \<lambda>_. 0, so_size = 4096, so_sems = \<lambda>_. 0\<rparr>), s)"
    "base_ok s" "calm s" "accessors s = 0" "clock s = clock p" "clock_n s = clock_n p" "my_pid s = my_pid p"
    "\<And>i. 4 \<le> i \<Longrightarrow> i \<noteq> DATA_ALLOC \<Longrightarrow> cells s i = 0" "sems s = (\<lambda>_. 0)" "branded (cells s)"
    by (rule create_base_ok [where fs = fs and nm = nm, OF q(1) free]) blast
  obtain t where t: "format_as_queue s depth md = Some (SH_OK, t)" "base_ok t" "calm t" "mode t = md"
    "accessors t = accessors s" "clock t = clock s" "clock_n t = clock_n s" "my_pid t = my_pid s"
    "signals t = signals s" "sems t = (sems s)(DEQ_SEM := 0, ENQ_SEM := ?n, EVNT_SEM := 0)"
    "\<And>i. 4 \<le> i \<Longrightarrow> cells t i = fresh_cells ?n i" "\<And>i. i < 2 \<Longrightarrow> cells t i = cells s i"
    by (rule format_ok [OF s(2,3,8) d, of md]) blast+
  have "clock_ok t" using q(2) t(6) s(5) by (simp add: clock_ok_def)
  then have "queue_holds t [] []"
    using t(5,10) s(4) d by (intro fresh_queue [OF t(2,3) _ _ t(11)]) simp_all
  moreover have "branded (cells t)" using branded_cong [of "cells t" "cells s"] t(12) s(10) by simp
  ultimately have "new_queue depth md p t" using t s by (simp add: new_queue_def)
  moreover have "shr_q_create fs (Some nm) depth md p = Some (SH_OK, Some t, fs(object_path nm := Some (detach t)), t)"
    using perform_name_validations_eq [OF nm(1), of "stat_objects fs" False] nm(2,3) d(2) s(1) t(1) free
    by (simp add: shr_q_create_def stat_objects_def write_back_def)
  ultimately show thesis by (rule that [rotated])
qed

text \<open>A process for the examples: no call fails, and its clock moves by a second with each reading.\<close>

definition sample_process :: qstate where
  "sample_process = (sample_state (\<lambda>_. 0))\<lparr>clock := \<lambda>k. \<lparr>tv_sec = min (int k) 1000000, tv_nsec = 0\<rparr>\<rparr>"

lemma sample_process_ok [simp]: "quiet sample_process" "clock_ok sample_process"
  by (auto simp: sample_process_def quiet_def clock_ok_def sample_state_def in_long_def min_def)



text \<open>A queue of depth 2, open for reading and writing, that the examples below use.\<close>

definition sample_queue :: qstate where
  "sample_queue = snd (the (format_as_queue (snd (snd (the (create_base_object (\<lambda>_. None) ''jobs'' SHRQ QVERSION
     (no_handle sample_process))))) 2 3))"

lemma sample_queue_new: "new_queue 2 3 sample_process sample_queue"
proof -
  have e: "quiet sample_process" "clock_ok sample_process" "NUL \<notin> set ''jobs''" "''jobs'' \<noteq> []"
    "length ''jobs'' \<le> 4096" "(\<lambda>_. None) (object_path ''jobs'') = None" "(0::int) \<le> 2" "(2::int) \<le> SEM_VALUE_MAX"
    by (simp_all add: NUL_def)
  obtain t where t: "shr_q_create (\<lambda>_. None) (Some ''jobs'') 2 3 sample_process =
      Some (SH_OK, Some t, (\<lambda>_. None)(object_path ''jobs'' := Some (detach t)), t)"
    "new_queue 2 3 sample_process t"
    by (rule create_run [OF e, of 3])
  have "t = sample_queue"
    using t(1) by (auto simp: shr_q_create_def sample_queue_def split: option.splits Option.bind_splits if_splits)
  with t(2) show ?thesis by simp
qed

lemma sample_queue_simps [simp]:
  "queue_holds sample_queue [] []" "mode sample_queue = 3" "accessors sample_queue = 0" "clock_n sample_queue = 0"
  "branded (cells sample_queue)" "clock sample_queue = (\<lambda>k. \<lparr>tv_sec = min (int k) 1000000, tv_nsec = 0\<rparr>)" "4 \<le> i \<Longrightarrow> cells sample_queue i = fresh_cells 2 i"
  using sample_queue_new by (simp_all add: new_queue_def sample_process_def sample_state_def)

lemma sample_queue_room: "n \<le> 2 ^ 40 \<Longrightarrow> room sample_queue n"
  by (simp add: room_def) (simp add: fresh_cells_def)

end
