(* ===== verification/Adding.thy ===== *)
theory Adding
  imports Creation
begin

text \<open>
  What the six functions that add do to an open queue: the laws of theory Contracts,
  interpreted on the gates of the code, and the properties of the public functions.
\<close>

section \<open>The operations that add\<close>

lemma added_mono: "added v n s g t g' \<Longrightarrow> n \<le> m \<Longrightarrow> added v m s g t g'"
  unfolding added_def using ends_mono [of _ n s t _ m] by blast

lemma room_mono: "room s n \<Longrightarrow> m \<le> n \<Longrightarrow> room s m"
  by (simp add: room_used)

text \<open>The slots a value or a vector may take, as the power of two above its size.\<close>

definition value_room :: "int \<Rightarrow> int" where
  "value_room len = 2 * (7 + slots_of len) + 16"

definition vector_room :: "vec list \<Rightarrow> int" where
  "vector_room vs = 2 * calc_vector_slots vs + 16"

lemma adder_value:
  assumes len: "0 < len" "len \<le> int (length bytes)" and fit: "7 + slots_of len \<le> 2 ^ 30" and t: "0 \<le> type" "type < 2 ^ 32"
  shows "adder (\<lambda>s. enq s (Some bytes) len type) (Value type (take (nat len) bytes)) (value_room len)"
proof -
  have pos: "0 < slots_of len" by (rule slots_of_pos [OF len(1)])
  then obtain k where k: "fits_exp (7 + slots_of len) k" using fits_exp_ex [of "7 + slots_of len"] fit by auto
  have le: "2 ^ k + 16 \<le> value_room len" using fits_exp_bounds [OF k] by (simp add: value_room_def)
  show ?thesis
    unfolding adder_def
  proof (intro conjI allI impI)
    show "0 \<le> value_room len" using pos by (simp add: value_room_def)
    fix s g
    assume a: "inv s g \<and> clock_ok s \<and> room s (value_room len) \<and> sems s EVNT_SEM + 3 \<le> SEM_VALUE_MAX \<and>
      0 \<le> cells s COUNT \<and> cells s COUNT < 2 ^ 62"
    then have r: "room s (2 ^ k + 16)" using le room_mono by blast
    from a have p: "inv s g" "clock_ok s" "sems s EVNT_SEM + 3 \<le> SEM_VALUE_MAX" "0 \<le> cells s COUNT" "cells s COUNT < 2 ^ 62" by auto
    obtain s' g' where "enq s (Some bytes) len type = Some (SH_OK, s')"
      "added (Value type (take (nat len) bytes)) (2 ^ k + 16) s g s' g'"
      by (rule enq_ok [OF p(1,2) k r p(3) len t p(4,5)])
    with added_mono [OF this(2) le]
    show "\<exists>s' g'. enq s (Some bytes) len type = Some (SH_OK, s') \<and> added (Value type (take (nat len) bytes)) (value_room len) s g s' g'"
      by blast
  qed
qed

text \<open>One element is stored as a plain value.\<close>

fun vector_payload :: "vec list \<Rightarrow> payload" where
  "vector_payload [v] = Value (vec_type v) (snd (vec_entry v))"
| "vector_payload vs = Vector (map vec_entry vs)"

lemma calc_vector_single: "vec_ok v \<Longrightarrow> 7 + slots_of (vec_len v) \<le> calc_vector_slots [v]"
  using slots_of_step [of "vec_len v"] by (simp add: calc_vector_slots_def split: if_splits)

lemma adder_vector:
  assumes vs: "vs \<noteq> []" "\<forall>v\<in>set vs. vec_ok v" "\<forall>v\<in>set vs. vec_type v < 2 ^ 32" and fit: "calc_vector_slots vs \<le> 2 ^ 30"
  shows "adder (enq_elements (Some vs) (int (length vs))) (vector_payload vs) (vector_room vs)"
proof (cases "length vs = 1")
  case True
  then obtain v where v: "vs = [v]" by (cases vs) auto
  then obtain bytes where b: "vec_base v = Some bytes" "0 < vec_len v" "vec_len v \<le> int (length bytes)" "0 < vec_type v"
    using vs(2) by (auto simp: vec_ok_def split: option.splits)
  have c: "7 + slots_of (vec_len v) \<le> calc_vector_slots vs" using calc_vector_single vs(2) v by simp
  have "adder (\<lambda>s. enq s (Some bytes) (vec_len v) (vec_type v)) (Value (vec_type v) (take (nat (vec_len v)) bytes)) (value_room (vec_len v))"
    by (rule adder_value) (use b c fit vs(3) v in auto)
  moreover have "value_room (vec_len v) \<le> vector_room vs" using c by (simp add: value_room_def vector_room_def)
  ultimately have "adder (\<lambda>s. enq s (Some bytes) (vec_len v) (vec_type v)) (Value (vec_type v) (take (nat (vec_len v)) bytes)) (vector_room vs)"
    unfolding adder_def using added_mono room_mono by (smt (verit))
  moreover have "enq_elements (Some vs) (int (length vs)) = (\<lambda>s. enq s (Some bytes) (vec_len v) (vec_type v))"
    using v b by (auto simp: enq_elements_def)
  ultimately show ?thesis using v b by (simp add: vec_entry_def)
next
  case False
  then have l: "2 \<le> length vs" using vs(1) by (cases vs) (auto simp: Suc_le_eq)
  then have p: "vector_payload vs = Vector (map vec_entry vs)" by (cases vs rule: vector_payload.cases) auto
  have e: "enq_elements (Some vs) (int (length vs)) = (\<lambda>s. enqv s (Some vs) (int (length vs)))"
    using False by (auto simp: enq_elements_def)
  have pos: "1 \<le> calc_vector_slots vs"
    using calc_vector_slots_ge [OF vs(2), of 7] area_slots_nonneg [of "Vector (map vec_entry vs)"] by (simp add: calc_vector_slots_def)
  then obtain k where k: "fits_exp (calc_vector_slots vs) k" using fits_exp_ex fit by blast
  have le: "2 ^ k + 16 \<le> vector_room vs" using fits_exp_bounds [OF k] by (simp add: vector_room_def)
  show ?thesis
    unfolding adder_def e p
  proof (intro conjI allI impI)
    show "0 \<le> vector_room vs" using pos by (simp add: vector_room_def)
    fix s g
    assume a: "inv s g \<and> clock_ok s \<and> room s (vector_room vs) \<and> sems s EVNT_SEM + 3 \<le> SEM_VALUE_MAX \<and>
      0 \<le> cells s COUNT \<and> cells s COUNT < 2 ^ 62"
    then have r: "room s (2 ^ k + 16)" using le room_mono by blast
    from a have q: "inv s g" "clock_ok s" "sems s EVNT_SEM + 3 \<le> SEM_VALUE_MAX" "0 \<le> cells s COUNT" "cells s COUNT < 2 ^ 62" by auto
    obtain s' g' where "enqv s (Some vs) (int (length vs)) = Some (SH_OK, s')"
      "added (Vector (map vec_entry vs)) (2 ^ k + 16) s g s' g'"
      by (rule enqv_ok [OF q(1,2) k r q(3) l vs(2,3) q(4,5)])
    with added_mono [OF this(2) le]
    show "\<exists>s' g'. enqv s (Some vs) (int (length vs)) = Some (SH_OK, s') \<and> added (Vector (map vec_entry vs)) (vector_room vs) s g s' g'"
      by blast
  qed
qed

section \<open>The gates of the code\<close>

interpretation enq_try_add: enq_closing_gate enq_gate_try SH_ERR_LIMIT ..

interpretation enq_blk_add: enq_gate enq_gate_blk ..

interpretation enq_tm_add: enq_gate "\<lambda>s. enq_gate_tm s t" for t ..

section \<open>What a caller sees\<close>

definition put_item :: "bool \<Rightarrow> timespec \<times> payload \<Rightarrow> (timespec \<times> payload) list \<Rightarrow> (timespec \<times> payload) list" where
  "put_item lifo x q = (if lifo then x # q else q @ [x])"

text \<open>The queue accepted \<open>v\<close>, stamped with a time read during the call: it is last, or first when
  adaptive LIFO is on and the level reached.\<close>

definition accepted :: "payload \<Rightarrow> int \<Rightarrow> qstate \<Rightarrow> (timespec \<times> payload) list \<Rightarrow> sq_event list \<Rightarrow> qstate \<Rightarrow> bool" where
  "accepted v n s q evs t \<longleftrightarrow>
     (\<exists>k\<ge>clock_n s. queue_holds t (put_item (lifo_now (cells s)) (clock s k, v) q)
        (snd (add_events (cells s) (cells s FLAGS, evs)))) \<and>
     cells t FLAGS = fst (add_events (cells s) (cells s FLAGS, evs)) \<and> ends add_words n s t"

text \<open>It is as it was.\<close>

definition untouched :: "qstate \<Rightarrow> (timespec \<times> payload) list \<Rightarrow> sq_event list \<Rightarrow> qstate \<Rightarrow> bool" where
  "untouched s q evs t \<longleftrightarrow> queue_holds t q evs \<and> ends {CALL_BLOCKS, CALL_UNBLOCKS} 0 s t"

lemma queue_holds_count: "queue_holds s q evs \<Longrightarrow> cells s COUNT = int (length q) \<and> cells s COUNT \<le> cells s MAX_DEPTH"
  by (auto simp: queue_holds_def queue_inv_def contents_def)

lemma add_result_accepted:
  assumes "add_result v m s g t g'" and "contents g = q" and "g_evs g = evs"
  shows "accepted v (m + 4) s q evs t"
proof -
  from assms(1) obtain e k where a: "queue_inv t g'" "ends add_words (m + 4) s t" "e_val e = v" "clock_n s \<le> k" "e_ts e = clock s k"
    "puts (lifo_now (cells s)) e g g'" "(cells t FLAGS, g_evs g') = add_events (cells s) (cells s FLAGS, g_evs g)"
    by (auto simp: add_result_def)
  have "contents g' = put_item (lifo_now (cells s)) (clock s k, v) q"
    using a(3,5,6) assms(2) by (auto simp: contents_def puts_def queue_of_def put_item_def split: if_splits)
  moreover have "cells t FLAGS = fst (add_events (cells s) (cells s FLAGS, evs))" "g_evs g' = snd (add_events (cells s) (cells s FLAGS, evs))"
    using a(7) assms(3) by (metis fst_conv, metis snd_conv)
  ultimately show ?thesis using a(1,2,4) by (auto simp: accepted_def queue_holds_def)
qed

text \<open>There is room for \<open>n\<close> more slots and for four more events.\<close>

definition has_room :: "int \<Rightarrow> qstate \<Rightarrow> sq_event list \<Rightarrow> bool" where
  "has_room n s evs \<longleftrightarrow> room s n \<and> int (length evs) + 4 \<le> SEM_VALUE_MAX"

context enq_gate
begin

lemma add_accepts:
  assumes "queue_holds s q evs" and "int (length q) < cells s MAX_DEPTH" and "has_room (m + 4) s evs" and "adder add v m"
  shows "\<exists>t. add_through s enter add = Some (SH_OK, t) \<and> accepted v (m + 4) s q evs t"
proof -
  from assms(1) obtain g where g: "queue_inv s g" "contents g = q" "g_evs g = evs" by (auto simp: queue_holds_def)
  have "cells s COUNT < cells s MAX_DEPTH" "room s (m + 4)" "int (length (g_evs g)) + 4 \<le> SEM_VALUE_MAX"
    using queue_holds_count [OF assms(1)] assms(2,3) g(3) by (simp_all add: has_room_def)
  then obtain t g' where "add_through s enter add = Some (SH_OK, t)" "add_result v m s g t g'"
    using add_through_ok [OF g(1) _ _ _ assms(4)] by blast
  with add_result_accepted [OF this(2) g(2,3)] show ?thesis by blast
qed

end

context enq_closing_gate
begin

lemma add_turned_away:
  assumes "queue_holds s q evs" and "int (length q) = cells s MAX_DEPTH"
  shows "\<exists>t. add_through s enter add = Some (closed, t) \<and> untouched s q evs t"
proof -
  from assms(1) obtain g where g: "queue_inv s g" "contents g = q" "g_evs g = evs" by (auto simp: queue_holds_def)
  have "cells s COUNT = cells s MAX_DEPTH" using queue_holds_count [OF assms(1)] assms(2) by simp
  with add_through_full [OF g(1)] g show ?thesis by (auto simp: untouched_def queue_holds_def)
qed

text \<open>Both cases of a call that does not wait for ever.\<close>

lemma add_call:
  assumes "queue_holds s q evs" and "has_room (m + 4) s evs" and "adder add v m"
  shows "\<exists>t. add_through s enter add = Some (if int (length q) < cells s MAX_DEPTH then SH_OK else closed, t) \<and>
    (if int (length q) < cells s MAX_DEPTH then accepted v (m + 4) s q evs t else untouched s q evs t)"
  using add_accepts [OF assms(1) _ assms(2,3)] add_turned_away [OF assms(1)] queue_holds_count [OF assms(1)]
  by (cases "int (length q) < cells s MAX_DEPTH") auto

end

section \<open>The public functions\<close>

text \<open>C7: on a queue that satisfies the invariant and whose object has room, \<open>shr_q_add\<close> always
  returns. A length that is not positive and a handle not opened for writing are refused without a
  change. When the queue is below its depth, exactly the given bytes join it, stamped with a time
  read during the call, last in line or on top (adaptive LIFO at the level), the events that are due
  and subscribed to are recorded once each, and the invariant holds again. When it is full,
  \<open>SH_ERR_LIMIT\<close> is returned and queue and events are as before.\<close>

theorem shr_q_add_correct:
  assumes "queue_holds s q evs" and "has_room (value_room len + 4) s evs" and "7 + slots_of len \<le> 2 ^ 30"
    and "len \<le> int (length bytes)"
  shows "if len \<le> 0 then shr_q_add (Some s) (Some bytes) len = Some (SH_ERR_ARG, Some s)
    else if mode s AND SQ_WRITE_ONLY = 0 then shr_q_add (Some s) (Some bytes) len = Some (SH_ERR_STATE, Some s)
    else if int (length q) < cells s MAX_DEPTH
    then \<exists>t. shr_q_add (Some s) (Some bytes) len = Some (SH_OK, Some t) \<and>
      accepted (Value SH_STRM_T (take (nat len) bytes)) (value_room len + 4) s q evs t
    else \<exists>t. shr_q_add (Some s) (Some bytes) len = Some (SH_ERR_LIMIT, Some t) \<and> untouched s q evs t"
proof (cases "len \<le> 0 \<or> mode s AND SQ_WRITE_ONLY = 0")
  case True
  then show ?thesis by (auto simp: shr_q_add_def on_queue_def)
next
  case False
  then have "adder (\<lambda>s. enq s (Some bytes) len SH_STRM_T) (Value SH_STRM_T (take (nat len) bytes)) (value_room len)"
    using assms(3,4) by (intro adder_value) auto
  from enq_try_add.add_call [OF assms(1,2) this] False show ?thesis
    by (auto simp: shr_q_add_def on_queue_def)
qed

theorem shr_q_add_witness:
  "\<exists>t. shr_q_add (Some sample_queue) (Some [7, 8, 9]) 2 = Some (SH_OK, Some t) \<and>
     accepted (Value SH_STRM_T [7, 8]) 36 sample_queue [] [] t"
proof -
  have n: "value_room 2 + 4 = 36" "7 + slots_of 2 \<le> 2 ^ 30" by (simp_all add: value_room_def slots_of_def)
  have r: "has_room (value_room 2 + 4) sample_queue []" using sample_queue_room [of 36] n by (simp add: has_room_def)
  have d: "cells sample_queue MAX_DEPTH = 2" by simp (simp add: fresh_cells_def)
  from shr_q_add_correct [OF sample_queue_simps(1) r n(2), of "[7, 8, 9]"] show ?thesis using n(1) d by simp
qed

text \<open>C10: \<open>shr_q_addv\<close> with valid elements: the same contract for a vector. Two or more elements
  are added as one item with their types, lengths and bytes, a single one as a plain value of its
  type; a full queue and a handle not opened for writing are refused.\<close>

theorem shr_q_addv_correct:
  assumes "queue_holds s q evs" and "has_room (vector_room vs + 4) s evs" and "calc_vector_slots vs \<le> 2 ^ 30"
    and "vs \<noteq> []" and "\<forall>v\<in>set vs. vec_ok v \<and> vec_type v < 2 ^ 32"
  shows "if mode s AND SQ_WRITE_ONLY = 0 then shr_q_addv (Some s) (Some vs) (int (length vs)) = Some (SH_ERR_STATE, Some s)
    else if int (length q) < cells s MAX_DEPTH
    then \<exists>t. shr_q_addv (Some s) (Some vs) (int (length vs)) = Some (SH_OK, Some t) \<and>
      accepted (vector_payload vs) (vector_room vs + 4) s q evs t
    else \<exists>t. shr_q_addv (Some s) (Some vs) (int (length vs)) = Some (SH_ERR_LIMIT, Some t) \<and> untouched s q evs t"
proof -
  have ok: "\<forall>v\<in>set vs. vec_ok v" "\<forall>v\<in>set vs. vec_type v < 2 ^ 32" using assms(5) by auto
  have n: "\<not> int (length vs) < 1" using assms(4) by (cases vs) auto
  note a = adder_vector [OF assms(4) ok assms(3)]
  from enq_try_add.add_call [OF assms(1,2) a] n show ?thesis
    by (auto simp: shr_q_addv_def on_queue_def)
qed

theorem shr_q_addv_witness:
  "\<exists>t. shr_q_addv (Some sample_queue) (Some [\<lparr>vec_type = 2, vec_len = 1, vec_base = Some [5]\<rparr>,
      \<lparr>vec_type = 1, vec_len = 2, vec_base = Some [7, 8]\<rparr>]) 2 = Some (SH_OK, Some t) \<and>
    accepted (Vector [(2, [5]), (1, [7, 8])]) 50 sample_queue [] [] t"
proof -
  let ?vs = "[\<lparr>vec_type = 2, vec_len = 1, vec_base = Some [5]\<rparr>, \<lparr>vec_type = 1, vec_len = 2, vec_base = Some [7, 8]\<rparr>]"
  have c: "calc_vector_slots ?vs = 15" by (simp add: calc_vector_slots_def)
  have n: "vector_room ?vs + 4 = 50" using c by (simp add: vector_room_def)
  have r: "has_room (vector_room ?vs + 4) sample_queue []" using sample_queue_room [of 50] n by (simp add: has_room_def)
  have ok: "\<forall>v\<in>set ?vs. vec_ok v \<and> vec_type v < 2 ^ 32" by (simp add: vec_ok_def)
  have d: "cells sample_queue MAX_DEPTH = 2" by simp (simp add: fresh_cells_def)
  have p: "calc_vector_slots ?vs \<le> 2 ^ 30" using c by simp
  from shr_q_addv_correct [OF sample_queue_simps(1) r p _ ok] show ?thesis using n d by (simp add: vec_entry_def)
qed

text \<open>C15: \<open>shr_q_add_timedwait\<close> with a normalised time-out: no \<open>NULL\<close> time-out is accepted; when
  there is space the call adds as \<open>shr_q_add\<close> does, and a call that finds none comes back with
  \<open>SH_ERR_LIMIT\<close>, the queue untouched.\<close>

theorem shr_q_add_timedwait_correct:
  assumes "queue_holds s q evs" and "has_room (value_room len + 4) s evs" and "7 + slots_of len \<le> 2 ^ 30"
    and "0 < len" and "len \<le> int (length bytes)" and "mode s AND SQ_WRITE_ONLY \<noteq> 0" and "timeout_ok d"
  shows "shr_q_add_timedwait (Some s) (Some bytes) len None = Some (SH_ERR_ARG, Some s) \<and>
    (\<exists>t. if int (length q) < cells s MAX_DEPTH
      then shr_q_add_timedwait (Some s) (Some bytes) len (Some d) = Some (SH_OK, Some t) \<and>
        accepted (Value SH_STRM_T (take (nat len) bytes)) (value_room len + 4) s q evs t
      else shr_q_add_timedwait (Some s) (Some bytes) len (Some d) = Some (SH_ERR_LIMIT, Some t) \<and> untouched s q evs t)"
proof -
  have a: "adder (\<lambda>s. enq s (Some bytes) len SH_STRM_T) (Value SH_STRM_T (take (nat len) bytes)) (value_room len)"
    using assms(3-5) by (intro adder_value) auto
  have "enq_closing_gate (\<lambda>s. enq_gate_tm s d) SH_ERR_LIMIT"
    unfolding enq_closing_gate_def by (rule enq_tm_closing [OF assms(7)])
  from enq_closing_gate.add_call [OF this assms(1,2) a] assms(4,6) show ?thesis
    by (auto simp: shr_q_add_timedwait_def on_queue_def)
qed

theorem shr_q_add_timedwait_witness:
  "\<exists>t. shr_q_add_timedwait (Some sample_queue) (Some [7, 8, 9]) 2 (Some \<lparr>tv_sec = 1, tv_nsec = 5\<rparr>) = Some (SH_OK, Some t) \<and>
     accepted (Value SH_STRM_T [7, 8]) 36 sample_queue [] [] t"
proof -
  have n: "value_room 2 + 4 = 36" "7 + slots_of 2 \<le> 2 ^ 30" by (simp_all add: value_room_def slots_of_def)
  have r: "has_room (value_room 2 + 4) sample_queue []" using sample_queue_room [of 36] n by (simp add: has_room_def)
  have d: "cells sample_queue MAX_DEPTH = 2" by simp (simp add: fresh_cells_def)
  have t: "timeout_ok \<lparr>tv_sec = 1, tv_nsec = 5\<rparr>" by (simp add: timeout_ok_def)
  from shr_q_add_timedwait_correct [OF sample_queue_simps(1) r n(2), of "[7, 8, 9]", OF _ _ _ t] show ?thesis using n(1) d by simp
qed

text \<open>The waiting functions return whenever there is space, with the same result.\<close>

theorem waiting_adds_return:
  assumes "queue_holds s q evs" and "int (length q) < cells s MAX_DEPTH" and "mode s AND SQ_WRITE_ONLY \<noteq> 0"
    and "has_room (vector_room vs + 4) s evs" and "calc_vector_slots vs \<le> 2 ^ 30" and "vs \<noteq> []"
    and "\<forall>v\<in>set vs. vec_ok v \<and> vec_type v < 2 ^ 32"
  shows "\<exists>t. shr_q_addv_wait (Some s) (Some vs) (int (length vs)) = Some (SH_OK, Some t) \<and>
    accepted (vector_payload vs) (vector_room vs + 4) s q evs t"
proof -
  have ok: "\<forall>v\<in>set vs. vec_ok v" "\<forall>v\<in>set vs. vec_type v < 2 ^ 32" using assms(7) by auto
  have n: "\<not> int (length vs) < 1" using assms(6) by (cases vs) auto
  note a = adder_vector [OF assms(6) ok assms(5)]
  from enq_blk_add.add_accepts [OF assms(1,2,4) a] n assms(3) show ?thesis
    by (auto simp: shr_q_addv_wait_def on_queue_def)
qed

theorem waiting_adds_witness:
  "\<exists>t. shr_q_addv_wait (Some sample_queue) (Some [\<lparr>vec_type = 2, vec_len = 1, vec_base = Some [5]\<rparr>]) 1 = Some (SH_OK, Some t) \<and>
    accepted (Value 2 [5]) 42 sample_queue [] [] t"
proof -
  let ?vs = "[\<lparr>vec_type = 2, vec_len = 1, vec_base = Some [5]\<rparr>]"
  have c: "calc_vector_slots ?vs = 11" by (simp add: calc_vector_slots_def)
  have n: "vector_room ?vs + 4 = 42" using c by (simp add: vector_room_def)
  have r: "has_room (vector_room ?vs + 4) sample_queue []" using sample_queue_room [of 42] n by (simp add: has_room_def)
  have ok: "\<forall>v\<in>set ?vs. vec_ok v \<and> vec_type v < 2 ^ 32" by (simp add: vec_ok_def)
  have d: "int (length ([] :: (timespec \<times> payload) list)) < cells sample_queue MAX_DEPTH" by simp (simp add: fresh_cells_def)
  have p: "calc_vector_slots ?vs \<le> 2 ^ 30" using c by simp
  have w: "mode sample_queue AND SQ_WRITE_ONLY \<noteq> 0" by simp
  from waiting_adds_return [OF sample_queue_simps(1) d w r p _ ok] show ?thesis using n by (simp add: vec_entry_def)
qed

end
