(* ===== verification/Removing.thy ===== *)
theory Removing
  imports Adding
begin

text \<open>
  What the three functions that remove do to an open queue, as the caller sees it.
\<close>

section \<open>The gates of the code\<close>

interpretation deq_try_rem: deq_closing_gate deq_gate_try SH_ERR_EMPTY ..

interpretation deq_blk_rem: deq_gate deq_gate_blk ..

interpretation deq_tm_rem: deq_gate "\<lambda>s. deq_gate_tm s d" for d ..

section \<open>What a caller sees\<close>

text \<open>A time stamp that is older than a limit at some reading of the clock since the \<open>n\<close>-th.\<close>

definition too_old :: "(int \<Rightarrow> long) \<Rightarrow> (nat \<Rightarrow> timespec) \<Rightarrow> nat \<Rightarrow> timespec \<Rightarrow> bool" where
  "too_old c clk n ts \<longleftrightarrow>
     c FLAGS AND FLAG_DISCARD_EXPIRED \<noteq> 0 \<and>
     (\<exists>k\<ge>n. \<exists>i\<in>{LIMIT_SEC, TARGET_SEC}. exceeds \<lparr>tv_sec = c i, tv_nsec = c (i + 1)\<rparr> ts (clk k))"

lemma stale_too_old: "stale c clk n e = too_old c clk n (e_ts e)"
  by (simp add: stale_def too_old_def)

text \<open>The item and the buffer show the payload and its time stamp.\<close>

definition delivers :: "timespec \<times> payload \<Rightarrow> sq_item \<Rightarrow> ubuf \<Rightarrow> bool" where
  "delivers x item b \<longleftrightarrow> i_status item = SH_OK \<and> (\<exists>mem. ub_mem b = Some mem \<and> shows_item item mem (fst x) (snd x))"

lemma shows_delivers: "shows_entry e item b = delivers (e_ts e, e_val e) item b"
  by (simp add: shows_entry_def delivers_def)

text \<open>What a removal from \<open>q\<close> comes to: old items are dropped from the front, then the next one is
  delivered, or there is none. The events are those due at each count on the way, and the one for an
  expired item at each drop.\<close>

definition took :: "sh_status \<Rightarrow> (timespec \<Rightarrow> bool) \<Rightarrow> (timespec \<times> payload) list \<Rightarrow> long \<times> sq_event list \<Rightarrow>
    (timespec \<times> payload) list \<Rightarrow> long \<times> sq_event list \<Rightarrow> sq_item \<Rightarrow> ubuf \<Rightarrow> bool" where
  "took closed old q fe rest fe' item b \<longleftrightarrow>
     (\<exists>dropped got. (\<forall>x\<in>set dropped. old (fst x)) \<and> fe' = rem_events (int (length q)) (length dropped) got fe \<and>
        (if got then (\<exists>x. q = dropped @ x # rest \<and> delivers x item b)
         else q = dropped \<and> rest = [] \<and> item = empty_item closed))"

lemma outcome_took:
  assumes "outcome closed (stale c clk n) (queue_of g) fe (queue_of g') fe' item b"
  shows "took closed (too_old c clk n) (contents g) fe (contents g') fe' item b"
proof -
  let ?f = "\<lambda>e. (e_ts e, e_val e)"
  from assms obtain d got where d: "\<forall>e\<in>set d. stale c clk n e" "fe' = rem_events (int (length (queue_of g))) (length d) got fe"
    "if got then \<exists>e. queue_of g = d @ e # queue_of g' \<and> shows_entry e item b
     else queue_of g = d \<and> queue_of g' = [] \<and> item = empty_item closed"
    unfolding outcome_def by blast
  have "\<forall>x\<in>set (map ?f d). too_old c clk n (fst x)" using d(1) by (auto simp: stale_too_old)
  moreover have "if got then \<exists>x. contents g = map ?f d @ x # contents g' \<and> delivers x item b
    else contents g = map ?f d \<and> contents g' = [] \<and> item = empty_item closed"
    using d(3) by (auto simp: contents_def shows_delivers split: if_splits)
  moreover have "fe' = rem_events (int (length (contents g))) (length (map ?f d)) got fe" using d(2) by (simp add: contents_def)
  ultimately show ?thesis unfolding took_def by blast
qed

lemma took_empty: "took c old [] fe rest fe' item b \<Longrightarrow> rest = [] \<and> fe' = fe \<and> item = empty_item c"
  by (auto simp: took_def split: if_splits)

text \<open>There is memory to signal the events of \<open>n\<close> removals.\<close>

definition can_signal :: "nat \<Rightarrow> qstate \<Rightarrow> sq_event list \<Rightarrow> bool" where
  "can_signal n s evs \<longleftrightarrow> room s (8 * int n) \<and> int (length evs) + 2 * int n \<le> SEM_VALUE_MAX"

lemma queue_holds_guard:
  assumes "queue_holds s q evs"
  obtains g where "inv (guard_q_memory s) g" and "queue_inv s g" and "contents g = q" and "g_evs g = evs"
  using assms by (auto simp: queue_holds_def queue_inv_def)

text \<open>The loop runs under the guard, which the invariant between calls includes.\<close>

lemma queue_inv_guard: "queue_inv s g \<Longrightarrow> queue_inv (guard_q_memory s) g"
  by (simp add: queue_inv_def)

lemma queue_inv_unguard:
  assumes "queue_inv s g" and "queue_inv t g'" and "accessors t = wrap64 (accessors s + 1)"
  shows "queue_inv (unguard_q_memory t) g'"
  using assms unguard_guard [of "accessors s"] by (simp add: queue_inv_def)

lemma ends_guard:
  assumes "ends H n (guard_q_memory s) t" and "in_long (accessors s)"
  shows "ends H n s (unguard_q_memory t)" and "accessors t = wrap64 (accessors s + 1)"
  using assms unguard_guard [of "accessors s"] by (auto simp: ends_def guard_q_memory_def unguard_q_memory_def used_def)

text \<open>Lifting a run of the loop to the public functions.\<close>

lemma remove_through_run:
  assumes s: "queue_inv s g" and b: "ub_mem b = None \<or> 0 < ub_size b" and m: "mode s AND SQ_READ_ONLY \<noteq> 0"
    and r: "remove_loop enter (guard_q_memory s) (empty_item SH_OK) b = Some (item, b', t)" "queue_inv t g'"
      "ends rem_words n (guard_q_memory s) t"
  shows "remove_through (Some s) (Some b) enter = Some (item, Some b', Some (unguard_q_memory t))"
    and "queue_inv (unguard_q_memory t) g'" and "ends rem_words n s (unguard_q_memory t)"
proof -
  have a: "in_long (accessors s)" using s by (simp add: queue_inv_def)
  show "remove_through (Some s) (Some b) enter = Some (item, Some b', Some (unguard_q_memory t))"
    using b m r(1) by (auto simp: remove_through_def)
  show "ends rem_words n s (unguard_q_memory t)" by (rule ends_guard(1) [OF r(3) a])
  show "queue_inv (unguard_q_memory t) g'" by (rule queue_inv_unguard [OF s r(2) ends_guard(2) [OF r(3) a]])
qed

context deq_closing_gate
begin

lemma remove_call:
  assumes q: "queue_holds s q evs" and b: "ubuf_ok b" "ub_mem b = None \<or> 0 < ub_size b" and m: "mode s AND SQ_READ_ONLY \<noteq> 0"
    and room: "can_signal (length q) s evs"
  shows "\<exists>item b' t q' evs'. remove_through (Some s) (Some b) enter = Some (item, Some b', Some t) \<and>
    queue_holds t q' evs' \<and> ends rem_words (8 * int (length q)) s t \<and>
    took closed (too_old (cells s) (clock s) (clock_n s)) q (cells s FLAGS, evs) q' (cells t FLAGS, evs') item b'"
proof -
  from q obtain g where g: "queue_inv s g" "contents g = q" "g_evs g = evs" by (auto simp: queue_holds_def)
  let ?s = "guard_q_memory s"
  have len: "length (queue_of g) = length q" using g(2) by (auto simp: contents_def)
  have "room ?s (8 * int (length (queue_of g)))" "int (length (g_evs g)) + 2 * int (length (queue_of g)) \<le> SEM_VALUE_MAX"
    using room g(3) len by (simp_all add: can_signal_def room_def)
  from remove_loop_ok [OF queue_inv_guard [OF g(1)] b(1) this, of SH_OK] obtain item b' t g' where
    r: "remove_loop enter ?s (empty_item SH_OK) b = Some (item, b', t)" "queue_inv t g'"
    "ends rem_words (8 * int (length (queue_of g))) ?s t"
    "outcome closed (stale (cells ?s) (clock ?s) (clock_n ?s)) (queue_of g) (cells ?s FLAGS, g_evs g) (queue_of g') (cells t FLAGS, g_evs g') item b'"
    by blast
  note u = remove_through_run [OF g(1) b(2) m r(1-3)]
  have "took closed (too_old (cells s) (clock s) (clock_n s)) q (cells s FLAGS, evs) (contents g') (cells (unguard_q_memory t) FLAGS, g_evs g') item b'"
    using outcome_took [OF r(4)] g(2,3) by simp
  moreover have "queue_holds (unguard_q_memory t) (contents g') (g_evs g')" using u(2) by (auto simp: queue_holds_def)
  ultimately show ?thesis using u(1) u(3) [unfolded len] by blast
qed

end

context deq_gate
begin

lemma remove_front_call:
  assumes q: "queue_holds s (x # q) evs" and b: "ubuf_ok b" "ub_mem b = None \<or> 0 < ub_size b"
    and m: "mode s AND SQ_READ_ONLY \<noteq> 0" and room: "can_signal 1 s evs" and keep: "cells s FLAGS AND FLAG_DISCARD_EXPIRED = 0"
  shows "\<exists>item b' t evs'. remove_through (Some s) (Some b) enter = Some (item, Some b', Some t) \<and>
    queue_holds t q evs' \<and> ends rem_words 8 s t \<and> ubuf_ok b' \<and> delivers x item b' \<and>
    (cells t FLAGS, evs') = deq_events (1 + int (length q)) False (cells s FLAGS, evs)"
proof -
  from q obtain g where g: "queue_inv s g" "contents g = x # q" "g_evs g = evs" by (auto simp: queue_holds_def)
  from g(2) obtain e es where e: "queue_of g = e # es" "x = (e_ts e, e_val e)" "q = map (\<lambda>e. (e_ts e, e_val e)) es"
    by (auto simp: contents_def)
  let ?s = "guard_q_memory s"
  have r: "room ?s 8" "int (length (g_evs g)) + 2 \<le> SEM_VALUE_MAX" "cells ?s FLAGS AND FLAG_DISCARD_EXPIRED = 0"
    using room g(3) keep by (simp_all add: can_signal_def room_def)
  from remove_front_entry [OF queue_inv_guard [OF g(1)] e(1) b(1) r, of "empty_item SH_OK"] obtain item b' t g' where
    r: "remove_loop enter ?s (empty_item SH_OK) b = Some (item, b', t)" "queue_inv t g'" "ends rem_words 8 ?s t"
    "queue_of g' = es" "ubuf_ok b'" "shows_entry e item b'"
    "(cells t FLAGS, g_evs g') = deq_events (cells ?s COUNT) False (cells ?s FLAGS, g_evs g)"
    by blast
  note u = remove_through_run [OF g(1) b(2) m r(1-3)]
  have "queue_holds (unguard_q_memory t) q (g_evs g')" using u(2) r(4) e(3) by (auto simp: queue_holds_def contents_def)
  moreover have "delivers x item b'" using r(6) e(2) by (simp add: shows_delivers)
  moreover have "(cells (unguard_q_memory t) FLAGS, g_evs g') = deq_events (1 + int (length q)) False (cells s FLAGS, evs)"
    using r(7) queue_holds_count [OF q] g(3) by simp
  ultimately show ?thesis using u(1,3) r(5) by blast
qed

end

section \<open>A queue with one item\<close>

lemma ends_frame:
  "ends H n s t \<Longrightarrow> i < HDR_END \<Longrightarrow> i \<notin> H \<Longrightarrow> i \<noteq> SIZE \<Longrightarrow> i \<noteq> EXPAND_SIZE \<Longrightarrow> cells t i = cells s i"
  "ends H n s t \<Longrightarrow> mode t = mode s" "ends H n s t \<Longrightarrow> clock t = clock s" "ends H n s t \<Longrightarrow> used t \<le> used s + n"
  using ends_word [of H n s t i] by (simp_all add: ends_def)

lemma add_words_other: "i \<in> {LIMIT_SEC, LIMIT_NSEC, TARGET_SEC, TARGET_NSEC, MAX_DEPTH, LEVEL} \<Longrightarrow> i \<notin> add_words"
  by (auto simp: add_words_def enq_words_def copy_words_def blk_words_def work_words_def event_words_def node_words_def)

lemma queue_holds_used: "queue_holds s q evs \<Longrightarrow> HDR_END \<le> used s"
  by (auto simp: queue_holds_def queue_inv_def dest: inv_parts(7))

lemma loaded_queue:
  obtains t k where "shr_q_add (Some sample_queue) (Some [7, 8, 9]) 3 = Some (SH_OK, Some t)"
    and "queue_holds t [(\<lparr>tv_sec = min (int k) 1000000, tv_nsec = 0\<rparr>, Value SH_STRM_T [7, 8, 9])] []" and "mode t = 3"
    and "can_signal 1 t []" and "cells t FLAGS = FLAG_ACTIVATED"
proof -
  have a: "adder (\<lambda>s. enq s (Some [7, 8, 9]) 3 SH_STRM_T) (Value SH_STRM_T (take (nat 3) [7, 8, 9])) (value_room 3)"
    by (rule adder_value) (simp_all add: slots_of_def)
  have n: "value_room 3 = 32" by (simp add: value_room_def slots_of_def)
  have r: "has_room (value_room 3 + 4) sample_queue []" using sample_queue_room [of 36] n by (simp add: has_room_def)
  have w: "cells sample_queue MAX_DEPTH = 2" "cells sample_queue FLAGS = 0" "cells sample_queue LEVEL = 0"
    "cells sample_queue COUNT = 0" "used sample_queue = 176"
    by (simp_all add: used_def) (simp_all add: fresh_cells_def)
  obtain t where t: "add_through sample_queue enq_gate_try (\<lambda>s. enq s (Some [7, 8, 9]) 3 SH_STRM_T) = Some (SH_OK, t)"
    "accepted (Value SH_STRM_T [7, 8, 9]) (value_room 3 + 4) sample_queue [] [] t"
    using enq_try_add.add_call [OF sample_queue_simps(1) r a] w(1) by auto
  have e: "add_events (cells sample_queue) (cells sample_queue FLAGS, []) = (FLAG_ACTIVATED, [])"
    unfolding add_events_def w enq_events_def by (simp add: activate_def fire_if_def get_event_flag_def)
  have l: "put_item b x [] = [x]" for b x by (simp add: put_item_def)
  from t(2) obtain k where k: "queue_holds t [(clock sample_queue k, Value SH_STRM_T [7, 8, 9])] []"
    "cells t FLAGS = FLAG_ACTIVATED" "ends add_words (value_room 3 + 4) sample_queue t"
    unfolding accepted_def e l by auto
  have "used t \<le> 176 + 36" using ends_frame(4) [OF k(3)] w(5) n by simp
  then have "can_signal 1 t []" using queue_holds_used [OF k(1)] by (simp add: can_signal_def room_used)
  moreover have "shr_q_add (Some sample_queue) (Some [7, 8, 9]) 3 = Some (SH_OK, Some t)"
    using t(1) by (simp add: shr_q_add_def on_queue_def)
  moreover have "mode t = 3" using ends_frame(2) [OF k(3)] by simp
  ultimately show thesis using k(1,2) by (intro that [of t k]) simp_all
qed

section \<open>The public functions\<close>





text \<open>C11: while nothing is discarded, the waiting removal of a queue that is not empty returns its
  first entry and exactly that: first in, first out (or the top of the stack of adaptive LIFO).\<close>

theorem shr_q_remove_wait_returns:
  assumes "queue_holds s (x # q) evs" and "can_signal 1 s evs" and "ubuf_ok b"
    and "ub_mem b = None \<or> 0 < ub_size b" and "mode s AND SQ_READ_ONLY \<noteq> 0" and "cells s FLAGS AND FLAG_DISCARD_EXPIRED = 0"
  shows "\<exists>item b' t evs'. shr_q_remove_wait (Some s) (Some b) = Some (item, Some b', Some t) \<and>
    queue_holds t q evs' \<and> delivers x item b' \<and>
    (cells t FLAGS, evs') = deq_events (1 + int (length q)) False (cells s FLAGS, evs)"
  using deq_blk_rem.remove_front_call [OF assms(1,3-5,2,6)] by (auto simp: shr_q_remove_wait_def)

theorem shr_q_remove_wait_witness:
  "\<exists>t item b u ts. shr_q_add (Some sample_queue) (Some [7, 8, 9]) 3 = Some (SH_OK, Some t) \<and>
     shr_q_remove_wait (Some t) (Some \<lparr>ub_mem = None, ub_size = 0\<rparr>) = Some (item, Some b, Some u) \<and>
     delivers (ts, Value SH_STRM_T [7, 8, 9]) item b"
proof -
  obtain t k where t: "shr_q_add (Some sample_queue) (Some [7, 8, 9]) 3 = Some (SH_OK, Some t)"
    "queue_holds t [(\<lparr>tv_sec = min (int k) 1000000, tv_nsec = 0\<rparr>, Value SH_STRM_T [7, 8, 9])] []" "mode t = 3"
    "can_signal 1 t []" "cells t FLAGS = FLAG_ACTIVATED"
    by (rule loaded_queue)
  have "ubuf_ok \<lparr>ub_mem = None, ub_size = 0\<rparr>" by (simp add: ubuf_ok_def)
  from shr_q_remove_wait_returns [OF t(2,4) this] t show ?thesis by fastforce
qed

end
