(* ===== verification/Control.thy ===== *)
theory Control
  imports Removing
begin

text \<open>
  The public functions that ask a queue about itself, set it up or register for its signals,
  those that collect its events, and \<open>shr_q_prod\<close>.
\<close>

section \<open>Calls that only touch header words\<close>

lemma guard_cells:
  "in_long (accessors s) \<Longrightarrow> unguard_q_memory ((guard_q_memory s)\<lparr>cells := c\<rparr>) = s\<lparr>cells := c\<rparr>"
  "in_long (accessors s) \<Longrightarrow> unguard_q_memory (guard_q_memory s) = s"
  using unguard_guard [of "accessors s"]
  by (auto intro!: qstate.equality simp: guard_q_memory_def unguard_q_memory_def)

lemma holds_parts:
  assumes "queue_holds s q evs"
  shows "in_long (accessors s)" and "mapped s (base_current s) 512" and "mapped (guard_q_memory s) (base_current s) 512"
    and "cells s COUNT = int (length q)" and "sems s EVNT_SEM = int (length evs)" and "HDR_END \<le> used s" and "clock_ok s"
    and "quiet s" and "sems s DEQ_SEM = int (length q)" and "cells s MAX_DEPTH \<le> SEM_VALUE_MAX"
    and "cells s COUNT \<le> cells s MAX_DEPTH" and "sems s ENQ_SEM = cells s MAX_DEPTH - int (length q)"
proof -
  obtain g where g: "queue_inv s g" "contents g = q" "g_evs g = evs" using assms by (auto simp: queue_holds_def)
  have l: "length (queue_of g) = length q" using g(2) by (auto simp: contents_def)
  have i: "inv s g" using g(1) by (simp add: queue_inv_def)
  show "in_long (accessors s)" "cells s COUNT = int (length q)" "sems s EVNT_SEM = int (length evs)" "clock_ok s"
    "sems s DEQ_SEM = int (length q)" "cells s MAX_DEPTH \<le> SEM_VALUE_MAX" "cells s COUNT \<le> cells s MAX_DEPTH"
    "sems s ENQ_SEM = cells s MAX_DEPTH - int (length q)"
    using g l by (simp_all add: queue_inv_def)
  show "mapped s (base_current s) 512" "HDR_END \<le> used s" "quiet s" using inv_parts [OF i] by simp_all
  then show "mapped (guard_q_memory s) (base_current s) 512" by simp
qed

lemma holds_words:
  assumes q: "queue_holds s q evs" and c: "\<And>i. c i \<noteq> cells s i \<Longrightarrow> free_word i \<and> i \<noteq> COUNT \<and> i \<noteq> MAX_DEPTH"
  shows "queue_holds (s\<lparr>cells := c\<rparr>) q evs"
proof -
  obtain g where g: "queue_inv s g" "contents g = q" "g_evs g = evs" using q by (auto simp: queue_holds_def)
  have i: "inv s g" using g(1) by (simp add: queue_inv_def)
  have "inv (s\<lparr>cells := c\<rparr>) g" by (rule inv_header(1) [OF i, where H = UNIV]) (use c in auto)
  moreover have "c COUNT = cells s COUNT" "c MAX_DEPTH = cells s MAX_DEPTH" using c by blast+
  ultimately have "queue_inv (s\<lparr>cells := c\<rparr>) g" using g(1) by (simp add: queue_inv_def clock_ok_def)
  with g(2,3) show ?thesis by (auto simp: queue_holds_def)
qed

lemma holds_word:
  "queue_holds s q evs \<Longrightarrow> free_word i \<Longrightarrow> i \<noteq> COUNT \<Longrightarrow> i \<noteq> MAX_DEPTH \<Longrightarrow> queue_holds (s\<lparr>cells := (cells s)(i := v)\<rparr>) q evs"
  by (rule holds_words) (auto split: if_splits)

lemma holds_pair:
  "queue_holds s q evs \<Longrightarrow> free_word i \<Longrightarrow> free_word (i + 1) \<Longrightarrow> i \<notin> {COUNT, MAX_DEPTH} \<Longrightarrow> i + 1 \<notin> {COUNT, MAX_DEPTH} \<Longrightarrow>
   queue_holds (s\<lparr>cells := (cells s)(i := v, i + 1 := w)\<rparr>) q evs"
  by (rule holds_words) (auto split: if_splits)

lemma guarded_simps [simp]:
  "base_current ((guard_q_memory s)\<lparr>cells := c\<rparr>) = base_current s" "my_pid (guard_q_memory s) = my_pid s"
  "mapped ((guard_q_memory s)\<lparr>cells := c\<rparr>) a n = mapped s a n"
  by (simp_all add: guard_q_memory_def)

section \<open>Queries\<close>

lemma guard_tick: "in_long (accessors s) \<Longrightarrow> unguard_q_memory (tick (guard_q_memory s)) = tick s"
  using guard_cells(2) [of "tick s"] by (simp add: tick_def guard_q_memory_def unguard_q_memory_def)

text \<open>The idle time is compared in seconds first, and in nanoseconds only when those agree: there is no
  borrow between the two.\<close>

lemma idle_time_run:
  assumes "queue_holds s q evs"
  shows "shr_q_exceeds_idle_time (Some s) lim_secs lim_nsecs =
    (let secs = tv_sec (now s) - cells s TS_SEC; nsecs = tv_nsec (now s) - cells s TS_NSEC
     in Some (secs > lim_secs \<or> secs = lim_secs \<and> nsecs \<ge> lim_nsecs, Some (tick s)))"
proof -
  note p = holds_parts [OF assms]
  have m: "mapped (tick (guard_q_memory s)) (base_current s) 512" using p(3) by (simp add: tick_def mapped_def split: option.splits)
  have n: "now (guard_q_memory s) = now s" by (simp add: now_def guard_q_memory_def)
  show ?thesis
    using p(1) m n guard_tick [OF p(1)]
    by (auto simp add: shr_q_exceeds_idle_time_def on_queue_def clock_gettime_eq Let_def rd_mapped)
qed

text \<open>So one nanosecond across the end of a second exceeds a limit of half a second.\<close>

lemma idle_time_without_borrow:
  assumes "queue_holds s q evs" and "now s = \<lparr>tv_sec = cells s TS_SEC + 1, tv_nsec = 0\<rparr>" and "cells s TS_NSEC = 999999999"
  shows "timespecsub (now s) \<lparr>tv_sec = cells s TS_SEC, tv_nsec = cells s TS_NSEC\<rparr> = \<lparr>tv_sec = 0, tv_nsec = 1\<rparr>"
    and "shr_q_exceeds_idle_time (Some s) 0 500000000 = Some (True, Some (tick s))"
  using assms(2,3) by (simp_all add: idle_time_run [OF assms(1)] timespecsub_def)

text \<open>C16: the queries return and change nothing but the readings of the clock; the count is the
  number of items the queue holds, an event is subscribed to exactly when its flag is set, and the idle time
  exceeds a limit when its seconds do, or when they agree and its nanoseconds do.\<close>

theorem queries_correct:
  assumes "queue_holds s q evs"
  shows "shr_q_count (Some s) = Some (int (length q), Some s) \<and>
    shr_q_buffer (Some s) = Some (cells s BUFFER, Some s) \<and>
    shr_q_will_discard (Some s) = Some (cells s FLAGS AND FLAG_DISCARD_EXPIRED \<noteq> 0, Some s) \<and>
    shr_q_will_lifo (Some s) = Some (cells s FLAGS AND FLAG_LIFO_ON_LEVEL \<noteq> 0, Some s) \<and>
    shr_q_is_subscribed (Some s) ev =
      Some (ev \<noteq> SQ_EVNT_NONE \<and> cells s FLAGS AND get_event_flag ev \<noteq> 0, Some s) \<and>
    shr_q_call_count (Some s) = Some (wrap64 (cells s CALL_BLOCKS - cells s CALL_UNBLOCKS), Some s) \<and>
    shr_q_last_empty (Some s) (Some ts) =
      Some (if q = [] then (SH_ERR_EMPTY, Some ts)
            else (SH_OK, Some \<lparr>tv_sec = cells s EMPTY_SEC, tv_nsec = cells s EMPTY_NSEC\<rparr>), Some s) \<and>
    shr_q_exceeds_idle_time (Some s) lim_secs lim_nsecs =
      (let secs = tv_sec (now s) - cells s TS_SEC; nsecs = tv_nsec (now s) - cells s TS_NSEC
       in Some (secs > lim_secs \<or> secs = lim_secs \<and> nsecs \<ge> lim_nsecs, Some (tick s)))"
proof -
  note p = holds_parts [OF assms]
  show ?thesis
    using p(1-4) guard_cells(2) [OF p(1)]
    by (simp add: shr_q_count_def shr_q_buffer_def shr_q_will_discard_def shr_q_will_lifo_def shr_q_is_subscribed_def
        shr_q_call_count_def shr_q_last_empty_def on_queue_def rd_mapped predicates_eq event_disabled_eq rd_ts_eq ts_at_def idle_time_run [OF assms])
qed

theorem queries_witness:
  "shr_q_count (Some sample_queue) = Some (0, Some sample_queue) \<and>
   shr_q_is_subscribed (Some sample_queue) SQ_EVNT_LIMIT = Some (False, Some sample_queue)"
proof -
  have "cells sample_queue FLAGS = 0" by simp (simp add: fresh_cells_def)
  with queries_correct [OF sample_queue_simps(1), of SQ_EVNT_LIMIT undefined 0 0] show ?thesis by simp
qed

section \<open>Configuration\<close>

lemma and_single_bit: "f AND 2 ^ n = 0 \<longleftrightarrow> \<not> bit (f :: int) n"
proof
  assume "f AND 2 ^ n = 0"
  then have "\<not> bit (f AND 2 ^ n) n" by simp
  then show "\<not> bit f n" by (simp add: bit_and_iff bit_exp_iff)
next
  assume "\<not> bit f n"
  then show "f AND 2 ^ n = 0" by (intro bit_eqI) (auto simp: bit_and_iff bit_exp_iff)
qed

lemma or_single_bit: "f AND 2 ^ n \<noteq> 0 \<Longrightarrow> f OR 2 ^ n = (f :: int)"
  unfolding and_single_bit by (intro bit_eqI) (auto simp: bit_or_iff bit_exp_iff)

lemma timelimit_run:
  fixes s q evs and sec nsec :: long
  assumes "queue_holds s q evs"
  defines "t \<equiv> s\<lparr>cells := (cells s)(LIMIT_SEC := sec, LIMIT_NSEC := nsec)\<rparr>"
  shows "shr_q_timelimit (Some s) sec nsec = Some (SH_OK, Some t)" and "queue_holds t q evs"
  using holds_parts(1-3) [OF assms(1)] holds_pair [OF assms(1), of LIMIT_SEC sec nsec]
  by (simp_all add: t_def shr_q_timelimit_def on_queue_def store_pair_eq guard_cells)

lemma target_run:
  fixes s q evs and sec nsec :: long
  assumes "queue_holds s q evs"
  defines "t \<equiv> s\<lparr>cells := (cells s)(TARGET_SEC := sec, TARGET_NSEC := nsec, FLAGS := cells s FLAGS OR FLAG_DISCARD_EXPIRED)\<rparr>"
  shows "shr_q_target_delay (Some s) sec nsec = Some (SH_OK, Some t)" and "queue_holds t q evs"
proof -
  have same: "(cells s)(TARGET_SEC := sec, TARGET_NSEC := nsec, FLAGS := cells s FLAGS OR FLAG_DISCARD_EXPIRED) =
    (cells s)(TARGET_SEC := sec, TARGET_NSEC := nsec)" if "cells s FLAGS AND FLAG_DISCARD_EXPIRED \<noteq> 0"
    using or_single_bit [of "cells s FLAGS" 1] that by (intro ext) simp
  show "shr_q_target_delay (Some s) sec nsec = Some (SH_OK, Some t)"
    using holds_parts(1-3) [OF assms(1)] same
    by (auto simp: t_def shr_q_target_delay_def shr_q_discard_def on_queue_def store_pair_eq guard_cells set_flag_eq)
  let ?w = "s\<lparr>cells := (cells s)(TARGET_SEC := sec, TARGET_NSEC := nsec)\<rparr>"
  have w: "queue_holds ?w q evs" using holds_pair [OF assms(1), of TARGET_SEC sec nsec] by simp
  show "queue_holds t q evs" using holds_word [OF w, of FLAGS "cells s FLAGS OR FLAG_DISCARD_EXPIRED"] by (simp add: t_def)
qed

lemma level_run:
  fixes s q evs and lev :: long
  assumes "queue_holds s q evs"
  defines "t \<equiv> (if lev \<le> 0 then s else s\<lparr>cells := (cells s)(LEVEL := lev)\<rparr>)"
  shows "shr_q_level (Some s) lev = Some (if lev \<le> 0 then SH_ERR_ARG else SH_OK, Some t)" and "queue_holds t q evs"
  using holds_parts(1-3) [OF assms(1)] holds_word [OF assms(1), of LEVEL lev] assms(1)
  by (simp_all add: t_def shr_q_level_def on_queue_def rd_mapped CAS_mapped guard_cells)

text \<open>The limits and the level: each call stores exactly its words and keeps the queue, its
  items and events. Setting a target for the delay also turns discarding on; a level that is not
  positive is refused.\<close>

theorem limits_correct:
  assumes "queue_holds s q evs"
  shows "\<exists>t u v. shr_q_timelimit (Some s) sec nsec = Some (SH_OK, Some t) \<and> queue_holds t q evs \<and>
      t = s\<lparr>cells := (cells s)(LIMIT_SEC := sec, LIMIT_NSEC := nsec)\<rparr> \<and>
    shr_q_target_delay (Some s) sec nsec = Some (SH_OK, Some u) \<and> queue_holds u q evs \<and>
      u = s\<lparr>cells := (cells s)(TARGET_SEC := sec, TARGET_NSEC := nsec, FLAGS := cells s FLAGS OR FLAG_DISCARD_EXPIRED)\<rparr> \<and>
    shr_q_level (Some s) lev = Some (if lev \<le> 0 then SH_ERR_ARG else SH_OK, Some v) \<and> queue_holds v q evs \<and>
      v = (if lev \<le> 0 then s else s\<lparr>cells := (cells s)(LEVEL := lev)\<rparr>)"
  using timelimit_run [OF assms, of sec nsec] target_run [OF assms, of sec nsec] level_run [OF assms, of lev] by blast

theorem limits_witness:
  "\<exists>t. shr_q_level (Some sample_queue) 7 = Some (SH_OK, Some t) \<and> queue_holds t [] [] \<and> cells t LEVEL = 7"
  using limits_correct [OF sample_queue_simps(1), of 1 0 7] by auto

definition with_flags :: "qstate \<Rightarrow> long \<Rightarrow> bool \<Rightarrow> qstate" where
  "with_flags s m b = s\<lparr>cells := (cells s)(FLAGS := if b then cells s FLAGS OR m else cells s FLAGS AND NOT m)\<rparr>"

lemma with_flags_holds: "queue_holds s q evs \<Longrightarrow> queue_holds (with_flags s m b) q evs"
  unfolding with_flags_def by (rule holds_word) simp_all

lemma and_not_clear: "f AND m = 0 \<Longrightarrow> f AND NOT m = (f :: int)"
proof (rule bit_eqI)
  fix n assume "f AND m = 0"
  then have "\<not> bit (f AND m) n" by simp
  then show "bit (f AND NOT m) n = bit f n" by (auto simp: bit_and_iff bit_not_iff)
qed

lemma set_flag_run:
  assumes "queue_holds s q evs"
  shows "set_flag (guard_q_memory s) (base_current s) (2 ^ n) =
    Some (cells s FLAGS AND 2 ^ n = 0, (guard_q_memory s)\<lparr>cells := (cells s)(FLAGS := cells s FLAGS OR 2 ^ n)\<rparr>)"
  using holds_parts(3) [OF assms] or_single_bit [of "cells s FLAGS" n] by (simp add: set_flag_eq)

lemma clear_flag_run:
  assumes "queue_holds s q evs" and "m \<noteq> 0"
  shows "clear_flag (guard_q_memory s) (base_current s) m =
    Some (cells s FLAGS AND m \<noteq> 0, (guard_q_memory s)\<lparr>cells := (cells s)(FLAGS := cells s FLAGS AND NOT m)\<rparr>)"
  using holds_parts(3) [OF assms(1)] assms(2) and_not_clear [of "cells s FLAGS" m] by (simp add: clear_flag_eq)

lemma event_flag_cases: "1 \<le> ev \<Longrightarrow> ev \<le> 6 \<Longrightarrow> \<exists>n\<in>{3..8}. get_event_flag ev = 2 ^ n"
proof -
  assume "1 \<le> ev" "ev \<le> 6"
  then have "ev \<in> {1, 2, 3, 4, 5, 6}" by auto
  then show ?thesis
    by (auto simp: get_event_flag_def intro: bexI [of _ 3] bexI [of _ 4] bexI [of _ 5] bexI [of _ 6] bexI [of _ 7] bexI [of _ 8])
qed

lemma flag_calls:
  assumes q: "queue_holds s q evs"
  shows "shr_q_discard (Some s) b = Some (SH_OK, Some (with_flags s FLAG_DISCARD_EXPIRED b))"
    and "shr_q_limit_lifo (Some s) b = Some (SH_OK, Some (with_flags s FLAG_LIFO_ON_LEVEL b))"
    and "1 \<le> ev \<Longrightarrow> ev \<le> 6 \<Longrightarrow> shr_q_subscribe (Some s) ev = Some (SH_OK, Some (with_flags s (get_event_flag ev) True))"
    and "0 \<le> ev \<Longrightarrow> ev \<le> 6 \<Longrightarrow> shr_q_unsubscribe (Some s) ev = Some (SH_OK, Some (with_flags s (get_event_flag ev) False))"
proof -
  note p = holds_parts(1) [OF q]
  note run = set_flag_run [OF q] clear_flag_run [OF q] guard_cells [OF p]
  show "shr_q_discard (Some s) b = Some (SH_OK, Some (with_flags s FLAG_DISCARD_EXPIRED b))"
    using run(1) [of 1] run(2) [of 2] by (simp add: shr_q_discard_def on_queue_def with_flags_def run(3))
  show "shr_q_limit_lifo (Some s) b = Some (SH_OK, Some (with_flags s FLAG_LIFO_ON_LEVEL b))"
    using run(1) [of 2] run(2) [of 4] by (simp add: shr_q_limit_lifo_def on_queue_def with_flags_def run(3))
  show "shr_q_subscribe (Some s) ev = Some (SH_OK, Some (with_flags s (get_event_flag ev) True))" if ev: "1 \<le> ev" "ev \<le> 6"
  proof -
    obtain n where n: "get_event_flag ev = 2 ^ n" using event_flag_cases [OF ev] by blast
    show ?thesis using run(1) [of n] n by (simp add: shr_q_subscribe_def on_queue_def with_flags_def run(3))
  qed
  show "shr_q_unsubscribe (Some s) ev = Some (SH_OK, Some (with_flags s (get_event_flag ev) False))" if "0 \<le> ev" "ev \<le> 6"
  proof -
    have "get_event_flag ev \<noteq> 0"
    proof (cases "ev = 0")
      case True
      then show ?thesis by (simp add: get_event_flag_def)
    next
      case False
      then show ?thesis using event_flag_cases [of ev] that by auto
    qed
    with run(2) [OF this] show ?thesis by (simp add: shr_q_unsubscribe_def on_queue_def with_flags_def run(3))
  qed
qed

text \<open>\<open>shr_q_discard\<close>, \<open>shr_q_limit_lifo\<close>, and \<open>shr_q_subscribe\<close> and \<open>shr_q_unsubscribe\<close> for one
  event set or clear exactly their bit of the flags; queue and events stay. After a subscription the
  event is subscribed to and after its end it is not, the other events keeping what they had.\<close>

theorem flags_correct:
  assumes "queue_holds s q evs" and "1 \<le> ev" and "ev \<le> 6" and "1 \<le> other" and "other \<le> 6" and "other \<noteq> ev"
  shows "shr_q_discard (Some s) b = Some (SH_OK, Some (with_flags s FLAG_DISCARD_EXPIRED b)) \<and>
    queue_holds (with_flags s FLAG_DISCARD_EXPIRED b) q evs \<and>
    shr_q_limit_lifo (Some s) b = Some (SH_OK, Some (with_flags s FLAG_LIFO_ON_LEVEL b)) \<and>
    queue_holds (with_flags s FLAG_LIFO_ON_LEVEL b) q evs \<and>
    shr_q_subscribe (Some s) ev = Some (SH_OK, Some (with_flags s (get_event_flag ev) True)) \<and>
    shr_q_unsubscribe (Some s) ev = Some (SH_OK, Some (with_flags s (get_event_flag ev) False)) \<and>
    queue_holds (with_flags s (get_event_flag ev) b) q evs \<and>
    (cells (with_flags s (get_event_flag ev) b) FLAGS AND get_event_flag ev \<noteq> 0) = b \<and>
    cells (with_flags s (get_event_flag ev) b) FLAGS AND get_event_flag other = cells s FLAGS AND get_event_flag other"
proof -
  obtain m n where mn: "get_event_flag ev = 2 ^ m" "get_event_flag other = 2 ^ n"
    using event_flag_cases [OF assms(2,3)] event_flag_cases [OF assms(4,5)] by blast
  have ne: "get_event_flag ev \<noteq> get_event_flag other"
  proof -
    have "ev \<in> {1, 2, 3, 4, 5, 6}" "other \<in> {1, 2, 3, 4, 5, 6}" using assms(2-5) by auto
    with assms(6) show ?thesis by (auto simp: get_event_flag_def)
  qed
  then have mn': "m \<noteq> n" using mn by auto
  have "(cells (with_flags s (get_event_flag ev) b) FLAGS AND get_event_flag ev \<noteq> 0) = b"
    unfolding mn and_single_bit by (simp add: with_flags_def bit_simps)
  moreover have "cells (with_flags s (get_event_flag ev) b) FLAGS AND get_event_flag other = cells s FLAGS AND get_event_flag other"
    unfolding mn by (rule bit_eqI) (use mn' in \<open>auto simp: with_flags_def bit_simps\<close>)
  moreover have "0 \<le> ev" using assms(2) by simp
  ultimately show ?thesis
    using flag_calls(1,2) [OF assms(1), of b] flag_calls(3) [OF assms(1-3)] flag_calls(4) [OF assms(1) _ assms(3)]
      with_flags_holds [OF assms(1)] by simp
qed

theorem flags_witness:
  "\<exists>t. shr_q_subscribe (Some sample_queue) SQ_EVNT_LIMIT = Some (SH_OK, Some t) \<and> queue_holds t [] [] \<and> cells t FLAGS = FLAG_EVNT_LIMIT"
proof -
  have "cells sample_queue FLAGS = 0" by simp (simp add: fresh_cells_def)
  with flags_correct [OF sample_queue_simps(1), of SQ_EVNT_LIMIT SQ_EVNT_TIME True] show ?thesis
    by (auto simp: with_flags_def get_event_flag_def)
qed

text \<open>C17: subscribing to all events at once takes effect only while none is subscribed to. With one
  subscription in place \<open>shr_q_subscribe\<close> reports success and changes nothing.\<close>

theorem subscribe_all_partial:
  assumes "queue_holds s q evs"
  shows "shr_q_subscribe (Some s) SQ_EVNT_ALL =
    Some (SH_OK, Some (if cells s FLAGS AND get_event_flag SQ_EVNT_ALL = 0 then with_flags s (get_event_flag SQ_EVNT_ALL) True else s))"
proof -
  note p = holds_parts [OF assms]
  have nz: "get_event_flag SQ_EVNT_ALL \<noteq> 0" by (simp add: get_event_flag_def)
  show ?thesis
    using set_flag_eq [OF p(3) nz] nz guard_cells [OF p(1)]
    by (simp add: shr_q_subscribe_def on_queue_def with_flags_def)
qed

theorem subscribe_all_witness:
  "\<exists>t. shr_q_subscribe (Some (with_flags sample_queue FLAG_EVNT_INIT True)) SQ_EVNT_ALL = Some (SH_OK, Some t) \<and>
     shr_q_is_subscribed (Some t) SQ_EVNT_LIMIT = Some (False, Some t)"
proof -
  have f: "cells sample_queue FLAGS = 0" by simp (simp add: fresh_cells_def)
  let ?s = "with_flags sample_queue FLAG_EVNT_INIT True"
  have h: "queue_holds ?s [] []" by (rule with_flags_holds) simp
  have c: "cells ?s FLAGS = 8" using f by (simp add: with_flags_def)
  have "shr_q_subscribe (Some ?s) SQ_EVNT_ALL = Some (SH_OK, Some ?s)"
    unfolding subscribe_all_partial [OF h] by (simp add: c get_event_flag_def)
  moreover have "shr_q_is_subscribed (Some ?s) SQ_EVNT_LIMIT = Some (False, Some ?s)"
    using holds_parts [OF h] by (simp add: shr_q_is_subscribed_def on_queue_def event_disabled_eq guard_cells c get_event_flag_def)
  ultimately show ?thesis by blast
qed

section \<open>Registration\<close>

lemma register_run:
  assumes q: "queue_holds s q evs" and pw: "0 \<le> pw" "pw < 512" and sw: "0 \<le> sw" "sw < 512"
  shows "register s pw sw signal =
    (if signal < 0 then Some (SH_ERR_ARG, s)
     else Some (SH_OK, s\<lparr>cells := (cells s)(pw := if signal = 0 then 0 else my_pid s, sw := signal)\<rparr>))"
  using holds_parts [OF q] pw sw by (simp add: register_def rd_mapped CAS_mapped wr_mapped guard_cells Let_def)

definition registered :: "qstate \<Rightarrow> int \<Rightarrow> int \<Rightarrow> int \<Rightarrow> qstate" where
  "registered s pw sw signal = s\<lparr>cells := (cells s)(pw := if signal = 0 then 0 else my_pid s, sw := signal)\<rparr>"



end
