(* ===== verification/Collect.thy ===== *)
theory Collect
  imports Control
begin

text \<open>
  Collecting events: \<open>shr_q_event\<close> and \<open>shr_q_event_timedwait\<close> hand out the recorded events
  one at a time, in the order in which they occurred.
\<close>

section \<open>The front event\<close>

lemma inv_event_cases:
  assumes inv: "inv s g" and e: "g_evs g = ev # evs"
  obtains x y ys where "g_list g Events = x # y # ys" and "cells s EVENT_HEAD = x" and "cells s EVENT_TAIL \<noteq> x"
    and "cells s (y + 2) = ev" and "1 \<le> ev" and "ev \<le> 6"
proof -
  have l2: "list_all2 (\<lambda>n ev. obj s (n + 2) = ev \<and> 1 \<le> ev \<and> ev \<le> 6) (tl (g_list g Events)) (g_evs g)"
    using heap_inv_parts(5) [OF inv_parts(5) [OF inv]] by (simp add: events_ok_def)
  then obtain y ys where t: "tl (g_list g Events) = y # ys" "obj s (y + 2) = ev" "1 \<le> ev" "ev \<le> 6"
    unfolding e by (cases "tl (g_list g Events)") auto
  then obtain x where l: "g_list g Events = x # y # ys" by (cases "g_list g Events") auto
  note fl = inv_front_link [OF inv l, unfolded hd_slot.simps tl_slot.simps]
  have "cells s (y + 2) = ev" using t(2) fl(5) by (simp add: obj_def node_ok_def)
  with l fl(1,2) t show thesis by (intro that [of x y ys]) simp_all
qed

lemma inv_next_event:
  assumes inv: "inv s g" and l: "g_list g Events = x # y # ys" and ev: "cells s (y + 2) = ev" "1 \<le> ev" "ev \<le> 6"
  obtains s' where "next_event s x = Some (ev, s')" and "inv s' g" and "moves {} 0 s s'" and "cells s' = cells s" and "x + 4 \<le> cur_slots s'"
proof -
  note fl = inv_front_link [OF inv l]
  have x: "0 < x" "x < cells s SIZE" and y: "0 < y" "y < cells s SIZE"
    using fl(4,5) inv_parts(4) [OF inv] by (auto simp: node_ok_def)
  obtain s1 where r1: "insure_in_range s x = Some (\<lparr>v_status = SH_OK, v_slot = x, v_ext = base_current s1\<rparr>, s1)"
    "inv s1 g" "moves {} 0 s s1" "cells s1 = cells s" "x < cur_slots s1"
    by (rule inv_range [OF inv x])
  have y1: "y < cells s1 SIZE" using y r1(4) by simp
  obtain s2 where r2: "insure_in_range s1 y = Some (\<lparr>v_status = SH_OK, v_slot = y, v_ext = base_current s2\<rparr>, s2)"
    "inv s2 g" "moves {} 0 s1 s2" "cells s2 = cells s1" "y < cur_slots s2"
    by (rule inv_range [OF r1(2) y(1) y1])
  have "y + 4 \<le> cur_slots s2" by (rule inv_node_mapped [OF r2(2) fl(5) r2(5)])
  then have "rd s2 (base_current s2) (y + 2) = Some ev"
    using inv_rd [OF r2(2), of "y + 2"] y(1) r1(4) r2(4) ev(1) by simp
  moreover have "ev mod 2 ^ 32 = ev" using ev by simp
  ultimately have run: "next_event s x = Some (ev, s2)"
    using r1(1) r2(1) x y inv_rd [OF r1(2), of x] r1(4,5) fl(3) by (simp add: next_event_def)
  have "x + 4 \<le> cur_slots s1" by (rule inv_node_mapped [OF r1(2) fl(4) r1(5)])
  moreover have "cur_slots s1 \<le> cur_slots s2" using r2(3) by (auto simp: moves_def keeps_def)
  ultimately show thesis using run r2 moves_eq [OF r1(3) r2(3)] r1(4) by (intro that [of s2]) simp_all
qed

definition take_words :: "int set" where
  "take_words = {EVENT_HEAD, EVENT_HD_CNT, ID_CNTR, FREE_TAIL, FREE_TL_CNT}"

lemma event_loop_ok:
  assumes inv: "inv s g" and e: "g_evs g = ev # evs" and m: "mapped s a 512"
  obtains s' g' where "event_loop s a SQ_EVNT_NONE (cells s EVENT_HD_CNT) (cells s EVENT_HEAD) = Some (ev, s')" and "inv s' g'"
    and "moves take_words 0 s s'" and "stable g g'" and "g_evs g' = evs"
proof -
  obtain x y ys where l: "g_list g Events = x # y # ys" "cells s EVENT_HEAD = x" "cells s EVENT_TAIL \<noteq> x" "cells s (y + 2) = ev"
    "1 \<le> ev" "ev \<le> 6"
    by (rule inv_event_cases [OF inv e])
  obtain s1 where r1: "next_event s x = Some (ev, s1)" "inv s1 g" "moves {} 0 s s1" "cells s1 = cells s" "x + 4 \<le> cur_slots s1"
    by (rule inv_next_event [OF inv l(1,4-6)])
  obtain s2 where r2: "remove_front s1 x (cells s1 EVENT_HD_CNT) EVENT_HEAD EVENT_TAIL = Some (x, s2)"
    "inv s2 (g\<lparr>g_list := (g_list g)(Events := y # ys), g_loose := x # g_loose g, g_evs := evs\<rparr>)"
    "moves {EVENT_HEAD, EVENT_HD_CNT} 0 s1 s2"
    by (rule inv_take_event [OF r1(2) l(1) e])
  let ?g = "g\<lparr>g_list := (g_list g)(Events := y # ys), g_loose := x # g_loose g, g_evs := evs\<rparr>"
  have "cur_slots s1 \<le> cur_slots s2" using r2(3) by (auto simp: moves_def keeps_def)
  then have "g_loose ?g = x # g_loose g" "x + 4 \<le> cur_slots s2" using r1(5) by simp_all
  from inv_put_free [OF r2(2) this] obtain s3 where r3: "add_end s2 x FREE_TAIL = Some s3"
    "inv s3 (?g\<lparr>g_list := (g_list ?g)(Free := g_list ?g Free @ [x]), g_loose := g_loose g\<rparr>)"
    "moves {ID_CNTR, FREE_TAIL, FREE_TL_CNT} 0 s2 s3" by blast
  let ?g3 = "?g\<lparr>g_list := (g_list ?g)(Free := g_list ?g Free @ [x]), g_loose := g_loose g\<rparr>"
  have x0: "x \<noteq> 0" using inv_front_link(4) [OF inv l(1)] by (auto simp: node_ok_def)
  have "event_loop s a SQ_EVNT_NONE (cells s EVENT_HD_CNT) (cells s EVENT_HEAD) = Some (ev, s3)"
    using m l(2,3) r1(1,4) r2(1) r3(1) x0 by (subst event_loop.simps) (simp add: rd_mapped)
  moreover have "moves take_words 0 s s3"
    using moves_eq [OF r1(3) moves_trans [OF r2(3) r3(3)]] by (simp add: take_words_def insert_commute)
  moreover have "stable g ?g3" "g_evs ?g3 = evs" by (simp_all add: stable_def same_rest_def)
  ultimately show thesis using r3(2) by (intro that [of s3 ?g3])
qed

lemma take_event_ok:
  assumes inv: "inv s g" and e: "g_evs g = ev # evs" and m: "mapped s a 512"
  obtains s' g' where "take_event s a = Some (ev, unguard_q_memory s')" and "inv s' g'" and "ends take_words 0 s s'" and "stable g g'"
    and "g_evs g' = evs" and "sems s' = sems s" and "clock_n s' = clock_n s"
proof -
  obtain s1 g' where r: "event_loop s a SQ_EVNT_NONE (cells s EVENT_HD_CNT) (cells s EVENT_HEAD) = Some (ev, s1)" "inv s1 g'"
    "moves take_words 0 s s1" "stable g g'" "g_evs g' = evs"
    by (rule event_loop_ok [OF inv e m])
  obtain s2 where r2: "release_prev_extents s1 = Some s2" "inv s2 g'" "ends {} 0 s1 s2" "cells s2 = cells s1"
    "sems s2 = sems s1" "signals s2 = signals s1" "clock_n s2 = clock_n s1"
    by (rule inv_release [OF r(2)])
  have "take_event s a = Some (ev, unguard_q_memory s2)"
    using m r(1) r2(1) by (simp add: take_event_def rd_mapped)
  moreover have "ends take_words 0 s s2" using ends_trans [OF runs_ends [OF moves_runs [OF r(3)]] r2(3)] by simp
  moreover have "sems s2 = sems s" "clock_n s2 = clock_n s" using moves_sems [OF r(3)] r2(5,7) by simp_all
  ultimately show thesis using r2(2) r(4,5) by (intro that)
qed

section \<open>A queue with an event\<close>

lemma announced_queue:
  obtains t x where "shr_q_add (Some (with_flags sample_queue FLAG_EVNT_NONEMPTY True)) (Some [7]) 1 = Some (SH_OK, Some t)"
    and "queue_holds t [x] [SQ_EVNT_NONEMPTY]"
proof -
  let ?s = "with_flags sample_queue FLAG_EVNT_NONEMPTY True"
  have h: "queue_holds ?s [] []" by (rule with_flags_holds) simp
  have a: "adder (\<lambda>s. enq s (Some [7]) 1 SH_STRM_T) (Value SH_STRM_T (take (nat 1) [7])) (value_room 1)"
    by (rule adder_value) (simp_all add: slots_of_def)
  have c: "4 \<le> i \<Longrightarrow> i \<noteq> FLAGS \<Longrightarrow> cells ?s i = fresh_cells 2 i" for i by (simp add: with_flags_def)
  have w: "cells ?s MAX_DEPTH = 2" "cells ?s LEVEL = 0" "cells ?s COUNT = 0" "cells ?s DATA_ALLOC = 176"
    by (simp_all add: c) (simp_all add: fresh_cells_def)
  have f: "cells ?s FLAGS = FLAG_EVNT_NONEMPTY" by (simp add: with_flags_def) (simp add: fresh_cells_def)
  have n: "value_room 1 = 32" by (simp add: value_room_def slots_of_def)
  have r: "has_room (value_room 1 + 4) ?s []" using w(4) n by (simp add: has_room_def room_def)
  obtain t where t: "add_through ?s enq_gate_try (\<lambda>s. enq s (Some [7]) 1 SH_STRM_T) = Some (SH_OK, t)"
    "accepted (Value SH_STRM_T [7]) (value_room 1 + 4) ?s [] [] t"
    using enq_try_add.add_call [OF h r a] w(1) by auto
  have e: "add_events (cells ?s) (cells ?s FLAGS, []) = (FLAG_ACTIVATED, [SQ_EVNT_NONEMPTY])"
    unfolding add_events_def w f enq_events_def by (simp add: activate_def fire_if_def get_event_flag_def)
  have l: "put_item b x [] = [x]" for b x by (simp add: put_item_def)
  from t(2) obtain x where x: "queue_holds t [x] [SQ_EVNT_NONEMPTY]"
    unfolding accepted_def e l by auto
  have "mode ?s = 3" by (simp add: with_flags_def)
  then have "shr_q_add (Some ?s) (Some [7]) 1 = Some (SH_OK, Some t)"
    using t(1) by (simp add: shr_q_add_def on_queue_def)
  with x show thesis by (intro that)
qed

section \<open>The public functions\<close>

text \<open>A token of the event semaphore has been taken: the front event comes out.\<close>

lemma take_event_holds:
  assumes q: "queue_inv s g" and e: "g_evs g = ev # evs"
    and t: "same_handle (guard_q_memory s) t" "sems t = (sems s)(EVNT_SEM := sems s EVNT_SEM - 1)" and cells: "cells t = cells s"
  shows "\<exists>u. take_event t (base_current s) = Some (ev, u) \<and> queue_holds u (contents g) evs \<and> ends take_words 0 s u"
proof -
  have i: "inv s g" and acc: "in_long (accessors s)" using q by (simp_all add: queue_inv_def)
  have i': "inv (guard_q_memory s) g" using i by simp
  note h = same_handle_ok [OF t(1) i']
  have bc: "base_current t = base_current s" using t(1) by (simp add: same_handle_def guard_q_memory_def)
  have m: "mapped t (base_current s) 512" using inv_parts(8) [OF h(1)] bc by simp
  obtain u g' where u: "take_event t (base_current s) = Some (ev, unguard_q_memory u)" "inv u g'" "ends take_words 0 t u"
    "stable g g'" "g_evs g' = evs" "sems u = sems t" "clock_n u = clock_n t"
    by (rule take_event_ok [OF h(1) e m])
  have "ends {} 0 (guard_q_memory s) t" using h(2) cells by (auto simp: ends_def obj_def used_def)
  then have en: "ends take_words 0 (guard_q_memory s) u" using ends_trans [OF _ u(3)] by force
  note eg = ends_guard [OF en acc]
  have w: "cells u COUNT = cells s COUNT" "cells u MAX_DEPTH = cells s MAX_DEPTH"
    using ends_word [OF eg(1), of COUNT] ends_word [OF eg(1), of MAX_DEPTH] by (simp_all add: take_words_def)
  have "clock_ok u" using q eg(1) by (simp add: queue_inv_def clock_ok_def ends_def)
  then have "queue_inv u g'"
    using q u(2,5) w stable_queue [OF u(4)] u(4,6) t(2) e eg(2)
    by (simp add: queue_inv_def stable_def same_rest_def)
  then have "queue_inv (unguard_q_memory u) g'" by (rule queue_inv_unguard [OF q _ eg(2)])
  moreover have "contents g' = contents g" using stable_queue [OF u(4)] by (simp add: contents_def)
  ultimately show ?thesis using u(1,5) eg(1) by (auto simp: queue_holds_def)
qed

lemma event_call:
  assumes "queue_holds s q evs"
  shows "\<exists>t. shr_q_event (Some s) = Some (case evs of [] \<Rightarrow> SQ_EVNT_NONE | ev # _ \<Rightarrow> ev, Some t) \<and>
    queue_holds t q (tl evs) \<and> ends take_words 0 s t"
proof -
  obtain g where g: "queue_inv s g" "contents g = q" "g_evs g = evs" using assms by (auto simp: queue_holds_def)
  note p = holds_parts [OF assms]
  have qt: "quiet (guard_q_memory s)" using p(8) by (simp add: quiet_def guard_q_memory_def)
  note w = sem_calls_eq(1) [OF qt p(3), of EVNT_SEM]
  show ?thesis
  proof (cases evs)
    case Nil
    let ?t = "unguard_q_memory ((guard_q_memory s)\<lparr>os_n := Suc (os_n (guard_q_memory s))\<rparr>)"
    have "shr_q_event (Some s) = Some (SQ_EVNT_NONE, Some ?t)"
      using w p(5) Nil by (simp add: shr_q_event_def on_queue_def)
    moreover have "?t = s\<lparr>os_n := Suc (os_n s)\<rparr>"
      using unguard_guard [OF p(1)] by (intro qstate.equality) (simp_all add: guard_q_memory_def unguard_q_memory_def)
    moreover have "queue_holds (s\<lparr>os_n := Suc (os_n s)\<rparr>) q evs"
      using g by (auto simp: queue_holds_def queue_inv_def clock_ok_def)
    ultimately show ?thesis using Nil by simp
  next
    case (Cons ev es)
    let ?t = "(guard_q_memory s)\<lparr>os_n := Suc (os_n (guard_q_memory s)), sems := (sems s)(EVNT_SEM := sems s EVNT_SEM - 1)\<rparr>"
    have e: "g_evs g = ev # es" using g(3) Cons by simp
    have "\<exists>u. take_event ?t (base_current s) = Some (ev, u) \<and> queue_holds u (contents g) es \<and> ends take_words 0 s u"
      by (rule take_event_holds [OF g(1) e]) simp_all
    then obtain u where u: "take_event ?t (base_current s) = Some (ev, u)" "queue_holds u q es" "ends take_words 0 s u"
      using g(2) by auto
    have "shr_q_event (Some s) = Some (ev, Some u)"
      using w p(5) Cons u(1) by (simp add: shr_q_event_def on_queue_def)
    with u(2,3) Cons show ?thesis by simp
  qed
qed

text \<open>A number of collections, one after the other.\<close>

fun collect :: "nat \<Rightarrow> qstate option \<Rightarrow> (sq_event list \<times> qstate option) option" where
  "collect 0 q = Some ([], q)"
| "collect (Suc n) q = do {
     (ev, q) \<leftarrow> shr_q_event q;
     (evs, q) \<leftarrow> collect n q;
     Some (ev # evs, q) }"

text \<open>C13: \<open>shr_q_event\<close>, called any number of times, hands out the recorded events in their order,
  each of them once, and then \<open>SQ_EVNT_NONE\<close>; the items stay, and so do the other words of the header.\<close>

theorem shr_q_event_correct:
  assumes "queue_holds s q evs"
  shows "\<exists>t. collect n (Some s) = Some (take n (evs @ replicate n SQ_EVNT_NONE), Some t) \<and>
    queue_holds t q (drop n evs) \<and> ends take_words 0 s t"
  using assms
proof (induction n arbitrary: s evs)
  case (Suc n)
  obtain t where t: "shr_q_event (Some s) = Some (case evs of [] \<Rightarrow> SQ_EVNT_NONE | ev # _ \<Rightarrow> ev, Some t)"
    "queue_holds t q (tl evs)" "ends take_words 0 s t"
    using event_call [OF Suc.prems] by blast
  obtain u where u: "collect n (Some t) = Some (take n (tl evs @ replicate n SQ_EVNT_NONE), Some u)"
    "queue_holds u q (drop n (tl evs))" "ends take_words 0 t u"
    using Suc.IH [OF t(2)] by blast
  have "ends take_words 0 s u" using ends_trans [OF t(3) u(3)] by simp
  moreover have "take n (es @ SQ_EVNT_NONE # replicate n SQ_EVNT_NONE) = take n (es @ replicate n SQ_EVNT_NONE)" for es
    by (simp add: take_replicate flip: replicate_Suc)
  ultimately show ?case using t(1) u by (cases evs) (auto simp: drop_Suc)
qed simp

theorem shr_q_event_witness:
  "\<exists>t u q. shr_q_add (Some (with_flags sample_queue FLAG_EVNT_NONEMPTY True)) (Some [7]) 1 = Some (SH_OK, Some t) \<and>
     collect 2 (Some t) = Some ([SQ_EVNT_NONEMPTY, SQ_EVNT_NONE], Some u) \<and> queue_holds u q []"
proof -
  obtain t x where t: "shr_q_add (Some (with_flags sample_queue FLAG_EVNT_NONEMPTY True)) (Some [7]) 1 = Some (SH_OK, Some t)"
    "queue_holds t [x] [SQ_EVNT_NONEMPTY]"
    by (rule announced_queue)
  from shr_q_event_correct [OF t(2), of 2] t(1) show ?thesis by (auto simp: numeral_2_eq_2)
qed

lemma timed_event_call:
  assumes "queue_holds s q evs" and "timeout_ok d"
  shows "\<exists>t. shr_q_event_timedwait (Some s) (Some d) = Some (case evs of [] \<Rightarrow> SQ_EVNT_NONE | ev # _ \<Rightarrow> ev, Some t) \<and>
    queue_holds t q (tl evs) \<and> ends take_words 0 s t"
proof -
  obtain g where g: "queue_inv s g" "contents g = q" "g_evs g = evs" using assms by (auto simp: queue_holds_def)
  note p = holds_parts [OF assms(1)]
  let ?s = "tick (guard_q_memory s)"
  have qt: "quiet ?s" using p(8) by (simp add: quiet_def guard_q_memory_def tick_def)
  have m: "mapped ?s (base_current s) 512" using p(3) by simp
  note w = sem_calls_eq(3) [OF qt m, of EVNT_SEM]
  have dl: "timeout_ok (timespecadd (now (guard_q_memory s)) d)" using deadline_ok [of "guard_q_memory s" d] p(7) assms(2) by simp
  have bc: "base_current ?s = base_current s" by simp
  show ?thesis
  proof (cases evs)
    case Nil
    let ?t = "unguard_q_memory (?s\<lparr>os_n := Suc (os_n ?s)\<rparr>)"
    have "event_wait_loop ?s (timespecadd (now (guard_q_memory s)) d) = Some (False, ?s\<lparr>os_n := Suc (os_n ?s)\<rparr>)"
      using w p(5) Nil dl bc by (subst event_wait_loop.simps) (simp add: timeout_ok_def)
    then have "shr_q_event_timedwait (Some s) (Some d) = Some (SQ_EVNT_NONE, Some ?t)"
      by (simp add: shr_q_event_timedwait_def on_queue_def clock_gettime_eq Let_def)
    moreover have "?t = s\<lparr>os_n := Suc (os_n s), clock_n := Suc (clock_n s)\<rparr>"
      using unguard_guard [OF p(1)] by (intro qstate.equality) (simp_all add: guard_q_memory_def unguard_q_memory_def tick_def)
    moreover have "queue_holds (s\<lparr>os_n := Suc (os_n s), clock_n := Suc (clock_n s)\<rparr>) q evs"
      using g by (auto simp: queue_holds_def queue_inv_def clock_ok_def)
    moreover have "ends take_words 0 s (s\<lparr>os_n := Suc (os_n s), clock_n := Suc (clock_n s)\<rparr>)" by simp
    ultimately show ?thesis using Nil by auto
  next
    case (Cons ev es)
    let ?t = "?s\<lparr>os_n := Suc (os_n ?s), sems := (sems s)(EVNT_SEM := sems s EVNT_SEM - 1)\<rparr>"
    have e: "g_evs g = ev # es" using g(3) Cons by simp
    have "event_wait_loop ?s (timespecadd (now (guard_q_memory s)) d) = Some (True, ?t)"
      using w p(5) Cons bc by (subst event_wait_loop.simps) simp
    moreover have "\<exists>u. take_event ?t (base_current s) = Some (ev, u) \<and> queue_holds u (contents g) es \<and> ends take_words 0 s u"
      by (rule take_event_holds [OF g(1) e]) (simp_all add: same_handle_def tick_def)
    ultimately show ?thesis
      using g(2) Cons by (auto simp: shr_q_event_timedwait_def on_queue_def clock_gettime_eq Let_def)
  qed
qed

text \<open>C19: \<open>shr_q_event_timedwait\<close> with a normalised time-out hands out the next event, or
  \<open>SQ_EVNT_NONE\<close> once the time-out has passed; it always returns, also without a queue.\<close>

theorem shr_q_event_timedwait_correct:
  assumes "queue_holds s q evs" and "timeout_ok d"
  shows "(\<exists>t. shr_q_event_timedwait (Some s) (Some d) = Some (case evs of [] \<Rightarrow> SQ_EVNT_NONE | ev # _ \<Rightarrow> ev, Some t) \<and>
    queue_holds t q (tl evs) \<and> ends take_words 0 s t) \<and>
    shr_q_event_timedwait None (Some d) = Some (SQ_EVNT_NONE, None)"
  using timed_event_call [OF assms] by (simp add: shr_q_event_timedwait_def on_queue_def)

theorem shr_q_event_timedwait_witness:
  "\<exists>t. shr_q_event_timedwait (Some sample_queue) (Some \<lparr>tv_sec = 0, tv_nsec = 1\<rparr>) = Some (SQ_EVNT_NONE, Some t) \<and>
     queue_holds t [] []"
  using shr_q_event_timedwait_correct [OF sample_queue_simps(1), of "\<lparr>tv_sec = 0, tv_nsec = 1\<rparr>"] by (auto simp: timeout_ok_def)

end
