(* ===== verification/Clean.thy ===== *)
theory Clean
  imports Collect
begin

text \<open>
  \<open>shr_q_clean\<close>: items older than a limit are removed from the front of the item list, up to
  the first that is not.
\<close>

section \<open>One round of the loop\<close>

lemma inv_exceeds_limit:
  assumes inv: "inv s g" and e: "e \<in> set (g_held g @ g_fifo g @ g_lifo g)" and x: "e_blk e < cur_slots s"
  shows "item_exceeds_limit s (e_blk e) lim t = Some (exceeds lim (e_ts e) t, s)"
proof -
  let ?b = "e_blk e"
  note h = inv_held [OF inv e]
  have b: "164 \<le> ?b" using h(2) by (simp add: node_ok_def)
  have x4: "?b + 4 \<le> cur_slots s" by (rule inv_node_mapped [OF inv h(2) x])
  have ts: "cells s (?b + 1) = tv_sec (e_ts e)" "cells s (?b + 2) = tv_nsec (e_ts e)"
    using h(1) b by (simp_all add: entry_ok_def holds_def obj_eq)
  have r: "insure_in_range s ?b = Some (\<lparr>v_status = SH_OK, v_slot = ?b, v_ext = base_current s\<rparr>, s)"
    using insure_in_range_mapped [of s ?b] inv_parts(1) [OF inv] b x by simp
  have "rd_ts s (base_current s) (?b + 1) = Some (e_ts e)"
    using inv_rd [OF inv] b x4 ts by (simp add: rd_ts_def rd2_def add.commute)
  then show ?thesis using r b by (simp add: item_exceeds_limit_def exceeds_def)
qed

definition clean_words :: "int set" where
  "clean_words = {HEAD, HEAD_CNT, ID_CNTR, FREE_TAIL, FREE_TL_CNT, COUNT} \<union> blk_words"

text \<open>Up to the comparison with the limit.\<close>

lemma clean_look:
  assumes inv: "inv s g" and l: "g_list g Items = x # y # ys" and f: "g_fifo g = e # es"
  obtains v1 s1 s2 v2 s3 where "insure_in_range s x = Some (v1, s1)" and "next_item s1 x = Some (e_blk e, s2)"
    and "insure_in_range s2 (e_blk e) = Some (v2, s3)" and "v_slot v2 = e_blk e" and "inv s3 g" and "moves {} 0 s s3"
    and "cells s3 = cells s" and "mapped s3 (v_ext v1) 512" and "x + 4 \<le> cur_slots s3" and "e_blk e + 4 \<le> cur_slots s3"
proof -
  note fl = inv_front_link [OF inv l, unfolded hd_slot.simps tl_slot.simps]
  have x: "0 < x" "x < cells s SIZE" using fl(4) inv_parts(4) [OF inv] by (auto simp: node_ok_def)
  obtain s1 where r1: "insure_in_range s x = Some (\<lparr>v_status = SH_OK, v_slot = x, v_ext = base_current s1\<rparr>, s1)"
    "inv s1 g" "moves {} 0 s s1" "cells s1 = cells s" "x < cur_slots s1"
    by (rule inv_range [OF inv x])
  obtain s2 where r2: "next_item s1 x = Some (e_blk e, s2)" "inv s2 g" "moves {} 0 s1 s2" "cells s2 = cells s1"
    by (rule inv_next_item [OF r1(2) l f r1(5)])
  have em: "e \<in> set (g_held g @ g_fifo g @ g_lifo g)" using f by simp
  note h = inv_held [OF r2(2) em]
  have "(0::int) < 2 ^ e_exp e" by simp
  then have b: "0 < e_blk e" "e_blk e < cells s2 SIZE" using h(2,3) inv_parts(4) [OF r2(2)] by (auto simp: node_ok_def)
  obtain s3 where r3: "insure_in_range s2 (e_blk e) = Some (\<lparr>v_status = SH_OK, v_slot = e_blk e, v_ext = base_current s3\<rparr>, s3)"
    "inv s3 g" "moves {} 0 s2 s3" "cells s3 = cells s2" "e_blk e < cur_slots s3"
    by (rule inv_range [OF r2(2) b])
  have k: "keeps s1 s2" "keeps s2 s3" using r2(3) r3(3) by (simp_all add: moves_def)
  have "x + 4 \<le> cur_slots s1" by (rule inv_node_mapped [OF r1(2) fl(4) r1(5)])
  moreover have "cur_slots s1 \<le> cur_slots s3" using k by (auto simp: keeps_def)
  moreover have "mapped s3 (base_current s1) 512" using inv_parts(8) [OF r1(2)] k by (simp add: keeps_def)
  moreover have "e_blk e + 4 \<le> cur_slots s3" by (rule inv_node_mapped [OF r3(2) h(2) r3(5)])
  moreover have "moves {} 0 s s3" using moves_eq [OF r1(3) moves_eq [OF r2(3) r3(3)]] .
  ultimately show thesis using r1(4) r2(4) r3(2,4) by (intro that [OF r1(1) r2(1) r3(1)]) simp_all
qed

text \<open>Taking the item out.\<close>

lemma clean_take:
  assumes inv: "inv s g" and l: "g_list g Items = x # y # ys" and f: "g_fifo g = e # es" and m: "mapped s a 512"
    and x: "x + 4 \<le> cur_slots s" "e_blk e + 4 \<le> cur_slots s" and n: "0 < cells s COUNT" "cells s COUNT < 2 ^ 62"
  obtains s1 s2 s3 s4 g' where "remove_front s x (cells s HEAD_CNT) HEAD TAIL = Some (x, s1)"
    and "AFS s1 a COUNT 1 = Some (cells s COUNT, s2)" and "add_end s2 x FREE_TAIL = Some s3"
    and "free_data_slots s3 (e_blk e) = Some (SH_OK, s4)" and "inv s4 g'" and "moves clean_words 0 s s4"
    and "cells s4 COUNT = cells s COUNT - 1" and "g_fifo g' = es" and "g_lifo g' = g_lifo g" and "g_evs g' = g_evs g"
    and "g_held g' = g_held g" and "same_rest g g'"
proof -
  obtain s1 where r1: "remove_front s x (cells s HEAD_CNT) HEAD TAIL = Some (x, s1)"
    "inv s1 (g\<lparr>g_list := (g_list g)(Items := y # ys), g_loose := x # g_loose g, g_fifo := es, g_held := e # g_held g\<rparr>)"
    "moves {HEAD, HEAD_CNT} 0 s s1"
    by (rule inv_take_item [OF inv l f])
  let ?g1 = "g\<lparr>g_list := (g_list g)(Items := y # ys), g_loose := x # g_loose g, g_fifo := es, g_held := e # g_held g\<rparr>"
  have k1: "keeps s s1" using r1(3) by (simp add: moves_def)
  have m1: "mapped s1 a 512" "cur_slots s \<le> cur_slots s1" using k1 m by (simp_all add: keeps_def)
  have c1: "cells s1 COUNT = cells s COUNT" by (rule moves_word [OF r1(3)]) simp_all
  let ?s2 = "s1\<lparr>cells := (cells s1)(COUNT := cells s COUNT - 1)\<rparr>"
  have r2: "AFS s1 a COUNT 1 = Some (cells s COUNT, ?s2)" using AFS_mapped [OF m1(1)] n c1 by simp
  have i2: "inv ?s2 ?g1" and mv2: "moves {COUNT} 0 s1 ?s2" by (rule inv_word [OF r1(2)]; simp)+
  have "g_loose ?g1 = x # g_loose g" "x + 4 \<le> cur_slots ?s2" using x(1) m1(2) by (simp_all add: cur_slots_def)
  from inv_put_free [OF i2 this] obtain s3 where r3: "add_end ?s2 x FREE_TAIL = Some s3"
    "inv s3 (?g1\<lparr>g_list := (g_list ?g1)(Free := g_list ?g1 Free @ [x]), g_loose := g_loose g\<rparr>)"
    "moves {ID_CNTR, FREE_TAIL, FREE_TL_CNT} 0 ?s2 s3" by blast
  let ?g3 = "?g1\<lparr>g_list := (g_list ?g1)(Free := g_list ?g1 Free @ [x]), g_loose := g_loose g\<rparr>"
  have "cur_slots ?s2 \<le> cur_slots s3" using r3(3) by (auto simp: moves_def keeps_def)
  then have "g_held ?g3 = e # g_held g" "e_blk e + 1 < cur_slots s3" using x(2) m1(2) by (simp_all add: cur_slots_def)
  from inv_free_blk [OF r3(2) this] obtain s4 where r4: "free_data_slots s3 (e_blk e) = Some (SH_OK, s4)"
    "inv s4 (?g3\<lparr>g_held := g_held g, g_pool := (g_pool ?g3)(e_exp e := e_blk e # g_pool ?g3 (e_exp e))\<rparr>)"
    "moves blk_words 0 s3 s4" by blast
  let ?g4 = "?g3\<lparr>g_held := g_held g, g_pool := (g_pool ?g3)(e_exp e := e_blk e # g_pool ?g3 (e_exp e))\<rparr>"
  have mv: "moves clean_words 0 s s4"
    using moves_trans [OF moves_trans [OF moves_trans [OF r1(3) mv2] r3(3)] r4(3)]
    by (rule moves_mono) (auto simp: clean_words_def)
  have "cells s3 COUNT = cells ?s2 COUNT" by (rule moves_word [OF r3(3)]) simp_all
  moreover have "cells s4 COUNT = cells s3 COUNT" by (rule moves_word [OF r4(3)]) (simp_all add: blk_words_def)
  ultimately have "cells s4 COUNT = cells s COUNT - 1" by simp
  then show thesis
    by (intro that [OF r1(1) r2 r3(1) r4(1,2) mv]) (simp_all add: same_rest_def)
qed

section \<open>The loop\<close>

text \<open>The guard is up while the loop runs; \<open>break\<close> posts the token taken for the item that stays.\<close>

lemma clean_stop:
  assumes q: "queue_inv s g" and sh: "same_handle s s1" and se: "sems s1 = (sems s)(DEQ_SEM := sems s DEQ_SEM - 1)"
    and i: "inv t g" and mv: "runs {} 0 s1 t" and st: "sems t = sems s1" and cells: "cells t = cells s1"
  shows "\<exists>u. clean_break t = Some (SH_OK, unguard_q_memory u) \<and> queue_inv u g \<and> ends {CALL_BLOCKS, CALL_UNBLOCKS} 0 s u"
proof -
  have s: "inv s g" "cells s COUNT \<le> cells s MAX_DEPTH" "cells s MAX_DEPTH \<le> SEM_VALUE_MAX" "sems s DEQ_SEM = cells s COUNT"
    using q by (simp_all add: queue_inv_def)
  note h = same_handle_ok [OF sh s(1)]
  let ?u = "t\<lparr>os_n := Suc (os_n t), sems := (sems t)(DEQ_SEM := sems t DEQ_SEM + 1)\<rparr>"
  have "sems t DEQ_SEM < SEM_VALUE_MAX" using st se s by simp
  then have "deq_release_gate t = Some (SH_OK, ?u)"
    using post_loop_eq [OF i, of DEQ_SEM] by (simp add: deq_release_gate_def)
  then have "clean_break t = Some (SH_OK, unguard_q_memory ?u)" by (simp add: clean_break_def)
  moreover have "sems ?u = sems s" using st se by (simp add: fun_eq_iff)
  moreover have "cells t COUNT = cells s COUNT" "cells t MAX_DEPTH = cells s MAX_DEPTH" using cells h(5) by simp_all
  moreover have "accessors t = accessors s" "clock t = clock s"
    using mv sh by (simp_all add: runs_def same_handle_def)
  moreover have "ends {CALL_BLOCKS, CALL_UNBLOCKS} 0 s ?u"
    using ends_trans [OF h(2) runs_ends [OF mv]] by simp
  ultimately show ?thesis using q i by (intro exI [of _ ?u]) (simp add: queue_inv_def clock_ok_def)
qed

text \<open>The first \<open>n\<close> are older than the limit at a reading of the clock since the \<open>k\<close>-th, the next one,
  if any, is not.\<close>

definition swept :: "(nat \<Rightarrow> timespec) \<Rightarrow> nat \<Rightarrow> timespec \<Rightarrow> timespec list \<Rightarrow> nat \<Rightarrow> bool" where
  "swept clk k lim stamps n \<longleftrightarrow> n \<le> length stamps \<and>
     (\<forall>ts\<in>set (take n stamps). \<exists>j\<ge>k. exceeds lim ts (clk j)) \<and>
     (n < length stamps \<longrightarrow> (\<exists>j\<ge>k. \<not> exceeds lim (stamps ! n) (clk j)))"

lemma swept_Suc: "swept clk k' lim stamps n \<Longrightarrow> k \<le> k' \<Longrightarrow> exceeds lim ts (clk j) \<Longrightarrow> k \<le> j \<Longrightarrow> swept clk k lim (ts # stamps) (Suc n)"
  unfolding swept_def by (auto intro: order_trans)

definition sweep_words :: "int set" where
  "sweep_words = clean_words \<union> {CALL_BLOCKS, CALL_UNBLOCKS}"

lemma clean_round:
  assumes q: "queue_inv s g" and f: "g_fifo g = e # es"
  obtains k t where "clock_n s \<le> k" and "\<not> exceeds lim (e_ts e) (clock s k)"
      and "clean_loop s lim = Some (SH_OK, unguard_q_memory t)" and "queue_inv t g" and "ends sweep_words 0 s t"
  | k t g' where "clock_n s \<le> k" and "exceeds lim (e_ts e) (clock s k)" and "clean_loop s lim = clean_loop t lim"
      and "queue_inv t g'" and "ends sweep_words 0 s t" and "g_fifo g' = es" and "g_lifo g' = g_lifo g" and "g_evs g' = g_evs g"
      and "clock_n s \<le> clock_n t"
proof -
  have s: "inv s g" "clock_ok s" "cells s COUNT = int (length (queue_of g))" "cells s COUNT \<le> cells s MAX_DEPTH"
    "cells s MAX_DEPTH \<le> SEM_VALUE_MAX" "sems s DEQ_SEM = cells s COUNT" "sems s ENQ_SEM = cells s MAX_DEPTH - cells s COUNT"
    using q by (simp_all add: queue_inv_def)
  have n: "0 < cells s COUNT" using s(3) f by (simp add: queue_of_def)
  then have "0 < sems s DEQ_SEM" using s(6) by simp
  from deq_try.opens [OF s(1,2) this] obtain s1 where g1: "deq_gate_try s = Some (SH_OK, s1)" "passes DEQ_SEM s s1" by blast
  have sh: "same_handle s s1" and se: "sems s1 = (sems s)(DEQ_SEM := sems s DEQ_SEM - 1)" using g1(2) by (simp_all add: passes_def)
  note h = same_handle_ok [OF sh s(1)]
  have c1: "cells s1 i = cells s i" if "i \<noteq> CALL_BLOCKS" "i \<noteq> CALL_UNBLOCKS" for i using h(5) [OF that] .
  obtain x y ys where l: "g_list g Items = x # y # ys" "cells s1 HEAD \<noteq> cells s1 TAIL"
    by (rule inv_items_cases [OF h(1)]) (use f in auto)
  have hd: "cells s1 HEAD = x" using inv_front_link(1) [OF h(1) l(1)] by simp
  obtain v1 s2 s3 v2 s4 where k: "insure_in_range s1 x = Some (v1, s2)" "next_item s2 x = Some (e_blk e, s3)"
    "insure_in_range s3 (e_blk e) = Some (v2, s4)" "v_slot v2 = e_blk e" "inv s4 g" "moves {} 0 s1 s4"
    "cells s4 = cells s1" "mapped s4 (v_ext v1) 512" "x + 4 \<le> cur_slots s4" "e_blk e + 4 \<le> cur_slots s4"
    by (rule clean_look [OF h(1) l(1) f])
  have em: "e \<in> set (g_held g @ g_fifo g @ g_lifo g)" using f by simp
  have nz: "e_blk e \<noteq> 0" using inv_held(2) [OF s(1) em] by (auto simp: node_ok_def)
  have i5: "inv (tick s4) g" using k(5) by simp
  have x5: "e_blk e < cur_slots (tick s4)" using k(10) by simp
  note lim = inv_exceeds_limit [OF i5 em x5, of lim "now s4"]
  have kk: "clock_n s \<le> clock_n s4" "now s4 = clock s (clock_n s4)"
    using sh k(6) by (simp_all add: moves_def keeps_def same_handle_def now_def)
  have rd: "rd s1 (base_current s1) HEAD_CNT = Some (cells s1 HEAD_CNT)" "rd s1 (base_current s1) HEAD = Some x"
    "rd s1 (base_current s1) TAIL = Some (cells s1 TAIL)"
    using inv_rd_header [OF h(1)] hd by simp_all
  have run: "clean_loop s lim = (if \<not> exceeds lim (e_ts e) (now s4) then clean_break (tick s4)
    else do {
      (r, s) \<leftarrow> remove_front (tick s4) x (cells s1 HEAD_CNT) HEAD TAIL;
      if r = 0 then clean_break s
      else do {
        (_, s) \<leftarrow> AFS s (v_ext v1) COUNT 1;
        s \<leftarrow> add_end s x FREE_TAIL;
        (_, s) \<leftarrow> free_data_slots s (e_blk e);
        (status, s) \<leftarrow> enq_release_gate s;
        if status \<noteq> SH_OK then Some (status, unguard_q_memory s) else clean_loop s lim } })"
    using g1(1) rd l(2) hd k(1-4) nz lim by (subst clean_loop.simps) (simp add: clock_gettime_eq cong: if_cong)
  show thesis
  proof (cases "exceeds lim (e_ts e) (now s4)")
    case False
    have "runs {} 0 s1 (tick s4)" "sems (tick s4) = sems s1" "cells (tick s4) = cells s1"
      using moves_runs [OF k(6)] moves_sems [OF k(6)] k(7) by simp_all
    from clean_stop [OF q sh se i5 this] obtain u where u: "clean_break (tick s4) = Some (SH_OK, unguard_q_memory u)"
      "queue_inv u g" "ends {CALL_BLOCKS, CALL_UNBLOCKS} 0 s u" by blast
    have "ends sweep_words 0 s u" by (rule ends_mono [OF u(3)]) (auto simp: sweep_words_def)
    with False u kk run show thesis by (intro that(1) [of "clock_n s4" u]) simp_all
  next
    case True
    have n4: "0 < cells (tick s4) COUNT" "cells (tick s4) COUNT < 2 ^ 62" using k(7) c1 [of COUNT] n s(4,5) by simp_all
    have m4: "mapped (tick s4) (v_ext v1) 512" "x + 4 \<le> cur_slots (tick s4)" "e_blk e + 4 \<le> cur_slots (tick s4)"
      using k(8-10) by simp_all
    obtain s5 s6 s7 s8 g' where t: "remove_front (tick s4) x (cells (tick s4) HEAD_CNT) HEAD TAIL = Some (x, s5)"
      "AFS s5 (v_ext v1) COUNT 1 = Some (cells (tick s4) COUNT, s6)" "add_end s6 x FREE_TAIL = Some s7"
      "free_data_slots s7 (e_blk e) = Some (SH_OK, s8)" "inv s8 g'" "moves clean_words 0 (tick s4) s8"
      "cells s8 COUNT = cells (tick s4) COUNT - 1" "g_fifo g' = es" "g_lifo g' = g_lifo g" "g_evs g' = g_evs g"
      "g_held g' = g_held g" "same_rest g g'"
      by (rule clean_take [OF i5 l(1) f m4 n4])
    have se8: "sems s8 = sems s1" using moves_sems [OF t(6)] moves_sems [OF k(6)] by simp
    let ?t = "s8\<lparr>os_n := Suc (os_n s8), sems := (sems s8)(ENQ_SEM := sems s8 ENQ_SEM + 1)\<rparr>"
    have "sems s8 ENQ_SEM < SEM_VALUE_MAX" using se8 se s(5,7) n by simp
    then have rel: "enq_release_gate s8 = Some (SH_OK, ?t)"
      using post_loop_eq [OF t(5), of ENQ_SEM] by (simp add: enq_release_gate_def)
    have x0: "x \<noteq> 0" using inv_front_link(4) [OF h(1) l(1)] by (auto simp: node_ok_def)
    have eq: "clean_loop s lim = clean_loop ?t lim"
      using run True t(1-4) rel k(7) x0 by simp
    have en: "ends sweep_words 0 s ?t"
      using ends_trans [OF h(2) ends_trans [OF runs_ends [OF moves_runs [OF k(6)]], of clean_words 0 s8]]
        runs_ends [OF moves_runs [OF t(6)]]
      by (simp add: sweep_words_def Un_commute)
    have md: "cells s8 MAX_DEPTH = cells s MAX_DEPTH"
      using ends_word [OF en, of MAX_DEPTH] by (simp add: sweep_words_def clean_words_def blk_words_def)
    have "queue_inv ?t g'"
      using q t(5,7-12) md k(7) c1 [of COUNT] se8 se f en
      by (auto simp: queue_inv_def same_rest_def queue_of_def clock_ok_def ends_def)
    moreover have "clock_n s \<le> clock_n ?t" using kk(1) t(6) by (simp add: moves_def keeps_def tick_def)
    ultimately show thesis using True kk eq en t(8-10) by (intro that(2) [of "clock_n s4" ?t g']) simp_all
  qed
qed

lemma clean_loop_ok:
  assumes "queue_inv s g"
  shows "\<exists>t g' n. clean_loop s lim = Some (SH_OK, unguard_q_memory t) \<and> queue_inv t g' \<and> ends sweep_words 0 s t \<and>
    g_lifo g' = g_lifo g \<and> g_evs g' = g_evs g \<and> g_fifo g' = drop n (g_fifo g) \<and>
    swept (clock s) (clock_n s) lim (map e_ts (g_fifo g)) n"
  using assms
proof (induction "g_fifo g" arbitrary: s g)
  case Nil
  have s: "inv s g" "clock_ok s" "cells s COUNT \<le> cells s MAX_DEPTH" "cells s MAX_DEPTH \<le> SEM_VALUE_MAX"
    "sems s DEQ_SEM = cells s COUNT" "0 \<le> cells s COUNT"
    using Nil.prems by (simp_all add: queue_inv_def)
  have sw: "swept (clock s) (clock_n s) lim (map e_ts (g_fifo g)) 0" using Nil.hyps by (simp add: swept_def)
  have w: "ends {CALL_BLOCKS, CALL_UNBLOCKS} 0 s t \<Longrightarrow> ends sweep_words 0 s t" for t
    by (erule ends_mono) (auto simp: sweep_words_def)
  have "\<exists>t. clean_loop s lim = Some (SH_OK, unguard_q_memory t) \<and> queue_inv t g \<and> ends sweep_words 0 s t"
  proof (cases "sems s DEQ_SEM = 0")
    case True
    from deq_try.shuts [OF s(1,2) True] obtain t where t: "deq_gate_try s = Some (SH_ERR_EMPTY, t)" "refuses s t" by blast
    have sh: "same_handle s t" "sems t = sems s" using t(2) by (simp_all add: refuses_def)
    note h = same_handle_ok [OF sh(1) s(1)]
    have "queue_inv t g" using Nil.prems h(1,4) sh h(5) [of COUNT] h(5) [of MAX_DEPTH] by (simp add: queue_inv_def same_handle_def)
    moreover have "clean_loop s lim = Some (SH_OK, unguard_q_memory t)" using t(1) by (subst clean_loop.simps) simp
    ultimately show ?thesis using w [OF h(2)] by blast
  next
    case False
    then have "0 < sems s DEQ_SEM" using s(5,6) by simp
    from deq_try.opens [OF s(1,2) this] obtain s1 where g1: "deq_gate_try s = Some (SH_OK, s1)" "passes DEQ_SEM s s1" by blast
    have sh: "same_handle s s1" and se: "sems s1 = (sems s)(DEQ_SEM := sems s DEQ_SEM - 1)" using g1(2) by (simp_all add: passes_def)
    note h = same_handle_ok [OF sh s(1)]
    have ht: "cells s1 HEAD = cells s1 TAIL"
      by (rule inv_items_cases [OF h(1)]) (use Nil.hyps in auto)
    have "runs {} 0 s1 s1" "sems s1 = sems s1" "cells s1 = cells s1" by simp_all
    from clean_stop [OF Nil.prems sh se h(1) this] obtain u where u: "clean_break s1 = Some (SH_OK, unguard_q_memory u)"
      "queue_inv u g" "ends {CALL_BLOCKS, CALL_UNBLOCKS} 0 s u" by blast
    have "clean_loop s lim = clean_break s1"
      using g1(1) ht inv_rd_header [OF h(1)] by (subst clean_loop.simps) simp
    with u w [OF u(3)] show ?thesis by auto
  qed
  then obtain t where t: "clean_loop s lim = Some (SH_OK, unguard_q_memory t)" "queue_inv t g" "ends sweep_words 0 s t" by blast
  show ?case by (intro exI [of _ t] exI [of _ g] exI [of _ 0]) (simp add: t sw)
next
  case (Cons e es)
  from Cons.hyps(2) have f: "g_fifo g = e # es" by simp
  show ?case
  proof (rule clean_round [OF Cons.prems f, of lim])
    fix k t assume r: "clock_n s \<le> k" "\<not> exceeds lim (e_ts e) (clock s k)" "clean_loop s lim = Some (SH_OK, unguard_q_memory t)"
      "queue_inv t g" "ends sweep_words 0 s t"
    have "swept (clock s) (clock_n s) lim (map e_ts (g_fifo g)) 0" using r(1,2) f by (auto simp: swept_def)
    then show ?thesis by (intro exI [of _ t] exI [of _ g] exI [of _ 0]) (simp add: r)
  next
    fix k t g1 assume r: "clock_n s \<le> k" "exceeds lim (e_ts e) (clock s k)" "clean_loop s lim = clean_loop t lim" "queue_inv t g1"
      "ends sweep_words 0 s t" "g_fifo g1 = es" "g_lifo g1 = g_lifo g" "g_evs g1 = g_evs g" "clock_n s \<le> clock_n t"
    from Cons.hyps(1) [OF r(6) [symmetric] r(4)] obtain u g' n where
      u: "clean_loop t lim = Some (SH_OK, unguard_q_memory u)" "queue_inv u g'" "ends sweep_words 0 t u" "g_lifo g' = g_lifo g1"
      "g_evs g' = g_evs g1" "g_fifo g' = drop n (g_fifo g1)" "swept (clock t) (clock_n t) lim (map e_ts (g_fifo g1)) n"
      by blast
    have "clock t = clock s" using r(5) by (simp add: ends_def)
    then have "swept (clock s) (clock_n s) lim (e_ts e # map e_ts es) (Suc n)"
      using swept_Suc [where clk = "clock s" and k' = "clock_n t" and k = "clock_n s" and j = k and lim = lim and ts = "e_ts e"
          and stamps = "map e_ts es" and n = n] u(7) r(1,2,6,9) by simp
    moreover have "ends sweep_words 0 s u" using ends_trans [OF r(5) u(3)] by simp
    ultimately show ?thesis
      using r u f by (intro exI [of _ u] exI [of _ g'] exI [of _ "Suc n"]) simp
  qed
qed

section \<open>The public function\<close>

lemma clean_call:
  assumes "queue_holds s q evs" and "mode s AND SQ_READ_ONLY \<noteq> 0"
  shows "\<exists>t stack items n. shr_q_clean (Some s) (Some lim) = Some (SH_OK, Some t) \<and> q = stack @ items \<and>
       queue_holds t (stack @ drop n items) evs \<and> swept (clock s) (clock_n s) lim (map fst items) n \<and> ends sweep_words 0 s t"
proof -
  obtain g where g: "queue_inv s g" "contents g = q" "g_evs g = evs" using assms(1) by (auto simp: queue_holds_def)
  let ?f = "\<lambda>e. (e_ts e, e_val e)"
  from clean_loop_ok [OF queue_inv_guard [OF g(1)], of lim] obtain t g' n where
    t: "clean_loop (guard_q_memory s) lim = Some (SH_OK, unguard_q_memory t)" "queue_inv t g'" "ends sweep_words 0 (guard_q_memory s) t"
    "g_lifo g' = g_lifo g" "g_evs g' = g_evs g" "g_fifo g' = drop n (g_fifo g)"
    "swept (clock s) (clock_n s) lim (map e_ts (g_fifo g)) n"
    by auto
  have acc: "in_long (accessors s)" using g(1) by (simp add: queue_inv_def)
  note eg = ends_guard [OF t(3) acc]
  have "queue_inv (unguard_q_memory t) g'" by (rule queue_inv_unguard [OF g(1) t(2) eg(2)])
  moreover have "contents g' = map ?f (g_lifo g) @ drop n (map ?f (g_fifo g))"
    using t(4,6) by (simp add: contents_def queue_of_def drop_map)
  ultimately have "queue_holds (unguard_q_memory t) (map ?f (g_lifo g) @ drop n (map ?f (g_fifo g))) evs"
    using t(5) g(3) by (auto simp: queue_holds_def)
  moreover have "q = map ?f (g_lifo g) @ map ?f (g_fifo g)" using g(2) by (simp add: contents_def queue_of_def)
  moreover have "swept (clock s) (clock_n s) lim (map fst (map ?f (g_fifo g))) n" using t(7) by (simp add: comp_def)
  ultimately have "\<exists>stack items n. q = stack @ items \<and> queue_holds (unguard_q_memory t) (stack @ drop n items) evs \<and>
      swept (clock s) (clock_n s) lim (map fst items) n"
    by blast
  then show ?thesis using t(1) eg(1) assms(2) by (auto simp: shr_q_clean_def on_queue_def)
qed



end
