(* ===== verification/Histories.thy ===== *)
theory Histories
  imports Clean
begin

text \<open>
  Sequences of calls. The interface \<open>bounded_queue\<close> says what one addition and one removal do to
  the items a queue holds; from its laws alone, any sequence of requests is answered as a
  bounded list answers it. The plain and the timed functions of the library both implement it.
\<close>

section \<open>Requests and their answers\<close>

datatype 'a request = Add 'a | Remove

datatype 'a reply = Accepted | Refused | Delivered 'a | Nothing

text \<open>The reference: a list of at most \<open>depth\<close> items; with adaptive LIFO, additions at or above the
  level go on top.\<close>

definition place :: "bool \<Rightarrow> int \<Rightarrow> 'a list \<Rightarrow> 'a \<Rightarrow> 'a list" where
  "place lifo level q x = (if lifo \<and> level \<le> int (length q) then x # q else q @ [x])"

fun spec_calls :: "int \<Rightarrow> bool \<Rightarrow> int \<Rightarrow> 'a request list \<Rightarrow> 'a list \<Rightarrow> 'a reply list \<times> 'a list" where
  "spec_calls depth lifo level [] q = ([], q)"
| "spec_calls depth lifo level (Add x # rs) q =
    (if int (length q) < depth
     then (case spec_calls depth lifo level rs (place lifo level q x) of (as, q') \<Rightarrow> (Accepted # as, q'))
     else (case spec_calls depth lifo level rs q of (as, q') \<Rightarrow> (Refused # as, q')))"
| "spec_calls depth lifo level (Remove # rs) q =
    (case q of
       [] \<Rightarrow> (case spec_calls depth lifo level rs [] of (as, q') \<Rightarrow> (Nothing # as, q'))
     | x # q \<Rightarrow> (case spec_calls depth lifo level rs q of (as, q') \<Rightarrow> (Delivered x # as, q')))"

text \<open>The answers of the code: a status, or an item with the buffer it shows.\<close>

datatype answer = Status sh_status | Item sq_item ubuf

fun run_calls ::
  "('a \<Rightarrow> 's \<Rightarrow> (sh_status \<times> 's) option) \<Rightarrow> ('s \<Rightarrow> (sq_item \<times> ubuf \<times> 's) option) \<Rightarrow> 'a request list \<Rightarrow> 's \<Rightarrow>
   (answer list \<times> 's) option" where
  "run_calls add rem [] s = Some ([], s)"
| "run_calls add rem (Add x # rs) s = do {
     (st, s) \<leftarrow> add x s;
     (as, s) \<leftarrow> run_calls add rem rs s;
     Some (Status st # as, s) }"
| "run_calls add rem (Remove # rs) s = do {
     (item, b, s) \<leftarrow> rem s;
     (as, s) \<leftarrow> run_calls add rem rs s;
     Some (Item item b # as, s) }"

fun means :: "('a \<Rightarrow> sq_item \<Rightarrow> ubuf \<Rightarrow> bool) \<Rightarrow> 'a reply \<Rightarrow> answer \<Rightarrow> bool" where
  "means shows Accepted a \<longleftrightarrow> a = Status SH_OK"
| "means shows Refused a \<longleftrightarrow> a = Status SH_ERR_LIMIT"
| "means shows (Delivered x) a \<longleftrightarrow> (\<exists>item b. a = Item item b \<and> shows x item b)"
| "means shows Nothing a \<longleftrightarrow> (\<exists>b. a = Item (empty_item SH_ERR_EMPTY) b)"

section \<open>The interface\<close>

text \<open>\<open>budget n s\<close>: the object can still provide \<open>n\<close> slots; \<open>cost\<close> bounds what a request takes.\<close>

fun costs :: "('a \<Rightarrow> int) \<Rightarrow> 'a request list \<Rightarrow> int" where
  "costs cost [] = 0"
| "costs cost (Add x # rs) = cost x + costs cost rs"
| "costs cost (Remove # rs) = 8 + costs cost rs"

locale bounded_queue =
  fixes holds :: "'s \<Rightarrow> 'a list \<Rightarrow> bool" and depth :: int and lifo :: bool and level :: int
    and fits :: "'a \<Rightarrow> bool" and cost :: "'a \<Rightarrow> int" and budget :: "int \<Rightarrow> 's \<Rightarrow> bool"
    and add :: "'a \<Rightarrow> 's \<Rightarrow> (sh_status \<times> 's) option" and rem :: "'s \<Rightarrow> (sq_item \<times> ubuf \<times> 's) option"
    and delivered :: "'a \<Rightarrow> sq_item \<Rightarrow> ubuf \<Rightarrow> bool"
  assumes add_space: "holds s q \<Longrightarrow> fits x \<Longrightarrow> budget (cost x + n) s \<Longrightarrow> 0 \<le> n \<Longrightarrow> int (length q) < depth \<Longrightarrow>
      \<exists>t. add x s = Some (SH_OK, t) \<and> holds t (place lifo level q x) \<and> budget n t"
    and add_full: "holds s q \<Longrightarrow> fits x \<Longrightarrow> budget (cost x + n) s \<Longrightarrow> 0 \<le> n \<Longrightarrow> depth \<le> int (length q) \<Longrightarrow>
      \<exists>t. add x s = Some (SH_ERR_LIMIT, t) \<and> holds t q \<and> budget n t"
    and rem_some: "holds s (x # q) \<Longrightarrow> budget (8 + n) s \<Longrightarrow> 0 \<le> n \<Longrightarrow>
      \<exists>item b t. rem s = Some (item, b, t) \<and> delivered x item b \<and> holds t q \<and> budget n t"
    and rem_none: "holds s [] \<Longrightarrow> budget (8 + n) s \<Longrightarrow> 0 \<le> n \<Longrightarrow>
      \<exists>b t. rem s = Some (empty_item SH_ERR_EMPTY, b, t) \<and> holds t [] \<and> budget n t"
    and cost_nonneg: "fits x \<Longrightarrow> 0 \<le> cost x"
begin

definition all_fit :: "'a request list \<Rightarrow> bool" where
  "all_fit rs \<longleftrightarrow> (\<forall>x. Add x \<in> set rs \<longrightarrow> fits x)"

lemma costs_nonneg: "all_fit rs \<Longrightarrow> 0 \<le> costs cost rs"
proof (induction rs)
  case (Cons r rs)
  then have "0 \<le> costs cost rs" by (simp add: all_fit_def)
  with Cons.prems show ?case by (cases r) (auto simp: all_fit_def dest!: cost_nonneg)
qed simp

lemma calls_refine:
  assumes "holds s q" and "all_fit rs" and "budget (costs cost rs) s"
  shows "\<exists>as t. run_calls add rem rs s = Some (as, t) \<and>
    list_all2 (means delivered) (fst (spec_calls depth lifo level rs q)) as \<and>
    holds t (snd (spec_calls depth lifo level rs q))"
  using assms
proof (induction rs arbitrary: s q)
  case Nil
  then show ?case by simp
next
  case (Cons r rs)
  have fit: "all_fit rs" using Cons.prems(2) by (simp add: all_fit_def)
  note nn = costs_nonneg [OF fit]
  show ?case
  proof (cases r)
    case (Add x)
    have x: "fits x" "budget (cost x + costs cost rs) s" using Cons.prems(2,3) Add by (auto simp: all_fit_def)
    show ?thesis
    proof (cases "int (length q) < depth")
      case True
      obtain t where t: "add x s = Some (SH_OK, t)" "holds t (place lifo level q x)" "budget (costs cost rs) t"
        using add_space [OF Cons.prems(1) x nn True] by blast
      from Cons.IH [OF t(2) fit t(3)] t(1) show ?thesis using True Add by (fastforce split: prod.splits)
    next
      case False
      obtain t where t: "add x s = Some (SH_ERR_LIMIT, t)" "holds t q" "budget (costs cost rs) t"
        using add_full [OF Cons.prems(1) x nn] False by auto
      from Cons.IH [OF t(2) fit t(3)] t(1) show ?thesis using False Add by (fastforce split: prod.splits)
    qed
  next
    case Remove
    have b: "budget (8 + costs cost rs) s" using Cons.prems(3) Remove by simp
    show ?thesis
    proof (cases q)
      case Nil
      obtain c t where t: "rem s = Some (empty_item SH_ERR_EMPTY, c, t)" "holds t []" "budget (costs cost rs) t"
        using rem_none [OF _ b nn] Cons.prems(1) Nil by auto
      from Cons.IH [OF t(2) fit t(3)] t(1) show ?thesis using Remove Nil by (fastforce split: prod.splits)
    next
      case (Cons x q')
      obtain item c t where t: "rem s = Some (item, c, t)" "delivered x item c" "holds t q'" "budget (costs cost rs) t"
        using rem_some [OF _ b nn] Cons.prems(1) Cons by metis
      from Cons.IH [OF t(3) fit t(4)] t(1,2) show ?thesis using Remove Cons by (fastforce split: prod.splits)
    qed
  qed
qed

end

section \<open>The queue implements it\<close>

text \<open>A client holds the queue's handle and one buffer it passes to every removal. It adds plain
  values of bytes or vectors.\<close>

datatype request_item = Bytes "byte list" | Elements "vec list"

fun payload_of :: "request_item \<Rightarrow> payload" where
  "payload_of (Bytes bs) = Value SH_STRM_T bs"
| "payload_of (Elements vs) = vector_payload vs"

fun item_fits :: "request_item \<Rightarrow> bool" where
  "item_fits (Bytes bs) \<longleftrightarrow> bs \<noteq> [] \<and> 7 + slots_of (int (length bs)) \<le> 2 ^ 30"
| "item_fits (Elements vs) \<longleftrightarrow> vs \<noteq> [] \<and> (\<forall>v\<in>set vs. vec_ok v \<and> vec_type v < 2 ^ 32) \<and> calc_vector_slots vs \<le> 2 ^ 30"

fun item_room :: "request_item \<Rightarrow> int" where
  "item_room (Bytes bs) = value_room (int (length bs)) + 4"
| "item_room (Elements vs) = vector_room vs + 4"

type_synonym client = "qstate \<times> ubuf"

definition client_add ::
  "(qstate option \<Rightarrow> byte list option \<Rightarrow> int \<Rightarrow> (sh_status \<times> qstate option) option) \<Rightarrow>
   (qstate option \<Rightarrow> vec list option \<Rightarrow> int \<Rightarrow> (sh_status \<times> qstate option) option) \<Rightarrow>
   request_item \<Rightarrow> client \<Rightarrow> (sh_status \<times> client) option" where
  "client_add add addv x c =
    (case c of (s, b) \<Rightarrow> do {
       (st, q) \<leftarrow> (case x of Bytes bs \<Rightarrow> add (Some s) (Some bs) (int (length bs))
                   | Elements vs \<Rightarrow> addv (Some s) (Some vs) (int (length vs)));
       s \<leftarrow> q;
       Some (st, s, b) })"

definition client_remove ::
  "(qstate option \<Rightarrow> ubuf option \<Rightarrow> (sq_item \<times> ubuf option \<times> qstate option) option) \<Rightarrow>
   client \<Rightarrow> (sq_item \<times> ubuf \<times> client) option" where
  "client_remove rem c = do {
     (item, b, q) \<leftarrow> rem (Some (fst c)) (Some (snd c));
     b \<leftarrow> b;
     s \<leftarrow> q;
     Some (item, b, s, b) }"

definition client_holds :: "int \<Rightarrow> bool \<Rightarrow> int \<Rightarrow> client \<Rightarrow> request_item list \<Rightarrow> bool" where
  "client_holds depth lifo level c q \<longleftrightarrow>
     (\<exists>xs evs. queue_holds (fst c) xs evs \<and> map snd xs = map payload_of q) \<and>
     ubuf_ok (snd c) \<and> (ub_mem (snd c) = None \<or> 0 < ub_size (snd c)) \<and>
     mode (fst c) AND SQ_READ_ONLY \<noteq> 0 \<and> mode (fst c) AND SQ_WRITE_ONLY \<noteq> 0 \<and>
     cells (fst c) MAX_DEPTH = depth \<and> cells (fst c) LEVEL = level \<and>
     (cells (fst c) FLAGS AND FLAG_LIFO_ON_LEVEL \<noteq> 0) = lifo \<and> cells (fst c) FLAGS AND FLAG_DISCARD_EXPIRED = 0"

text \<open>An event takes a node, so what bounds the slots bounds the events as well.\<close>

definition client_budget :: "int \<Rightarrow> client \<Rightarrow> bool" where
  "client_budget n c \<longleftrightarrow> room (fst c) n \<and> sems (fst c) EVNT_SEM + n \<le> SEM_VALUE_MAX"

definition client_delivered :: "request_item \<Rightarrow> sq_item \<Rightarrow> ubuf \<Rightarrow> bool" where
  "client_delivered x item b \<longleftrightarrow> (\<exists>ts. delivers (ts, payload_of x) item b)"

lemma event_flag_lifo [simp]: "get_event_flag ev AND FLAG_LIFO_ON_LEVEL = 0"
  by (simp add: get_event_flag_def)

lemma fire_bit: "fst (fire_if b ev fe) AND m = fst fe AND m" if "get_event_flag ev AND m = 0"
  using that by (cases fe) (simp add: fire_if_def and_not_disjoint)

lemma or_disjoint: "k AND m = 0 \<Longrightarrow> (f OR k) AND m = f AND (m :: int)"
proof (rule bit_eqI)
  fix n assume "k AND m = 0"
  then have "\<not> bit (k AND m) n" by simp
  then show "bit ((f OR k) AND m) n = bit (f AND m) n" by (auto simp: bit_and_iff bit_or_iff)
qed

lemma events_bits:
  assumes "m = FLAG_DISCARD_EXPIRED \<or> m = FLAG_LIFO_ON_LEVEL"
  shows "fst (add_events c fe) AND m = fst fe AND m" and "fst (deq_events n x fe) AND m = fst fe AND m"
proof -
  have d: "get_event_flag ev AND m = 0" for ev using assms by auto
  have a: "FLAG_ACTIVATED AND m = 0" using assms by auto
  have "fst (activate fe) AND m = fst fe AND m"
    using fire_bit [OF d, where b = True and fe = "(fst fe OR FLAG_ACTIVATED, snd fe)"] or_disjoint [OF a, of "fst fe"]
    by (simp add: activate_def fire_if_def)
  then show "fst (add_events c fe) AND m = fst fe AND m" by (simp add: add_events_def enq_events_def fire_bit [OF d])
  show "fst (deq_events n x fe) AND m = fst fe AND m" by (simp add: deq_events_def fire_bit [OF d])
qed

lemma add_events_length: "length (snd (add_events c fe)) \<le> length (snd fe) + 4"
  using event_lengths [of "c COUNT" "c MAX_DEPTH" fe]
    fire_length(2) [where ev = SQ_EVNT_LEVEL and fe = "enq_events (c COUNT) (c MAX_DEPTH) fe" and b = "0 < c LEVEL \<and> c LEVEL \<le> c COUNT + 1"]
  by (simp add: add_events_def)

text \<open>What an accepted addition leaves for the next call.\<close>

lemma accepted_client:
  assumes c: "client_holds depth lifo level (s, b) q" and x: "queue_holds s xs evs" "map snd xs = map payload_of q"
    and a: "accepted (payload_of x) m s xs evs t" and m: "4 \<le> m" "client_budget (m + n) (s, b)" "0 \<le> n"
  shows "client_holds depth lifo level (t, b) (place lifo level q x)" and "client_budget n (t, b)"
proof -
  from a obtain k where k: "queue_holds t (put_item (lifo_now (cells s)) (clock s k, payload_of x) xs) (snd (add_events (cells s) (cells s FLAGS, evs)))"
    "cells t FLAGS = fst (add_events (cells s) (cells s FLAGS, evs))" "ends add_words m s t"
    by (auto simp: accepted_def)
  have w: "cells t i = cells s i" if "i \<in> {MAX_DEPTH, LEVEL}" for i
    by (rule ends_word [OF k(3)]) (use that add_words_other [of i] in auto)
  have len: "length q = length xs" using x(2) by (metis length_map)
  have cnt: "cells s COUNT = int (length q)" using holds_parts(4) [OF x(1)] len by simp
  have "lifo_now (cells s) = (lifo \<and> level \<le> int (length q))" using c cnt by (auto simp: lifo_now_def client_holds_def)
  then have "map snd (put_item (lifo_now (cells s)) (clock s k, payload_of x) xs) = map payload_of (place lifo level q x)"
    using x(2) by (auto simp: put_item_def place_def)
  moreover have "cells t FLAGS AND i = cells s FLAGS AND i" if "i = FLAG_DISCARD_EXPIRED \<or> i = FLAG_LIFO_ON_LEVEL" for i
    using events_bits(1) [OF that] k(2) by simp
  moreover have "mode t = mode s" using k(3) by (simp add: ends_def)
  ultimately show "client_holds depth lifo level (t, b) (place lifo level q x)"
    using c k(1) w by (auto simp: client_holds_def)
  have "sems t EVNT_SEM \<le> sems s EVNT_SEM + 4"
    using holds_parts(5) [OF k(1)] holds_parts(5) [OF x(1)] add_events_length [of "cells s" "(cells s FLAGS, evs)"] by simp
  moreover have "used t \<le> used s + m" using k(3) by (simp add: ends_def)
  ultimately show "client_budget n (t, b)"
    using m holds_parts(6) [OF k(1)] by (simp add: client_budget_def room_used)
qed

lemma refused_client:
  assumes c: "client_holds depth lifo level (s, b) q" and x: "queue_holds s xs evs" "map snd xs = map payload_of q"
    and a: "untouched s xs evs t" and m: "0 \<le> m" "client_budget (m + n) (s, b)"
  shows "client_holds depth lifo level (t, b) q" and "client_budget n (t, b)"
proof -
  have t: "queue_holds t xs evs" "ends {CALL_BLOCKS, CALL_UNBLOCKS} 0 s t" using a by (simp_all add: untouched_def)
  have w: "cells t i = cells s i" if "i \<in> {MAX_DEPTH, LEVEL, FLAGS}" for i
    by (rule ends_word [OF t(2)]) (use that in auto)
  show "client_holds depth lifo level (t, b) q"
    using c t x(2) w by (auto simp: client_holds_def ends_def)
  have "sems t EVNT_SEM = sems s EVNT_SEM" using holds_parts(5) [OF t(1)] holds_parts(5) [OF x(1)] by simp
  moreover have "used t \<le> used s" using t(2) by (simp add: ends_def)
  ultimately show "client_budget n (t, b)" using m holds_parts(6) [OF t(1)] by (simp add: client_budget_def room_used)
qed

lemma delivers_buffer: "delivers x item b \<Longrightarrow> ubuf_ok b \<Longrightarrow> 0 < ub_size b"
proof -
  assume d: "delivers x item b" and b: "ubuf_ok b"
  then obtain m where m: "ub_mem b = Some m" "shows_item item m (fst x) (snd x)" by (auto simp: delivers_def)
  then have "read_long m 0 \<noteq> None" by (cases "snd x") auto
  then have "8 \<le> length m" by (auto simp: read_long_def split: if_splits)
  then show ?thesis using b m(1) by (auto simp: ubuf_ok_def)
qed

lemma removed_client:
  assumes c: "client_holds depth lifo level (s, b) (x # q)" and x: "queue_holds s (y # xs) evs" "snd y = payload_of x" "map snd xs = map payload_of q"
    and t: "queue_holds t xs evs'" "ends rem_words 8 s t" "ubuf_ok b'" "delivers y item b'"
      "(cells t FLAGS, evs') = deq_events (1 + int (length xs)) False (cells s FLAGS, evs)"
    and m: "client_budget (8 + n) (s, b)" "0 \<le> n"
  shows "client_holds depth lifo level (t, b') q" and "client_budget n (t, b')"
proof -
  have w: "cells t i = cells s i" if "i \<in> {MAX_DEPTH, LEVEL}" for i
    by (rule ends_word [OF t(2)]) (use that rem_words_other [of i] in auto)
  have fl: "cells t FLAGS = fst (deq_events (1 + int (length xs)) False (cells s FLAGS, evs))"
    "evs' = snd (deq_events (1 + int (length xs)) False (cells s FLAGS, evs))" using t(5) by (metis fst_conv, metis snd_conv)
  have "cells t FLAGS AND i = cells s FLAGS AND i" if "i = FLAG_DISCARD_EXPIRED \<or> i = FLAG_LIFO_ON_LEVEL" for i
    using events_bits(2) [OF that] fl(1) by simp
  moreover have "mode t = mode s" using t(2) by (simp add: ends_def)
  ultimately show "client_holds depth lifo level (t, b') q"
    using c t(1,3) w x(3) delivers_buffer [OF t(4,3)] by (auto simp: client_holds_def)
  have "length evs' \<le> length evs + 2" using deq_events_length [of "1 + int (length xs)" False "(cells s FLAGS, evs)"] fl(2) by simp
  then have "sems t EVNT_SEM \<le> sems s EVNT_SEM + 2" using holds_parts(5) [OF t(1)] holds_parts(5) [OF x(1)] by simp
  moreover have "used t \<le> used s + 8" using t(2) by (simp add: ends_def)
  ultimately show "client_budget n (t, b')" using m holds_parts(6) [OF t(1)] by (simp add: client_budget_def room_used)
qed

context deq_closing_gate
begin

lemma remove_nothing:
  assumes q: "queue_holds s [] evs" and b: "ub_mem b = None \<or> 0 < ub_size b" and m: "mode s AND SQ_READ_ONLY \<noteq> 0"
  shows "\<exists>t. remove_through (Some s) (Some b) enter = Some (empty_item closed, Some b, Some t) \<and> untouched s [] evs t"
proof -
  from q obtain g where g: "queue_inv s g" "contents g = []" "g_evs g = evs" by (auto simp: queue_holds_def)
  let ?s = "guard_q_memory s"
  have "inv ?s g" "clock_ok ?s" "sems ?s DEQ_SEM = 0" using g(1) holds_parts(9) [OF q] by (simp_all add: queue_inv_def)
  from shuts [OF this] obtain t where t: "enter ?s = Some (closed, t)" "refuses ?s t" by blast
  have "remove_loop enter ?s (empty_item SH_OK) b = Some (empty_item closed, b, t)"
    using t(1) closed by (subst remove_loop.simps) (simp add: empty_item_def)
  then have "remove_through (Some s) (Some b) enter = Some (empty_item closed, Some b, Some (unguard_q_memory t))"
    using b m by (auto simp: remove_through_def)
  with queue_inv_refused [OF g(1) t(2)] g(2,3) show ?thesis by (auto simp: untouched_def queue_holds_def)
qed

end

lemma client_holds_items:
  "client_holds depth lifo level (s, b) q \<Longrightarrow> \<exists>xs evs. queue_holds s xs evs \<and> map snd xs = map payload_of q"
  by (simp add: client_holds_def)

fun item_adder :: "request_item \<Rightarrow> qstate \<Rightarrow> (sh_status \<times> qstate) option" where
  "item_adder (Bytes bs) = (\<lambda>s. enq s (Some bs) (int (length bs)) SH_STRM_T)"
| "item_adder (Elements vs) = enq_elements (Some vs) (int (length vs))"

lemma item_adder_ok: "item_fits x \<Longrightarrow> adder (item_adder x) (payload_of x) (item_room x - 4)"
proof (cases x)
  case (Bytes bs)
  moreover assume "item_fits x"
  ultimately show ?thesis using adder_value [of "int (length bs)" bs SH_STRM_T] by simp
next
  case (Elements vs)
  moreover assume "item_fits x"
  ultimately show ?thesis using adder_vector [of vs] by simp
qed

lemma item_room_ge: "item_fits x \<Longrightarrow> 4 \<le> item_room x"
  using item_adder_ok [of x] by (simp add: adder_def)

lemma client_laws:
  assumes eg: "enq_closing_gate e_enter SH_ERR_LIMIT" and dg: "deq_closing_gate d_enter SH_ERR_EMPTY"
    and add: "\<And>s x. item_fits x \<Longrightarrow> mode s AND SQ_WRITE_ONLY \<noteq> 0 \<Longrightarrow>
      (case x of Bytes bs \<Rightarrow> add (Some s) (Some bs) (int (length bs)) | Elements vs \<Rightarrow> addv (Some s) (Some vs) (int (length vs))) =
      do { (st, t) \<leftarrow> add_through s e_enter (item_adder x); Some (st, Some t) }"
    and rem: "\<And>s b. rem (Some s) (Some b) = remove_through (Some s) (Some b) d_enter"
  shows "bounded_queue (client_holds depth lifo level) depth lifo level item_fits item_room client_budget
    (client_add add addv) (client_remove rem) client_delivered"
proof
  fix c :: client and q x n
  obtain s b where c: "c = (s, b)" by (cases c)
  show "\<exists>t. client_add add addv x c = Some (SH_OK, t) \<and> client_holds depth lifo level t (place lifo level q x) \<and> client_budget n t"
    if h: "client_holds depth lifo level c q" and fit: "item_fits x" and m: "client_budget (item_room x + n) c" "0 \<le> n"
      and space: "int (length q) < depth"
  proof -
    note h = h [unfolded c] and m = m [unfolded c]
    obtain xs evs where x: "queue_holds s xs evs" "map snd xs = map payload_of q" using h by (auto simp: client_holds_def)
    have len: "length q = length xs" using x(2) by (metis length_map)
    have md: "int (length xs) < cells s MAX_DEPTH" using h space len by (simp add: client_holds_def)
    note ir = item_room_ge [OF fit]
    have r: "has_room ((item_room x - 4) + 4) s evs"
      using m ir holds_parts(5) [OF x(1)] by (simp add: has_room_def client_budget_def room_used)
    obtain t where t: "add_through s e_enter (item_adder x) = Some (SH_OK, t)"
      "accepted (payload_of x) ((item_room x - 4) + 4) s xs evs t"
      using enq_closing_gate.add_call [OF eg x(1) r item_adder_ok [OF fit]] md by auto
    have a: "accepted (payload_of x) (item_room x) s xs evs t" using t(2) by simp
    note ac = accepted_client [OF h x a ir m]
    have "client_add add addv x (s, b) = Some (SH_OK, t, b)"
      using add [OF fit, of s] h t(1) by (simp add: client_add_def client_holds_def)
    with ac show ?thesis unfolding c by blast
  qed
  show "\<exists>t. client_add add addv x c = Some (SH_ERR_LIMIT, t) \<and> client_holds depth lifo level t q \<and> client_budget n t"
    if h: "client_holds depth lifo level c q" and fit: "item_fits x" and m: "client_budget (item_room x + n) c" "0 \<le> n"
      and full: "depth \<le> int (length q)"
  proof -
    note h = h [unfolded c] and m = m [unfolded c]
    obtain xs evs where x: "queue_holds s xs evs" "map snd xs = map payload_of q" using h by (auto simp: client_holds_def)
    have len: "length q = length xs" using x(2) by (metis length_map)
    have md: "int (length xs) = cells s MAX_DEPTH" using h full len queue_holds_count [OF x(1)] by (simp add: client_holds_def)
    have ir: "0 \<le> item_room x" using item_room_ge [OF fit] by simp
    obtain t where t: "add_through s e_enter (item_adder x) = Some (SH_ERR_LIMIT, t)" "untouched s xs evs t"
      using enq_closing_gate.add_turned_away [OF eg x(1) md] by blast
    note rc = refused_client [OF h x t(2) ir m(1)]
    have "client_add add addv x (s, b) = Some (SH_ERR_LIMIT, t, b)"
      using add [OF fit, of s] h t(1) by (simp add: client_add_def client_holds_def)
    with rc show ?thesis unfolding c by blast
  qed
  show "\<exists>item b t. client_remove rem c = Some (item, b, t) \<and> client_delivered x item b \<and> client_holds depth lifo level t q \<and> client_budget n t"
    if h: "client_holds depth lifo level c (x # q)" and m: "client_budget (8 + n) c" "0 \<le> n"
  proof -
    note h = h [unfolded c] and m = m [unfolded c]
    obtain zs evs where z: "queue_holds s zs evs" "map snd zs = map payload_of (x # q)" using client_holds_items [OF h] by blast
    then obtain y xs where y: "zs = y # xs" by (cases zs) simp_all
    have x: "queue_holds s (y # xs) evs" "snd y = payload_of x" "map snd xs = map payload_of q" using z y by simp_all
    have pre: "ubuf_ok b" "ub_mem b = None \<or> 0 < ub_size b" "mode s AND SQ_READ_ONLY \<noteq> 0" "cells s FLAGS AND FLAG_DISCARD_EXPIRED = 0"
      using h by (simp_all add: client_holds_def)
    have cs: "can_signal 1 s evs" using m holds_parts(5) [OF x(1)] by (simp add: can_signal_def client_budget_def room_used)
    have "deq_gate d_enter" using deq_closing_gate.axioms [OF dg] by (simp add: deq_gate_def closing_gate_def)
    from deq_gate.remove_front_call [OF this x(1) pre(1-3) cs pre(4)] obtain item b' t evs' where
      t: "remove_through (Some s) (Some b) d_enter = Some (item, Some b', Some t)" "queue_holds t xs evs'" "ends rem_words 8 s t"
      "ubuf_ok b'" "delivers y item b'" "(cells t FLAGS, evs') = deq_events (1 + int (length xs)) False (cells s FLAGS, evs)"
      by blast
    note rc = removed_client [OF h x t(2-6) m]
    have "client_delivered x item b'" using t(5) x(2) by (cases y) (auto simp: client_delivered_def)
    moreover have "client_remove rem (s, b) = Some (item, b', t, b')" using t(1) by (simp add: client_remove_def rem)
    ultimately show ?thesis using rc unfolding c by blast
  qed
  show "\<exists>b t. client_remove rem c = Some (empty_item SH_ERR_EMPTY, b, t) \<and> client_holds depth lifo level t [] \<and> client_budget n t"
    if h: "client_holds depth lifo level c []" and m: "client_budget (8 + n) c" "0 \<le> n"
  proof -
    note h = h [unfolded c] and m = m [unfolded c]
    obtain evs where x: "queue_holds s [] evs" using h by (auto simp: client_holds_def)
    have pre: "ubuf_ok b" "ub_mem b = None \<or> 0 < ub_size b" "mode s AND SQ_READ_ONLY \<noteq> 0" using h by (simp_all add: client_holds_def)
    from deq_closing_gate.remove_nothing [OF dg x pre(2,3)] obtain t where
      t: "remove_through (Some s) (Some b) d_enter = Some (empty_item SH_ERR_EMPTY, Some b, Some t)" "untouched s [] evs t" by blast
    have "map snd [] = map payload_of []" "(0::int) \<le> 8" by simp_all
    note rc = refused_client [OF h x this(1) t(2) this(2) m(1)]
    have "client_remove rem (s, b) = Some (empty_item SH_ERR_EMPTY, b, t, b)" using t(1) by (simp add: client_remove_def rem)
    with rc show ?thesis unfolding c by blast
  qed
  show "0 \<le> item_room x" if "item_fits x" using item_room_ge [OF that] by simp
qed


text \<open>Time-outs in nanoseconds are always normalised.\<close>

definition nanoseconds :: "int \<Rightarrow> timespec" where
  "nanoseconds n = \<lparr>tv_sec = n div 1000000000, tv_nsec = n mod 1000000000\<rparr>"

lemma nanoseconds_ok [simp]: "timeout_ok (nanoseconds n)"
  by (simp add: nanoseconds_def timeout_ok_def)

abbreviation timed_add :: "int \<Rightarrow> request_item \<Rightarrow> client \<Rightarrow> (sh_status \<times> client) option" where
  "timed_add n \<equiv> client_add (\<lambda>q v l. shr_q_add_timedwait q v l (Some (nanoseconds n)))
     (\<lambda>q v l. shr_q_addv_timedwait q v l (Some (nanoseconds n)))"

abbreviation timed_remove :: "int \<Rightarrow> client \<Rightarrow> (sq_item \<times> ubuf \<times> client) option" where
  "timed_remove n \<equiv> client_remove (\<lambda>q b. shr_q_remove_timedwait q b (Some (nanoseconds n)))"

lemma item_length: "item_fits (Bytes bs) \<Longrightarrow> \<not> int (length bs) \<le> 0" "item_fits (Elements vs) \<Longrightarrow> \<not> int (length vs) < 1"
  by (cases bs; simp) (cases vs; simp)

interpretation plain_calls: bounded_queue "client_holds d l v" d l v item_fits item_room client_budget
  "client_add shr_q_add shr_q_addv" "client_remove shr_q_remove" client_delivered for d l v
proof (rule client_laws [OF enq_try_add.enq_closing_gate_axioms deq_try_rem.deq_closing_gate_axioms])
  fix s :: qstate and x assume "item_fits x" "mode s AND SQ_WRITE_ONLY \<noteq> 0"
  then show "(case x of Bytes bs \<Rightarrow> shr_q_add (Some s) (Some bs) (int (length bs))
      | Elements vs \<Rightarrow> shr_q_addv (Some s) (Some vs) (int (length vs))) =
    do { (st, t) \<leftarrow> add_through s enq_gate_try (item_adder x); Some (st, Some t) }"
    by (cases x) (use item_length in \<open>auto simp: shr_q_add_def shr_q_addv_def on_queue_def\<close>)
qed (simp add: shr_q_remove_def)

interpretation timed_calls: bounded_queue "client_holds d l v" d l v item_fits item_room client_budget
  "timed_add n" "timed_remove n" client_delivered for d l v n
proof (rule client_laws)
  show "enq_closing_gate (\<lambda>s. enq_gate_tm s (nanoseconds n)) SH_ERR_LIMIT"
    unfolding enq_closing_gate_def by (rule enq_tm_closing [OF nanoseconds_ok])
  show "deq_closing_gate (\<lambda>s. deq_gate_tm s (nanoseconds n)) SH_ERR_EMPTY"
    unfolding deq_closing_gate_def by (rule deq_tm_closing [OF nanoseconds_ok])
  fix s :: qstate and x assume "item_fits x" "mode s AND SQ_WRITE_ONLY \<noteq> 0"
  then show "(case x of Bytes bs \<Rightarrow> shr_q_add_timedwait (Some s) (Some bs) (int (length bs)) (Some (nanoseconds n))
      | Elements vs \<Rightarrow> shr_q_addv_timedwait (Some s) (Some vs) (int (length vs)) (Some (nanoseconds n))) =
    do { (st, t) \<leftarrow> add_through s (\<lambda>s. enq_gate_tm s (nanoseconds n)) (item_adder x); Some (st, Some t) }"
    by (cases x) (use item_length in \<open>auto simp: shr_q_add_timedwait_def shr_q_addv_timedwait_def on_queue_def\<close>)
qed (simp add: shr_q_remove_timedwait_def)

section \<open>Histories of the library's calls\<close>

definition fit_requests :: "request_item request list \<Rightarrow> bool" where
  "fit_requests rs \<longleftrightarrow> (\<forall>x. Add x \<in> set rs \<longrightarrow> item_fits x)"

text \<open>C1: for any sequence of requests, running \<open>shr_q_add\<close>, \<open>shr_q_addv\<close> and \<open>shr_q_remove\<close> on a queue returns
  from every call and gives the answers of a list of at most \<open>MAX_DEPTH\<close> items: an addition is
  accepted exactly when there is space, a removal delivers the first item with the bytes that were
  added, or reports an empty queue; the final queue holds what the list holds. The object must be
  able to provide the slots the requests need.\<close>

theorem history_refines:
  assumes "client_holds depth lifo level c q" and "fit_requests rs" and "client_budget (costs item_room rs) c"
  shows "\<exists>as d. run_calls (client_add shr_q_add shr_q_addv) (client_remove shr_q_remove) rs c = Some (as, d) \<and>
    list_all2 (means client_delivered) (fst (spec_calls depth lifo level rs q)) as \<and>
    client_holds depth lifo level d (snd (spec_calls depth lifo level rs q))"
  by (rule plain_calls.calls_refine [OF assms(1) _ assms(3)]) (use assms(2) in \<open>simp add: plain_calls.all_fit_def fit_requests_def\<close>)

definition sample_client :: client where
  "sample_client = (sample_queue, \<lparr>ub_mem = None, ub_size = 0\<rparr>)"

lemma sample_client_holds: "client_holds 2 False 0 sample_client []"
proof -
  have "\<exists>xs evs. queue_holds sample_queue xs evs \<and> map snd xs = map payload_of []" using sample_queue_simps(1) by fastforce
  then show ?thesis
    by (simp add: client_holds_def sample_client_def ubuf_ok_def) (simp add: fresh_cells_def)
qed

lemma sample_client_budget: "n \<le> 2 ^ 30 \<Longrightarrow> client_budget n sample_client"
proof -
  assume n: "n \<le> 2 ^ 30"
  have "sems sample_queue EVNT_SEM = 0" using holds_parts(5) [OF sample_queue_simps(1)] by simp
  then show ?thesis using n sample_queue_room [of n] by (simp add: client_budget_def sample_client_def)
qed

theorem history_witness:
  "\<exists>as d. run_calls (client_add shr_q_add shr_q_addv) (client_remove shr_q_remove)
      [Remove, Add (Bytes [1, 2]), Add (Elements [\<lparr>vec_type = 2, vec_len = 1, vec_base = Some [5]\<rparr>]), Add (Bytes [3]), Remove]
      sample_client = Some (as, d) \<and>
    list_all2 (means client_delivered) [Nothing, Accepted, Accepted, Refused, Delivered (Bytes [1, 2])] as"
proof -
  let ?v = "Elements [\<lparr>vec_type = 2, vec_len = 1, vec_base = Some [5]\<rparr>]"
  let ?rs = "[Remove, Add (Bytes [1, 2]), Add ?v, Add (Bytes [3]), Remove]"
  have c: "calc_vector_slots [\<lparr>vec_type = 2, vec_len = 1, vec_base = Some [5]\<rparr>] = 11" by (simp add: calc_vector_slots_def)
  have f: "fit_requests ?rs" by (auto simp: fit_requests_def slots_of_def vec_ok_def c)
  have b: "client_budget (costs item_room ?rs) sample_client"
    by (rule sample_client_budget) (simp add: value_room_def vector_room_def slots_of_def c)
  have "spec_calls 2 False 0 ?rs [] = ([Nothing, Accepted, Accepted, Refused, Delivered (Bytes [1, 2])], [?v])"
    by (simp add: place_def)
  with history_refines [OF sample_client_holds f b] show ?thesis by auto
qed


lemma run_calls_length: "run_calls add rem rs c = Some (as, d) \<Longrightarrow> length as = length rs"
  by (induction add rem rs c arbitrary: as d rule: run_calls.induct) (auto split: Option.bind_splits)

text \<open>C21: the timed functions answer every sequence of requests as the plain ones do: both return
  from every call, with the same acceptances, refusals and deliveries, whatever the time-out.\<close>

theorem timed_history_equivalent:
  assumes "client_holds depth lifo level c q" and "fit_requests rs" and "client_budget (costs item_room rs) c"
  shows "\<exists>as d as' d'.
    run_calls (client_add shr_q_add shr_q_addv) (client_remove shr_q_remove) rs c = Some (as, d) \<and>
    run_calls (timed_add n) (timed_remove n) rs c = Some (as', d') \<and>
    list_all2 (\<lambda>a a'. \<exists>r. means client_delivered r a \<and> means client_delivered r a') as as'"
proof -
  note fit = assms(2) [unfolded fit_requests_def]
  from plain_calls.calls_refine [OF assms(1) _ assms(3)] fit obtain as d where
    a: "run_calls (client_add shr_q_add shr_q_addv) (client_remove shr_q_remove) rs c = Some (as, d)"
      "list_all2 (means client_delivered) (fst (spec_calls depth lifo level rs q)) as"
    by (auto simp: plain_calls.all_fit_def)
  from timed_calls.calls_refine [OF assms(1) _ assms(3), of n] fit obtain as' d' where
    b: "run_calls (timed_add n) (timed_remove n) rs c = Some (as', d')"
      "list_all2 (means client_delivered) (fst (spec_calls depth lifo level rs q)) as'"
    by (auto simp: timed_calls.all_fit_def)
  have "list_all2 (\<lambda>a a'. \<exists>r. means client_delivered r a \<and> means client_delivered r a') as as'"
    using a(2) b(2) unfolding list_all2_conv_all_nth by metis
  with a(1) b(1) show ?thesis by blast
qed

theorem timed_history_witness:
  "\<exists>as d. run_calls (timed_add 5) (timed_remove 5) [Add (Bytes [1]), Remove] sample_client = Some (as, d) \<and> length as = 2"
proof -
  let ?rs = "[Add (Bytes [1]), Remove]"
  have f: "fit_requests ?rs" by (auto simp: fit_requests_def slots_of_def)
  have b: "client_budget (costs item_room ?rs) sample_client"
    by (rule sample_client_budget) (simp add: value_room_def slots_of_def)
  from timed_history_equivalent [OF sample_client_holds f b, of 5] obtain as d where
    r: "run_calls (timed_add 5) (timed_remove 5) ?rs sample_client = Some (as, d)" by blast
  with run_calls_length [OF r] show ?thesis by simp
qed

lemma spec_adds: "int (length q) + int (length xs) \<le> depth \<Longrightarrow>
    spec_calls depth lifo 0 (map Add xs @ rs) q =
    (case spec_calls depth lifo 0 rs (if lifo then rev xs @ q else q @ xs) of (as, q') \<Rightarrow> (replicate (length xs) Accepted @ as, q'))"
  by (induction xs arbitrary: q) (auto simp: place_def split: prod.split)

lemma spec_removes: "spec_calls depth lifo level (replicate (length q) Remove) q = (map Delivered q, [])"
  by (induction q) simp_all

lemma costs_append: "costs w (rs @ ss) = costs w rs + costs w ss"
  by (induction w rs rule: costs.induct) simp_all

text \<open>C20: round trip. A batch added to an empty queue with room for it and removed again comes back
  whole, each item with its bytes: in the order of the additions, or in the reverse order when
  adaptive LIFO is on at level 0. The queue is empty again afterwards.\<close>

theorem batch_roundtrip:
  assumes "client_holds depth lifo 0 c []" and "int (length xs) \<le> depth" and "\<forall>x\<in>set xs. item_fits x"
    and "client_budget (costs item_room (map Add xs) + 8 * int (length xs)) c"
  shows "\<exists>as bs d. run_calls (client_add shr_q_add shr_q_addv) (client_remove shr_q_remove)
      (map Add xs @ replicate (length xs) Remove) c = Some (as @ bs, d) \<and>
    as = replicate (length xs) (Status SH_OK) \<and>
    list_all2 (means client_delivered) (map Delivered (if lifo then rev xs else xs)) bs \<and>
    client_holds depth lifo 0 d []"
proof -
  let ?rs = "map Add xs @ replicate (length xs) Remove"
  have f: "plain_calls.all_fit ?rs" using assms(3) by (auto simp: plain_calls.all_fit_def)
  have c: "costs item_room (replicate n Remove) = 8 * int n" for n by (induction n) simp_all
  have b: "client_budget (costs item_room ?rs) c" using assms(4) by (simp add: costs_append c)
  have "spec_calls depth lifo 0 (replicate (length xs) Remove) (if lifo then rev xs else xs) =
      (map Delivered (if lifo then rev xs else xs), [])"
    using spec_removes [of depth lifo 0 "if lifo then rev xs else xs"] by (cases lifo) simp_all
  then have sp: "spec_calls depth lifo 0 ?rs [] =
      (replicate (length xs) Accepted @ map Delivered (if lifo then rev xs else xs), [])"
    using assms(2) by (cases lifo) (simp_all add: spec_adds)
  from plain_calls.calls_refine [OF assms(1) f b] obtain as d where
    r: "run_calls (client_add shr_q_add shr_q_addv) (client_remove shr_q_remove) ?rs c = Some (as, d)"
      "list_all2 (means client_delivered) (replicate (length xs) Accepted @ map Delivered (if lifo then rev xs else xs)) as"
      "client_holds depth lifo 0 d []"
    unfolding sp by auto
  from r(2) obtain us vs where u: "as = us @ vs" "list_all2 (means client_delivered) (replicate (length xs) Accepted) us"
      "list_all2 (means client_delivered) (map Delivered (if lifo then rev xs else xs)) vs"
    unfolding list_all2_append1 by blast
  have "us = replicate (length xs) (Status SH_OK)"
    using u(2) by (auto simp: list_all2_conv_all_nth intro!: nth_equalityI)
  with r u show ?thesis by blast
qed

theorem batch_roundtrip_witness:
  "\<exists>x y d. run_calls (client_add shr_q_add shr_q_addv) (client_remove shr_q_remove)
      [Add (Bytes [1]), Add (Bytes [2, 3]), Remove, Remove] sample_client =
      Some ([Status SH_OK, Status SH_OK, x, y], d) \<and>
    means client_delivered (Delivered (Bytes [1])) x \<and> means client_delivered (Delivered (Bytes [2, 3])) y"
proof -
  let ?xs = "[Bytes [1], Bytes [2, 3]]"
  have f: "\<forall>x\<in>set ?xs. item_fits x" by (simp add: slots_of_def)
  have b: "client_budget (costs item_room (map Add ?xs) + 8 * int (length ?xs)) sample_client"
    by (rule sample_client_budget) (simp add: value_room_def slots_of_def)
  have n: "int (length ?xs) \<le> 2" by simp
  from batch_roundtrip [OF sample_client_holds n f b] show ?thesis
    by (auto simp: numeral_2_eq_2 list_all2_Cons1)
qed

end
