(* ===== verification/Sessions.thy ===== *)
theory Sessions
  imports Histories
begin

text \<open>
  The life of a queue across handles. Closing a handle leaves the object as it is; opening it again
  gives a handle on the same queue; destroying removes the object; what is not a queue is refused.
\<close>

section \<open>A dormant queue\<close>

text \<open>A name that can be used, and the object of a queue to which no handle is open.\<close>

definition good_name :: "string \<Rightarrow> bool" where
  "good_name nm \<longleftrightarrow> NUL \<notin> set nm \<and> nm \<noteq> [] \<and> length nm \<le> 4096"

definition dormant :: "shm_obj \<Rightarrow> (timespec \<times> payload) list \<Rightarrow> sq_event list \<Rightarrow> bool" where
  "dormant ob q evs \<longleftrightarrow> (\<exists>s. ob = detach s \<and> queue_holds s q evs \<and> branded (cells s))"

text \<open>The handle that opening gives: one mapping of the whole object.\<close>

definition opened :: "shm_obj \<Rightarrow> int \<Rightarrow> qstate \<Rightarrow> qstate \<Rightarrow> bool" where
  "opened ob md p t \<longleftrightarrow>
     detach t = ob \<and> mode t = md \<and> accessors t = 0 \<and> clock t = clock p \<and> clock_n t = clock_n p \<and> my_pid t = my_pid p \<and>
     osr t = osr p \<and> base_current t = 1 \<and> base_prev t = 1 \<and> fresh_ext t = 2 \<and>
     extents t = [1 \<mapsto> \<lparr>e_next = None, e_size = so_size ob, e_slots = so_size ob div 8\<rparr>]"

lemma queue_holds_opened:
  assumes h: "queue_holds s q evs" and t: "opened (detach s) md p t" and p: "quiet p" "clock_ok p"
  shows "queue_holds t q evs"
proof -
  obtain g where g: "queue_inv s g" "contents g = q" "g_evs g = evs" using h by (auto simp: queue_holds_def)
  have i: "inv s g" using g(1) by (simp add: queue_inv_def)
  note b = inv_parts [OF i]
  have c: "cells t = cells s" "fsize t = fsize s" "sems t = sems s" using t by (simp_all add: opened_def detach_def)
  have sz: "fsize s = 8 * cells s SIZE" "512 dvd cells s SIZE" using b(1) by (simp_all add: base_ok_def)
  have "calm t" using b(2) p(1) t c by (simp add: calm_def quiet_def opened_def)
  moreover have "base_ok t"
  proof -
    let ?e = "\<lparr>e_next = None, e_size = fsize s, e_slots = fsize s div 8\<rparr>"
    have e: "extent_ok t ?e" using sz base_ok_bounds(6) [OF b(1)] calm_size [OF b(2,1)] c by (simp add: extent_ok_def)
    have "\<exists>rs. ext_path (extents t) (base_current t) (base_prev t) rs \<and> distinct rs"
      by (intro exI [of _ "[]"]) (use t in \<open>simp add: opened_def\<close>)
    then show ?thesis using b(1) t c e unfolding base_ok_def by (simp add: opened_def detach_def)
  qed
  moreover have "obj t = obj s" using c by (simp add: obj_def)
  ultimately have "inv t g" using i c by (simp add: inv_def)
  moreover have "clock_ok t" using p(2) t by (simp add: clock_ok_def opened_def)
  ultimately have "queue_inv t g" using g(1) c t by (simp add: queue_inv_def opened_def in_long_def)
  then show ?thesis using g(2,3) by (auto simp: queue_holds_def)
qed

lemma dormant_size:
  assumes "dormant ob q evs"
  shows "4096 \<le> so_size ob" "4096 dvd so_size ob" "so_size ob = 8 * so_cells ob SIZE" "so_size ob \<le> 2 ^ 47" "branded (so_cells ob)"
proof -
  obtain s g where s: "ob = detach s" "queue_inv s g" "branded (cells s)" using assms by (auto simp: dormant_def queue_holds_def)
  have b: "base_ok s" "calm s" using s(2) by (simp_all add: queue_inv_def inv_def)
  have z: "fsize s = 8 * cells s SIZE" "512 dvd cells s SIZE" "cells s SIZE \<le> 2 ^ 44"
    using b calm_size [OF b(2,1)] by (simp_all add: base_ok_def)
  note n = base_ok_bounds(6) [OF b(1)]
  show "4096 \<le> so_size ob" "so_size ob = 8 * so_cells ob SIZE" "so_size ob \<le> 2 ^ 47" "branded (so_cells ob)"
    using s z n by (simp_all add: detach_def)
  show "4096 dvd so_size ob" using s(1) z(1,2) by (auto simp: detach_def)
qed

section \<open>Opening and closing\<close>

text \<open>The states of a process that opens the object, before and after it is mapped.\<close>

definition attached :: "shm_obj \<Rightarrow> int \<Rightarrow> qstate \<Rightarrow> qstate" where
  "attached ob md p = (no_handle p)\<lparr>cells := so_cells ob, fsize := so_size ob, sems := so_sems ob, base_current := 1,
     base_prev := 1, fresh_ext := 2, mode := md, os_n := 4 + os_n p\<rparr>"

definition whole :: "shm_obj \<Rightarrow> int \<Rightarrow> qstate \<Rightarrow> qstate" where
  "whole ob md p = (attached ob md p)\<lparr>os_n := 5 + os_n p,
     extents := [1 \<mapsto> \<lparr>e_next = None, e_size = so_size ob, e_slots = so_size ob div 8\<rparr>]\<rparr>"

definition paged :: "shm_obj \<Rightarrow> bool" where
  "paged ob \<longleftrightarrow> 4096 \<le> so_size ob \<and> 4096 dvd so_size ob \<and> so_size ob \<le> 2 ^ 47"

lemma whole_opened: "opened ob md p (whole ob md p)"
  by (simp add: opened_def whole_def attached_def detach_def no_handle_def)

lemma whole_valid:
  assumes "paged ob"
  shows "is_valid_queue (whole ob md p) = Some (branded (so_cells ob))"
proof -
  have m: "mapped (whole ob md p) 1 512" using assms by (auto simp: mapped_def paged_def whole_def attached_def)
  have "mapped (whole ob md p) 1 1" by (rule mapped_mono [OF m]) simp
  moreover have "base_current (whole ob md p) = 1" "cells (whole ob md p) = so_cells ob" by (simp_all add: whole_def attached_def)
  ultimately show ?thesis using m by (auto simp: is_valid_queue_def load_bytes_def slots_of_def rd_mapped branded_def)
qed

lemma map_step:
  assumes "quiet p" and "paged ob"
  shows "map_loop (attached ob md p) (so_size ob) =
    (if so_size ob = wrap64 (so_cells ob SIZE * 8) then Some (SH_OK, whole ob md p)
     else map_loop ((whole ob md p)\<lparr>extents := (\<lambda>_. None)\<rparr>) (wrap64 (so_cells ob SIZE * 8)))"
proof -
  have q: "osr p k = None" for k using assms(1) by (simp add: quiet_def)
  have m: "mapped (whole ob md p) 1 512" using assms(2) by (auto simp: mapped_def paged_def whole_def attached_def)
  then have r: "rd (whole ob md p) 1 SIZE = Some (so_cells ob SIZE)" by (simp add: rd_mapped) (simp add: whole_def attached_def)
  let ?x = "attached ob md p"
  have o: "os_call ?x = (None, ?x\<lparr>os_n := 5 + os_n p\<rparr>)" using q by (simp add: os_call_def attached_def no_handle_def)
  have z: "mmap_result None (so_size ob) = None" using assms(2) by (simp add: mmap_result_def paged_def)
  have e: "extents (?x\<lparr>os_n := n\<rparr>) = (\<lambda>_. None)" "base_current ?x = 1" "base_current (?x\<lparr>os_n := n\<rparr>) = 1" "base_current (whole ob md p) = 1" for n
    by (simp_all add: attached_def whole_def no_handle_def)
  have w: "?x\<lparr>os_n := 5 + os_n p, extents := [1 \<mapsto> \<lparr>e_next = None, e_size = so_size ob, e_slots = so_size ob div 8\<rparr>]\<rparr> = whole ob md p"
    by (simp add: whole_def)
  have u: "(extents (whole ob md p))(1 := None) = (\<lambda>_. None)" by (auto simp: whole_def)
  show ?thesis
    by (subst map_loop.simps) (simp only: o z e prod.case option.case Let_def w r u bind.bind_lunit)
qed

lemma open_eq:
  assumes nm: "good_name nm" and ob: "fs (object_path nm) = Some ob" "paged ob" and p: "quiet p"
  shows "shr_q_open fs (Some nm) md p = do {
    (status, s) \<leftarrow> map_loop (attached ob md p) (so_size ob);
    if status \<noteq> SH_OK then Some (status, None)
    else do {
      valid \<leftarrow> is_valid_queue s;
      if valid then Some (SH_OK, Some s)
      else do { (_, fs) \<leftarrow> shr_q_close fs nm (Some s); Some (SH_ERR_STATE, None) } } }"
proof -
  have q: "osr p k = None" for k using p by (simp add: quiet_def)
  have i: "initialize_q_struct md (no_handle p) =
      (SH_OK, (no_handle p)\<lparr>os_n := os_n p + 2, base_current := 1, base_prev := 1, fresh_ext := 2, mode := md\<rparr>)"
    using q by (simp add: initialize_q_struct_def os_call_def no_handle_def)
  let ?w = "attach ob ((no_handle p)\<lparr>base_current := 1, base_prev := 1, fresh_ext := 2, mode := md, os_n := Suc (Suc (Suc (Suc (os_n p))))\<rparr>)"
  have w: "?w = attached ob md p" by (rule qstate.equality) (simp_all add: attach_def attached_def)
  have "map_shared_memory fs nm (so_size ob) (snd (initialize_q_struct md (no_handle p))) = map_loop (attached ob md p) (so_size ob)"
    unfolding w [symmetric] using q ob(1) unfolding i by (simp add: map_shared_memory_def shm_open_def os_call_def no_handle_def)
  moreover have "perform_name_validations (stat_objects fs) (Some nm) True = Some (SH_OK, so_size ob)"
    using nm ob perform_name_validations_eq [of nm "stat_objects fs" True] by (simp add: good_name_def stat_objects_def paged_def)
  ultimately show ?thesis using i by (simp add: shr_q_open_def)
qed

lemma open_run:
  assumes nm: "good_name nm" and ob: "fs (object_path nm) = Some ob" "dormant ob q evs" and p: "quiet p"
  shows "shr_q_open fs (Some nm) md p = Some (SH_OK, Some (whole ob md p))"
proof -
  note z = dormant_size [OF ob(2)]
  have pg: "paged ob" using z by (simp add: paged_def)
  have "wrap64 (so_cells ob SIZE * 8) = so_size ob" using z(1,3,4) by (simp add: wrap64_id in_long_def)
  then show ?thesis using open_eq [where fs = fs and nm = nm, OF nm ob(1) pg p] map_step [OF p pg] whole_valid [OF pg] z(5) by simp
qed

lemma close_run:
  assumes "queue_holds s q evs"
  shows "shr_q_close fs nm (Some s) = Some (SH_OK, write_back fs nm s)"
proof -
  have b: "base_ok s" using assms by (auto simp: queue_holds_def queue_inv_def inv_def)
  show ?thesis
    by (rule release_prev_extents_ok [OF b]) (simp add: shr_q_close_def close_base_def write_back_def detach_def)
qed

lemma destroy_run:
  assumes "queue_holds s q evs" and "fs (object_path nm) \<noteq> None"
  shows "shr_q_destroy fs nm (Some s) = Some (SH_OK, fs(object_path nm := None))"
proof -
  have b: "base_ok s" "osr s k = None" for k using assms(1) holds_parts(8) [OF assms(1)]
    by (auto simp: queue_holds_def queue_inv_def inv_def quiet_def)
  show ?thesis
    by (rule release_prev_extents_ok [OF b(1)])
      (use assms(2) b(2) in \<open>auto simp: shr_q_destroy_def write_back_def release_semaphores_def release_mapped_memory_def os_call_def Let_def\<close>)
qed

lemma missing_run:
  assumes "good_name nm" and "fs (object_path nm) = None"
  shows "shr_q_open fs (Some nm) md p = Some (SH_ERR_EXIST, None)" and "shr_q_is_valid fs (Some nm) p = Some False"
  using assms perform_name_validations_eq [of nm "stat_objects fs" True]
  by (simp_all add: good_name_def stat_objects_def shr_q_open_def shr_q_is_valid_def convert_to_status.simps)

lemma is_valid_run:
  assumes nm: "good_name nm" and ob: "fs (object_path nm) = Some ob" "paged ob" and p: "quiet p"
  shows "shr_q_is_valid fs (Some nm) p = Some (branded (so_cells ob))"
proof -
  have q: "osr p k = None" for k using p by (simp add: quiet_def)
  let ?w = "(attach ob (no_handle p))\<lparr>os_n := Suc (Suc (os_n p)), base_current := 1,
      extents := [1 \<mapsto> \<lparr>e_next = None, e_size = so_size ob, e_slots = so_size ob div 8\<rparr>]\<rparr>"
  have m: "mapped ?w 1 512" using ob(2) by (auto simp: mapped_def paged_def attach_def)
  have m1: "mapped ?w 1 1" by (rule mapped_mono [OF m]) simp
  have "cells ?w = so_cells ob" "base_current ?w = 1" by (simp_all add: attach_def)
  then have v: "is_valid_queue ?w = Some (branded (so_cells ob))"
    using m m1 by (auto simp: is_valid_queue_def load_bytes_def slots_of_def rd_mapped branded_def)
  have n: "perform_name_validations (stat_objects fs) (Some nm) True = Some (SH_OK, so_size ob)"
    using nm ob perform_name_validations_eq [of nm "stat_objects fs" True] by (simp add: good_name_def stat_objects_def paged_def)
  have "shr_q_is_valid fs (Some nm) p = is_valid_queue ?w"
    using n ob q by (simp add: shr_q_is_valid_def shm_open_def os_call_def mmap_result_def paged_def attach_def no_handle_def)
  with v show ?thesis by simp
qed

text \<open>A file of whole pages that is no queue.\<close>

lemma foreign_run:
  assumes nm: "good_name nm" and ob: "fs (object_path nm) = Some ob" "paged ob" and p: "quiet p" and f: "\<not> branded (so_cells ob)"
  shows "so_size ob = 8 * so_cells ob SIZE \<Longrightarrow> shr_q_open fs (Some nm) md p = Some (SH_ERR_STATE, None)"
    and "so_cells ob SIZE = 0 \<Longrightarrow> shr_q_open fs (Some nm) md p = Some (SH_ERR_ARG, None)"
proof -
  note op = open_eq [where fs = fs and nm = nm, OF nm ob p] map_step [OF p ob(2)]
  show "shr_q_open fs (Some nm) md p = Some (SH_ERR_STATE, None)" if sz: "so_size ob = 8 * so_cells ob SIZE"
  proof -
    have "wrap64 (so_cells ob SIZE * 8) = so_size ob" using ob(2) sz by (simp add: wrap64_id in_long_def paged_def)
    moreover have "shr_q_close fs nm (Some (whole ob md p)) = Some (SH_OK, write_back fs nm (whole ob md p))"
      by (simp add: shr_q_close_def close_base_def release_prev_extents_def release_loop.simps write_back_def detach_def
          whole_def attached_def)
    ultimately show ?thesis using op whole_valid [OF ob(2)] f by simp
  qed
  show "shr_q_open fs (Some nm) md p = Some (SH_ERR_ARG, None)" if sz: "so_cells ob SIZE = 0"
  proof -
    have e: "map_loop x 0 = Some (SH_ERR_ARG, x\<lparr>os_n := Suc (os_n x)\<rparr>)" if "osr x = osr p" for x
      using p that by (subst map_loop.simps) (simp add: mmap_result_def os_call_def quiet_def)
    have "osr ((whole ob md p)\<lparr>extents := (\<lambda>_. None)\<rparr>) = osr p" by (simp add: whole_def attached_def no_handle_def)
    from e [OF this] show ?thesis using op sz ob(2) by (simp add: paged_def)
  qed
qed

section \<open>The life of a queue\<close>

lemma closed_dormant:
  assumes "queue_holds s q evs" and "branded (cells s)"
  shows "dormant (detach s) q evs"
  using assms by (auto simp: dormant_def)

text \<open>C22: closing a handle and opening the queue again gives a handle on the same queue: the same
  words, semaphores, items and events, under the mode asked for, with one mapping of the whole
  object; no other object is touched.\<close>

theorem close_open_roundtrip:
  assumes "queue_holds s q evs" and "branded (cells s)" and "good_name nm" and "fs (object_path nm) \<noteq> None"
    and "quiet p" and "clock_ok p"
  shows "\<exists>fs' t. shr_q_close fs nm (Some s) = Some (SH_OK, fs') \<and> shr_q_open fs' (Some nm) md p = Some (SH_OK, Some t) \<and>
    queue_holds t q evs \<and> opened (detach s) md p t \<and> (\<forall>path. path \<noteq> object_path nm \<longrightarrow> fs' path = fs path)"
proof -
  have w: "write_back fs nm s (object_path nm) = Some (detach s)" using assms(4) by (simp add: write_back_def)
  note op = open_run [where nm = nm and fs = "write_back fs nm s", OF assms(3) w closed_dormant [OF assms(1,2)] assms(5), of md]
  have "queue_holds (whole (detach s) md p) q evs" by (rule queue_holds_opened [OF assms(1) whole_opened assms(5,6)])
  moreover have "\<forall>path. path \<noteq> object_path nm \<longrightarrow> write_back fs nm s path = fs path" by (simp add: write_back_def)
  ultimately show ?thesis using close_run [OF assms(1)] op whole_opened by blast
qed

lemma jobs_name: "good_name ''jobs''"
  by (simp add: good_name_def NUL_def)

theorem close_open_witness:
  "\<exists>fs' t. shr_q_close [object_path ''jobs'' \<mapsto> detach sample_queue] ''jobs'' (Some sample_queue) = Some (SH_OK, fs') \<and>
     shr_q_open fs' (Some ''jobs'') 1 sample_process = Some (SH_OK, Some t) \<and> queue_holds t [] []"
  using close_open_roundtrip [OF sample_queue_simps(1) _ jobs_name _ sample_process_ok,
      of "[object_path ''jobs'' \<mapsto> detach sample_queue]" 1]
  by auto

text \<open>C23: \<open>shr_q_destroy\<close> removes the object and nothing else. Afterwards the name is free: opening it
  reports \<open>SH_ERR_EXIST\<close>, \<open>shr_q_is_valid\<close> is false, and \<open>shr_q_create\<close> makes a new, empty queue. A second
  destruction through the same stale name is reported as an error of the system.\<close>

theorem destroy_correct:
  assumes "queue_holds s q evs" and "good_name nm" and "fs (object_path nm) \<noteq> None" and "quiet p" and "clock_ok p"
    and "0 \<le> depth" and "depth \<le> SEM_VALUE_MAX"
  shows "\<exists>fs' t. shr_q_destroy fs nm (Some s) = Some (SH_OK, fs') \<and> fs' = fs(object_path nm := None) \<and>
    shr_q_open fs' (Some nm) md p = Some (SH_ERR_EXIST, None) \<and> shr_q_is_valid fs' (Some nm) p = Some False \<and>
    shr_q_create fs' (Some nm) depth md p = Some (SH_OK, Some t, fs'(object_path nm := Some (detach t)), t) \<and>
    new_queue depth md p t \<and> shr_q_destroy fs' nm (Some s) = Some (SH_ERR_SYS, fs')"
proof -
  let ?fs = "fs(object_path nm := None)"
  have free: "?fs (object_path nm) = None" by simp
  have nm: "NUL \<notin> set nm" "nm \<noteq> []" "length nm \<le> 4096" using assms(2) by (simp_all add: good_name_def)
  obtain t where t: "shr_q_create ?fs (Some nm) depth md p = Some (SH_OK, Some t, ?fs(object_path nm := Some (detach t)), t)"
    "new_queue depth md p t"
    by (rule create_run [where fs = ?fs and nm = nm, OF assms(4,5) nm free assms(6,7)])
  have b: "base_ok s" "osr s k = None" for k using assms(1) holds_parts(8) [OF assms(1)]
    by (auto simp: queue_holds_def queue_inv_def inv_def quiet_def)
  have "shr_q_destroy ?fs nm (Some s) = Some (SH_ERR_SYS, ?fs)"
    by (rule release_prev_extents_ok [OF b(1)])
      (use b(2) in \<open>auto simp: shr_q_destroy_def write_back_def release_semaphores_def release_mapped_memory_def os_call_def Let_def\<close>)
  with t destroy_run [where fs = fs and nm = nm, OF assms(1,3)] missing_run [where fs = ?fs and nm = nm, OF assms(2) free]
  show ?thesis by blast
qed

theorem destroy_witness:
  "\<exists>t. shr_q_destroy [object_path ''jobs'' \<mapsto> detach sample_queue] ''jobs'' (Some sample_queue) = Some (SH_OK, \<lambda>_. None) \<and>
     shr_q_create (\<lambda>_. None) (Some ''jobs'') 5 3 sample_process = Some (SH_OK, Some t, [object_path ''jobs'' \<mapsto> detach t], t)"
proof -
  have e: "[object_path ''jobs'' \<mapsto> detach sample_queue](object_path ''jobs'' := None) = (\<lambda>_. None)" by auto
  from destroy_correct [OF sample_queue_simps(1) jobs_name _ sample_process_ok,
      of "[object_path ''jobs'' \<mapsto> detach sample_queue]" 5 3]
  show ?thesis unfolding e by auto
qed

text \<open>C24: what is not a queue. For every object of whole pages \<open>shr_q_is_valid\<close> tells a queue of this
  version by its tag and version. Opening one without them is refused with \<open>SH_ERR_STATE\<close> when its size
  word agrees with its size; when that word is 0, as in a file of zeros, the second mapping fails and
  the caller is told \<open>SH_ERR_ARG\<close>. A queue is opened.\<close>

theorem foreign_objects:
  assumes "good_name nm" and "fs (object_path nm) = Some ob" and "paged ob" and "quiet p"
  shows "shr_q_is_valid fs (Some nm) p = Some (branded (so_cells ob)) \<and>
    (if branded (so_cells ob) then so_size ob = 8 * so_cells ob SIZE \<longrightarrow>
       (\<exists>t. shr_q_open fs (Some nm) md p = Some (SH_OK, Some t) \<and> opened ob md p t)
     else (so_size ob = 8 * so_cells ob SIZE \<longrightarrow> shr_q_open fs (Some nm) md p = Some (SH_ERR_STATE, None)) \<and>
       (so_cells ob SIZE = 0 \<longrightarrow> shr_q_open fs (Some nm) md p = Some (SH_ERR_ARG, None)))"
proof (cases "branded (so_cells ob)")
  case True
  have "\<exists>t. shr_q_open fs (Some nm) md p = Some (SH_OK, Some t) \<and> opened ob md p t" if sz: "so_size ob = 8 * so_cells ob SIZE"
  proof -
    have "wrap64 (so_cells ob SIZE * 8) = so_size ob" using assms(3) sz by (simp add: wrap64_id in_long_def paged_def)
    with open_eq [where fs = fs and nm = nm, OF assms] map_step [OF assms(4,3)] whole_valid [OF assms(3)] True whole_opened show ?thesis by simp
  qed
  with True is_valid_run [where fs = fs and nm = nm, OF assms] show ?thesis by auto
next
  case False
  with is_valid_run [where fs = fs and nm = nm, OF assms] foreign_run [where fs = fs and nm = nm, OF assms] show ?thesis by auto
qed

theorem foreign_witness:
  "shr_q_open [object_path ''jobs'' \<mapsto> \<lparr>so_cells = (\<lambda>_. 0), so_size = 4096, so_sems = (\<lambda>_. 0)\<rparr>] (Some ''jobs'') 3 sample_process =
    Some (SH_ERR_ARG, None)"
proof -
  have "\<not> branded (\<lambda>_. 0)" by (simp add: branded_def)
  with foreign_objects [OF jobs_name _ _ sample_process_ok(1),
      of "[object_path ''jobs'' \<mapsto> \<lparr>so_cells = (\<lambda>_. 0), so_size = 4096, so_sems = (\<lambda>_. 0)\<rparr>]"
        "\<lparr>so_cells = (\<lambda>_. 0), so_size = 4096, so_sems = (\<lambda>_. 0)\<rparr>" 3]
  show ?thesis by (simp add: paged_def)
qed

end
