(* ===== verification/Runs.thy ===== *)
theory Runs
  imports Sessions
begin

text \<open>
  What a program does with a queue, as a transition system: create it, open it, call the public
  functions in any order with any arguments, close, destroy. Every state it can reach satisfies the
  invariant, and in every such state the next admissible call returns.
\<close>

section \<open>Calls on an open handle\<close>

text \<open>A call that may have to wait comes in three forms.\<close>

datatype way = At_once | Waiting | Within int

fun add_by :: "way \<Rightarrow> request_item \<Rightarrow> qstate option \<Rightarrow> (sh_status \<times> qstate option) option" where
  "add_by At_once (Bytes bs) q = shr_q_add q (Some bs) (int (length bs))"
| "add_by Waiting (Bytes bs) q = shr_q_add_wait q (Some bs) (int (length bs))"
| "add_by (Within n) (Bytes bs) q = shr_q_add_timedwait q (Some bs) (int (length bs)) (Some (nanoseconds n))"
| "add_by At_once (Elements vs) q = shr_q_addv q (Some vs) (int (length vs))"
| "add_by Waiting (Elements vs) q = shr_q_addv_wait q (Some vs) (int (length vs))"
| "add_by (Within n) (Elements vs) q = shr_q_addv_timedwait q (Some vs) (int (length vs)) (Some (nanoseconds n))"

fun take_by :: "way \<Rightarrow> ubuf \<Rightarrow> qstate option \<Rightarrow> (sq_item \<times> ubuf option \<times> qstate option) option" where
  "take_by At_once b q = shr_q_remove q (Some b)"
| "take_by Waiting b q = shr_q_remove_wait q (Some b)"
| "take_by (Within n) b q = shr_q_remove_timedwait q (Some b) (Some (nanoseconds n))"

datatype call =
    Add_item way request_item | Take_item way ubuf | Take_event "int option" | Sweep timespec
  | Set_discard bool | Set_lifo bool | Subscribe sq_event | Subscribe_all | Unsubscribe sq_event
  | Set_level long | Set_limit long long | Set_target long long
  | Monitor_by int | Listen_by int | Call_by int

definition handle_of :: "('r \<times> qstate option) option \<Rightarrow> qstate option" where
  "handle_of r = do { (_, q) \<leftarrow> r; q }"

fun perform :: "call \<Rightarrow> qstate \<Rightarrow> qstate option" where
  "perform (Add_item w x) s = handle_of (add_by w x (Some s))"
| "perform (Take_item w b) s = do { (_, _, q) \<leftarrow> take_by w b (Some s); q }"
| "perform (Take_event None) s = handle_of (shr_q_event (Some s))"
| "perform (Take_event (Some n)) s = handle_of (shr_q_event_timedwait (Some s) (Some (nanoseconds n)))"
| "perform (Sweep lim) s = handle_of (shr_q_clean (Some s) (Some lim))"
| "perform (Set_discard b) s = handle_of (shr_q_discard (Some s) b)"
| "perform (Set_lifo b) s = handle_of (shr_q_limit_lifo (Some s) b)"
| "perform (Subscribe ev) s = handle_of (shr_q_subscribe (Some s) ev)"
| "perform Subscribe_all s = handle_of (shr_q_subscribe (Some s) SQ_EVNT_ALL)"
| "perform (Unsubscribe ev) s = handle_of (shr_q_unsubscribe (Some s) ev)"
| "perform (Set_level n) s = handle_of (shr_q_level (Some s) n)"
| "perform (Set_limit sec nsec) s = handle_of (shr_q_timelimit (Some s) sec nsec)"
| "perform (Set_target sec nsec) s = handle_of (shr_q_target_delay (Some s) sec nsec)"
| "perform (Monitor_by sig) s = handle_of (shr_q_monitor (Some s) sig)"
| "perform (Listen_by sig) s = handle_of (shr_q_listen (Some s) sig)"
| "perform (Call_by sig) s = handle_of (shr_q_call (Some s) sig)"

text \<open>Which calls may be made: items of a sensible size while the object can provide their slots,
  buffers as \<open>shr_q_remove\<close> leaves them, an existing event; and to wait only for what is there.\<close>

fun admissible :: "qstate \<Rightarrow> call \<Rightarrow> bool" where
  "admissible s (Add_item w x) \<longleftrightarrow>
     item_fits x \<and> room s (item_room x) \<and> sems s EVNT_SEM + 4 \<le> SEM_VALUE_MAX \<and>
     (w = Waiting \<longrightarrow> cells s COUNT < cells s MAX_DEPTH)"
| "admissible s (Take_item w b) \<longleftrightarrow>
     ubuf_ok b \<and> room s (8 * cells s COUNT + 8) \<and> sems s EVNT_SEM + 2 * cells s COUNT + 2 \<le> SEM_VALUE_MAX \<and>
     (w = Waiting \<longrightarrow> 0 < cells s COUNT \<and> cells s FLAGS AND FLAG_DISCARD_EXPIRED = 0)"
| "admissible s (Subscribe ev) \<longleftrightarrow> 1 \<le> ev \<and> ev \<le> 6"
| "admissible s (Unsubscribe ev) \<longleftrightarrow> 0 \<le> ev \<and> ev \<le> 6"
| "admissible s _ \<longleftrightarrow> True"

section \<open>Every call keeps the queue\<close>

definition sound :: "qstate \<Rightarrow> bool" where
  "sound s \<longleftrightarrow> (\<exists>q evs. queue_holds s q evs) \<and> branded (cells s)"

definition kept :: "qstate \<Rightarrow> qstate \<Rightarrow> bool" where
  "kept s t \<longleftrightarrow> sound t \<and> mode t = mode s \<and> cells t MAX_DEPTH = cells s MAX_DEPTH"

lemma kept_refl: "queue_holds s q evs \<Longrightarrow> branded (cells s) \<Longrightarrow> kept s s"
  by (auto simp: kept_def sound_def)

lemma words_branded:
  "0 \<notin> add_words" "1 \<notin> add_words" "0 \<notin> rem_words" "1 \<notin> rem_words" "0 \<notin> take_words" "1 \<notin> take_words" "0 \<notin> sweep_words" "1 \<notin> sweep_words"
  "MAX_DEPTH \<notin> take_words" "MAX_DEPTH \<notin> sweep_words"
  by (auto simp: add_words_def enq_words_def copy_words_def blk_words_def work_words_def event_words_def node_words_def
      rem_words_def deq_all_words_def deq_words_def deq_post_words_def take_words_def sweep_words_def clean_words_def)

lemma ends_kept:
  assumes "ends H n s t" and "0 \<notin> H" and "1 \<notin> H" and "MAX_DEPTH \<notin> H" and "queue_holds t q evs" and "branded (cells s)"
  shows "kept s t"
proof -
  have "cells t i = cells s i" if "i \<in> {0, 1, MAX_DEPTH}" for i
    by (rule ends_word [OF assms(1)]) (use that assms(2-4) in auto)
  then have "branded (cells t) = branded (cells s)" "cells t MAX_DEPTH = cells s MAX_DEPTH" by (auto intro!: branded_cong)
  then show ?thesis using assms(1,5,6) by (auto simp: kept_def sound_def ends_def)
qed

lemma cells_kept:
  assumes "queue_holds (s\<lparr>cells := c\<rparr>) q evs" and "branded (cells s)" and "c 0 = cells s 0" and "c 1 = cells s 1" and "c MAX_DEPTH = cells s MAX_DEPTH"
  shows "kept s (s\<lparr>cells := c\<rparr>)"
  using assms branded_cong [of c "cells s"] by (auto simp: kept_def sound_def)

fun enter_add :: "way \<Rightarrow> qstate \<Rightarrow> (sh_status \<times> qstate) option" where
  "enter_add At_once = enq_gate_try"
| "enter_add Waiting = enq_gate_blk"
| "enter_add (Within n) = (\<lambda>s. enq_gate_tm s (nanoseconds n))"

lemma add_by_eq:
  "item_fits x \<Longrightarrow> add_by w x (Some s) =
    (if mode s AND SQ_WRITE_ONLY = 0 then Some (SH_ERR_STATE, Some s)
     else do { (st, t) \<leftarrow> add_through s (enter_add w) (item_adder x); Some (st, Some t) })"
  by (cases w; cases x)
    (use item_length in \<open>auto simp: shr_q_add_def shr_q_addv_def shr_q_add_wait_def shr_q_addv_wait_def shr_q_add_timedwait_def
      shr_q_addv_timedwait_def on_queue_def\<close>)

lemma timed_gates:
  "enq_closing_gate (\<lambda>s. enq_gate_tm s (nanoseconds n)) SH_ERR_LIMIT" "deq_closing_gate (\<lambda>s. deq_gate_tm s (nanoseconds n)) SH_ERR_EMPTY"
  by (simp_all add: enq_closing_gate_def deq_closing_gate_def enq_tm_closing deq_tm_closing)

lemma add_kept:
  assumes q: "queue_holds s q evs" and b: "branded (cells s)" and a: "admissible s (Add_item w x)"
  shows "\<exists>t. perform (Add_item w x) s = Some t \<and> kept s t"
proof (cases "mode s AND SQ_WRITE_ONLY = 0")
  case True
  then show ?thesis using kept_refl [OF q b] a by (simp add: add_by_eq handle_of_def)
next
  case False
  have x: "item_fits x" using a by simp
  have r: "has_room ((item_room x - 4) + 4) s evs" using a holds_parts(5) [OF q] by (simp add: has_room_def)
  have sp: "w = Waiting \<Longrightarrow> int (length q) < cells s MAX_DEPTH" using a holds_parts(4) [OF q] by simp
  have "\<exists>st t. add_through s (enter_add w) (item_adder x) = Some (st, t) \<and>
      (accepted (payload_of x) (item_room x) s q evs t \<or> untouched s q evs t)"
  proof (cases w)
    case At_once
    then show ?thesis
      using enq_closing_gate.add_call [OF enq_try_add.enq_closing_gate_axioms q r item_adder_ok [OF x]] by (auto split: if_splits)
  next
    case Waiting
    then show ?thesis
      using enq_gate.add_accepts [OF enq_blk_add.enq_gate_axioms q sp r item_adder_ok [OF x]] by auto
  next
    case (Within n)
    then show ?thesis
      using enq_closing_gate.add_call [OF timed_gates(1) [of n] q r item_adder_ok [OF x]] by (auto split: if_splits)
  qed
  then obtain st t where t: "add_through s (enter_add w) (item_adder x) = Some (st, t)"
    "accepted (payload_of x) (item_room x) s q evs t \<or> untouched s q evs t" by blast
  from t(2) have "kept s t"
  proof
    assume "accepted (payload_of x) (item_room x) s q evs t"
    then obtain p e where "queue_holds t p e" "ends add_words (item_room x) s t" by (auto simp: accepted_def)
    then show ?thesis using words_branded(1,2) add_words_other [of MAX_DEPTH] b by (intro ends_kept) auto
  next
    assume "untouched s q evs t"
    then show ?thesis using b by (auto simp: untouched_def intro!: ends_kept [where H = "{CALL_BLOCKS, CALL_UNBLOCKS}" and n = 0])
  qed
  then show ?thesis using t(1) False x by (simp add: add_by_eq handle_of_def)
qed

fun enter_take :: "way \<Rightarrow> qstate \<Rightarrow> (sh_status \<times> qstate) option" where
  "enter_take At_once = deq_gate_try"
| "enter_take Waiting = deq_gate_blk"
| "enter_take (Within n) = (\<lambda>s. deq_gate_tm s (nanoseconds n))"

lemma take_by_eq: "take_by w b q = remove_through q (Some b) (enter_take w)"
  by (cases w) (simp_all add: shr_q_remove_def shr_q_remove_wait_def shr_q_remove_timedwait_def)

lemma take_kept:
  assumes q: "queue_holds s q evs" and br: "branded (cells s)" and a: "admissible s (Take_item w b)"
  shows "\<exists>t. perform (Take_item w b) s = Some t \<and> kept s t"
proof (cases "(ub_mem b \<noteq> None \<and> ub_size b \<le> 0) \<or> mode s AND SQ_READ_ONLY = 0")
  case True
  then have "take_by w b (Some s) = Some (empty_item SH_ERR_ARG, Some b, Some s) \<or> take_by w b (Some s) = Some (empty_item SH_ERR_STATE, Some b, Some s)"
    by (auto simp: take_by_eq remove_through_def)
  then show ?thesis using kept_refl [OF q br] by auto
next
  case False
  then have m: "ub_mem b = None \<or> 0 < ub_size b" "mode s AND SQ_READ_ONLY \<noteq> 0" by auto
  have c: "cells s COUNT = int (length q)" "sems s EVNT_SEM = int (length evs)" using holds_parts(4,5) [OF q] by simp_all
  have bo: "ubuf_ok b" using a by simp
  have sig: "can_signal (length q) s evs" "can_signal 1 s evs" using a c by (simp_all add: can_signal_def room_def)
  have "\<exists>item b' t q' evs' n. remove_through (Some s) (Some b) (enter_take w) = Some (item, Some b', Some t) \<and>
      queue_holds t q' evs' \<and> ends rem_words n s t"
  proof (cases w)
    case At_once
    show ?thesis
      using deq_closing_gate.remove_call [OF deq_try_rem.deq_closing_gate_axioms q bo m sig(1)] unfolding At_once enter_take.simps by blast
  next
    case (Within n)
    show ?thesis
      using deq_closing_gate.remove_call [OF timed_gates(2) [of n] q bo m sig(1)] unfolding Within enter_take.simps by blast
  next
    case Waiting
    then obtain x p where p: "q = x # p" "cells s FLAGS AND FLAG_DISCARD_EXPIRED = 0" using a c by (cases q) auto
    from deq_gate.remove_front_call [OF deq_blk_rem.deq_gate_axioms q [unfolded p(1)] bo m sig(2) p(2)] show ?thesis
      unfolding Waiting enter_take.simps by blast
  qed
  then obtain item b' t q' evs' n where t: "remove_through (Some s) (Some b) (enter_take w) = Some (item, Some b', Some t)"
    "queue_holds t q' evs'" "ends rem_words n s t" by blast
  have "kept s t" by (rule ends_kept [OF t(3) _ _ _ t(2) br]) (use words_branded(3,4) rem_words_other [of MAX_DEPTH] in auto)
  then show ?thesis using t(1) by (simp add: take_by_eq)
qed


lemma subscribe_all_run:
  assumes "queue_holds s q evs"
  shows "shr_q_subscribe (Some s) SQ_EVNT_ALL =
    Some (SH_OK, Some (if cells s FLAGS AND get_event_flag SQ_EVNT_ALL = 0 then with_flags s (get_event_flag SQ_EVNT_ALL) True else s))"
proof -
  note p = holds_parts [OF assms]
  have nz: "get_event_flag SQ_EVNT_ALL \<noteq> 0" by (simp add: get_event_flag_def)
  show ?thesis
    using set_flag_eq [OF p(3) nz] nz guard_cells [OF p(1)] by (simp add: shr_q_subscribe_def on_queue_def with_flags_def)
qed

lemma flags_kept: "queue_holds s q evs \<Longrightarrow> branded (cells s) \<Longrightarrow> kept s (with_flags s m b)"
  using with_flags_holds [of s q evs m b] unfolding with_flags_def by (intro cells_kept) auto

lemma registered_kept:
  assumes "queue_holds s q evs" and "branded (cells s)" and "(pw, sw) \<in> {(NOTIFY_PID, NOTIFY_SIGNAL), (LISTEN_PID, LISTEN_SIGNAL), (CALL_PID, CALL_SIGNAL)}"
  shows "kept s (registered s pw sw signal)"
  using assms holds_pair [OF assms(1), of pw "if signal = 0 then 0 else my_pid s" signal] unfolding registered_def
  by (intro cells_kept) auto

lemma register_kept:
  assumes "queue_holds s q evs" and "branded (cells s)"
  shows "\<exists>t. perform (Monitor_by sig) s = Some t \<and> kept s t" and "\<exists>t. perform (Listen_by sig) s = Some t \<and> kept s t"
    and "\<exists>t. perform (Call_by sig) s = Some t \<and> kept s t"
  using register_run [OF assms(1), where signal = sig] registered_kept [OF assms, where signal = sig] kept_refl [OF assms]
  by (auto simp: handle_of_def shr_q_monitor_def shr_q_listen_def shr_q_call_def on_queue_def registered_def)

lemma call_kept:
  assumes "sound s" and "admissible s c"
  shows "\<exists>t. perform c s = Some t \<and> kept s t"
proof -
  obtain q evs where q: "queue_holds s q evs" and b: "branded (cells s)" using assms(1) by (auto simp: sound_def)
  note self = kept_refl [OF q b]
  show ?thesis
  proof (cases c)
    case (Add_item w x)
    then show ?thesis using add_kept [OF q b] assms(2) by blast
  next
    case (Take_item w x)
    then show ?thesis using take_kept [OF q b] assms(2) by blast
  next
    case (Take_event w)
    have "\<exists>ev t. (case w of None \<Rightarrow> shr_q_event (Some s) | Some n \<Rightarrow> shr_q_event_timedwait (Some s) (Some (nanoseconds n))) = Some (ev, Some t) \<and>
        queue_holds t q (tl evs) \<and> ends take_words 0 s t"
      using event_call [OF q] timed_event_call [OF q nanoseconds_ok, of "the w"] by (cases w) auto
    then show ?thesis using Take_event words_branded b by (cases w) (auto simp: handle_of_def intro!: ends_kept)
  next
    case (Sweep lim)
    show ?thesis
    proof (cases "mode s AND SQ_READ_ONLY = 0")
      case True
      then show ?thesis using Sweep self by (simp add: handle_of_def shr_q_clean_def on_queue_def)
    next
      case False
      from clean_call [OF q this, of lim] obtain t p where
        t: "shr_q_clean (Some s) (Some lim) = Some (SH_OK, Some t)" "queue_holds t p evs" "ends sweep_words 0 s t" by blast
      have "kept s t" by (rule ends_kept [OF t(3) _ _ _ t(2) b]) (use words_branded in auto)
      with t(1) Sweep show ?thesis by (simp add: handle_of_def)
    qed
  next
    case (Set_discard x)
    then show ?thesis using flag_calls(1) [OF q] flags_kept [OF q b] by (simp add: handle_of_def)
  next
    case (Set_lifo x)
    then show ?thesis using flag_calls(2) [OF q] flags_kept [OF q b] by (simp add: handle_of_def)
  next
    case (Subscribe ev)
    then show ?thesis using flag_calls(3) [OF q] flags_kept [OF q b] assms(2) by (simp add: handle_of_def)
  next
    case Subscribe_all
    then show ?thesis using subscribe_all_run [OF q] flags_kept [OF q b] self by (auto simp: handle_of_def)
  next
    case (Unsubscribe ev)
    then show ?thesis using flag_calls(4) [OF q] flags_kept [OF q b] assms(2) by (simp add: handle_of_def)
  next
    case (Set_level n)
    then show ?thesis using level_run [OF q, of n] self cells_kept [OF _ b, of "(cells s)(LEVEL := n)" q evs]
      by (auto simp: handle_of_def split: if_splits)
  next
    case (Set_limit sec nsec)
    then show ?thesis using timelimit_run [OF q, of sec nsec] cells_kept [OF timelimit_run(2) [OF q] b, of sec nsec] by (simp add: handle_of_def)
  next
    case (Set_target sec nsec)
    then show ?thesis using target_run [OF q, of sec nsec] cells_kept [OF target_run(2) [OF q] b, of sec nsec] by (simp add: handle_of_def)
  qed (use register_kept [OF q b] in auto)
qed

section \<open>The transition system\<close>

text \<open>The named objects and the handle the process has, if any. Each step is one call that succeeded in
  giving or keeping or ending the handle; the processes that create and open may differ.\<close>

type_synonym world = "objects \<times> qstate option"

inductive step :: "string \<Rightarrow> world \<Rightarrow> world \<Rightarrow> bool" for nm where
  by_create: "quiet p \<Longrightarrow> clock_ok p \<Longrightarrow> 0 \<le> depth \<Longrightarrow>
    shr_q_create fs (Some nm) depth md p = Some (SH_OK, Some s, fs', p') \<Longrightarrow> step nm (fs, None) (fs', Some s)"
| by_open: "quiet p \<Longrightarrow> clock_ok p \<Longrightarrow>
    shr_q_open fs (Some nm) md p = Some (SH_OK, Some s) \<Longrightarrow> step nm (fs, None) (fs, Some s)"
| by_call: "admissible s c \<Longrightarrow> perform c s = Some t \<Longrightarrow> step nm (fs, Some s) (fs, Some t)"
| by_close: "shr_q_close fs nm (Some s) = Some (SH_OK, fs') \<Longrightarrow> step nm (fs, Some s) (fs', None)"
| by_destroy: "shr_q_destroy fs nm (Some s) = Some (SH_OK, fs') \<Longrightarrow> step nm (fs, Some s) (fs', None)"

inductive_cases step_idleE: "step nm (fs, None) w"
inductive_cases step_openE: "step nm (fs, Some s) w"

inductive reachable :: "string \<Rightarrow> world \<Rightarrow> bool" for nm where
  start: "fs (object_path nm) = None \<Longrightarrow> reachable nm (fs, None)"
| step: "reachable nm w \<Longrightarrow> step nm w w' \<Longrightarrow> reachable nm w'"

fun world_ok :: "string \<Rightarrow> world \<Rightarrow> bool" where
  "world_ok nm (fs, None) \<longleftrightarrow> (case fs (object_path nm) of None \<Rightarrow> True | Some ob \<Rightarrow> \<exists>q evs. dormant ob q evs)"
| "world_ok nm (fs, Some s) \<longleftrightarrow> fs (object_path nm) \<noteq> None \<and> sound s"

lemma step_world_ok:
  assumes "step nm w w'" and "good_name nm" and "world_ok nm w"
  shows "world_ok nm w'"
  using assms
proof cases
  case (by_create p depth fs md s fs' p')
  have nm: "NUL \<notin> set nm" "nm \<noteq> []" "length nm \<le> 4096" using assms(2) by (simp_all add: good_name_def)
  have d: "depth \<le> SEM_VALUE_MAX" using by_create(6) by (auto simp: shr_q_create_def split: if_splits)
  have free: "fs (object_path nm) = None"
  proof (rule ccontr)
    assume "fs (object_path nm) \<noteq> None"
    then show False
      using by_create(6) nm perform_name_validations_eq [OF nm(1), of "stat_objects fs" False] d
      by (auto simp: shr_q_create_def stat_objects_def)
  qed
  obtain t where "shr_q_create fs (Some nm) depth md p = Some (SH_OK, Some t, fs(object_path nm := Some (detach t)), t)"
    "new_queue depth md p t"
    by (rule create_run [where fs = fs and nm = nm, OF by_create(3,4) nm free by_create(5) d])
  with by_create show ?thesis by (auto simp: sound_def new_queue_def)
next
  case (by_open p fs md s)
  show ?thesis
  proof (cases "fs (object_path nm)")
    case None
    with by_open missing_run [OF assms(2)] show ?thesis by simp
  next
    case (Some ob)
    then obtain q evs where d: "dormant ob q evs" using assms(3) by_open(1) by auto
    then obtain z where z: "ob = detach z" "queue_holds z q evs" "branded (cells z)" by (auto simp: dormant_def)
    have s: "s = whole ob md p" using by_open(5) open_run [where fs = fs and nm = nm, OF assms(2) Some d by_open(3)] by simp
    have "queue_holds s q evs" using queue_holds_opened [OF z(2) whole_opened by_open(3,4)] s z(1) by simp
    moreover have "branded (cells s)" using dormant_size(5) [OF d] s by (simp add: whole_def attached_def)
    ultimately show ?thesis using by_open Some by (auto simp: sound_def)
  qed
next
  case (by_call s c t fs)
  with call_kept [of s c] assms(3) show ?thesis by (auto simp: kept_def)
next
  case (by_close fs s fs')
  then obtain q evs where q: "queue_holds s q evs" "branded (cells s)" using assms(3) by (auto simp: sound_def)
  have "fs' = write_back fs nm s" using close_run [OF q(1), of fs nm] by_close(3) by simp
  then show ?thesis using by_close assms(3) closed_dormant [OF q] by (auto simp: write_back_def)
next
  case (by_destroy fs s fs')
  then obtain q evs where q: "queue_holds s q evs" using assms(3) by (auto simp: sound_def)
  have "fs (object_path nm) \<noteq> None" using assms(3) by_destroy(1) by simp
  from destroy_run [where fs = fs and nm = nm, OF q this] by_destroy(2,3) show ?thesis by auto
qed

lemma reachable_ok: "reachable nm w \<Longrightarrow> good_name nm \<Longrightarrow> world_ok nm w"
  by (induction rule: reachable.induct) (auto intro: step_world_ok)


lemma reachable_open:
  assumes "reachable nm (fs, Some s)" and "good_name nm"
  obtains q evs where "queue_holds s q evs" and "branded (cells s)" and "fs (object_path nm) \<noteq> None"
  using reachable_ok [OF assms] by (auto simp: sound_def)

lemma event_values:
  assumes "queue_holds s q evs"
  shows "set evs \<subseteq> {1..6}"
proof -
  obtain g where g: "queue_inv s g" "g_evs g = evs" using assms by (auto simp: queue_holds_def)
  then have "list_all2 (\<lambda>n ev. obj s (n + EVENT_OFFSET) = ev \<and> 1 \<le> ev \<and> ev \<le> 6) (tl (g_list g Events)) evs"
    by (simp add: queue_inv_def inv_def heap_inv_def events_ok_def)
  then have "\<forall>ev\<in>set evs. 1 \<le> ev \<and> ev \<le> 6" by (induction rule: list_all2_induct) auto
  then show ?thesis by auto
qed


lemma jobs_created:
  obtains fs t where "reachable ''jobs'' (fs, Some t)" and "new_queue 2 3 sample_process t"
proof -
  have nm: "NUL \<notin> set ''jobs''" "''jobs'' \<noteq> []" "length ''jobs'' \<le> 4096" and free: "(\<lambda>_. None) (object_path ''jobs'') = None"
    and d: "(0::int) \<le> 2" "(2::int) \<le> SEM_VALUE_MAX"
    by (simp_all add: NUL_def)
  obtain t where t: "shr_q_create (\<lambda>_. None) (Some ''jobs'') 2 3 sample_process =
      Some (SH_OK, Some t, (\<lambda>_. None)(object_path ''jobs'' := Some (detach t)), t)" "new_queue 2 3 sample_process t"
    by (rule create_run [OF sample_process_ok nm free d, of 3])
  have "reachable ''jobs'' (\<lambda>_. None, None)" by (rule reachable.start) simp
  from reachable.step [OF this by_create [OF sample_process_ok d(1) t(1)]] t(2) show thesis by (rule that)
qed




text \<open>C25: the value \<open>shr_q_event\<close> returns is always one of the enumeration \<open>sq_event_e\<close>, in every state
  that can be reached: \<open>SQ_EVNT_NONE\<close> or one of the six events, also after the queue has been closed and
  opened again any number of times.\<close>

theorem reachable_event_type:
  assumes "reachable nm (fs, Some s)" and "good_name nm"
  shows "\<exists>ev t. shr_q_event (Some s) = Some (ev, Some t) \<and> ev \<in> {SQ_EVNT_NONE..SQ_EVNT_NONEMPTY} \<and>
    (ev = SQ_EVNT_NONE \<longleftrightarrow> sems s EVNT_SEM = 0)"
proof -
  obtain q evs where q: "queue_holds s q evs" by (rule reachable_open [OF assms])
  then show ?thesis using event_call [OF q] event_values [OF q] holds_parts(5) [OF q] by (cases evs) auto
qed

theorem reachable_event_type_witness:
  "\<exists>fs s ev t. reachable ''jobs'' (fs, Some s) \<and> shr_q_event (Some s) = Some (ev, Some t) \<and> ev \<in> {0..6}"
proof -
  obtain fs s where s: "reachable ''jobs'' (fs, Some s)" by (rule jobs_created)
  with reachable_event_type [OF s jobs_name] show ?thesis by blast
qed

end
