(* ===== verification/Console.thy ===== *)
theory Console
  imports Runs
begin

text \<open>
  The text the command line tool \<open>sharedq\<close> reads and prints (\<open>src/sharedq/main.c\<close>): numbers, modifiers,
  hex dumps, lines from standard input, help. Strings are lists of characters without the final NUL;
  the conversions of \<open>printf\<close> that the tool uses are written out for the C locale.
\<close>

section \<open>Conversions of printf\<close>

fun digits :: "nat \<Rightarrow> nat \<Rightarrow> nat list" where
  "digits b n = (if b < 2 \<or> n < b then [n] else digits b (n div b) @ [n mod b])"

declare digits.simps [simp del]

definition digit_char :: "nat \<Rightarrow> char" where
  "digit_char d = char_of (if d < 10 then 48 + d else 55 + d)"

definition pad_left :: "nat \<Rightarrow> char \<Rightarrow> string \<Rightarrow> string" where
  "pad_left n c s = replicate (n - length s) c @ s"

definition pad_right :: "nat \<Rightarrow> string \<Rightarrow> string" where
  "pad_right n s = s @ replicate (n - length s) CHR '' ''"

text \<open>\<open>%li\<close>, \<open>%i\<close>; \<open>%09li\<close>; \<open>%04X\<close>, \<open>%02X\<close>.\<close>

definition print_long :: "int \<Rightarrow> string" where
  "print_long n = (if n < 0 then ''-'' else []) @ map digit_char (digits 10 (nat \<bar>n\<bar>))"

definition print_padded :: "nat \<Rightarrow> int \<Rightarrow> string" where
  "print_padded w n = (if n < 0 then CHR ''-'' # pad_left (w - 1) (CHR ''0'') (print_long (- n)) else pad_left w (CHR ''0'') (print_long n))"

definition print_hex :: "nat \<Rightarrow> nat \<Rightarrow> string" where
  "print_hex w n = pad_left w (CHR ''0'') (map digit_char (digits 16 n))"

definition newline :: string where "newline = [CHR 0x0A]"

definition tab :: string where "tab = [CHR 0x09]"

definition char_byte :: "char \<Rightarrow> byte" where
  "char_byte c = word_of_nat (of_char c)"

definition byte_char :: "byte \<Rightarrow> char" where
  "byte_char b = char_of (unat b)"

lemma byte_char_byte [simp]: "byte_char (char_byte c) = c"
  by (simp add: byte_char_def char_byte_def unat_of_nat take_bit_eq_mod flip: char_of_def)

section \<open>Reading numbers\<close>

definition is_digit :: "char \<Rightarrow> bool" where
  "is_digit c \<longleftrightarrow> (48 :: nat) \<le> of_char c \<and> of_char c \<le> (57 :: nat)"

definition digit_value :: "char \<Rightarrow> int" where
  "digit_value c = int (of_char c) - 48"

text \<open>An overflow of \<open>long\<close> is undefined: \<open>None\<close>.\<close>

fun read_digits :: "string \<Rightarrow> long \<Rightarrow> (long \<times> string) option" where
  "read_digits [] result = Some (result, [])"
| "read_digits (c # cs) result =
    (if is_digit c then
       (let result = result * 10 + digit_value c
        in if in_long result then read_digits cs result else None)
     else Some (result, c # cs))"

definition sharedq_atol :: "string \<Rightarrow> long option" where
  "sharedq_atol array =
    (let rest = dropWhile (\<lambda>c. c = CHR ''0'') (dropWhile (\<lambda>c. c = CHR '' '') array)
     in do {
       (result, rest) \<leftarrow> read_digits rest 0;
       Some (if rest \<noteq> [] then - 1 else result) })"

section \<open>Modifiers\<close>

record modifiers =
  m_block :: bool
  m_help :: bool
  m_hex :: bool
  m_verbose :: bool

definition no_modifiers :: modifiers where
  "no_modifiers = \<lparr>m_block = False, m_help = False, m_hex = False, m_verbose = False\<rparr>"

definition PERMIT :: string where "PERMIT = ''bhvx''"

fun contains_from :: "string \<Rightarrow> char \<Rightarrow> nat \<Rightarrow> bool" where
  "contains_from str c 0 = False"
| "contains_from str c (Suc i) = (if str ! i = c then True else contains_from str c i)"

definition contains_param :: "string \<Rightarrow> char \<Rightarrow> bool" where
  "contains_param str c = contains_from str c (length str)"

text \<open>A character of a C string: the terminator is read at its length.\<close>

definition char_at :: "string \<Rightarrow> nat \<Rightarrow> char" where
  "char_at str i = (if i < length str then str ! i else NUL)"

text \<open>The arguments between the program's name and the command, one by one: the text printed and the
  modifiers, or none when the program ends with status 1.\<close>

fun scan_modifiers :: "string list \<Rightarrow> string \<Rightarrow> modifiers \<Rightarrow> string \<times> modifiers option" where
  "scan_modifiers [] pattern result = ([], Some result)"
| "scan_modifiers (param # params) pattern result =
    (if char_at param 0 \<noteq> CHR ''-'' then (''invalid modifier '' @ param @ newline, None)
     else if \<not> contains_param PERMIT (char_at param 1) then
       (''error: unrecognized modifier '' @ param @ newline, None)
     else if \<not> contains_param pattern (char_at param 1) then
       (case scan_modifiers params pattern result of
          (out, r) \<Rightarrow> (''warning: invalid modifier '' @ param @ '' will be ignored'' @ newline @ newline @ out, r))
     else if char_at param 1 = CHR ''b'' then scan_modifiers params pattern (result\<lparr>m_block := True\<rparr>)
     else if char_at param 1 = CHR ''h'' then scan_modifiers params pattern (result\<lparr>m_help := True\<rparr>)
     else if char_at param 1 = CHR ''v'' then scan_modifiers params pattern (result\<lparr>m_verbose := True\<rparr>)
     else if char_at param 1 = CHR ''x'' then scan_modifiers params pattern (result\<lparr>m_hex := True\<rparr>)
     else (''unrecognized modifier or parameter'' @ newline, None))"

definition parse_modifiers :: "string list \<Rightarrow> nat \<Rightarrow> string \<Rightarrow> string \<times> modifiers option" where
  "parse_modifiers argv index pattern = scan_modifiers (take (index - 1) (tl argv)) pattern no_modifiers"

section \<open>Hex dumps\<close>

definition isprint :: "byte \<Rightarrow> bool" where
  "isprint b \<longleftrightarrow> 32 \<le> unat b \<and> unat b < 127"

abbreviation (input) HEX_LINE_LEN :: nat where "HEX_LINE_LEN \<equiv> 16"
abbreviation (input) HEX_HDR_SPAN :: nat where "HEX_HDR_SPAN \<equiv> 256"

definition hex_header :: string where
  "hex_header =
     newline @ ''     0  1  2  3  4  5  6  7  8  9  A  B  C  D  E  F'' @
     newline @ ''     -----------------------------------------------''"

text \<open>From the displacement \<open>output\<close> on, \<open>data\<close> being what is left; the displacement is an \<open>int32_t\<close>.\<close>

function hex_lines :: "nat \<Rightarrow> byte list \<Rightarrow> string option" where
  "hex_lines output data =
    (if data = [] then Some newline
     else if 2 ^ 31 \<le> output + HEX_LINE_LEN then None
     else
       let num_bytes = (if HEX_LINE_LEN > length data then length data else HEX_LINE_LEN);
           line = take num_bytes data
       in do {
         rest \<leftarrow> hex_lines (output + num_bytes) (drop num_bytes data);
         Some ((if output mod HEX_HDR_SPAN = 0 then hex_header else []) @
               newline @ print_hex 4 output @ '' '' @
               concat (map (\<lambda>b. print_hex 2 (unat b) @ '' '') line) @
               concat (replicate (HEX_LINE_LEN - num_bytes) ''   '') @
               ''   '' @
               map (\<lambda>b. if isprint b then byte_char b else CHR ''.'') line @ rest) })"
  by pat_completeness auto
termination by (relation "measure (\<lambda>(_, data). length data)") (auto simp: Let_def split: if_splits)

declare hex_lines.simps [simp del]

definition hex_format :: "byte list \<Rightarrow> string option" where
  "hex_format data = hex_lines 0 data"

section \<open>Lines of standard input\<close>

abbreviation (input) BUFFSIZE :: nat where "BUFFSIZE \<equiv> 256"

text \<open>\<open>fgets\<close>: up to \<open>BUFFSIZE - 1\<close> characters, through the first newline; none at the end of the input.\<close>

definition fgets :: "string \<Rightarrow> (string \<times> string) option" where
  "fgets stream =
    (if stream = [] then None
     else let n = length (takeWhile (\<lambda>c. c \<noteq> CHR 0x0A) stream);
              k = min (BUFFSIZE - 1) (n + 1)
          in Some (take k stream, drop k stream))"

text \<open>The loop of \<open>readline\<close>. A chunk ends for C at its first NUL; an empty one makes the code look in
  front of its buffer. The line is \<open>NULL\<close> when the input ends before a newline: what was read then is
  freed.\<close>

function readline_loop :: "string \<Rightarrow> string \<Rightarrow> (string option \<times> string) option" where
  "readline_loop stream str =
    (case fgets stream of
       None \<Rightarrow> Some (None, stream)
     | Some (chunk, stream') \<Rightarrow>
         let line = takeWhile (\<lambda>c. c \<noteq> NUL) chunk in
         if line = [] then None
         else if last line = CHR 0x0A then Some (Some (str @ butlast line), stream')
         else readline_loop stream' (str @ line))"
  by pat_completeness auto
termination
  by (relation "measure (\<lambda>(stream, _). length stream)") (auto simp: fgets_def Let_def split: if_splits)

declare readline_loop.simps [simp del]

definition readline :: "string \<Rightarrow> (string option \<times> string) option" where
  "readline stream = readline_loop stream []"


section \<open>What the numbers mean\<close>

definition number :: "string \<Rightarrow> int" where
  "number ds = foldl (\<lambda>r c. r * 10 + digit_value c) 0 ds"

lemma digit_value_range: "is_digit c \<Longrightarrow> 0 \<le> digit_value c \<and> digit_value c \<le> 9"
  by (auto simp: is_digit_def digit_value_def)

lemma number_from: "foldl (\<lambda>r c. r * 10 + digit_value c) r ds = r * 10 ^ length ds + number ds"
proof (induction ds arbitrary: r)
  case (Cons c ds)
  show ?case
    using Cons.IH [of "r * 10 + digit_value c"] Cons.IH [of "digit_value c"] by (simp add: number_def algebra_simps)
qed (simp add: number_def)

lemma number_nonneg: "\<forall>c\<in>set ds. is_digit c \<Longrightarrow> 0 \<le> number ds"
proof (induction ds)
  case (Cons c ds)
  then have "0 \<le> number ds" "0 \<le> digit_value c" using digit_value_range by auto
  then show ?case using number_from [of "digit_value c" ds] by (simp add: number_def)
qed (simp add: number_def)

lemma number_ge: "0 \<le> r \<Longrightarrow> \<forall>c\<in>set ds. is_digit c \<Longrightarrow> r \<le> r * 10 ^ length ds + number ds"
proof -
  assume r: "0 \<le> r" and ds: "\<forall>c\<in>set ds. is_digit c"
  have "r * 1 \<le> r * 10 ^ length ds" using r by (intro mult_left_mono) simp_all
  then show ?thesis using number_nonneg [OF ds] by simp
qed

lemma read_digits_eq:
  assumes "0 \<le> r" and "in_long r"
  shows "read_digits s r =
    (let ds = takeWhile is_digit s; n = r * 10 ^ length ds + number ds
     in if n < 2 ^ 63 then Some (n, dropWhile is_digit s) else None)"
  using assms
proof (induction s arbitrary: r)
  case Nil
  then show ?case by (simp add: number_def in_long_def)
next
  case (Cons c s)
  let ?ds = "takeWhile is_digit s" and ?r = "r * 10 + digit_value c"
  show ?case
  proof (cases "is_digit c")
    case True
    have n: "r * 10 ^ length (c # ?ds) + number (c # ?ds) = ?r * 10 ^ length ?ds + number ?ds"
      using number_from [of r "c # ?ds"] number_from [of ?r ?ds] by simp
    have d: "\<forall>x\<in>set ?ds. is_digit x" by (auto dest: set_takeWhileD)
    have r: "0 \<le> ?r" using Cons.prems(1) digit_value_range [OF True] by simp
    show ?thesis
    proof (cases "in_long ?r")
      case True
      then show ?thesis using Cons.IH [OF r True] n \<open>is_digit c\<close> by (simp add: Let_def)
    next
      case False
      then have "2 ^ 63 \<le> ?r" using r by (auto simp: in_long_def)
      then have "\<not> ?r * 10 ^ length ?ds + number ?ds < 2 ^ 63" using number_ge [OF r d] by simp
      then show ?thesis using n False \<open>is_digit c\<close> by (simp add: Let_def)
    qed
  next
    case False
    then show ?thesis using Cons.prems by (simp add: number_def in_long_def)
  qed
qed

lemma number_zeros: "number (takeWhile is_digit (dropWhile (\<lambda>c. c = CHR ''0'') s)) = number (takeWhile is_digit s)"
  "dropWhile is_digit (dropWhile (\<lambda>c. c = CHR ''0'') s) = dropWhile is_digit s"
  by (induction s) (auto simp: is_digit_def number_def digit_value_def)

lemma is_digit_digit_char: "d < 10 \<Longrightarrow> is_digit (digit_char d) \<and> digit_value (digit_char d) = int d"
  by (simp add: is_digit_def digit_value_def digit_char_def of_char_of)

lemma digits_decimal:
  "\<forall>d\<in>set (digits 10 n). d < 10" "number (map digit_char (digits 10 n)) = int n"
proof (induction n rule: less_induct)
  case (less n)
  { case 1 show ?case using less(1) [of "n div 10"] by (subst digits.simps) (auto simp: Ball_def) }
  { case 2 show ?case
    proof (cases "n < 10")
      case True
      then show ?thesis using is_digit_digit_char [of n] by (subst digits.simps) (simp add: number_def)
    next
      case False
      then have "number (map digit_char (digits 10 (n div 10))) = int (n div 10)" using less(2) by simp
      moreover have "int (n div 10) * 10 + int (n mod 10) = int n" by (simp add: zdiv_int zmod_int)
      ultimately show ?thesis using False is_digit_digit_char [of "n mod 10"]
        by (subst digits.simps) (simp add: number_def)
    qed }
qed

lemma sharedq_atol_eq:
  "sharedq_atol s =
    (let t = dropWhile (\<lambda>c. c = CHR '' '') s; ds = takeWhile is_digit t
     in if 2 ^ 63 \<le> number ds then None else if ds = t then Some (number ds) else Some (- 1))"
proof -
  let ?t = "dropWhile (\<lambda>c. c = CHR '' '') s"
  have "(dropWhile is_digit ?t = []) = (takeWhile is_digit ?t = ?t)"
    by (metis append_Nil2 append_self_conv takeWhile_dropWhile_id)
  then show ?thesis
    using read_digits_eq [of 0 "dropWhile (\<lambda>c. c = CHR ''0'') ?t"] number_zeros [of ?t]
    by (simp add: sharedq_atol_def Let_def in_long_def)
qed

lemma sharedq_atol_blanks:
  "sharedq_atol (replicate k (CHR '' '') @ print_long (int n)) = (if int n < 2 ^ 63 then Some (int n) else None)"
proof -
  let ?p = "map digit_char (digits 10 n)"
  have d: "\<forall>c\<in>set ?p. is_digit c" using digits_decimal(1) [of n] is_digit_digit_char by auto
  then have tk: "takeWhile is_digit ?p = ?p" by (simp add: takeWhile_eq_all_conv)
  have "dropWhile (\<lambda>c. c = CHR '' '') ?p = ?p" using d by (cases ?p) (auto simp: is_digit_def)
  moreover have "dropWhile (\<lambda>c. c = CHR '' '') (replicate k (CHR '' '') @ ?p) = dropWhile (\<lambda>c. c = CHR '' '') ?p"
    by (induction k) simp_all
  ultimately have dw: "dropWhile (\<lambda>c. c = CHR '' '') (replicate k (CHR '' '') @ ?p) = ?p" by simp
  have "sharedq_atol (replicate k (CHR '' '') @ ?p) = (if 2 ^ 63 \<le> number ?p then None else Some (number ?p))"
    using sharedq_atol_eq [of "replicate k (CHR '' '') @ ?p"] unfolding dw tk Let_def by simp
  then show ?thesis using digits_decimal(2) [of n] by (simp add: print_long_def)
qed

lemma sharedq_atol_printed: "sharedq_atol (print_long (int n)) = (if int n < 2 ^ 63 then Some (int n) else None)"
  using sharedq_atol_blanks [of 0 n] by simp

text \<open>C39: \<open>sharedq_atol\<close> reads, after leading blanks, the decimal number the text consists of, and -1 when
  anything else follows it: for every text whose number fits into a \<open>long\<close>. An empty text counts as 0.
  What \<open>printf\<close> prints for a number that is not negative is read back as that number.\<close>

theorem sharedq_atol_correct:
  "sharedq_atol s =
    (let t = dropWhile (\<lambda>c. c = CHR '' '') s; ds = takeWhile is_digit t
     in if 2 ^ 63 \<le> number ds then None else if ds = t then Some (number ds) else Some (- 1)) \<and>
   sharedq_atol (replicate k (CHR '' '') @ print_long (int n)) = (if int n < 2 ^ 63 then Some (int n) else None)"
  using sharedq_atol_eq sharedq_atol_blanks by blast

section \<open>What the modifiers mean\<close>

lemma contains_from_eq: "n \<le> length str \<Longrightarrow> contains_from str c n \<longleftrightarrow> c \<in> set (take n str)"
proof (induction n)
  case (Suc n)
  then show ?case by (auto simp: take_Suc_conv_app_nth)
qed simp

lemma contains_param_eq: "contains_param str c \<longleftrightarrow> c \<in> set str"
  by (simp add: contains_param_def contains_from_eq)

text \<open>A modifier the tool knows: a dash and one of its letters; the rest of the argument is not looked at.\<close>

definition known :: "string \<Rightarrow> bool" where
  "known param \<longleftrightarrow> char_at param 0 = CHR ''-'' \<and> char_at param 1 \<in> set PERMIT"

definition given :: "char \<Rightarrow> string \<Rightarrow> string list \<Rightarrow> bool" where
  "given c pattern params \<longleftrightarrow> c \<in> set pattern \<and> (\<exists>p\<in>set params. char_at p 1 = c)"

lemma scan_modifiers_eq:
  "snd (scan_modifiers params pattern m) =
    (if list_all known params
     then Some \<lparr>m_block = (m_block m \<or> given CHR ''b'' pattern params), m_help = (m_help m \<or> given CHR ''h'' pattern params),
       m_hex = (m_hex m \<or> given CHR ''x'' pattern params), m_verbose = (m_verbose m \<or> given CHR ''v'' pattern params)\<rparr>
     else None)"
proof (induction params arbitrary: m)
  case (Cons p params)
  show ?case
  proof (cases "known p")
    case True
    then have p: "char_at p 0 = CHR ''-''" "char_at p 1 \<in> {CHR ''b'', CHR ''h'', CHR ''v'', CHR ''x''}" by (auto simp: known_def PERMIT_def)
    show ?thesis
    proof (cases "char_at p 1 \<in> set pattern")
      case in_pattern: True
      show ?thesis
        using p(2) True p(1) in_pattern Cons.IH by (auto simp: contains_param_eq PERMIT_def given_def)
    next
      case False
      have g: "given c pattern (p # params) = given c pattern params" for c using False by (auto simp: given_def)
      show ?thesis
        using p True False Cons.IH [of m] unfolding g by (auto simp: contains_param_eq PERMIT_def split: prod.split)
    qed
  next
    case False
    then show ?thesis by (auto simp: known_def contains_param_eq)
  qed
qed (simp add: given_def)

text \<open>\<open>parse_modifiers\<close> ends the program exactly when an argument in front of the command is not a dash
  followed by one of the four letters; otherwise each modifier is set exactly when its letter is given
  and the command accepts it, in any order and any number of times.\<close>

theorem parse_modifiers_correct:
  "snd (parse_modifiers argv index pattern) =
    (let params = take (index - 1) (tl argv) in
     if list_all known params
     then Some \<lparr>m_block = given CHR ''b'' pattern params, m_help = given CHR ''h'' pattern params,
       m_hex = given CHR ''x'' pattern params, m_verbose = given CHR ''v'' pattern params\<rparr>
     else None)"
  by (simp add: parse_modifiers_def scan_modifiers_eq no_modifiers_def Let_def)

section \<open>What the dump shows\<close>

text \<open>One row of the dump, and the bytes its columns show.\<close>

definition hex_columns :: "byte list \<Rightarrow> string" where
  "hex_columns line = concat (map (\<lambda>b. print_hex 2 (unat b) @ '' '') line)"

definition hex_value :: "char \<Rightarrow> nat" where
  "hex_value c = (let n = of_char c in if n < (58 :: nat) then n - 48 else n - 55)"

fun read_columns :: "string \<Rightarrow> byte list" where
  "read_columns (a # b # c # rest) = word_of_nat (16 * hex_value a + hex_value b) # read_columns rest"
| "read_columns _ = []"

definition dump_row :: "nat \<Rightarrow> byte list \<Rightarrow> string" where
  "dump_row output line =
     (if output mod HEX_HDR_SPAN = 0 then hex_header else []) @ newline @ print_hex 4 output @ '' '' @ hex_columns line @
     replicate (3 * (HEX_LINE_LEN - length line)) CHR '' '' @ ''   '' @ map (\<lambda>b. if isprint b then byte_char b else CHR ''.'') line"

lemma hex_value_digit: "d < 16 \<Longrightarrow> hex_value (digit_char d) = d"
  by (simp add: hex_value_def digit_char_def of_char_of Let_def)

lemma zero_char: "char_of (48 :: nat) = CHR ''0''"
  using char_of_char [of "CHR ''0''", where 'a = nat] by simp

lemma print_hex_byte: "print_hex 2 (unat (b :: byte)) = [digit_char (unat b div 16), digit_char (unat b mod 16)]"
proof -
  have "unat b < 256" using unsigned_less [of b] by simp
  then show ?thesis
    by (auto simp: print_hex_def pad_left_def digits.simps [of 16 "unat b"] digits.simps [of 16 "unat b div 16"] digit_char_def numeral_2_eq_2
        div_greater_zero_iff zero_char)
qed

lemma read_hex_columns: "read_columns (hex_columns line) = line"
proof (induction line)
  case (Cons b line)
  have "unat b < 256" using unsigned_less [of b] by simp
  then have "16 * hex_value (digit_char (unat b div 16)) + hex_value (digit_char (unat b mod 16)) = unat b"
    by (simp add: hex_value_digit)
  then show ?case using Cons by (simp add: hex_columns_def print_hex_byte)
qed (simp add: hex_columns_def)


function rows :: "nat \<Rightarrow> byte list \<Rightarrow> (nat \<times> byte list) list" where
  "rows pos data = (if data = [] then [] else (pos, take HEX_LINE_LEN data) # rows (pos + HEX_LINE_LEN) (drop HEX_LINE_LEN data))"

  by pat_completeness auto
termination by (relation "measure (\<lambda>(_, data). length data)") auto

declare rows.simps [simp del]

lemma concat_replicate: "concat (replicate n xs) = replicate (n * k) c" if "xs = replicate k c"
  by (induction n) (simp_all add: that replicate_add)

lemma hex_lines_eq:
  "pos + length data + HEX_LINE_LEN < 2 ^ 31 \<Longrightarrow> hex_lines pos data = Some (concat (map (\<lambda>(at, l). dump_row at l) (rows pos data)) @ newline)"
proof (induction pos data rule: rows.induct)
  case (1 pos data)
  show ?case
  proof (cases "data = []")
    case True
    then show ?thesis by (simp add: hex_lines.simps rows.simps)
  next
    case False
    have sp: "concat (replicate (16 - n) ''   '') = replicate (3 * (16 - n)) CHR '' ''" for n
      using concat_replicate [of "''   ''" 3 "CHR '' ''" "16 - n"] by (simp add: numeral_3_eq_3 mult.commute)
    have len: "length (take HEX_LINE_LEN data) = (if HEX_LINE_LEN > length data then length data else HEX_LINE_LEN)" by simp
    show ?thesis
    proof (cases "16 \<le> length data")
      case True
      have row: "hex_lines (pos + HEX_LINE_LEN) (drop HEX_LINE_LEN data) =
          Some (concat (map (\<lambda>(at, l). dump_row at l) (rows (pos + HEX_LINE_LEN) (drop HEX_LINE_LEN data))) @ newline)"
        using "1.IH" [OF False] "1.prems" True by simp
      show ?thesis using True row False "1.prems"
        by (subst hex_lines.simps, subst rows.simps) (simp add: dump_row_def [of pos] hex_columns_def Let_def sp)
    next
      case short: False
      then have "hex_lines (pos + length data) [] = Some newline" "rows (pos + HEX_LINE_LEN) [] = []"
        by (simp_all add: hex_lines.simps rows.simps)
      then show ?thesis using short False "1.prems"
        by (subst hex_lines.simps, subst rows.simps) (simp add: dump_row_def [of pos] hex_columns_def Let_def sp)
    qed
  qed
qed

lemma rows_data: "concat (map snd (rows pos data)) = data"
proof (induction pos data rule: rows.induct)
  case (1 pos data)
  then show ?case by (subst rows.simps) simp
qed

lemma rows_nth: "i < length (rows pos data) \<Longrightarrow> fst (rows pos data ! i) = pos + 16 * i \<and> length (snd (rows pos data ! i)) \<le> 16"
proof (induction pos data arbitrary: i rule: rows.induct)
  case (1 pos data)
  show ?case
  proof (cases "data = []")
    case False
    then have r: "rows pos data = (pos, take 16 data) # rows (pos + 16) (drop 16 data)" by (subst rows.simps) simp
    show ?thesis using "1.IH" [OF False] "1.prems" unfolding r by (cases i) simp_all
  qed (use "1.prems" in \<open>simp add: rows.simps\<close>)
qed

text \<open>C38: the dump of \<open>hex_format\<close> shows the data: it consists of rows of at most 16 bytes, the i-th one at
  displacement 16 i, under a header every 256 bytes, and reading the hex columns of the rows back gives
  exactly the bytes, in order. It returns for all data below 2 GB.\<close>

theorem hex_format_roundtrip:
  assumes "length data < 2 ^ 31 - 16"
  shows "\<exists>rs. hex_format data = Some (concat (map (\<lambda>(at, l). dump_row at l) rs) @ newline) \<and>
    concat (map (\<lambda>(_, l). read_columns (hex_columns l)) rs) = data \<and>
    (\<forall>i<length rs. fst (rs ! i) = 16 * i \<and> length (snd (rs ! i)) \<le> 16)"
proof (intro exI conjI)
  show "hex_format data = Some (concat (map (\<lambda>(at, l). dump_row at l) (rows 0 data)) @ newline)"
    using hex_lines_eq [of 0 data] assms by (simp add: hex_format_def)
  have "map (\<lambda>(_, l). read_columns (hex_columns l)) (rows 0 data) = map snd (rows 0 data)"
    by (simp add: read_hex_columns case_prod_beta)
  then show "concat (map (\<lambda>(_, l). read_columns (hex_columns l)) (rows 0 data)) = data" by (simp only: rows_data)
  show "\<forall>i<length (rows 0 data). fst (rows 0 data ! i) = 16 * i \<and> length (snd (rows 0 data ! i)) \<le> 16"
    using rows_nth [of _ 0 data] by auto
qed

theorem hex_format_witness:
  "\<exists>rs. hex_format [0x41, 0x0A] = Some (concat (map (\<lambda>(at, l). dump_row at l) rs) @ newline) \<and>
     concat (map (\<lambda>(_, l). read_columns (hex_columns l)) rs) = [0x41, 0x0A]"
proof -
  have "length [0x41, 0x0A :: byte] < 2 ^ 31 - 16" by simp
  from hex_format_roundtrip [OF this] show ?thesis by blast
qed

section \<open>What a line is\<close>

lemma fgets_line:
  assumes "CHR 0x0A \<notin> set ls"
  shows "length ls < 255 \<Longrightarrow> fgets (ls @ CHR 0x0A # rest) = Some (ls @ [CHR 0x0A], rest)"
    and "255 \<le> length ls \<Longrightarrow> fgets (ls @ rest) = Some (take 255 ls, drop 255 ls @ rest)"
proof -
  have t: "takeWhile (\<lambda>c. c \<noteq> CHR 0x0A) (ls @ CHR 0x0A # rest) = ls" using assms by (subst takeWhile_append2) auto
  show "fgets (ls @ CHR 0x0A # rest) = Some (ls @ [CHR 0x0A], rest)" if "length ls < 255"
    using that unfolding fgets_def t by (simp add: Let_def)
  have "length ls \<le> length (takeWhile (\<lambda>c. c \<noteq> CHR 0x0A) (ls @ rest))" using assms by (subst takeWhile_append2) auto
  then show "fgets (ls @ rest) = Some (take 255 ls, drop 255 ls @ rest)" if "255 \<le> length ls"
    using that by (auto simp: fgets_def Let_def)
qed

lemma takeWhile_clean: "c \<notin> set s \<Longrightarrow> takeWhile (\<lambda>x. x \<noteq> c) s = s"
  by (auto simp: takeWhile_eq_all_conv)

lemma readline_loop_line:
  assumes "CHR 0x0A \<notin> set ls" and "NUL \<notin> set ls"
  shows "readline_loop (ls @ CHR 0x0A # rest) str = Some (Some (str @ ls), rest)"
  using assms
proof (induction "length ls" arbitrary: ls str rule: less_induct)
  case less
  have nn: "CHR 0x0A \<noteq> NUL" by (simp add: NUL_def)
  show ?case
  proof (cases "length ls < 255")
    case True
    have "takeWhile (\<lambda>c. c \<noteq> NUL) (ls @ [CHR 0x0A]) = ls @ [CHR 0x0A]" using less.prems(2) nn by (intro takeWhile_clean) auto
    then show ?thesis using fgets_line(1) [OF less.prems(1) True, of rest] by (subst readline_loop.simps) simp
  next
    case False
    let ?t = "take 255 ls" and ?d = "drop 255 ls"
    have s: "set ?t \<subseteq> set ls" "set ?d \<subseteq> set ls" by (rule set_take_subset, rule set_drop_subset)
    have tw: "takeWhile (\<lambda>c. c \<noteq> NUL) ?t = ?t" using less.prems(2) s(1) by (intro takeWhile_clean) auto
    have t: "?t \<noteq> []" using False by auto
    have "last ?t \<noteq> CHR 0x0A" using last_in_set [OF t] s(1) less.prems(1) by auto
    moreover have "readline_loop (?d @ CHR 0x0A # rest) (str @ ?t) = Some (Some ((str @ ?t) @ ?d), rest)"
      by (rule less.hyps) (use False less.prems s(2) in auto)
    ultimately show ?thesis
      using fgets_line(2) [OF less.prems(1), of "CHR 0x0A # rest"] False t by (subst readline_loop.simps) (simp add: tw Let_def)
  qed
qed

lemma readline_loop_end:
  assumes "CHR 0x0A \<notin> set ls" and "NUL \<notin> set ls"
  shows "readline_loop ls str = Some (None, [])"
  using assms
proof (induction "length ls" arbitrary: ls str rule: less_induct)
  case less
  show ?case
  proof (cases "ls = []")
    case True
    then show ?thesis by (simp add: readline_loop.simps fgets_def)
  next
    case False
    let ?t = "take 255 ls" and ?d = "drop 255 ls"
    have s: "set ?t \<subseteq> set ls" "set ?d \<subseteq> set ls" by (rule set_take_subset, rule set_drop_subset)
    have w: "takeWhile (\<lambda>c. c \<noteq> CHR 0x0A) ls = ls" using less.prems(1) by (rule takeWhile_clean)
    have f: "fgets ls = Some (?t, ?d)"
      using False unfolding fgets_def w by (cases "length ls < 255") (auto simp: Let_def)
    have t: "?t \<noteq> []" using False by auto
    have tw: "takeWhile (\<lambda>c. c \<noteq> NUL) ?t = ?t" using less.prems(2) s(1) by (intro takeWhile_clean) auto
    have "last ?t \<noteq> CHR 0x0A" using last_in_set [OF t] s(1) less.prems(1) by auto
    moreover have "readline_loop ?d (str @ ?t) = Some (None, [])"
      by (rule less.hyps) (use False less.prems s(2) in \<open>auto simp: Suc_le_eq\<close>)
    ultimately show ?thesis using f t by (subst readline_loop.simps) (simp add: tw Let_def)
  qed
qed

text \<open>C40: \<open>readline\<close> returns the next line, whatever its length, and leaves the input behind its newline.
  Text at the end of the input that no newline follows is not a line for it: it is read, dropped and
  reported like the end of the input.\<close>

theorem readline_correct:
  assumes "CHR 0x0A \<notin> set ls" and "NUL \<notin> set ls"
  shows "readline (ls @ CHR 0x0A # rest) = Some (Some ls, rest) \<and> readline ls = Some (None, [])"
  using readline_loop_line [OF assms, of rest "[]"] readline_loop_end [OF assms, of "[]"] by (simp add: readline_def)

theorem readline_witness:
  "readline (''ab'' @ CHR 0x0A # ''cd'') = Some (Some ''ab'', ''cd'')"
proof -
  have "CHR 0x0A \<notin> set ''ab''" "NUL \<notin> set ''ab''" by (simp_all add: NUL_def)
  from readline_correct [OF this, of "''cd''"] show ?thesis by blast
qed

end
