(* ===== verification/Help.thy ===== *)
theory Help
  imports Console
begin

text \<open>
  The help texts of \<open>sharedq\<close> (\<open>src/sharedq/main.c\<close>, \<open>sharedq_help\<close> and \<open>sharedq_help_*\<close>), as they are printed.
\<close>

definition sharedq_help_create :: string where
  "sharedq_help_create =
     ''sharedq [modifiers] create <name> [<maxdepth>]'' @ newline @
     newline @
     ''  --creates a named queue in shared memory'' @ newline @
     newline @
     ''  where:'' @ newline @
     ''  <name>'' @ tab @ tab @ ''name of queue'' @ newline @
     ''  <maxdepth>'' @ tab @ tab @ ''optional maximum depth, defaults to largest possible value'' @ newline @
     newline @
     ''   modifiers'' @ tab @ tab @ '' effects'' @ newline @
     ''  -----------'' @ tab @ tab @ ''---------'' @ newline @
     ''  -h'' @ tab @ tab @ tab @ ''prints help for the specified command'' @ newline"

definition sharedq_help_destroy :: string where
  "sharedq_help_destroy =
     ''sharedq [modifiers] destroy <name>'' @ newline @
     newline @
     ''  --destroys a named queue in shared memory'' @ newline @
     newline @
     ''  where <name> is name of an existing queue'' @ newline @
     newline @
     newline @
     ''   modifiers'' @ tab @ tab @ '' effects'' @ newline @
     ''  -----------'' @ tab @ tab @ ''---------'' @ newline @
     ''  -h'' @ tab @ tab @ tab @ ''prints help for the specified command'' @ newline"

definition sharedq_help_list :: string where
  "sharedq_help_list =
     ''sharedq [modifiers] list'' @ newline @
     newline @
     ''  --list of queues in shared memory'' @ newline @
     newline @
     newline @
     ''   modifiers'' @ tab @ tab @ '' effects'' @ newline @
     ''  -----------'' @ tab @ tab @ ''---------'' @ newline @
     ''  -h'' @ tab @ tab @ tab @ ''prints help for the specified command'' @ newline @
     ''  -v'' @ tab @ tab @ tab @ ''prints output with headers'' @ newline"

definition sharedq_help_remove :: string where
  "sharedq_help_remove =
     ''sharedq [modifiers] remove <name>'' @ newline @
     newline @
     ''  --remove an item from the specified queue'' @ newline @
     newline @
     ''  where <name> is name of an existing queue'' @ newline @
     newline @
     newline @
     ''   modifiers'' @ tab @ tab @ '' effects'' @ newline @
     ''  -----------'' @ tab @ tab @ ''---------'' @ newline @
     ''  -b'' @ tab @ tab @ tab @ ''blocks waiting for an item to arrive'' @ newline @
     ''  -h'' @ tab @ tab @ tab @ ''prints help for the specified command'' @ newline @
     ''  -x'' @ tab @ tab @ tab @ ''prints output as hex dump'' @ newline"

definition sharedq_help_add :: string where
  "sharedq_help_add =
     ''sharedq [modifiers] add <name> [<file>]'' @ newline @
     newline @
     ''  --add an item to the specified queue'' @ newline @
     newline @
     ''  where:'' @ newline @
     ''  <name>'' @ tab @ tab @ ''name of queue'' @ newline @
     ''  <file>  '' @ tab @ tab @ ''name of file whose contents to queue,'' @ newline @
     ''  '' @ tab @ tab @ tab @ ''if omitted queue lines from stdin'' @ newline @
     newline @
     ''   modifiers'' @ tab @ tab @ '' effects'' @ newline @
     ''  -----------'' @ tab @ tab @ ''---------'' @ newline @
     ''  -h'' @ tab @ tab @ tab @ ''prints help for the specified command'' @ newline"

definition sharedq_help_drain :: string where
  "sharedq_help_drain =
     ''sharedq [modifiers] drain <name>'' @ newline @
     newline @
     ''  --drains all items in specified queue in hex format'' @ newline @
     newline @
     ''  where <name> is name of an existing queue'' @ newline @
     newline @
     newline @
     ''   modifiers'' @ tab @ tab @ '' effects'' @ newline @
     ''  -----------'' @ tab @ tab @ ''---------'' @ newline @
     ''  -b'' @ tab @ tab @ tab @ ''blocks waiting for an item to arrive'' @ newline @
     ''  -h'' @ tab @ tab @ tab @ ''prints help for the specified command'' @ newline @
     ''  -v'' @ tab @ tab @ tab @ ''prints output with timing information'' @ newline @
     ''  -x'' @ tab @ tab @ tab @ ''prints output as hex dump'' @ newline"

definition sharedq_help_listen :: string where
  "sharedq_help_listen =
     ''sharedq [modifiers] listen <name>'' @ newline @
     newline @
     ''  --listens for an item being added to the specified queue when empty'' @ newline @
     newline @
     ''   modifiers'' @ tab @ tab @ '' effects'' @ newline @
     ''  -----------'' @ tab @ tab @ ''---------'' @ newline @
     ''  -h'' @ tab @ tab @ tab @ ''prints help for the specified command'' @ newline"

definition sharedq_help_call :: string where
  "sharedq_help_call =
     ''sharedq [modifiers] call <name>'' @ newline @
     newline @
     ''  --call when there is an attempted remove from empty queue'' @ newline @
     newline @
     ''   modifiers'' @ tab @ tab @ '' effects'' @ newline @
     ''  -----------'' @ tab @ tab @ ''---------'' @ newline @
     ''  -h'' @ tab @ tab @ tab @ ''prints help for the specified command'' @ newline"

definition sharedq_help_monitor :: string where
  "sharedq_help_monitor =
     ''sharedq [modifiers] monitor <name>'' @ newline @
     newline @
     ''  --monitors queue for events'' @ newline @
     newline @
     ''   modifiers'' @ tab @ tab @ '' effects'' @ newline @
     ''  -----------'' @ tab @ tab @ ''---------'' @ newline @
     ''  -h'' @ tab @ tab @ tab @ ''prints help for the specified command'' @ newline"

definition sharedq_help_level :: string where
  "sharedq_help_level =
     ''sharedq [modifiers] level <name> <count>'' @ newline @
     newline @
     ''  --sets count for monitor depth level event'' @ newline @
     newline @
     ''  where:'' @ newline @
     ''  <name>'' @ tab @ tab @ ''name of queue'' @ newline @
     ''  <count>'' @ tab @ tab @ ''count at which depth level event will be generated'' @ newline @
     newline @
     ''   modifiers'' @ tab @ tab @ '' effects'' @ newline @
     ''  -----------'' @ tab @ tab @ ''---------'' @ newline @
     ''  -h'' @ tab @ tab @ tab @ ''prints help for the specified command'' @ newline"

definition sharedq_help_limit :: string where
  "sharedq_help_limit =
     ''sharedq [modifiers] limit <name> <seconds> [<nanoseconds>]'' @ newline @
     newline @
     ''  --sets limit for monitor timelimit event'' @ newline @
     newline @
     ''  where:'' @ newline @
     ''  <name>'' @ tab @ tab @ ''name of queue'' @ newline @
     ''  <seconds>'' @ tab @ tab @ ''seconds till time limit event will be generated'' @ newline @
     ''  <nanoseconds>'' @ tab @ tab @ ''nanoseconds till time limit event will be generated'' @ newline @
     newline @
     ''   modifiers'' @ tab @ tab @ '' effects'' @ newline @
     ''  -----------'' @ tab @ tab @ ''---------'' @ newline @
     ''  -h'' @ tab @ tab @ tab @ ''prints help for the specified command'' @ newline"

definition sharedq_help_pull :: string where
  "sharedq_help_pull =
     ''sharedq [modifiers] pull <name> [<file>]'' @ newline @
     newline @
     ''  --adds lines to the specified queue based on call signals'' @ newline @
     newline @
     ''  where:'' @ newline @
     ''  <name>'' @ tab @ tab @ ''name of queue'' @ newline @
     ''  <file>  '' @ tab @ tab @ ''name of file whose contents to queue,'' @ newline @
     ''  '' @ tab @ tab @ tab @ ''if omitted queue lines from stdin'' @ newline @
     newline @
     ''   modifiers'' @ tab @ tab @ '' effects'' @ newline @
     ''  -----------'' @ tab @ tab @ ''---------'' @ newline @
     ''  -h'' @ tab @ tab @ tab @ ''prints help for the specified command'' @ newline @
     ''  -v'' @ tab @ tab @ tab @ ''prints output with timing information'' @ newline"

definition sharedq_help :: string where
  "sharedq_help =
     ''sharedq [modifiers] <cmd>'' @ newline @
     newline @
     ''   cmds'' @ tab @ tab @ tab @ '' actions'' @ newline @
     ''  ------'' @ tab @ tab @ ''----------'' @ newline @
     ''  add'' @ tab @ tab @ tab @ ''add item to queue'' @ newline @
     ''  create'' @ tab @ tab @ ''create queue'' @ newline @
     ''  destroy'' @ tab @ tab @ ''destroy queue'' @ newline @
     ''  drain'' @ tab @ tab @ tab @ ''drains items in queue'' @ newline @
     ''  help'' @ tab @ tab @ tab @ ''print list of commands'' @ newline @
     ''  level'' @ tab @ tab @ tab @ ''set event depth level'' @ newline @
     ''  limit'' @ tab @ tab @ tab @ ''set limit for timelimit event'' @ newline @
     ''  list'' @ tab @ tab @ tab @ ''list of queues'' @ newline @
     ''  monitor'' @ tab @ tab @ ''monitors queue for events'' @ newline @
     ''  remove'' @ tab @ tab @ ''remove item from queue'' @ newline @
     ''  listen'' @ tab @ tab @ ''listen for add to empty queue'' @ newline @
     ''  call'' @ tab @ tab @ tab @ ''call when there are removes on empty queue'' @ newline @
     ''  pull'' @ tab @ tab @ tab @ ''demo of pull model based on call signal'' @ newline @
     newline @
     ''   modifiers'' @ tab @ tab @ '' effects'' @ newline @
     ''  -----------'' @ tab @ tab @ ''---------'' @ newline @
     ''  -b'' @ tab @ tab @ tab @ ''blocks waiting for an item to arrive'' @ newline @
     ''  -h'' @ tab @ tab @ tab @ ''prints help for the specified command'' @ newline @
     ''  -x'' @ tab @ tab @ tab @ ''prints output as hex dump'' @ newline @
     ''  -v'' @ tab @ tab @ tab @ ''prints output with headers'' @ newline"

end
