(* ===== verification/Commands.thy ===== *)
theory Commands
  imports Help
begin

text \<open>
  The commands of the tool \<open>sharedq\<close> (\<open>src/sharedq/main.c\<close>) that finish by themselves: create, destroy,
  list, add, remove, drain, level and limit. A command takes the arguments, the index of its name among
  them and what the process sees; it comes back with the exit status of the process and what it left
  behind, or not at all. What C leaves undefined is \<open>None\<close>.
\<close>

section \<open>What the process sees\<close>

text \<open>A file for the tool: what \<open>open\<close>, \<open>fstat\<close> and \<open>mmap\<close> say of it.\<close>

datatype disk_file = No_file | No_stat | Not_regular | No_map | Regular "byte list"

text \<open>The named objects, the process without a handle, what is left of standard input, standard output,
  the files, and the entries of \<open>/dev/shm/\<close> (none when it cannot be opened).\<close>

record desk =
  d_fs :: objects
  d_proc :: qstate
  d_in :: string
  d_out :: string
  d_files :: "string \<Rightarrow> disk_file"
  d_dir :: "string list option"

definition say :: "string \<Rightarrow> desk \<Rightarrow> desk" where
  "say str d = d\<lparr>d_out := d_out d @ str\<rparr>"

definition say_line :: "string \<Rightarrow> desk \<Rightarrow> desk" where
  "say_line str d = say (str @ newline) d"

text \<open>Every command starts in the same way: the number of arguments from the program's name (counted
  without modifiers) is checked, the modifiers are parsed, help is printed when asked for.\<close>

definition start_command ::
  "nat \<Rightarrow> nat \<Rightarrow> string \<Rightarrow> string \<Rightarrow> string list \<Rightarrow> nat \<Rightarrow> (modifiers \<Rightarrow> desk \<Rightarrow> (int \<times> desk) option) \<Rightarrow>
   desk \<Rightarrow> (int \<times> desk) option" where
  "start_command least most help pattern argv index body d =
    (let n = length argv - index + 1 in
     if n < least \<or> n > most then Some (0, say help d)
     else case parse_modifiers argv index pattern of
       (out, None) \<Rightarrow> Some (1, say out d)
     | (out, Some param) \<Rightarrow>
         if m_help param then Some (0, say help (say out d)) else body param (say out d))"

text \<open>The statuses of \<open>shr_q_open\<close> a command reports and gives up on; it goes on after any other one,
  with no queue.\<close>

definition open_message :: "sh_status \<Rightarrow> string option" where
  "open_message status =
    (if status = SH_ERR_ARG then Some ''sharedq:  invalid argument for open function''
     else if status = SH_ERR_ACCESS then Some ''sharedq:  permission error for queue name''
     else if status = SH_ERR_EXIST then Some ''sharedq:  queue name does not exist''
     else if status = SH_ERR_PATH then Some ''sharedq:  error in queue name path''
     else if status = SH_ERR_SYS then Some ''sharedq:  system call error''
     else None)"

definition with_queue ::
  "string \<Rightarrow> int \<Rightarrow> (qstate option \<Rightarrow> desk \<Rightarrow> (int \<times> desk) option) \<Rightarrow> desk \<Rightarrow> (int \<times> desk) option" where
  "with_queue name md body d = do {
     (status, q) \<leftarrow> shr_q_open (d_fs d) (Some name) md (d_proc d);
     case open_message status of
       Some msg \<Rightarrow> Some (0, say_line msg d)
     | None \<Rightarrow> body q d }"

definition close_queue :: "string \<Rightarrow> qstate option \<Rightarrow> desk \<Rightarrow> (int \<times> desk) option" where
  "close_queue name q d = do {
     (_, fs) \<leftarrow> shr_q_close (d_fs d) name q;
     Some (0, d\<lparr>d_fs := fs\<rparr>) }"

section \<open>Creating, destroying, listing\<close>

abbreviation (input) SQ_IMMUTABLE :: int where "SQ_IMMUTABLE \<equiv> 0"

text \<open>The depth is converted to \<open>unsigned int\<close>.\<close>

definition sharedq_create :: "string list \<Rightarrow> nat \<Rightarrow> desk \<Rightarrow> (int \<times> desk) option" where
  "sharedq_create argv index = start_command 3 4 sharedq_help_create ''h'' argv index (\<lambda>param d. do {
     maxsize \<leftarrow> (if length argv - index + 1 = 4 then sharedq_atol (argv ! (index + 2)) else Some 0);
     if maxsize < 0 then Some (0, say_line ''sharedq:  invalid queue maxsize argument'' d)
     else do {
       (status, q, fs, p) \<leftarrow>
         shr_q_create (d_fs d) (Some (argv ! (index + 1))) (maxsize mod 2 ^ 32) SQ_IMMUTABLE (d_proc d);
       let d = d\<lparr>d_fs := fs\<rparr>;
       Some (0,
         if status = SH_ERR_ARG then say_line ''sharedq:  invalid argument for create function'' d
         else if status = SH_ERR_ACCESS then say_line ''sharedq:  permission error for queue name'' d
         else if status = SH_ERR_EXIST then say_line ''sharedq:  queue name already exists'' d
         else if status = SH_ERR_PATH then say_line ''sharedq:  error in queue name path'' d
         else if status = SH_ERR_SYS then say_line ''sharedq:  system call error'' d
         else d) } })"

definition sharedq_destroy :: "string list \<Rightarrow> nat \<Rightarrow> desk \<Rightarrow> (int \<times> desk) option" where
  "sharedq_destroy argv index = start_command 3 3 sharedq_help_destroy ''h'' argv index (\<lambda>param.
     with_queue (argv ! (index + 1)) SQ_IMMUTABLE (\<lambda>q d. do {
       (status, fs) \<leftarrow> shr_q_destroy (d_fs d) (argv ! (index + 1)) q;
       let d = d\<lparr>d_fs := fs\<rparr>;
       Some (0,
         if status = SH_ERR_ARG then say_line ''sharedq:  invalid argument for destroy function'' d
         else if status = SH_ERR_SYS then say_line ''sharedq:  system call error'' d
         else d) }))"

text \<open>The entries that are regular files and open as a queue, with the number of items and the size of
  the object when headers are asked for.\<close>

fun list_entries :: "bool \<Rightarrow> string list \<Rightarrow> desk \<Rightarrow> desk option" where
  "list_entries verbose [] d = Some d"
| "list_entries verbose (name # entries) d =
    (case stat_objects (d_fs d) (''/dev/shm/'' @ name) of
       Inr (True, sz) \<Rightarrow> do {
         (status, q) \<leftarrow> shr_q_open (d_fs d) (Some name) SQ_IMMUTABLE (d_proc d);
         if status = SH_OK then do {
           (count, q) \<leftarrow> (if verbose then shr_q_count q else Some (0, q));
           let d = (if verbose
                    then say_line (tab @ pad_right 16 name @ tab @ pad_left 9 (CHR '' '') (print_long count) @ tab @ tab @
                                   '' '' @ pad_left 9 (CHR '' '') (print_long sz)) d
                    else say_line name d);
           (_, fs) \<leftarrow> shr_q_close (d_fs d) name q;
           list_entries verbose entries (d\<lparr>d_fs := fs\<rparr>) }
         else list_entries verbose entries d }
     | _ \<Rightarrow> list_entries verbose entries d)"

definition sharedq_list :: "string list \<Rightarrow> nat \<Rightarrow> desk \<Rightarrow> (int \<times> desk) option" where
  "sharedq_list argv index = start_command 2 2 sharedq_help_list ''hv'' argv index (\<lambda>param d.
     case d_dir d of
       None \<Rightarrow> Some (1, say_line ''sharedq: path does not exist to shared memory directory'' d)
     | Some entries \<Rightarrow> do {
         let d = (if m_verbose param
                  then say (newline @ tab @ '' queues '' @ tab @ tab @ ''  depth '' @ tab @ tab @ ''   size '' @ newline @
                            tab @ ''--------'' @ tab @ tab @ ''---------'' @ tab @ tab @ ''----------'' @ newline) d
                  else d);
         d \<leftarrow> list_entries (m_verbose param) entries d;
         Some (0, if m_verbose param then say newline d else d) })"

section \<open>Adding\<close>

definition add_message :: "sh_status \<Rightarrow> desk \<Rightarrow> desk" where
  "add_message status d =
    (if status = SH_ERR_ARG then say_line ''sharedq:  invalid argument for add function'' d
     else if status = SH_ERR_LIMIT then say_line ''sharedq:  queue at depth limit'' d
     else if status = SH_ERR_NOMEM then say_line ''sharedq:  not enough memory to complete add'' d
     else d)"

definition queue_string :: "qstate option \<Rightarrow> string \<Rightarrow> desk \<Rightarrow> (sh_status \<times> qstate option \<times> desk) option" where
  "queue_string q str d = do {
     (status, q) \<leftarrow> shr_q_add q (Some (map char_byte str)) (int (length str));
     Some (status, q, add_message status d) }"

text \<open>What is not a regular file is queued by its name; an empty file cannot be mapped.\<close>

definition queue_from_file :: "qstate option \<Rightarrow> string \<Rightarrow> desk \<Rightarrow> (qstate option \<times> desk) option" where
  "queue_from_file q fname d =
    (case d_files d fname of
       No_file \<Rightarrow> Some (q, say_line ''sharedq: unable to open file'' d)
     | No_stat \<Rightarrow> Some (q, say_line ''sharedq: invalid file'' d)
     | Not_regular \<Rightarrow> do {
         (_, q, d) \<leftarrow> queue_string q fname (say_line ''sharedq: not a regular file'' d);
         Some (q, d) }
     | No_map \<Rightarrow> Some (q, say_line ''sharedq: unable to map file'' d)
     | Regular data \<Rightarrow>
         if data = [] then Some (q, say_line ''sharedq: unable to map file'' d)
         else do {
           (status, q) \<leftarrow> shr_q_add q (Some data) (int (length data));
           Some (q, add_message status d) })"

partial_function (option) stdin_loop :: "qstate option \<Rightarrow> desk \<Rightarrow> (qstate option \<times> desk) option" where
  "stdin_loop q d = do {
     (line, rest) \<leftarrow> readline (d_in d);
     let d = d\<lparr>d_in := rest\<rparr>;
     case line of
       None \<Rightarrow> Some (q, d)
     | Some line \<Rightarrow>
         if line = [] then Some (q, d)
         else do {
           (status, q, d) \<leftarrow> queue_string q line d;
           if status \<noteq> SH_OK then Some (q, d)
           else stdin_loop q (say ''<--'' d) } }"

declare stdin_loop.simps [code]

definition queue_from_stdin :: "qstate option \<Rightarrow> desk \<Rightarrow> (qstate option \<times> desk) option" where
  "queue_from_stdin q d = stdin_loop q (say ''<--'' d)"

definition sharedq_add :: "string list \<Rightarrow> nat \<Rightarrow> desk \<Rightarrow> (int \<times> desk) option" where
  "sharedq_add argv index = start_command 3 4 sharedq_help_add ''h'' argv index (\<lambda>param.
     with_queue (argv ! (index + 1)) SQ_WRITE_ONLY (\<lambda>q d. do {
       (q, d) \<leftarrow> (if length argv - index + 1 = 4 then queue_from_file q (argv ! (index + 2)) d
                  else queue_from_stdin q d);
       close_queue (argv ! (index + 1)) q d }))"

section \<open>Removing\<close>

text \<open>The bytes of an item, and its value as a C string: up to the first NUL of the buffer's filled part.
  What lies behind that part was never written; printing it is undefined.\<close>

definition item_bytes :: "sq_item \<Rightarrow> ubuf \<Rightarrow> byte list option" where
  "item_bytes item b =
    (if i_length item = 0 then Some []
     else do {
       off \<leftarrow> i_value item;
       m \<leftarrow> ub_mem b;
       read_user (drop (nat off) m) (i_length item) })"

definition item_text :: "sq_item \<Rightarrow> ubuf \<Rightarrow> string option" where
  "item_text item b = do {
     off \<leftarrow> i_value item;
     m \<leftarrow> ub_mem b;
     let rest = drop (nat off) (take (nat (i_buf_size item)) m);
     if 0 \<in> set rest then Some (map byte_char (takeWhile (\<lambda>x. x \<noteq> 0) rest)) else None }"

definition print_item :: "bool \<Rightarrow> sq_item \<Rightarrow> ubuf \<Rightarrow> desk \<Rightarrow> desk option" where
  "print_item hex item b d =
    (if hex then do { bytes \<leftarrow> item_bytes item b; out \<leftarrow> hex_format bytes; Some (say out d) }
     else do { str \<leftarrow> item_text item b; Some (say_line str d) })"

definition remove_by :: "bool \<Rightarrow> qstate option \<Rightarrow> ubuf \<Rightarrow> (sq_item \<times> ubuf \<times> qstate option) option" where
  "remove_by block q b = do {
     (item, b, q) \<leftarrow> (if block then shr_q_remove_wait q (Some b) else shr_q_remove q (Some b));
     b \<leftarrow> b;
     Some (item, b, q) }"

definition no_buffer :: ubuf where
  "no_buffer = \<lparr>ub_mem = None, ub_size = 0\<rparr>"

definition sharedq_remove :: "string list \<Rightarrow> nat \<Rightarrow> desk \<Rightarrow> (int \<times> desk) option" where
  "sharedq_remove argv index = start_command 3 3 sharedq_help_remove ''bhx'' argv index (\<lambda>param.
     with_queue (argv ! (index + 1)) SQ_READ_ONLY (\<lambda>q d. do {
       (item, b, q) \<leftarrow> remove_by (m_block param) q no_buffer;
       d \<leftarrow> (if i_status item = SH_ERR_ARG then Some (say_line ''sharedq:  invalid argument for remove function'' d)
             else if i_status item = SH_ERR_EMPTY then Some (say_line ''sharedq:  queue is empty'' d)
             else if i_status item = SH_ERR_NOMEM then Some (say_line ''sharedq:  not enough memory to complete remove'' d)
             else print_item (m_hex param) item b d);
       close_queue (argv ! (index + 1)) q d }))"

text \<open>The buffer for the next round is the one the item names, of the size the item gives.\<close>

definition next_buffer :: "sq_item \<Rightarrow> ubuf \<Rightarrow> ubuf" where
  "next_buffer item b =
    (if i_buffer item = None then no_buffer
     else \<lparr>ub_mem = map_option (take (nat (i_buf_size item))) (ub_mem b), ub_size = i_buf_size item\<rparr>)"

text \<open>The clock the process reads is the handle's; without one, no time is ever printed.\<close>

definition read_clock :: "qstate option \<Rightarrow> timespec \<times> qstate option" where
  "read_clock q = (case q of None \<Rightarrow> (\<lparr>tv_sec = 0, tv_nsec = 0\<rparr>, None)
     | Some s \<Rightarrow> (case clock_gettime s of (t, s) \<Rightarrow> (t, Some s)))"

definition print_time :: "timespec \<Rightarrow> string" where
  "print_time t = print_long (tv_sec t) @ ''.'' @ print_padded 9 (tv_nsec t)"

text \<open>What \<open>drain\<close> prints for an item, at the time \<open>call_end\<close>.\<close>

definition drain_line ::
  "modifiers \<Rightarrow> int \<Rightarrow> timespec \<Rightarrow> timespec \<Rightarrow> sq_item \<Rightarrow> ubuf \<Rightarrow> desk \<Rightarrow> desk option" where
  "drain_line param pid call_start call_end item b d =
    (let call_intrvl = timespecsub call_end call_start in
     if m_hex param then print_item True item b d
     else do {
       at \<leftarrow> i_timestamp item;
       m \<leftarrow> ub_mem b;
       sec \<leftarrow> read_long m at;
       nsec \<leftarrow> read_long m (at + 8);
       let itm_intrvl = timespecsub call_end \<lparr>tv_sec = sec, tv_nsec = nsec\<rparr>;
       str \<leftarrow> item_text item b;
       Some (say_line
         (if m_verbose param
          then print_time call_end @ ''--('' @ print_long pid @ '')--'' @ print_time itm_intrvl @ ''--'' @
               print_time call_intrvl @ ''-->'' @ str
          else ''-->'' @ str) d) })"

text \<open>With \<open>-b\<close> the process sleeps a second after each item.\<close>

definition drain_pause :: "modifiers \<Rightarrow> int \<Rightarrow> qstate option \<Rightarrow> desk \<Rightarrow> qstate option \<times> desk" where
  "drain_pause param pid q d =
    (if m_block param then
       (let (t, q) = read_clock q;
            d = (if m_verbose param then say_line (print_time t @ ''--('' @ print_long pid @ '') sleeping '') d else d);
            (t, q) = read_clock q;
            d = (if m_verbose param then say_line (print_time t @ ''--('' @ print_long pid @ '') waking '') d else d)
        in (q, d))
     else (q, d))"

partial_function (option) drain_loop ::
  "modifiers \<Rightarrow> int \<Rightarrow> qstate option \<Rightarrow> ubuf \<Rightarrow> desk \<Rightarrow> (qstate option \<times> desk) option" where
  "drain_loop param pid q b d = do {
     let (call_start, q) = read_clock q;
     (item, b, q) \<leftarrow> remove_by (m_block param) q b;
     let (call_end, q) = read_clock q;
     if i_status item = SH_ERR_ARG then Some (q, say_line ''sharedq:  invalid argument for remove function'' d)
     else if i_status item = SH_ERR_EMPTY then
       (if m_block param then drain_loop param pid q (next_buffer item b) (say_line ''sharedq:  queue is empty'' d)
        else Some (q, say_line ''sharedq:  queue is empty'' d))
     else if i_status item = SH_ERR_NOMEM then Some (q, say_line ''sharedq:  not enough memory to complete remove'' d)
     else if i_status item = SH_OK then do {
       d \<leftarrow> drain_line param pid call_start call_end item b d;
       let (q, d) = drain_pause param pid q d;
       drain_loop param pid q (next_buffer item b) d }
     else Some (q, d) }"

declare drain_loop.simps [code]

definition sharedq_drain :: "string list \<Rightarrow> nat \<Rightarrow> desk \<Rightarrow> (int \<times> desk) option" where
  "sharedq_drain argv index = start_command 3 3 sharedq_help_drain ''bhvx'' argv index (\<lambda>param.
     with_queue (argv ! (index + 1)) SQ_READ_ONLY (\<lambda>q d. do {
       (q, d) \<leftarrow> drain_loop param (my_pid (d_proc d)) q no_buffer d;
       close_queue (argv ! (index + 1)) q d }))"

section \<open>Settings\<close>

text \<open>The level is converted to \<open>int\<close>. The statuses of the two settings are not looked at.\<close>

definition sharedq_level :: "string list \<Rightarrow> nat \<Rightarrow> desk \<Rightarrow> (int \<times> desk) option" where
  "sharedq_level argv index = start_command 4 4 sharedq_help_level ''h'' argv index (\<lambda>param d. do {
     depth \<leftarrow> sharedq_atol (argv ! (index + 2));
     if depth < 0 then Some (0, say_line ''sharedq:  invalid queue depth argument'' d)
     else with_queue (argv ! (index + 1)) SQ_READ_ONLY (\<lambda>q d. do {
       (_, q) \<leftarrow> shr_q_level q (signed_take_bit 31 depth);
       close_queue (argv ! (index + 1)) q d }) d })"

definition sharedq_limit :: "string list \<Rightarrow> nat \<Rightarrow> desk \<Rightarrow> (int \<times> desk) option" where
  "sharedq_limit argv index = start_command 4 5 sharedq_help_limit ''h'' argv index (\<lambda>param d. do {
     nano \<leftarrow> (if length argv - index + 1 = 5 then sharedq_atol (argv ! (index + 3)) else Some 0);
     if nano < 0 then Some (0, say_line ''sharedq:  invalid queue nanosecond timelimit argument'' d)
     else do {
       sec \<leftarrow> sharedq_atol (argv ! (index + 2));
       if sec < 0 then Some (0, say_line ''sharedq:  invalid queue seconds timelimit argument'' d)
       else with_queue (argv ! (index + 1)) SQ_READ_ONLY (\<lambda>q d. do {
         (_, q) \<leftarrow> shr_q_timelimit q sec nano;
         close_queue (argv ! (index + 1)) q d }) d } })"

end
