(* ===== verification/Tool.thy ===== *)
theory Tool
  imports Commands
begin

text \<open>
  What the commands of \<open>sharedq\<close> do to a queue, from the contracts of the library: lines typed into
  \<open>add\<close> join the queue in order, and \<open>drain\<close> prints what the queue holds and empties it.
\<close>

section \<open>Adding lines\<close>

text \<open>A line that can be queued: text on one line, of a sensible length; and what it takes.\<close>

definition plain_line :: "string \<Rightarrow> bool" where
  "plain_line l \<longleftrightarrow> l \<noteq> [] \<and> CHR 0x0A \<notin> set l \<and> NUL \<notin> set l \<and> 7 + slots_of (int (length l)) \<le> 2 ^ 30"

definition line_room :: "string \<Rightarrow> int" where
  "line_room l = value_room (int (length l)) + 4"

definition line_value :: "string \<Rightarrow> payload" where
  "line_value l = Value SH_STRM_T (map char_byte l)"

text \<open>Between two calls of the tool: its handle is on the queue, which is a plain one (no stack, nothing
  discarded), marked as a queue.\<close>

definition plain_queue :: "qstate \<Rightarrow> (timespec \<times> payload) list \<Rightarrow> bool" where
  "plain_queue s q \<longleftrightarrow> (\<exists>evs. queue_holds s q evs) \<and> branded (cells s) \<and>
     cells s FLAGS AND FLAG_LIFO_ON_LEVEL = 0 \<and> cells s FLAGS AND FLAG_DISCARD_EXPIRED = 0"

abbreviation (input) budget :: "int \<Rightarrow> qstate \<Rightarrow> bool" where
  "budget n s \<equiv> client_budget n (s, no_buffer)"

lemma line_room_ge: "plain_line l \<Longrightarrow> 4 \<le> line_room l"
proof -
  assume "plain_line l"
  then have "item_fits (Bytes (map char_byte l))" by (simp add: plain_line_def)
  from item_room_ge [OF this] show ?thesis by (simp add: line_room_def)
qed

lemma plain_queue_step:
  assumes s: "plain_queue s q" and t: "queue_holds t q' evs" "ends H n s t" and h: "0 \<notin> H" "1 \<notin> H" "MAX_DEPTH \<notin> H"
    and f: "cells t FLAGS AND FLAG_LIFO_ON_LEVEL = cells s FLAGS AND FLAG_LIFO_ON_LEVEL"
      "cells t FLAGS AND FLAG_DISCARD_EXPIRED = cells s FLAGS AND FLAG_DISCARD_EXPIRED"
  shows "plain_queue t q'" and "mode t = mode s" and "cells t MAX_DEPTH = cells s MAX_DEPTH" and "osr t = osr s" and "clock t = clock s"
proof -
  have b: "branded (cells s)" using s by (simp add: plain_queue_def)
  from ends_kept [OF t(2) h t(1) b] s t(1) f
  show "plain_queue t q'" "mode t = mode s" "cells t MAX_DEPTH = cells s MAX_DEPTH" by (auto simp: plain_queue_def kept_def sound_def)
  show "osr t = osr s" "clock t = clock s" using t(2) by (simp_all add: ends_def)
qed

lemma budget_step:
  assumes b: "budget (m + n) s" and q: "queue_holds s q evs" "queue_holds t q' evs'" and e: "ends H m s t"
    and l: "int (length evs') \<le> int (length evs) + m" "0 \<le> m"
  shows "budget n t"
  using assms holds_parts(5,6) [OF q(1)] holds_parts(5,6) [OF q(2)] by (simp add: client_budget_def room_used ends_def)

lemma add_line:
  assumes s: "plain_queue s q" and m: "mode s AND SQ_WRITE_ONLY \<noteq> 0" and l: "plain_line l" and b: "budget (line_room l + n) s" "0 \<le> n"
    and space: "int (length q) < cells s MAX_DEPTH"
  shows "\<exists>t ts. shr_q_add (Some s) (Some (map char_byte l)) (int (length l)) = Some (SH_OK, Some t) \<and>
    plain_queue t (q @ [(ts, line_value l)]) \<and> budget n t \<and> mode t = mode s \<and> cells t MAX_DEPTH = cells s MAX_DEPTH"
proof -
  obtain evs where q: "queue_holds s q evs" using s by (auto simp: plain_queue_def)
  let ?bs = "map char_byte l" and ?m = "value_room (int (length l))"
  have len: "\<not> int (length l) \<le> 0" "7 + slots_of (int (length l)) \<le> 2 ^ 30" using l by (auto simp: plain_line_def)
  have a: "adder (\<lambda>s. enq s (Some ?bs) (int (length l)) SH_STRM_T) (Value SH_STRM_T (take (nat (int (length l))) ?bs)) ?m"
    by (rule adder_value) (use len in simp_all)
  note lr = line_room_ge [OF l]
  have r: "has_room (?m + 4) s evs"
    using b lr holds_parts(5) [OF q] by (simp add: has_room_def client_budget_def room_used line_room_def)
  obtain t where t: "add_through s enq_gate_try (\<lambda>s. enq s (Some ?bs) (int (length l)) SH_STRM_T) = Some (SH_OK, t)"
    "accepted (line_value l) (line_room l) s q evs t"
    using enq_try_add.add_call [OF q r a] space by (auto simp: line_room_def line_value_def)
  have "\<not> lifo_now (cells s)" using s by (auto simp: lifo_now_def plain_queue_def)
  with t(2) obtain k evs' where k: "queue_holds t (q @ [(clock s k, line_value l)]) evs'" "ends add_words (line_room l) s t"
    "cells t FLAGS = fst (add_events (cells s) (cells s FLAGS, evs))" "evs' = snd (add_events (cells s) (cells s FLAGS, evs))"
    by (auto simp: accepted_def put_item_def)
  have f: "cells t FLAGS AND FLAG_LIFO_ON_LEVEL = cells s FLAGS AND FLAG_LIFO_ON_LEVEL"
    "cells t FLAGS AND FLAG_DISCARD_EXPIRED = cells s FLAGS AND FLAG_DISCARD_EXPIRED"
    using k(3) events_bits(1) [of FLAG_LIFO_ON_LEVEL "cells s" "(cells s FLAGS, evs)"]
      events_bits(1) [of FLAG_DISCARD_EXPIRED "cells s" "(cells s FLAGS, evs)"] by auto
  have md: "MAX_DEPTH \<notin> add_words" using add_words_other [of MAX_DEPTH] by simp
  note st = plain_queue_step [OF s k(1,2) words_branded(1,2) md f]
  have "int (length evs') \<le> int (length evs) + line_room l"
    using add_events_length [of "cells s" "(cells s FLAGS, evs)"] lr k(4) by simp
  from budget_step [OF b(1) q k(1,2) this] lr have "budget n t" by simp
  moreover have "shr_q_add (Some s) (Some ?bs) (int (length l)) = Some (SH_OK, Some t)"
    using t(1) m len(1) by (simp add: shr_q_add_def on_queue_def)
  ultimately show ?thesis using st(1-3) by blast
qed

lemma add_line_full:
  assumes s: "plain_queue s q" and m: "mode s AND SQ_WRITE_ONLY \<noteq> 0" and l: "l \<noteq> []" and full: "int (length q) = cells s MAX_DEPTH"
    and b: "budget n s"
  shows "\<exists>t. shr_q_add (Some s) (Some (map char_byte l)) (int (length l)) = Some (SH_ERR_LIMIT, Some t) \<and> plain_queue t q \<and> budget n t"
proof -
  obtain evs where q: "queue_holds s q evs" using s by (auto simp: plain_queue_def)
  obtain t where t: "add_through s enq_gate_try (\<lambda>s. enq s (Some (map char_byte l)) (int (length l)) SH_STRM_T) = Some (SH_ERR_LIMIT, t)"
    "untouched s q evs t"
    using enq_try_add.add_turned_away [OF q full] by blast
  then have u: "queue_holds t q evs" "ends {CALL_BLOCKS, CALL_UNBLOCKS} 0 s t" by (simp_all add: untouched_def)
  have w: "cells t FLAGS = cells s FLAGS" by (rule ends_word [OF u(2)]) simp_all
  have "plain_queue t q" by (rule plain_queue_step(1) [OF s u]) (simp_all add: w)
  moreover have "budget n t" using budget_step [where m = 0, OF _ q u] b by simp
  moreover have "shr_q_add (Some s) (Some (map char_byte l)) (int (length l)) = Some (SH_ERR_LIMIT, Some t)"
    using t(1) m l by (simp add: shr_q_add_def on_queue_def)
  ultimately show ?thesis by blast
qed

text \<open>The input: lines, and then its end, an empty line, or text without a newline.\<close>

definition typed :: "string list \<Rightarrow> string \<Rightarrow> string \<Rightarrow> bool" where
  "typed ls end_text str \<longleftrightarrow>
     str = concat (map (\<lambda>l. l @ newline) ls) @ end_text \<and> list_all plain_line ls \<and>
     (\<exists>rest. end_text = newline @ rest) \<or>
     str = concat (map (\<lambda>l. l @ newline) ls) @ end_text \<and> list_all plain_line ls \<and>
     CHR 0x0A \<notin> set end_text \<and> NUL \<notin> set end_text"

text \<open>What the tool prints for \<open>n\<close> lines that find \<open>k\<close> free places.\<close>

fun prompts :: "nat \<Rightarrow> nat \<Rightarrow> string" where
  "prompts 0 k = []"
| "prompts (Suc n) 0 = ''sharedq:  queue at depth limit'' @ newline"
| "prompts (Suc n) (Suc k) = ''<--'' @ prompts n k"

lemma readline_plain: "plain_line l \<Longrightarrow> readline (l @ newline @ rest) = Some (Some l, rest)"
  using readline_loop_line [of l rest "[]"] by (simp add: plain_line_def readline_def newline_def)

lemma readline_end:
  assumes "typed [] end_text str"
  shows "\<exists>rest. readline str = Some (Some [], rest) \<or> readline str = Some (None, rest)"
  using assms readline_loop_line [of "[]" _ "[]"] readline_loop_end [of str "[]"]
  by (fastforce simp: typed_def readline_def newline_def)

lemma typed_Cons: "typed (l # ls) e str \<Longrightarrow> \<exists>str'. str = l @ newline @ str' \<and> plain_line l \<and> typed ls e str'"
  by (auto simp: typed_def)

lemma stdin_loop_ok:
  assumes "plain_queue s q" and "mode s AND SQ_WRITE_ONLY \<noteq> 0" and "typed ls e (d_in d)" and "budget (sum_list (map line_room ls) + n) s" and "0 \<le> n"
    and "k = nat (cells s MAX_DEPTH - int (length q))"
  shows "\<exists>t q' d'. stdin_loop (Some s) d = Some (Some t, d') \<and> plain_queue t (q @ q') \<and> map snd q' = map line_value (take k ls) \<and>
    d_out d' = d_out d @ prompts (length ls) k \<and> d_fs d' = d_fs d \<and> d_proc d' = d_proc d \<and> budget n t"
  using assms
proof (induction ls arbitrary: s q d k)
  case Nil
  obtain rest where "readline (d_in d) = Some (Some [], rest) \<or> readline (d_in d) = Some (None, rest)"
    using readline_end [OF Nil.prems(3)] by blast
  then have "stdin_loop (Some s) d = Some (Some s, d\<lparr>d_in := rest\<rparr>)" by (subst stdin_loop.simps) auto
  then show ?case using Nil.prems(1,4) by simp
next
  case (Cons l ls)
  obtain str where str: "d_in d = l @ newline @ str" "plain_line l" "typed ls e str" using typed_Cons [OF Cons.prems(3)] by blast
  note rl = readline_plain [OF str(2), of str]
  have ne: "l \<noteq> []" using str(2) by (simp add: plain_line_def)
  obtain evs where q: "queue_holds s q evs" using Cons.prems(1) by (auto simp: plain_queue_def)
  have sn: "0 \<le> sum_list (map line_room ls)"
    using str(3) by (auto simp: typed_def list_all_iff intro!: sum_list_nonneg) (force dest: line_room_ge)+
  then have nn: "0 \<le> sum_list (map line_room ls) + n" using Cons.prems(5) by simp
  have b: "budget (line_room l + (sum_list (map line_room ls) + n)) s" using Cons.prems(4) by (simp add: add.assoc)
  show ?case
  proof (cases "int (length q) < cells s MAX_DEPTH")
    case True
    obtain t ts where t: "shr_q_add (Some s) (Some (map char_byte l)) (int (length l)) = Some (SH_OK, Some t)"
      "plain_queue t (q @ [(ts, line_value l)])" "budget (sum_list (map line_room ls) + n) t" "mode t = mode s"
      "cells t MAX_DEPTH = cells s MAX_DEPTH"
      using add_line [OF Cons.prems(1,2) str(2) b nn True] by blast
    let ?d = "say ''<--'' (d\<lparr>d_in := str\<rparr>)" and ?q = "q @ [(ts, line_value l)]"
    have in_d: "typed ls e (d_in ?d)" using str(3) by (simp add: say_def)
    have m: "mode t AND SQ_WRITE_ONLY \<noteq> 0" using Cons.prems(2) t(4) by simp
    have k: "k = Suc (nat (cells t MAX_DEPTH - int (length ?q)))" using Cons.prems(6) True t(5) by simp
    obtain u q' d' where u: "stdin_loop (Some t) ?d = Some (Some u, d')" "plain_queue u (?q @ q')"
      "map snd q' = map line_value (take (nat (cells t MAX_DEPTH - int (length ?q))) ls)"
      "d_out d' = d_out ?d @ prompts (length ls) (nat (cells t MAX_DEPTH - int (length ?q)))" "d_fs d' = d_fs ?d" "d_proc d' = d_proc ?d"
      "budget n u"
      using Cons.IH [OF t(2) m in_d t(3) Cons.prems(5) refl] by blast
    have "stdin_loop (Some s) d = Some (Some u, d')"
      using rl t(1) u(1) ne by (subst stdin_loop.simps) (simp add: str(1) queue_string_def add_message_def)
    then show ?thesis using u k by (intro exI [of _ u] exI [of _ "(ts, line_value l) # q'"] exI [of _ d']) (simp add: say_def)
  next
    case False
    then have full: "int (length q) = cells s MAX_DEPTH" and k: "k = 0" using holds_parts(4,11) [OF q] Cons.prems(6) by simp_all
    have "budget n s" using b line_room_ge [OF str(2)] sn by (simp add: client_budget_def room_def)
    obtain t where t: "shr_q_add (Some s) (Some (map char_byte l)) (int (length l)) = Some (SH_ERR_LIMIT, Some t)" "plain_queue t q" "budget n t"
      using add_line_full [OF Cons.prems(1,2) ne full \<open>budget n s\<close>] by blast
    have "stdin_loop (Some s) d = Some (Some t, say_line ''sharedq:  queue at depth limit'' (d\<lparr>d_in := str\<rparr>))"
      using rl t(1) ne by (subst stdin_loop.simps) (simp add: str(1) queue_string_def add_message_def)
    then show ?thesis using t(2,3) k by (intro exI [of _ t] exI [of _ "[]"]
        exI [of _ "say_line ''sharedq:  queue at depth limit'' (d\<lparr>d_in := str\<rparr>)"]) (simp add: say_line_def say_def)
  qed
qed


section \<open>Draining\<close>

lemma plain_queue_clock [simp]: "plain_queue (s\<lparr>clock_n := k\<rparr>) q = plain_queue s q"
  by (simp add: plain_queue_def queue_holds_def queue_inv_def clock_ok_def)

lemma budget_clock [simp]: "budget n (s\<lparr>clock_n := k\<rparr>) = budget n s"
  by (simp add: client_budget_def room_def)

fun dumpable :: "timespec \<times> payload \<Rightarrow> bool" where
  "dumpable (_, Value _ bs) \<longleftrightarrow> length bs < 2 ^ 31 - 16"
| "dumpable (_, Vector _) \<longleftrightarrow> False"

fun dumped :: "timespec \<times> payload \<Rightarrow> string" where
  "dumped (_, Value _ bs) = the (hex_format bs)"
| "dumped (_, Vector _) = []"

lemma hex_format_some: "length data < 2 ^ 31 - 16 \<Longrightarrow> \<exists>out. hex_format data = Some out"
  using hex_lines_eq [of 0 data] by (simp add: hex_format_def)

lemma print_delivered:
  assumes "delivers x item b" and "dumpable x"
  shows "print_item True item b d = Some (say (dumped x) d)"
proof -
  obtain ts ty bs where x: "x = (ts, Value ty bs)" "length bs < 2 ^ 31 - 16" using assms(2) by (cases x rule: dumpable.cases) auto
  from assms(1) obtain m v where m: "ub_mem b = Some m" "i_length item = int (length bs)" "i_value item = Some v"
    "take (length bs) (drop (nat v) m) = bs"
    unfolding x by (auto simp: delivers_def shows_bytes_def)
  have "length bs \<le> length (drop (nat v) m)" using m(4) by (metis length_take min.cobounded1)
  then have "item_bytes item b = Some bs" using m by (auto simp: item_bytes_def read_user_def)
  then show ?thesis using hex_format_some [OF x(2)] x(1) by (auto simp: print_item_def)
qed

lemma delivered_buffer:
  assumes "delivers x item b"
  shows "ubuf_ok (next_buffer item b)" and "ub_mem (next_buffer item b) = None \<or> 0 < ub_size (next_buffer item b)"
proof -
  obtain m where m: "ub_mem b = Some m" "shows_item item m (fst x) (snd x)" using assms by (auto simp: delivers_def)
  then have "shows_buffer item m" by (cases "snd x") auto
  with m(1) show "ubuf_ok (next_buffer item b)" "ub_mem (next_buffer item b) = None \<or> 0 < ub_size (next_buffer item b)"
    by (auto simp: next_buffer_def shows_buffer_def ubuf_ok_def)
qed

lemma take_line:
  assumes s: "plain_queue s (x # q)" and m: "mode s AND SQ_READ_ONLY \<noteq> 0" and b: "budget (8 + n) s" "0 \<le> n"
    and u: "ubuf_ok b" "ub_mem b = None \<or> 0 < ub_size b"
  shows "\<exists>item b' t. shr_q_remove (Some s) (Some b) = Some (item, Some b', Some t) \<and> delivers x item b' \<and> plain_queue t q \<and>
    budget n t \<and> mode t = mode s"
proof -
  obtain evs where q: "queue_holds s (x # q) evs" using s by (auto simp: plain_queue_def)
  have k: "cells s FLAGS AND FLAG_DISCARD_EXPIRED = 0" using s by (simp add: plain_queue_def)
  have cs: "can_signal 1 s evs" using b holds_parts(5) [OF q] by (simp add: can_signal_def client_budget_def room_used)
  from deq_try_rem.remove_front_call [OF q u m cs k] obtain item b' t evs' where
    t: "remove_through (Some s) (Some b) deq_gate_try = Some (item, Some b', Some t)" "queue_holds t q evs'" "ends rem_words 8 s t"
      "delivers x item b'" "(cells t FLAGS, evs') = deq_events (1 + int (length q)) False (cells s FLAGS, evs)"
    by blast
  let ?e = "deq_events (1 + int (length q)) False (cells s FLAGS, evs)"
  have fl: "cells t FLAGS = fst ?e" "evs' = snd ?e" using t(5) by (metis fst_conv, metis snd_conv)
  have f: "cells t FLAGS AND FLAG_LIFO_ON_LEVEL = cells s FLAGS AND FLAG_LIFO_ON_LEVEL"
    "cells t FLAGS AND FLAG_DISCARD_EXPIRED = cells s FLAGS AND FLAG_DISCARD_EXPIRED"
    using fl(1) events_bits(2) [of FLAG_LIFO_ON_LEVEL "1 + int (length q)" False "(cells s FLAGS, evs)"]
      events_bits(2) [of FLAG_DISCARD_EXPIRED "1 + int (length q)" False "(cells s FLAGS, evs)"] by auto
  have md: "MAX_DEPTH \<notin> rem_words" using rem_words_other [of MAX_DEPTH] by simp
  note st = plain_queue_step [OF s t(2,3) words_branded(3,4) md f]
  have "int (length evs') \<le> int (length evs) + 8"
    using deq_events_length [of "1 + int (length q)" False "(cells s FLAGS, evs)"] fl(2) by simp
  from budget_step [OF b(1) q t(2,3) this] have "budget n t" by simp
  then show ?thesis using t(1,4) st(1,2) by (auto simp: shr_q_remove_def)
qed

lemma drain_loop_ok:
  assumes "plain_queue s q" and "mode s AND SQ_READ_ONLY \<noteq> 0" and "budget (8 * int (length q)) s"
    and "ubuf_ok b" and "ub_mem b = None \<or> 0 < ub_size b" and "\<forall>x\<in>set q. dumpable x" and "m_hex param" and "\<not> m_block param"
  shows "\<exists>t d'. drain_loop param pid (Some s) b d = Some (Some t, d') \<and> plain_queue t [] \<and>
    d_out d' = d_out d @ concat (map dumped q) @ ''sharedq:  queue is empty'' @ newline \<and> d_fs d' = d_fs d \<and> d_proc d' = d_proc d"
  using assms
proof (induction q arbitrary: s b d)
  case Nil
  let ?s = "s\<lparr>clock_n := Suc (clock_n s)\<rparr>"
  have s: "plain_queue ?s []" using Nil.prems(1) by simp
  then obtain evs where q: "queue_holds ?s [] evs" by (auto simp: plain_queue_def)
  have m: "mode ?s AND SQ_READ_ONLY \<noteq> 0" using Nil.prems(2) by simp
  obtain t where t: "remove_through (Some ?s) (Some b) deq_gate_try = Some (empty_item SH_ERR_EMPTY, Some b, Some t)" "untouched ?s [] evs t"
    using deq_try_rem.remove_nothing [OF q Nil.prems(5) m] by blast
  then have u: "queue_holds t [] evs" "ends {CALL_BLOCKS, CALL_UNBLOCKS} 0 ?s t" by (simp_all add: untouched_def)
  have w: "cells t FLAGS = cells ?s FLAGS" by (rule ends_word [OF u(2)]) simp_all
  have p: "plain_queue t []" by (rule plain_queue_step(1) [OF s u]) (simp_all add: w)
  have "drain_loop param pid (Some s) b d = Some (Some (t\<lparr>clock_n := Suc (clock_n t)\<rparr>), say_line ''sharedq:  queue is empty'' d)"
    using t(1) Nil.prems(8)
    by (subst drain_loop.simps) (simp add: read_clock_def clock_gettime_def remove_by_def shr_q_remove_def empty_item_def)
  then show ?case using p by (simp add: say_line_def say_def)
next
  case (Cons x q)
  let ?s = "s\<lparr>clock_n := Suc (clock_n s)\<rparr>"
  have s: "plain_queue ?s (x # q)" "mode ?s AND SQ_READ_ONLY \<noteq> 0" "budget (8 + 8 * int (length q)) ?s" "0 \<le> 8 * int (length q)"
    using Cons.prems(1-3) by (simp_all add: algebra_simps)
  obtain item b' t where t: "shr_q_remove (Some ?s) (Some b) = Some (item, Some b', Some t)" "delivers x item b'" "plain_queue t q"
    "budget (8 * int (length q)) t" "mode t = mode ?s"
    using take_line [OF s Cons.prems(4,5)] by blast
  let ?t = "t\<lparr>clock_n := Suc (clock_n t)\<rparr>" and ?d = "say (dumped x) d"
  have st: "i_status item = SH_OK" using t(2) by (simp add: delivers_def)
  have pr: "print_item True item b' d = Some ?d" using print_delivered [OF t(2)] Cons.prems(6) by simp
  have t': "plain_queue ?t q" "mode ?t AND SQ_READ_ONLY \<noteq> 0" "budget (8 * int (length q)) ?t" "\<forall>x\<in>set q. dumpable x"
    using t(3-5) Cons.prems(2,6) by simp_all
  obtain u d' where u: "drain_loop param pid (Some ?t) (next_buffer item b') ?d = Some (Some u, d')" "plain_queue u []"
    "d_out d' = d_out ?d @ concat (map dumped q) @ ''sharedq:  queue is empty'' @ newline" "d_fs d' = d_fs ?d" "d_proc d' = d_proc ?d"
    using Cons.IH [OF t'(1-3) delivered_buffer [OF t(2)] t'(4) Cons.prems(7,8)] by blast
  have "drain_loop param pid (Some s) b d = Some (Some u, d')"
    using t(1) Cons.prems(7,8) st pr u(1)
    by (subst drain_loop.simps) (simp add: read_clock_def clock_gettime_def remove_by_def drain_line_def drain_pause_def Let_def)
  then show ?case using u by (simp add: say_def)
qed

section \<open>The commands\<close>

lemma start_plain:
  assumes "length argv = index + n - 1" and "least \<le> n" and "n \<le> most" and "1 \<le> n"
    and "parse_modifiers argv index pattern = (out, Some param)" and "\<not> m_help param"
  shows "start_command least most help pattern argv index body d = body param (say out d)"
  using assms by (simp add: start_command_def Let_def)

lemma opened_plain:
  assumes nm: "good_name nm" and ob: "d_fs d (object_path nm) = Some (detach s)" and s: "plain_queue s q" and p: "quiet (d_proc d)" "clock_ok (d_proc d)"
  shows "\<exists>t. shr_q_open (d_fs d) (Some nm) md (d_proc d) = Some (SH_OK, Some t) \<and> plain_queue t q \<and> mode t = md \<and>
    (\<forall>n. budget n t = budget n s) \<and> cells t = cells s"
proof -
  obtain evs where q: "queue_holds s q evs" "branded (cells s)" using s by (auto simp: plain_queue_def)
  let ?t = "whole (detach s) md (d_proc d)"
  note op = open_run [where fs = "d_fs d" and nm = nm, OF nm ob closed_dormant [OF q] p(1), of md]
  have "queue_holds ?t q evs" by (rule queue_holds_opened [OF q(1) whole_opened p])
  moreover have c: "cells ?t = cells s" "sems ?t = sems s" "mode ?t = md"
    by (simp_all add: whole_def attached_def detach_def)
  ultimately have "plain_queue ?t q" using s by (auto simp: plain_queue_def)
  then show ?thesis using op c by (auto simp: client_budget_def room_def)
qed


lemma closed_plain:
  assumes "plain_queue t q" and "d_fs d (object_path nm) \<noteq> None"
  shows "close_queue nm (Some t) d = Some (0, d\<lparr>d_fs := (d_fs d)(object_path nm := Some (detach t))\<rparr>)"
proof -
  obtain evs where "queue_holds t q evs" using assms(1) by (auto simp: plain_queue_def)
  then show ?thesis using assms(2) by (auto simp: close_queue_def close_run write_back_def)
qed

lemma no_modifiers_parsed: "parse_modifiers (prog # rest) (Suc 0) pattern = ([], Some no_modifiers)"
  by (simp add: parse_modifiers_def)

lemma hex_parsed: "parse_modifiers (prog # ''-x'' # rest) 2 ''bhvx'' = ([], Some (no_modifiers\<lparr>m_hex := True\<rparr>))"
  by (simp add: parse_modifiers_def contains_param_eq PERMIT_def char_at_def)

text \<open>The queue of a name, as the objects hold it.\<close>

definition object_holds :: "objects \<Rightarrow> string \<Rightarrow> qstate \<Rightarrow> (timespec \<times> payload) list \<Rightarrow> bool" where
  "object_holds fs nm s q \<longleftrightarrow> fs (object_path nm) = Some (detach s) \<and> plain_queue s q"

lemma add_command:
  assumes nm: "good_name nm" and ob: "object_holds (d_fs d) nm s q" and p: "quiet (d_proc d)" "clock_ok (d_proc d)"
    and i: "typed ls e (d_in d)" and b: "budget (sum_list (map line_room ls) + n) s" "0 \<le> n"
  shows "\<exists>d' t q'. sharedq_add [prog, ''add'', nm] 1 d = Some (0, d') \<and> object_holds (d_fs d') nm t (q @ q') \<and>
    map snd q' = map line_value (take (nat (cells s MAX_DEPTH - int (length q))) ls) \<and>
    d_out d' = d_out d @ ''<--'' @ prompts (length ls) (nat (cells s MAX_DEPTH - int (length q))) \<and> d_proc d' = d_proc d \<and> budget n t"
proof -
  let ?k = "nat (cells s MAX_DEPTH - int (length q))"
  have o: "d_fs d (object_path nm) = Some (detach s)" "plain_queue s q" using ob by (simp_all add: object_holds_def)
  obtain t where t: "shr_q_open (d_fs d) (Some nm) SQ_WRITE_ONLY (d_proc d) = Some (SH_OK, Some t)" "plain_queue t q" "mode t = SQ_WRITE_ONLY"
    "\<And>n. budget n t = budget n s" "cells t = cells s"
    using opened_plain [OF nm o p, of SQ_WRITE_ONLY] by blast
  let ?d = "say ''<--'' d"
  have m: "mode t AND SQ_WRITE_ONLY \<noteq> 0" using t(3) by simp
  have i': "typed ls e (d_in ?d)" using i by (simp add: say_def)
  have b': "budget (sum_list (map line_room ls) + n) t" using b(1) t(4) by simp
  obtain u q' d' where u: "stdin_loop (Some t) ?d = Some (Some u, d')" "plain_queue u (q @ q')" "map snd q' = map line_value (take ?k ls)"
    "d_out d' = d_out ?d @ prompts (length ls) ?k" "d_fs d' = d_fs ?d" "d_proc d' = d_proc ?d" "budget n u"
    using stdin_loop_ok [OF t(2) m i' b' b(2) refl] t(5) by auto
  have c: "close_queue nm (Some u) d' = Some (0, d'\<lparr>d_fs := (d_fs d')(object_path nm := Some (detach u))\<rparr>)"
    by (rule closed_plain [OF u(2)]) (use u(5) o in \<open>simp add: say_def\<close>)
  have "sharedq_add [prog, ''add'', nm] 1 d = Some (0, d'\<lparr>d_fs := (d_fs d')(object_path nm := Some (detach u))\<rparr>)"
    using t(1) u(1) c
    by (simp add: sharedq_add_def start_command_def no_modifiers_parsed no_modifiers_def say_def with_queue_def open_message_def
        queue_from_stdin_def Let_def)
  then show ?thesis using u by (auto simp: object_holds_def say_def)
qed

lemma drain_command:
  assumes nm: "good_name nm" and ob: "object_holds (d_fs d) nm s q" and p: "quiet (d_proc d)" "clock_ok (d_proc d)"
    and b: "budget (8 * int (length q)) s" and du: "\<forall>x\<in>set q. dumpable x"
  shows "\<exists>d' t. sharedq_drain [prog, ''-x'', ''drain'', nm] 2 d = Some (0, d') \<and> object_holds (d_fs d') nm t [] \<and>
    d_out d' = d_out d @ concat (map dumped q) @ ''sharedq:  queue is empty'' @ newline \<and> d_proc d' = d_proc d"
proof -
  have o: "d_fs d (object_path nm) = Some (detach s)" "plain_queue s q" using ob by (simp_all add: object_holds_def)
  obtain t where t: "shr_q_open (d_fs d) (Some nm) SQ_READ_ONLY (d_proc d) = Some (SH_OK, Some t)" "plain_queue t q" "mode t = SQ_READ_ONLY"
    "\<And>n. budget n t = budget n s"
    using opened_plain [OF nm o p, of SQ_READ_ONLY] by blast
  let ?param = "no_modifiers\<lparr>m_hex := True\<rparr>"
  have m: "mode t AND SQ_READ_ONLY \<noteq> 0" using t(3) by simp
  have b': "budget (8 * int (length q)) t" using b t(4) by simp
  have nb: "ubuf_ok no_buffer" "ub_mem no_buffer = None \<or> 0 < ub_size no_buffer" by (simp_all add: no_buffer_def ubuf_ok_def)
  have pm: "m_hex ?param" "\<not> m_block ?param" by (simp_all add: no_modifiers_def)
  obtain u d' where u: "drain_loop ?param (my_pid (d_proc d)) (Some t) no_buffer d = Some (Some u, d')" "plain_queue u []"
    "d_out d' = d_out d @ concat (map dumped q) @ ''sharedq:  queue is empty'' @ newline" "d_fs d' = d_fs d" "d_proc d' = d_proc d"
    using drain_loop_ok [OF t(2) m b' nb du pm] by blast
  have c: "close_queue nm (Some u) d' = Some (0, d'\<lparr>d_fs := (d_fs d')(object_path nm := Some (detach u))\<rparr>)"
    by (rule closed_plain [OF u(2)]) (use u(4) o in simp)
  have n: "(drop (Suc 0) [prog, ''-x'', ''drain'', nm]) = [''-x'', ''drain'', nm]" by simp
  have "sharedq_drain [prog, ''-x'', ''drain'', nm] 2 d = Some (0, d'\<lparr>d_fs := (d_fs d')(object_path nm := Some (detach u))\<rparr>)"
    using t(1) u(1) c
    by (simp add: sharedq_drain_def start_command_def hex_parsed no_modifiers_def say_def with_queue_def open_message_def Let_def)
  then show ?thesis using u by (auto simp: object_holds_def)
qed


text \<open>\<open>sharedq add <name>\<close>, typing lines. On a queue below its depth and while the object can provide the
  slots, the command queues the lines in the order they are typed, each as one item with exactly its
  characters, until the input ends, an empty line is typed or the queue is full; then it says so. It
  finishes with status 0 and leaves a queue that satisfies the invariant, with the earlier items first.\<close>

theorem sharedq_add_correct:
  assumes "good_name nm" and "object_holds (d_fs d) nm s q" and "quiet (d_proc d)" and "clock_ok (d_proc d)"
    and "typed ls e (d_in d)" and "client_budget (sum_list (map line_room ls)) (s, no_buffer)"
  shows "\<exists>d' t q'. sharedq_add [prog, ''add'', nm] 1 d = Some (0, d') \<and> object_holds (d_fs d') nm t (q @ q') \<and>
    map snd q' = map line_value (take (nat (cells s MAX_DEPTH - int (length q))) ls) \<and>
    d_out d' = d_out d @ ''<--'' @ prompts (length ls) (nat (cells s MAX_DEPTH - int (length q)))"
proof -
  have b: "budget (sum_list (map line_room ls) + 0) s" using assms(6) by simp
  from add_command [OF assms(1-5) b order_refl, of prog] show ?thesis by blast
qed

text \<open>The examples' desk: the sample queue is the object \<open>jobs\<close>, and two lines have been typed.\<close>

definition sample_desk :: desk where
  "sample_desk = \<lparr>d_fs = [object_path ''jobs'' \<mapsto> detach sample_queue], d_proc = sample_process,
     d_in = ''one'' @ newline @ ''two'' @ newline, d_out = [], d_files = (\<lambda>_. No_file), d_dir = Some [''jobs'']\<rparr>"

lemma sample_object: "object_holds (d_fs sample_desk) ''jobs'' sample_queue []"
proof -
  have "cells sample_queue FLAGS = 0" by simp (simp add: fresh_cells_def)
  then show ?thesis by (auto simp: object_holds_def sample_desk_def plain_queue_def intro: exI [of _ "[]"])
qed

lemma sample_typed: "typed [''one'', ''two''] [] (d_in sample_desk)"
  by (simp add: typed_def sample_desk_def plain_line_def NUL_def slots_of_def)

lemma sample_desk_ok: "quiet (d_proc sample_desk)" "clock_ok (d_proc sample_desk)"
  by (simp_all add: sample_desk_def)

lemma sample_budget: "n \<le> 2 ^ 30 \<Longrightarrow> budget n sample_queue"
  using sample_client_budget [of n] by (simp add: sample_client_def no_buffer_def)

theorem sharedq_add_witness:
  "\<exists>d' t q'. sharedq_add [''sharedq'', ''add'', ''jobs''] 1 sample_desk = Some (0, d') \<and> object_holds (d_fs d') ''jobs'' t q' \<and>
     map snd q' = [line_value ''one'', line_value ''two''] \<and> d_out d' = ''<--<--<--''"
proof -
  have b: "budget (sum_list (map line_room [''one'', ''two''])) sample_queue"
    by (rule sample_budget) (simp add: line_room_def value_room_def slots_of_def)
  have k: "nat (cells sample_queue MAX_DEPTH - int (length ([] :: (timespec \<times> payload) list))) = 2"
    by simp (simp add: fresh_cells_def)
  have "prompts 2 2 = ''<--<--''" by (simp add: numeral_2_eq_2)
  with sharedq_add_correct [OF jobs_name sample_object sample_desk_ok sample_typed b, of "''sharedq''"]
  show ?thesis unfolding k by (simp add: sample_desk_def numeral_2_eq_2)
qed

lemma typed_dumpable:
  assumes "map snd q = map line_value ls" and "\<forall>l\<in>set ls. length l < 2 ^ 31 - 16"
  shows "\<forall>x\<in>set q. dumpable x"
proof
  fix x assume "x \<in> set q"
  then have "snd x \<in> set (map snd q)" by simp
  then obtain l where "l \<in> set ls" "snd x = line_value l" unfolding assms(1) by auto
  then show "dumpable x" using assms(2) by (cases x) (auto simp: line_value_def)
qed

text \<open>\<open>sharedq -x drain <name>\<close> on a queue of plain values prints the hex dump of every item, in the order
  of the queue, then that the queue is empty, and finishes with status 0; the queue is empty then and
  satisfies the invariant.\<close>

theorem sharedq_drain_correct:
  assumes "good_name nm" and "object_holds (d_fs d) nm s q" and "quiet (d_proc d)" and "clock_ok (d_proc d)"
    and "client_budget (8 * int (length q)) (s, no_buffer)" and "\<forall>x\<in>set q. dumpable x"
  shows "\<exists>d' t. sharedq_drain [prog, ''-x'', ''drain'', nm] 2 d = Some (0, d') \<and> object_holds (d_fs d') nm t [] \<and>
    d_out d' = d_out d @ concat (map dumped q) @ ''sharedq:  queue is empty'' @ newline"
  using drain_command [OF assms] by blast

theorem sharedq_drain_witness:
  "\<exists>d1 d2 t u q. sharedq_add [''sharedq'', ''add'', ''jobs''] 1 sample_desk = Some (0, d1) \<and>
     object_holds (d_fs d1) ''jobs'' t q \<and> map snd q = [line_value ''one'', line_value ''two''] \<and>
     sharedq_drain [''sharedq'', ''-x'', ''drain'', ''jobs''] 2 d1 = Some (0, d2) \<and> object_holds (d_fs d2) ''jobs'' u [] \<and>
     d_out d2 = d_out d1 @ concat (map dumped q) @ ''sharedq:  queue is empty'' @ newline"
proof -
  let ?ls = "[''one'', ''two'']"
  have b: "budget (sum_list (map line_room ?ls) + 16) sample_queue"
    by (rule sample_budget) (simp add: line_room_def value_room_def slots_of_def)
  have k: "nat (cells sample_queue MAX_DEPTH - int (length ([] :: (timespec \<times> payload) list))) = 2"
    by simp (simp add: fresh_cells_def)
  obtain d1 t q where a: "sharedq_add [''sharedq'', ''add'', ''jobs''] 1 sample_desk = Some (0, d1)"
    "object_holds (d_fs d1) ''jobs'' t q" "map snd q = map line_value ?ls" "d_proc d1 = d_proc sample_desk" "budget 16 t"
    using add_command [OF jobs_name sample_object sample_desk_ok sample_typed b, of "''sharedq''"] unfolding k by auto
  have "length q = 2" using arg_cong [OF a(3), of length] by simp
  then have b2: "budget (8 * int (length q)) t" using a(5) by simp
  have du: "\<forall>x\<in>set q. dumpable x" by (rule typed_dumpable [OF a(3)]) simp
  have p: "quiet (d_proc d1)" "clock_ok (d_proc d1)" using sample_desk_ok by (simp_all add: a(4))
  have q: "map snd q = [line_value ''one'', line_value ''two'']" using a(3) by simp
  obtain d2 u where "sharedq_drain [''sharedq'', ''-x'', ''drain'', ''jobs''] 2 d1 = Some (0, d2)" "object_holds (d_fs d2) ''jobs'' u []"
    "d_out d2 = d_out d1 @ concat (map dumped q) @ ''sharedq:  queue is empty'' @ newline"
    using sharedq_drain_correct [OF jobs_name a(2) p b2 du, of "''sharedq''"] by blast
  with a(1,2) q show ?thesis by (intro exI [of _ d1] exI [of _ d2] exI [of _ t] exI [of _ u] exI [of _ q] conjI)
qed

end
