(* ===== verification/Signals.thy ===== *)
theory Signals
  imports Tool
begin

text \<open>
  The commands of \<open>sharedq\<close> that wait for signals, and its \<open>main\<close> (\<open>src/sharedq/main.c\<close>: \<open>sig_usr\<close>,
  \<open>sharedq_listen\<close>, \<open>sharedq_monitor\<close>, \<open>sharedq_call\<close>, \<open>sharedq_pull\<close>, \<open>main\<close>). What happens outside is an
  argument: the signals that arrive while the process waits, each with what other processes did to the
  object before it, and the answers of the system. \<open>signal\<close> installs handlers that restart
  \<open>sem_wait\<close>, so a signal that posts nothing leaves the process waiting; a wait that nothing ends is \<open>None\<close>.
\<close>

section \<open>Handlers and semaphores of the process\<close>

abbreviation (input) SIGUSR1 :: int where "SIGUSR1 \<equiv> 10"
abbreviation (input) SIGUSR2 :: int where "SIGUSR2 \<equiv> 12"
abbreviation (input) SIGTERM :: int where "SIGTERM \<equiv> 15"
abbreviation (input) SIGURG :: int where "SIGURG \<equiv> 23"
abbreviation (input) SIGRTMIN :: int where "SIGRTMIN \<equiv> 34"

datatype post = Adds | Events | Calls

type_synonym others = "qstate \<Rightarrow> qstate"

record waker =
  w_count :: "post \<Rightarrow> int"
  w_running :: bool

definition sem_posted :: "post \<Rightarrow> waker \<Rightarrow> waker" where
  "sem_posted p w = w\<lparr>w_count := (w_count w)(p := w_count w p + 1)\<rparr>"

definition sig_usr :: "int \<Rightarrow> waker \<Rightarrow> waker" where
  "sig_usr signo w =
    (if signo = SIGUSR1 then sem_posted Adds w
     else if signo = SIGUSR2 then sem_posted Events w
     else if signo = SIGURG then sem_posted Calls w
     else if signo = SIGTERM then w\<lparr>w_running := False\<rparr>
     else w)"

text \<open>\<open>sem_wait\<close> on one of the three, with the signals still to come.\<close>

fun await :: "post \<Rightarrow> (int \<times> others) list \<Rightarrow> waker \<Rightarrow> qstate option \<Rightarrow> ((int \<times> others) list \<times> waker \<times> qstate option) option" where
  "await p arrivals w q =
    (if 0 < w_count w p then Some (arrivals, w\<lparr>w_count := (w_count w)(p := w_count w p - 1)\<rparr>, q)
     else case arrivals of
       [] \<Rightarrow> None
     | (signo, f) # arrivals \<Rightarrow> await p arrivals (sig_usr signo w) (map_option f q))"

declare await.simps [simp del]

definition fresh_waker :: waker where
  "fresh_waker = \<lparr>w_count = (\<lambda>p. if p = Events then 1 else 0), w_running = True\<rparr>"

section \<open>Listening, monitoring, calls\<close>

partial_function (option) notice_loop ::
  "post \<Rightarrow> string \<Rightarrow> (int \<times> others) list \<Rightarrow> waker \<Rightarrow> qstate option \<Rightarrow> desk \<Rightarrow> (qstate option \<times> desk) option" where
  "notice_loop p msg arrivals w q d =
    (if \<not> w_running w then Some (q, d)
     else do {
       (arrivals, w, q) \<leftarrow> await p arrivals w q;
       notice_loop p msg arrivals w q (say_line msg d) })"

declare notice_loop.simps [code]

definition sharedq_listen :: "(int \<times> others) list \<Rightarrow> string list \<Rightarrow> nat \<Rightarrow> desk \<Rightarrow> (int \<times> desk) option" where
  "sharedq_listen arrivals argv index = start_command 3 3 sharedq_help_listen ''h'' argv index (\<lambda>param.
     with_queue (argv ! (index + 1)) SQ_READ_ONLY (\<lambda>q d. do {
       (_, q) \<leftarrow> shr_q_listen q SIGUSR1;
       (q, d) \<leftarrow> notice_loop Adds (''Item added to empty queue '' @ argv ! (index + 1)) arrivals fresh_waker q d;
       close_queue (argv ! (index + 1)) q d }))"

definition sharedq_call :: "(int \<times> others) list \<Rightarrow> string list \<Rightarrow> nat \<Rightarrow> desk \<Rightarrow> (int \<times> desk) option" where
  "sharedq_call arrivals argv index = start_command 3 3 sharedq_help_call ''h'' argv index (\<lambda>param.
     with_queue (argv ! (index + 1)) SQ_READ_ONLY (\<lambda>q d. do {
       (_, q) \<leftarrow> shr_q_call q SIGURG;
       (q, d) \<leftarrow> notice_loop Calls (''Attempted remove from empty queue '' @ argv ! (index + 1)) arrivals fresh_waker q d;
       close_queue (argv ! (index + 1)) q d }))"

text \<open>The inner loop of \<open>monitor\<close>: two of the six events have no text.\<close>

definition event_text :: "sq_event \<Rightarrow> string" where
  "event_text event =
    (if event = SQ_EVNT_INIT then ''Event: initial add of item to queue'' @ newline
     else if event = SQ_EVNT_LIMIT then ''Event: queue limit reached'' @ newline
     else if event = SQ_EVNT_LEVEL then ''Event: depth level reached'' @ newline
     else if event = SQ_EVNT_TIME then ''Event: time limit on queue reached'' @ newline
     else [])"

partial_function (option) events_round :: "qstate option \<Rightarrow> desk \<Rightarrow> (qstate option \<times> desk) option" where
  "events_round q d = do {
     (event, q) \<leftarrow> shr_q_event q;
     let d = say (event_text event) d;
     if event \<noteq> SQ_EVNT_NONE then events_round q d else Some (q, d) }"

declare events_round.simps [code]

partial_function (option) monitor_loop ::
  "(int \<times> others) list \<Rightarrow> waker \<Rightarrow> qstate option \<Rightarrow> desk \<Rightarrow> (qstate option \<times> desk) option" where
  "monitor_loop arrivals w q d =
    (if \<not> w_running w then Some (q, d)
     else do {
       (arrivals, w, q) \<leftarrow> await Events arrivals w q;
       (q, d) \<leftarrow> events_round q d;
       monitor_loop arrivals w q d })"

declare monitor_loop.simps [code]

definition sharedq_monitor :: "(int \<times> others) list \<Rightarrow> string list \<Rightarrow> nat \<Rightarrow> desk \<Rightarrow> (int \<times> desk) option" where
  "sharedq_monitor arrivals argv index = start_command 3 3 sharedq_help_monitor ''h'' argv index (\<lambda>param.
     with_queue (argv ! (index + 1)) SQ_READ_ONLY (\<lambda>q d. do {
       (_, q) \<leftarrow> shr_q_monitor q SIGUSR2;
       (q, d) \<leftarrow> monitor_loop arrivals fresh_waker q d;
       close_queue (argv ! (index + 1)) q d }))"

section \<open>Pulling\<close>

text \<open>One read of the signal descriptor: the pid that sent the signal, or a failed read, after what other
  processes did to the object.\<close>

type_synonym call_read = "int option \<times> others"

text \<open>\<open>getline\<close>: through the newline, or the rest.\<close>

definition getline :: "string \<Rightarrow> string \<times> string" where
  "getline str = (let n = length (takeWhile (\<lambda>c. c \<noteq> CHR 0x0A) str) in (take (n + 1) str, drop (n + 1) str))"

text \<open>All but the last character of the line is added.\<close>

definition pull_line :: "qstate option \<Rightarrow> string \<Rightarrow> desk \<Rightarrow> (qstate option \<times> desk) option" where
  "pull_line q line d = do {
     (status, q) \<leftarrow> shr_q_add q (Some (map char_byte line)) (int (length line) - 1);
     Some (q, add_message status d) }"

fun pull_blocked :: "nat \<Rightarrow> string \<Rightarrow> qstate option \<Rightarrow> desk \<Rightarrow> (string \<times> qstate option \<times> desk) option" where
  "pull_blocked 0 in_file q d = Some (in_file, q, d)"
| "pull_blocked (Suc n) in_file q d =
    (case getline in_file of
       (line, rest) \<Rightarrow>
         if line = [] then Some (rest, q, d)
         else do { (q, d) \<leftarrow> pull_line q line d; pull_blocked n rest q d })"

text \<open>The loop over the calls, the number of those answered counting up; \<open>True\<close> when a read failed.\<close>

fun pull_calls ::
  "bool \<Rightarrow> int \<Rightarrow> call_read list \<Rightarrow> string \<Rightarrow> qstate option \<Rightarrow> desk \<Rightarrow> (bool \<times> qstate option \<times> desk) option" where
  "pull_calls verbose num [] in_file q d = None"
| "pull_calls verbose num ((sender, f) # reads) in_file q d =
    (let (call_start, q) = read_clock q;
         q = map_option f q;
         (call_end, q) = read_clock q
     in case sender of
       None \<Rightarrow> Some (True, q, say_line ''sharedq:  read error on signal fd'' d)
     | Some pid \<Rightarrow>
         let d = say_line
               (if verbose
                then print_time call_end @ ''<--call '' @ print_long (num + 1) @ '' from ('' @ print_long pid @
                     '')  wait time:  '' @ print_time (timespecsub call_end call_start)
                else ''<--call '' @ print_long (num + 1)) d
         in case getline in_file of
              (line, rest) \<Rightarrow>
                if line = [] then Some (False, q, d)
                else do { (q, d) \<leftarrow> pull_line q line d; pull_calls verbose (num + 1) reads rest q d })"

text \<open>The file's text, or none when it cannot be opened.\<close>

definition pull_from_file ::
  "string option \<Rightarrow> modifiers \<Rightarrow> call_read list \<Rightarrow> qstate option \<Rightarrow> desk \<Rightarrow> (qstate option \<times> desk) option" where
  "pull_from_file opened_text param reads q d =
    (case opened_text of
       None \<Rightarrow> Some (q, say_line ''sharedq: unable to open file for pull'' d)
     | Some in_file \<Rightarrow> do {
         (blockers, q) \<leftarrow> shr_q_call_count q;
         let d = say_line (print_long blockers @ '' blocked callers'') d;
         let (start, q) = read_clock q;
         (in_file, q, d) \<leftarrow> pull_blocked (nat blockers) in_file q d;
         (failed, q, d) \<leftarrow> pull_calls (m_verbose param) 0 reads in_file q d;
         if failed then Some (q, d)
         else do {
           let (end_time, q) = read_clock q;
           Some (q, say_line (''time to pull data '' @ print_time (timespecsub end_time start) @ '' seconds'') d) } })"

fun prod_callers :: "nat \<Rightarrow> qstate option \<Rightarrow> (bool \<times> qstate option) option" where
  "prod_callers 0 q = Some (True, q)"
| "prod_callers (Suc n) q = do {
     (status, q) \<leftarrow> shr_q_prod q;
     if status \<noteq> SH_OK then Some (False, q) else prod_callers n q }"

fun pull_typed :: "call_read list \<Rightarrow> qstate option \<Rightarrow> desk \<Rightarrow> (qstate option \<times> desk) option" where
  "pull_typed [] q d = None"
| "pull_typed ((sender, f) # reads) q d =
    (let q = map_option f q in
     if sender = None then Some (q, say_line ''sharedq:  read error on signal fd'' d)
     else do {
       let d = say ''<--'' d;
       (line, rest) \<leftarrow> readline (d_in d);
       let d = d\<lparr>d_in := rest\<rparr>;
       case line of
         None \<Rightarrow> Some (q, d)
       | Some line \<Rightarrow>
           if line = [] then Some (q, d)
           else do {
             (status, q) \<leftarrow> shr_q_add q (Some (map char_byte line)) (int (length line));
             let d = add_message status d;
             if status = SH_ERR_ARG \<or> status = SH_ERR_LIMIT \<or> status = SH_ERR_NOMEM then Some (q, d)
             else pull_typed reads q d } })"

definition pull_from_stdin :: "call_read list \<Rightarrow> qstate option \<Rightarrow> desk \<Rightarrow> (qstate option \<times> desk) option" where
  "pull_from_stdin reads q d = do {
     (blockers, q) \<leftarrow> shr_q_call_count q;
     (ok, q) \<leftarrow> prod_callers (nat blockers) q;
     if \<not> ok then Some (q, say_line ''sharedq:  unable to prod pull process'' d)
     else pull_typed reads q d }"

text \<open>What the outside answers: the text of files that can be opened, failures of \<open>sigprocmask\<close> and
  \<open>signalfd\<close>, of the three \<open>sem_init\<close>, and of \<open>signal\<close>; the signals and reads to come.\<close>

record outside =
  o_text :: "string \<Rightarrow> string option"
  o_mask_fails :: bool
  o_signalfd_fails :: bool
  o_sem_fails :: "post \<Rightarrow> bool"
  o_signal_fails :: "int \<Rightarrow> bool"
  o_arrivals :: "(int \<times> others) list"
  o_reads :: "call_read list"

definition sharedq_pull :: "outside \<Rightarrow> string list \<Rightarrow> nat \<Rightarrow> desk \<Rightarrow> (int \<times> desk) option" where
  "sharedq_pull outer argv index = start_command 3 4 sharedq_help_pull ''hv'' argv index (\<lambda>param d.
     if o_mask_fails outer then Some (0, say_line ''sharedq:  unable to set signal mask to block'' d)
     else if o_signalfd_fails outer then Some (0, say_line ''sharedq:  unable to create signal fd'' d)
     else with_queue (argv ! (index + 1)) SQ_WRITE_ONLY (\<lambda>q d. do {
       (status, q) \<leftarrow> shr_q_call q (SIGRTMIN + 1);
       if status \<noteq> SH_OK then Some (0, say_line ''sharedq:  unable to register call signal'' d)
       else do {
         (q, d) \<leftarrow> (if length argv - index + 1 = 4
                    then pull_from_file (o_text outer (argv ! (index + 2))) param (o_reads outer) q d
                    else pull_from_stdin (o_reads outer) q d);
         close_queue (argv ! (index + 1)) q d } }) d)"

section \<open>The main function\<close>

datatype cmd_code =
  HELP | CREATE | DESTROY | LIST | ADD | REMOVE | DRAIN | LISTEN | MONITOR | LEVEL | LIMIT | CALL | PULL

definition cmd_str :: "(string \<times> cmd_code) list" where
  "cmd_str = [(''help'', HELP), (''create'', CREATE), (''destroy'', DESTROY), (''list'', LIST), (''add'', ADD),
     (''remove'', REMOVE), (''drain'', DRAIN), (''listen'', LISTEN), (''monitor'', MONITOR), (''level'', LEVEL),
     (''limit'', LIMIT), (''call'', CALL), (''pull'', PULL)]"

fun cmds :: "cmd_code \<Rightarrow> outside \<Rightarrow> string list \<Rightarrow> nat \<Rightarrow> desk \<Rightarrow> (int \<times> desk) option" where
  "cmds HELP outer argv index d = Some (0, say sharedq_help d)"
| "cmds CREATE outer argv index d = sharedq_create argv index d"
| "cmds DESTROY outer argv index d = sharedq_destroy argv index d"
| "cmds LIST outer argv index d = sharedq_list argv index d"
| "cmds ADD outer argv index d = sharedq_add argv index d"
| "cmds REMOVE outer argv index d = sharedq_remove argv index d"
| "cmds DRAIN outer argv index d = sharedq_drain argv index d"
| "cmds LISTEN outer argv index d = sharedq_listen (o_arrivals outer) argv index d"
| "cmds MONITOR outer argv index d = sharedq_monitor (o_arrivals outer) argv index d"
| "cmds LEVEL outer argv index d = sharedq_level argv index d"
| "cmds LIMIT outer argv index d = sharedq_limit argv index d"
| "cmds CALL outer argv index d = sharedq_call (o_arrivals outer) argv index d"
| "cmds PULL outer argv index d = sharedq_pull outer argv index d"

text \<open>The third message names \<open>SIGUSR2\<close> in the source as well.\<close>

definition set_signal_handlers :: "outside \<Rightarrow> desk \<Rightarrow> desk" where
  "set_signal_handlers outer d =
    (let d = (if o_signal_fails outer SIGUSR1 then say_line ''cannot catch SIGUSR1'' d else d);
         d = (if o_signal_fails outer SIGUSR2 then say_line ''cannot catch SIGUSR2'' d else d);
         d = (if o_signal_fails outer SIGURG then say_line ''cannot catch SIGUSR2'' d else d)
     in if o_signal_fails outer SIGTERM then say_line ''cannot catch SIGTERM'' d else d)"

fun skip_modifiers :: "string list \<Rightarrow> nat \<Rightarrow> nat" where
  "skip_modifiers [] index = index"
| "skip_modifiers (arg # args) index =
    (if char_at arg 0 \<noteq> CHR ''-'' then index else skip_modifiers args (index + 1))"

fun find_command :: "(string \<times> cmd_code) list \<Rightarrow> string \<Rightarrow> cmd_code option" where
  "find_command [] name = None"
| "find_command ((str, code) # rest) name =
    (if length name = length str \<and> take (length name) str = name then Some code else find_command rest name)"

definition sharedq_main :: "outside \<Rightarrow> string list \<Rightarrow> desk \<Rightarrow> (int \<times> desk) option" where
  "sharedq_main outer argv d =
    (if length argv < 2 then Some (0, say sharedq_help d)
     else let index = skip_modifiers (tl argv) 1 in
       if length argv = index then Some (0, say sharedq_help d)
       else if o_sem_fails outer Adds then Some (0, say_line ''unable to initialize add semapahore'' d)
       else if o_sem_fails outer Events then Some (0, say_line ''unable to initialize event semapahore'' d)
       else if o_sem_fails outer Calls then Some (0, say_line ''unable to initialize call semapahore'' d)
       else let d = set_signal_handlers outer d in
         case find_command cmd_str (argv ! index) of
           Some code \<Rightarrow> cmds code outer argv index d
         | None \<Rightarrow> Some (0, say sharedq_help d))"


section \<open>What the tool does\<close>

definition quiet_outside :: outside where
  "quiet_outside = \<lparr>o_text = (\<lambda>_. None), o_mask_fails = False, o_signalfd_fails = False, o_sem_fails = (\<lambda>_. False),
     o_signal_fails = (\<lambda>_. False), o_arrivals = [], o_reads = []\<rparr>"

abbreviation (input) dashed :: "string \<Rightarrow> bool" where
  "dashed arg \<equiv> char_at arg 0 = CHR ''-''"

lemma skip_modifiers_eq: "skip_modifiers args i = i + length (takeWhile (\<lambda>arg. dashed arg) args)"
  by (induction args arbitrary: i) auto

lemma find_command_eq: "find_command table name = map_of table name"
  by (induction table name rule: find_command.induct) auto

lemma main_run:
  assumes "o_sem_fails outer = (\<lambda>_. False)" and "o_signal_fails outer = (\<lambda>_. False)"
  shows "sharedq_main outer (prog # args) d =
    (case dropWhile (\<lambda>arg. dashed arg) args of
       [] \<Rightarrow> Some (0, say sharedq_help d)
     | name # _ \<Rightarrow>
         (case map_of cmd_str name of
            Some code \<Rightarrow> cmds code outer (prog # args) (1 + length (takeWhile (\<lambda>arg. dashed arg) args)) d
          | None \<Rightarrow> Some (0, say sharedq_help d)))"
proof (cases "dropWhile (\<lambda>arg. dashed arg) args")
  case Nil
  then have tk: "takeWhile (\<lambda>arg. dashed arg) args = args" by (simp add: dropWhile_eq_Nil_conv takeWhile_eq_all_conv)
  have "skip_modifiers args 1 = length (prog # args)" unfolding skip_modifiers_eq tk by simp
  then show ?thesis unfolding Nil by (simp add: sharedq_main_def Let_def)
next
  case (Cons name rest)
  let ?n = "length (takeWhile (\<lambda>arg. dashed arg) args)"
  have args: "args = takeWhile (\<lambda>arg. dashed arg) args @ name # rest" using Cons by (metis takeWhile_dropWhile_id)
  then have n: "?n < length args" by (metis length_append less_add_same_cancel1 length_greater_0_conv list.distinct(1))
  have nm: "(prog # args) ! (1 + ?n) = name" using args by (metis nth_Cons_Suc nth_append_length plus_1_eq_Suc)
  have h: "set_signal_handlers outer d = d" using assms(2) by (simp add: set_signal_handlers_def Let_def)
  have i: "skip_modifiers (tl (prog # args)) 1 = 1 + ?n" by (simp add: skip_modifiers_eq)
  have "args \<noteq> []" using args by (metis append_is_Nil_conv list.distinct(1))
  then have len: "\<not> length (prog # args) < 2" "length (prog # args) \<noteq> 1 + ?n" using n by simp_all
  show ?thesis
    unfolding sharedq_main_def i Let_def nm find_command_eq h Cons using len assms(1) by (simp split: option.split)
qed

text \<open>C35: \<open>main\<close> runs the command whose name is the first argument that does not begin with a dash, with the
  arguments as they are and the index of that name; what is printed and the status are the command's. The
  name must be spelled in full: for any other one, and with none at all, help is printed.\<close>

theorem sharedq_main_correct:
  assumes "o_sem_fails outer = (\<lambda>_. False)" and "o_signal_fails outer = (\<lambda>_. False)"
  shows "sharedq_main outer (prog # args) d =
    (case dropWhile (\<lambda>arg. dashed arg) args of
       [] \<Rightarrow> Some (0, say sharedq_help d)
     | name # _ \<Rightarrow>
         (case map_of cmd_str name of
            Some code \<Rightarrow> cmds code outer (prog # args) (1 + length (takeWhile (\<lambda>arg. dashed arg) args)) d
          | None \<Rightarrow> Some (0, say sharedq_help d))) \<and>
    sharedq_main outer [] d = Some (0, say sharedq_help d)"
  using main_run [OF assms] by (simp add: sharedq_main_def)

theorem sharedq_main_witness:
  "sharedq_main quiet_outside [''sharedq'', ''-h'', ''creat''] sample_desk = Some (0, say sharedq_help sample_desk) \<and>
   sharedq_main quiet_outside [''sharedq'', ''-h'', ''help''] sample_desk = Some (0, say sharedq_help sample_desk)"
proof -
  have q: "o_sem_fails quiet_outside = (\<lambda>_. False)" "o_signal_fails quiet_outside = (\<lambda>_. False)" by (simp_all add: quiet_outside_def)
  from sharedq_main_correct [OF q, of "''sharedq''" "[''-h'', ''creat'']" sample_desk]
    sharedq_main_correct [OF q, of "''sharedq''" "[''-h'', ''help'']" sample_desk]
  show ?thesis by (simp add: char_at_def cmd_str_def)
qed

text \<open>C34: what is typed into the tool comes out of it. Lines typed into \<open>sharedq add <name>\<close>, on an empty
  queue with places for all of them, are printed by \<open>sharedq -x drain <name>\<close> afterwards as the hex dumps of
  exactly their characters, in the order they were typed; the queue is empty again.\<close>

theorem tool_roundtrip:
  assumes "o_sem_fails outer = (\<lambda>_. False)" and "o_signal_fails outer = (\<lambda>_. False)"
    and "good_name nm" and "object_holds (d_fs d) nm s []" and "quiet (d_proc d)" and "clock_ok (d_proc d)"
    and "typed ls e (d_in d)" and "client_budget (sum_list (map line_room ls) + 8 * int (length ls)) (s, no_buffer)"
    and "int (length ls) \<le> cells s MAX_DEPTH" and "\<forall>l\<in>set ls. length l < 2 ^ 31 - 16"
  shows "\<exists>d1 d2 t. sharedq_main outer [prog, ''add'', nm] d = Some (0, d1) \<and>
    sharedq_main outer [prog, ''-x'', ''drain'', nm] d1 = Some (0, d2) \<and> object_holds (d_fs d2) nm t [] \<and>
    d_out d2 = d_out d @ ''<--'' @ concat (replicate (length ls) ''<--'') @
      concat (map (\<lambda>l. the (hex_format (map char_byte l))) ls) @ ''sharedq:  queue is empty'' @ newline"
proof -
  let ?k = "nat (cells s MAX_DEPTH - int (length ([] :: (timespec \<times> payload) list)))"
  have k: "length ls \<le> ?k" using assms(9) by simp
  have m: "sharedq_main outer [prog, ''add'', nm] d = sharedq_add [prog, ''add'', nm] 1 d" for d
    unfolding main_run [OF assms(1,2)] by (simp add: char_at_def cmd_str_def)
  have m2: "sharedq_main outer [prog, ''-x'', ''drain'', nm] d = sharedq_drain [prog, ''-x'', ''drain'', nm] 2 d" for d
    unfolding main_run [OF assms(1,2)] by (simp add: char_at_def cmd_str_def numeral_2_eq_2)
  have nn: "0 \<le> 8 * int (length ls)" by simp
  obtain d1 t q where a: "sharedq_add [prog, ''add'', nm] 1 d = Some (0, d1)" "object_holds (d_fs d1) nm t q"
    "map snd q = map line_value (take ?k ls)" "d_out d1 = d_out d @ ''<--'' @ prompts (length ls) ?k" "d_proc d1 = d_proc d"
    "client_budget (8 * int (length ls)) (t, no_buffer)"
    using add_command [OF assms(3-8) nn, of prog] by auto
  have q: "map snd q = map line_value ls" using a(3) k by simp
  then have len: "length q = length ls" by (metis length_map)
  have p: "quiet (d_proc d1)" "clock_ok (d_proc d1)" using assms(5,6) a(5) by simp_all
  have du: "\<forall>x\<in>set q. dumpable x" by (rule typed_dumpable [OF q assms(10)])
  have b: "client_budget (8 * int (length q)) (t, no_buffer)" using a(6) len by simp
  obtain d2 u where u: "sharedq_drain [prog, ''-x'', ''drain'', nm] 2 d1 = Some (0, d2)" "object_holds (d_fs d2) nm u []"
    "d_out d2 = d_out d1 @ concat (map dumped q) @ ''sharedq:  queue is empty'' @ newline"
    using drain_command [OF assms(3) a(2) p b du, of prog] by blast
  have "map dumped q = map (\<lambda>v. case v of Value ty bs \<Rightarrow> the (hex_format bs) | Vector _ \<Rightarrow> []) (map snd q)"
  proof -
    have "dumped x = (case snd x of Value ty bs \<Rightarrow> the (hex_format bs) | Vector _ \<Rightarrow> [])" for x by (cases x rule: dumped.cases) auto
    then show ?thesis by simp
  qed
  then have dm: "map dumped q = map (\<lambda>l. the (hex_format (map char_byte l))) ls" unfolding q by (simp add: line_value_def)
  have "prompts n j = concat (replicate n ''<--'')" if "n \<le> j" for n j
    using that by (induction n j rule: prompts.induct) auto
  from this [OF k] show ?thesis using a(1,4) u dm m m2 by auto
qed

theorem tool_roundtrip_witness:
  "\<exists>d1 d2. sharedq_main quiet_outside [''sharedq'', ''add'', ''jobs''] sample_desk = Some (0, d1) \<and>
     sharedq_main quiet_outside [''sharedq'', ''-x'', ''drain'', ''jobs''] d1 = Some (0, d2) \<and>
     d_out d2 = ''<--<--<--'' @ the (hex_format [0x6F, 0x6E, 0x65]) @ the (hex_format [0x74, 0x77, 0x6F]) @
       ''sharedq:  queue is empty'' @ newline"
proof -
  let ?ls = "[''one'', ''two'']"
  have b: "client_budget (sum_list (map line_room ?ls) + 8 * int (length ?ls)) (sample_queue, no_buffer)"
    by (rule sample_budget) (simp add: line_room_def value_room_def slots_of_def)
  have d: "int (length ?ls) \<le> cells sample_queue MAX_DEPTH" by simp (simp add: fresh_cells_def)
  have q: "o_sem_fails quiet_outside = (\<lambda>_. False)" "o_signal_fails quiet_outside = (\<lambda>_. False)" by (simp_all add: quiet_outside_def)
  have l: "\<forall>l\<in>set ?ls. length l < 2 ^ 31 - 16" by simp
  have c: "map char_byte ''one'' = [0x6F, 0x6E, 0x65]" "map char_byte ''two'' = [0x74, 0x77, 0x6F]" by (simp_all add: char_byte_def)
  have e: "d_out sample_desk = []" by (simp add: sample_desk_def)
  obtain d1 d2 where r: "sharedq_main quiet_outside [''sharedq'', ''add'', ''jobs''] sample_desk = Some (0, d1)"
    "sharedq_main quiet_outside [''sharedq'', ''-x'', ''drain'', ''jobs''] d1 = Some (0, d2)"
    and o2: "d_out d2 = d_out sample_desk @ ''<--'' @ concat (replicate (length ?ls) ''<--'') @
      concat (map (\<lambda>l. the (hex_format (map char_byte l))) ?ls) @ ''sharedq:  queue is empty'' @ newline"
    using tool_roundtrip [OF q jobs_name sample_object sample_desk_ok sample_typed b d l, of "''sharedq''"] by blast
  have "d_out d2 = ''<--<--<--'' @ the (hex_format [0x6F, 0x6E, 0x65]) @ the (hex_format [0x74, 0x77, 0x6F]) @
       ''sharedq:  queue is empty'' @ newline"
    unfolding o2 e list.map c by (simp add: char_byte_def)
  with r show ?thesis by blast
qed

text \<open>One round of \<open>monitor\<close> collects all recorded events and returns; it prints the texts of those
  events in their order, and nothing for the two events without one.\<close>

theorem events_round_correct:
  assumes "queue_holds s q evs"
  shows "\<exists>t. events_round (Some s) d = Some (Some t, say (concat (map event_text evs)) d) \<and> queue_holds t q [] \<and> ends take_words 0 s t"
  using assms
proof (induction evs arbitrary: s d)
  case Nil
  obtain t where t: "shr_q_event (Some s) = Some (SQ_EVNT_NONE, Some t)" "queue_holds t q []" "ends take_words 0 s t"
    using event_call [OF Nil.prems] by auto
  then have "events_round (Some s) d = Some (Some t, d)" by (subst events_round.simps) (simp add: event_text_def say_def)
  with t(2,3) show ?case by (simp add: say_def)
next
  case (Cons ev evs)
  obtain t where t: "shr_q_event (Some s) = Some (ev, Some t)" "queue_holds t q evs" "ends take_words 0 s t"
    using event_call [OF Cons.prems] by auto
  obtain u where u: "events_round (Some t) (say (event_text ev) d) = Some (Some u, say (concat (map event_text evs)) (say (event_text ev) d))"
    "queue_holds u q []" "ends take_words 0 t u"
    using Cons.IH [OF t(2)] by blast
  have "ev \<noteq> SQ_EVNT_NONE" using event_values [OF Cons.prems] by auto
  then have "events_round (Some s) d = Some (Some u, say (concat (map event_text (ev # evs))) d)"
    using t(1) u(1) by (subst events_round.simps) (simp add: say_def)
  then show ?case using u(2) ends_trans [OF t(3) u(3)] by simp
qed

theorem events_round_witness:
  "\<exists>t u q. shr_q_add (Some (with_flags sample_queue FLAG_EVNT_NONEMPTY True)) (Some [7]) 1 = Some (SH_OK, Some t) \<and>
     events_round (Some t) sample_desk = Some (Some u, sample_desk) \<and> queue_holds u q []"
proof -
  obtain t x where t: "shr_q_add (Some (with_flags sample_queue FLAG_EVNT_NONEMPTY True)) (Some [7]) 1 = Some (SH_OK, Some t)"
    "queue_holds t [x] [SQ_EVNT_NONEMPTY]"
    by (rule announced_queue)
  from events_round_correct [OF t(2), of sample_desk] t(1) show ?thesis by (auto simp: event_text_def say_def)
qed

text \<open>C36: \<open>sharedq create <name> <maxdepth>\<close>, for a free name and every number a \<open>long\<close> can hold. The number is
  converted to \<open>unsigned int\<close> first, so one above the largest depth is refused only when what is left of it is
  still too large: 4294967297 makes a queue of depth 1. 0 means the largest depth.\<close>

theorem sharedq_create_depth:
  assumes "good_name nm" and "d_fs d (object_path nm) = None" and "quiet (d_proc d)" and "clock_ok (d_proc d)"
    and "int n < 2 ^ 63"
  shows "let depth = int n mod 2 ^ 32 in
    if SEM_VALUE_MAX < depth
    then sharedq_create [prog, ''create'', nm, print_long (int n)] 1 d =
      Some (0, say_line ''sharedq:  invalid argument for create function'' d)
    else \<exists>t. sharedq_create [prog, ''create'', nm, print_long (int n)] 1 d =
        Some (0, d\<lparr>d_fs := (d_fs d)(object_path nm := Some (detach t))\<rparr>) \<and>
      plain_queue t [] \<and> cells t MAX_DEPTH = (if depth = 0 then SEM_VALUE_MAX else depth)"
proof -
  let ?depth = "int n mod 2 ^ 32"
  have a: "sharedq_atol (print_long (int n)) = Some (int n)"
    using sharedq_atol_printed [of n] assms(5) by simp
  have nm: "NUL \<notin> set nm" "nm \<noteq> []" "length nm \<le> 4096" using assms(1) by (simp_all add: good_name_def)
  have d0: "d\<lparr>d_fs := d_fs d\<rparr> = d" by simp
  have s0: "say [] x = x" for x :: desk by (simp add: say_def)
  have eq: "sharedq_create [prog, ''create'', nm, print_long (int n)] 1 d = do {
      (status, q, fs, p) \<leftarrow> shr_q_create (d_fs d) (Some nm) ?depth SQ_IMMUTABLE (d_proc d);
      let d = d\<lparr>d_fs := fs\<rparr>;
      Some (0,
        if status = SH_ERR_ARG then say_line ''sharedq:  invalid argument for create function'' d
        else if status = SH_ERR_ACCESS then say_line ''sharedq:  permission error for queue name'' d
        else if status = SH_ERR_EXIST then say_line ''sharedq:  queue name already exists'' d
        else if status = SH_ERR_PATH then say_line ''sharedq:  error in queue name path'' d
        else if status = SH_ERR_SYS then say_line ''sharedq:  system call error'' d
        else d) }"
    by (simp add: sharedq_create_def start_command_def no_modifiers_parsed no_modifiers_def Let_def a numeral_3_eq_3 s0
      cong: if_cong)
  show ?thesis
  proof (cases "SEM_VALUE_MAX < ?depth")
    case True
    then have "shr_q_create (d_fs d) (Some nm) ?depth SQ_IMMUTABLE (d_proc d) = Some (SH_ERR_ARG, None, d_fs d, d_proc d)"
      by (simp add: shr_q_create_def)
    then show ?thesis using True unfolding eq by (simp add: d0)
  next
    case False
    then have dp: "0 \<le> ?depth" "?depth \<le> SEM_VALUE_MAX" by simp_all
    obtain t where t: "shr_q_create (d_fs d) (Some nm) ?depth SQ_IMMUTABLE (d_proc d) =
        Some (SH_OK, Some t, (d_fs d)(object_path nm := Some (detach t)), t)" "new_queue ?depth SQ_IMMUTABLE (d_proc d) t"
      by (rule create_run [where fs = "d_fs d" and nm = nm, OF assms(3,4) nm assms(2) dp])
    have w: "cells t i = fresh_cells (if ?depth = 0 then SEM_VALUE_MAX else ?depth) i" if "4 \<le> i" for i
      using t(2) that by (simp add: new_queue_def)
    have f: "cells t FLAGS = 0" "cells t MAX_DEPTH = (if ?depth = 0 then SEM_VALUE_MAX else ?depth)"
      by (simp_all only: w) (simp_all add: fresh_cells_def)
    have "plain_queue t []" using t(2) f(1) by (auto simp: plain_queue_def new_queue_def)
    moreover have "sharedq_create [prog, ''create'', nm, print_long (int n)] 1 d =
        Some (0, d\<lparr>d_fs := (d_fs d)(object_path nm := Some (detach t))\<rparr>)"
      unfolding eq using t(1) by simp
    ultimately show ?thesis unfolding Let_def if_not_P [OF False] using f(2) by blast
  qed
qed

theorem sharedq_create_witness:
  "\<exists>t. sharedq_create [''sharedq'', ''create'', ''work'', print_long 4294967297] 1 sample_desk =
       Some (0, sample_desk\<lparr>d_fs := (d_fs sample_desk)(object_path ''work'' := Some (detach t))\<rparr>) \<and> cells t MAX_DEPTH = 1"
proof -
  have n: "good_name ''work''" by (simp add: good_name_def NUL_def)
  have f: "d_fs sample_desk (object_path ''work'') = None" by (simp add: sample_desk_def object_path_def)
  from sharedq_create_depth [OF n f sample_desk_ok, of 4294967297 "''sharedq''"] show ?thesis by (auto simp: Let_def)
qed

end
