(* ===== verification/Harness.thy ===== *)
theory Harness
  imports Signals
begin

text \<open>
  The benchmark \<open>shrq_harness\<close> (\<open>src/shrq_harness/main.c\<close>), a client of the library: with one thread it adds
  and removes in turn, with several it lets producers and consumers run against each other and compares
  the sums of what went in and what came out. This is the variant compiled with \<open>MTHRD\<close>, in which all threads
  use the handle of \<open>main\<close>. A call of the library is one step of a thread. What goes to standard error is left
  out; \<open>None\<close> is what C leaves undefined, a failed assertion, and what does not return.
\<close>

section \<open>Arguments\<close>

definition is_space :: "char \<Rightarrow> bool" where
  "is_space c \<longleftrightarrow> c = CHR '' '' \<or> ((9 :: nat) \<le> of_char c \<and> of_char c \<le> (13 :: nat))"

text \<open>\<open>strtol\<close> to base 10: the number, at the limits of \<open>long\<close> when it is beyond them, and what follows it;
  the whole string when there is no number.\<close>

definition strtol :: "string \<Rightarrow> long \<times> string" where
  "strtol str =
    (let r = dropWhile is_space str;
         neg = (r \<noteq> [] \<and> hd r = CHR ''-'');
         r = (if r \<noteq> [] \<and> (hd r = CHR ''-'' \<or> hd r = CHR ''+'') then tl r else r);
         ds = takeWhile is_digit r;
         n = number ds
     in if ds = [] then (0, str)
        else (max (- (2 ^ 63)) (min (2 ^ 63 - 1) (if neg then - n else n)), dropWhile is_digit r))"

text \<open>The number, or the message with which the program ends.\<close>

definition parse_arg_to_long :: "string \<Rightarrow> int \<Rightarrow> string + long" where
  "parse_arg_to_long str arg_no =
    (case strtol str of (result, until) \<Rightarrow>
       if str \<noteq> [] \<and> until = [] then Inr result
       else Inl (''argument '' @ print_long arg_no @ '' is an invalid number'' @ newline))"

section \<open>One thread\<close>

definition QNAME :: string where "QNAME = ''testq''"

abbreviation (input) INT_MAX :: int where "INT_MAX \<equiv> 2147483647"

abbreviation (input) SQ_READWRITE :: int where "SQ_READWRITE \<equiv> 3"

text \<open>\<open>struct proc_item\<close>: three numbers of four bytes.\<close>

definition int_bytes :: "int \<Rightarrow> byte list" where
  "int_bytes n = map (le_byte n) [0..<4]"

definition pitem_bytes :: "int \<Rightarrow> byte list" where
  "pitem_bytes n = int_bytes 0 @ int_bytes 0 @ int_bytes n"

text \<open>\<open>pitem->id\<close>, where \<open>pitem\<close> points into the buffer.\<close>

definition read_id :: "byte list \<Rightarrow> int \<Rightarrow> int option" where
  "read_id m off =
    (if 0 \<le> off \<and> off + 12 \<le> int (length m)
     then Some (signed_take_bit 31 (le_value (take 4 (drop (nat (off + 8)) m)))) else None)"

text \<open>The first loop: items \<open>i + 1\<close> up to the limit, with the result of the last addition.\<close>

fun basic_adds :: "nat \<Rightarrow> int \<Rightarrow> sh_status \<Rightarrow> qstate \<Rightarrow> string \<Rightarrow> (sh_status \<times> qstate \<times> string) option" where
  "basic_adds 0 i result q out = Some (result, q, out)"
| "basic_adds (Suc n) i result q out =
    (case os_call q of
       (Some _, q) \<Rightarrow> basic_adds n (i + 1) result q (out @ ''item create failed'' @ newline)
     | (None, q) \<Rightarrow> do {
         (result, q) \<leftarrow> shr_q_add (Some q) (Some (pitem_bytes (i + 1))) 12;
         q \<leftarrow> q;
         basic_adds n (i + 1) result q
           (out @ (if result \<noteq> SH_OK then ''enqueue failed'' else ''enqueue successful id: '' @ print_long (i + 1)) @ newline) })"

fun basic_removes :: "nat \<Rightarrow> ubuf \<Rightarrow> qstate \<Rightarrow> string \<Rightarrow> (ubuf \<times> qstate \<times> string) option" where
  "basic_removes 0 b q out = Some (b, q, out)"
| "basic_removes (Suc n) b q out = do {
     (item, b, q) \<leftarrow> shr_q_remove (Some q) (Some b);
     b \<leftarrow> b;
     q \<leftarrow> q;
     line \<leftarrow> (if i_status item \<noteq> SH_OK then Some ''queue remove failed''
              else case i_value item of
                None \<Rightarrow> Some ''dequeue returned NULL''
              | Some off \<Rightarrow> do {
                  m \<leftarrow> ub_mem b;
                  n \<leftarrow> read_id m off;
                  Some (''dequeue successful id: '' @ print_long n) });
     basic_removes n b q (out @ line @ newline) }"

fun basic_rounds :: "nat \<Rightarrow> nat \<Rightarrow> sh_status \<Rightarrow> ubuf \<Rightarrow> qstate \<Rightarrow> string \<Rightarrow> (qstate \<times> string) option" where
  "basic_rounds 0 limit result b q out = Some (q, out)"
| "basic_rounds (Suc j) limit result b q out =
    (if result \<noteq> SH_OK then Some (q, out)
     else do {
       (result, q, out) \<leftarrow> basic_adds limit 0 result q out;
       (b, q, out) \<leftarrow> basic_removes limit b q out;
       basic_rounds j limit result b q out })"

text \<open>The limit becomes an \<open>unsigned int\<close>. When the queue is not created the pointer that is handed to
  \<open>shr_q_destroy\<close> has no value.\<close>

definition validate_basic_queue :: "int \<Rightarrow> desk \<Rightarrow> desk option" where
  "validate_basic_queue limit d = do {
     (result, q, fs, p) \<leftarrow> shr_q_create (d_fs d) (Some QNAME) (limit mod 2 ^ 32) SQ_READWRITE (d_proc d);
     q \<leftarrow> q;
     (q, out) \<leftarrow> basic_rounds 2 (nat limit) result no_buffer q (d_out d);
     (_, fs) \<leftarrow> shr_q_destroy fs QNAME (Some q);
     Some (d\<lparr>d_fs := fs, d_out := out\<rparr>) }"

section \<open>Several threads\<close>

text \<open>What a thread does next, with its counter, its sum, and for a producer the number it is adding.\<close>

datatype thread =
    Number int "64 word"
  | Adding int "64 word" "64 word"
  | Produced "64 word"
  | Taking int "64 word"
  | Consumed "64 word"
  | Finished

text \<open>The queue with the handle of all threads, the shared sums, what is printed, the threads,
  and \<open>errno\<close> as a thread finds it after a failed removal.\<close>

record bench =
  b_q :: qstate
  b_input :: "64 word"
  b_output :: "64 word"
  b_verif :: "64 word"
  b_out :: string
  b_threads :: "thread list"
  b_errno :: int

text \<open>The heads of the loops; \<open>i\<close> is an \<open>int\<close>, \<open>iterations\<close> a \<open>long\<close>.\<close>

definition next_number :: "long \<Rightarrow> int \<Rightarrow> 64 word \<Rightarrow> thread option" where
  "next_number iterations i tot =
    (if INT_MAX < i then None else Some (if i < iterations then Number i tot else Produced tot))"

definition next_taking :: "long \<Rightarrow> int \<Rightarrow> 64 word \<Rightarrow> thread option" where
  "next_taking iterations i tot =
    (if INT_MAX < i then None else Some (if i < iterations then Taking i tot else Consumed tot))"

text \<open>The message: the number in its first eight bytes. The others, which \<open>malloc\<close> leaves as they were, are
  zeros here.\<close>

definition message :: "long \<Rightarrow> 64 word \<Rightarrow> byte list" where
  "message msg_size n = slot_bytes (sint n) @ replicate (nat msg_size - 8) 0"

definition add_message_of :: "long \<Rightarrow> 64 word \<Rightarrow> qstate \<Rightarrow> (sh_status \<times> qstate) option" where
  "add_message_of msg_size n q =
    (if msg_size < 8 then None
     else do {
       (st, q) \<leftarrow> shr_q_add (Some q) (Some (message msg_size n)) msg_size;
       q \<leftarrow> q;
       Some (st, q) })"

text \<open>Every removal starts without a buffer, and the number is read where the item is.\<close>

definition take_message :: "qstate \<Rightarrow> (sh_status \<times> 64 word \<times> qstate) option" where
  "take_message q = do {
     (item, b, q) \<leftarrow> shr_q_remove (Some q) (Some no_buffer);
     b \<leftarrow> b;
     q \<leftarrow> q;
     if i_status item \<noteq> SH_OK then Some (i_status item, 0, q)
     else do {
       off \<leftarrow> i_value item;
       m \<leftarrow> ub_mem b;
       n \<leftarrow> read_long m off;
       Some (SH_OK, word_of_int n, q) } }"

fun thread_step :: "long \<Rightarrow> long \<Rightarrow> thread \<Rightarrow> bench \<Rightarrow> (thread \<times> bench) option" where
  "thread_step iterations msg_size (Number i tot) b =
    Some (Adding i (tot + (b_input b + 1)) (b_input b + 1), b\<lparr>b_input := b_input b + 1\<rparr>)"
| "thread_step iterations msg_size (Adding i tot n) b = do {
     (st, q) \<leftarrow> add_message_of msg_size n (b_q b);
     if st = SH_OK then do {
       t \<leftarrow> next_number iterations (i + 1) tot;
       Some (t, b\<lparr>b_q := q\<rparr>) }
     else Some (Adding i tot n, b\<lparr>b_q := q, b_out := b_out b @ ''add failed'' @ newline\<rparr>) }"
| "thread_step iterations msg_size (Produced tot) b = Some (Finished, b\<lparr>b_verif := b_verif b + tot\<rparr>)"
| "thread_step iterations msg_size (Taking i tot) b = do {
     (st, n, q) \<leftarrow> take_message (b_q b);
     if st = SH_OK then do {
       t \<leftarrow> next_taking iterations (i + 1) (tot + n);
       Some (t, b\<lparr>b_q := q\<rparr>) }
     else if st = SH_ERR_EMPTY then Some (Taking i tot, b\<lparr>b_q := q\<rparr>)
     else Some (Taking i tot, b\<lparr>b_q := q, b_out := b_out b @ ''remove failed '' @ print_long (b_errno b) @ newline\<rparr>) }"
| "thread_step iterations msg_size (Consumed tot) b = Some (Finished, b\<lparr>b_output := b_output b + tot\<rparr>)"
| "thread_step iterations msg_size Finished b = Some (Finished, b)"

text \<open>A schedule names the thread that moves next; a name that is no thread is passed over.\<close>

fun bench_run :: "long \<Rightarrow> long \<Rightarrow> nat list \<Rightarrow> bench \<Rightarrow> bench option" where
  "bench_run iterations msg_size [] b = Some b"
| "bench_run iterations msg_size (k # ks) b =
    (if k < length (b_threads b)
     then do {
       (t, b) \<leftarrow> thread_step iterations msg_size (b_threads b ! k) b;
       bench_run iterations msg_size ks (b\<lparr>b_threads := (b_threads b)[k := t]\<rparr>) }
     else bench_run iterations msg_size ks b)"

text \<open>The threads \<open>main\<close> starts: \<open>thread_count\<close> for every processor, producers and consumers in turn.\<close>

definition thread_for :: "long \<Rightarrow> nat \<Rightarrow> nat \<Rightarrow> thread option" where
  "thread_for iterations i j =
    (if (odd j \<and> odd i) \<or> (even j \<and> even i) then next_number iterations 0 0 else next_taking iterations 0 0)"

definition threads_for :: "long \<Rightarrow> nat \<Rightarrow> nat \<Rightarrow> thread list" where
  "threads_for iterations cpu_count thread_count =
    concat (map (\<lambda>i. map (\<lambda>j. the (thread_for iterations i j)) [0..<thread_count]) [0..<cpu_count])"

section \<open>The program\<close>

text \<open>\<open>%lu\<close>, and the line of the time that has passed.\<close>

definition print_word :: "64 word \<Rightarrow> string" where
  "print_word w = print_long (uint w)"

definition time_line :: "timespec \<Rightarrow> timespec \<Rightarrow> string" where
  "time_line since until =
    (let diff = timespecsub until since
     in ''time:  '' @ print_long (tv_sec diff mod 2 ^ 64) @ ''.'' @
        pad_left 4 (CHR ''0'') (print_long (tv_nsec diff div 100000)) @ newline)"

definition sum_line :: "bench \<Rightarrow> string" where
  "sum_line b = ''input SUM[0..'' @ print_word (b_input b) @ '']='' @ print_word (b_verif b) @ '' output='' @
     print_word (b_output b) @ newline"

text \<open>The threads, after they have been started together, in the order of a schedule; \<open>main\<close> waits for all of
  them. A buffer of negative size is not to be had, and the first producer stops.\<close>

definition run_threads ::
  "long \<Rightarrow> long \<Rightarrow> nat \<Rightarrow> nat \<Rightarrow> nat list \<Rightarrow> int \<Rightarrow> timespec \<Rightarrow> timespec \<Rightarrow> desk \<Rightarrow> desk option" where
  "run_threads iterations msg_size cpu_count thread_count schedule err since until d = do {
     (result, q, fs, p) \<leftarrow> shr_q_create (d_fs d) (Some QNAME) INT_MAX SQ_READWRITE (d_proc d);
     if result \<noteq> SH_OK then do {
       (_, fs) \<leftarrow> shr_q_destroy fs QNAME None;
       Some (d\<lparr>d_fs := fs, d_out := d_out d @ ''unable to create queue, mutex, or cond'' @ newline\<rparr>) }
     else do {
       q \<leftarrow> q;
       _ \<leftarrow> (if msg_size < 0 then None else Some ());
       b \<leftarrow> bench_run iterations msg_size schedule
         \<lparr>b_q = q, b_input = 0, b_output = 0, b_verif = 0, b_out = d_out d,
          b_threads = threads_for iterations cpu_count thread_count, b_errno = err\<rparr>;
       if \<exists>t\<in>set (b_threads b). t \<noteq> Finished then None
       else do {
         (_, fs) \<leftarrow> shr_q_destroy fs QNAME (Some (b_q b));
         Some (d\<lparr>d_fs := fs, d_out := b_out b @ sum_line b @ time_line since until\<rparr>) } } }"

definition harness_main ::
  "int \<Rightarrow> nat list \<Rightarrow> int \<Rightarrow> timespec \<Rightarrow> timespec \<Rightarrow> string list \<Rightarrow> desk \<Rightarrow> (int \<times> desk) option" where
  "harness_main sys_cpu_count schedule err since until argv d =
    (let d = d\<lparr>d_fs := (d_fs d)(object_path QNAME := None)\<rparr>; argc = length argv
     in if argc < 4 \<or> argc > 5 then Some (1, d)
     else case (if argc = 5 then parse_arg_to_long (argv ! 4) 4 else Inr 32) of
       Inl msg \<Rightarrow> Some (0, say msg d)
     | Inr msg_size \<Rightarrow>
     (case parse_arg_to_long (argv ! 3) 3 of
       Inl msg \<Rightarrow> Some (0, say msg d)
     | Inr iterations \<Rightarrow>
     (case parse_arg_to_long (argv ! 2) 2 of
       Inl msg \<Rightarrow> Some (0, say msg d)
     | Inr thread_count \<Rightarrow>
     (case parse_arg_to_long (argv ! 1) 1 of
       Inl msg \<Rightarrow> Some (0, say msg d)
     | Inr cpu_arg \<Rightarrow>
       (let cpu_count = signed_take_bit 31 cpu_arg; tot = signed_take_bit 31 (cpu_count * thread_count)
        in if \<not> in_long (cpu_count * thread_count) then None
        else if cpu_count < 1 \<or> cpu_count > sys_cpu_count \<or> thread_count < 1 \<or> (tot > 1 \<and> odd tot) then Some (1, d)
        else if cpu_count = 1 \<and> thread_count = 1
        then do { d \<leftarrow> validate_basic_queue (signed_take_bit 31 iterations) d; Some (0, d) }
        else if tot \<noteq> cpu_count * thread_count then None
        else do {
          d \<leftarrow> run_threads iterations msg_size (nat cpu_count) (nat thread_count) schedule err since until d;
          Some (0, d) })))))"

end
