(* ===== verification/Benchmark.thy ===== *)
theory Benchmark
  imports Harness
begin

text \<open>
  What the benchmark \<open>Harness\<close> comes to, by the contracts of the public functions: the one thread gets back
  what it added; several threads always can finish, and the sums they compare are equal, whatever the order
  of their steps.
\<close>

section \<open>A client's handle\<close>

lemma os_n_holds: "queue_holds (s\<lparr>os_n := k\<rparr>) q evs \<longleftrightarrow> queue_holds s q evs"
  by (simp add: queue_holds_def queue_inv_def inv_def base_ok_def extent_ok_def calm_def quiet_def clock_ok_def obj_def)

lemma client_os_call:
  assumes "client_holds d l v (s, b) q" and "client_budget m (s, b)"
  obtains t where "os_call s = (None, t)" and "client_holds d l v (t, b) q" and "client_budget m (t, b)"
proof
  have "quiet s" using assms(1) holds_parts(8) by (auto simp: client_holds_def)
  then show "os_call s = (None, s\<lparr>os_n := Suc (os_n s)\<rparr>)" by (simp add: os_call_def quiet_def)
  show "client_holds d l v (s\<lparr>os_n := Suc (os_n s)\<rparr>, b) q" using assms(1) by (simp add: client_holds_def os_n_holds)
  show "client_budget m (s\<lparr>os_n := Suc (os_n s)\<rparr>, b)" using assms(2) by (simp add: client_budget_def room_def)
qed

text \<open>One value of bytes, added and removed.\<close>

lemma add_one:
  assumes h: "client_holds d False v (s, b) q" and x: "item_fits (Bytes bs)" and m: "client_budget (item_room (Bytes bs) + m) (s, b)"
    and "0 \<le> m" and "int (length q) < d"
  obtains t where "shr_q_add (Some s) (Some bs) (int (length bs)) = Some (SH_OK, Some t)"
    and "client_holds d False v (t, b) (q @ [Bytes bs])" and "client_budget m (t, b)"
proof -
  obtain c where c: "client_add shr_q_add shr_q_addv (Bytes bs) (s, b) = Some (SH_OK, c)"
    "client_holds d False v c (place False v q (Bytes bs))" "client_budget m c"
    using plain_calls.add_space [OF h x m assms(4,5)] by blast
  from c(1) obtain t where "shr_q_add (Some s) (Some bs) (int (length bs)) = Some (SH_OK, Some t)" "c = (t, b)"
    by (auto simp: client_add_def bind_eq_Some_conv)
  with c(2,3) show thesis by (intro that [of t]) (simp_all add: place_def)
qed

lemma take_one:
  assumes h: "client_holds d l v (s, b) (Bytes bs # q)" and m: "client_budget (8 + m) (s, b)" and "0 \<le> m"
  obtains item b' t mem off where "shr_q_remove (Some s) (Some b) = Some (item, Some b', Some t)"
    and "client_holds d l v (t, b') q" and "client_budget m (t, b')" and "i_status item = SH_OK" and "i_value item = Some off"
    and "ub_mem b' = Some mem" and "shows_bytes mem off bs"
proof -
  obtain item b' c where c: "client_remove shr_q_remove (s, b) = Some (item, b', c)" "client_delivered (Bytes bs) item b'"
    "client_holds d l v c q" "client_budget m c"
    using plain_calls.rem_some [OF h m assms(3)] by blast
  from c(1) obtain t where t: "shr_q_remove (Some s) (Some b) = Some (item, Some b', Some t)" "c = (t, b')"
    by (auto simp: client_remove_def bind_eq_Some_conv)
  from c(2) obtain mem off where "i_status item = SH_OK" "ub_mem b' = Some mem" "i_value item = Some off" "shows_bytes mem off bs"
    by (auto simp: client_delivered_def delivers_def)
  with t c(3,4) show thesis by (intro that) auto
qed

lemma take_none:
  assumes h: "client_holds d l v (s, b) []" and m: "client_budget m (s, b)" and "0 \<le> m"
  obtains t where "shr_q_remove (Some s) (Some b) = Some (empty_item SH_ERR_EMPTY, Some b, Some t)"
    and "client_holds d l v (t, b) []" and "client_budget m (t, b)"
proof -
  obtain evs where x: "queue_holds s [] evs" using h by (auto simp: client_holds_def)
  have pre: "ub_mem b = None \<or> 0 < ub_size b" "mode s AND SQ_READ_ONLY \<noteq> 0" using h by (simp_all add: client_holds_def)
  from deq_closing_gate.remove_nothing [OF deq_try_rem.deq_closing_gate_axioms x pre] obtain t where
    t: "remove_through (Some s) (Some b) deq_gate_try = Some (empty_item SH_ERR_EMPTY, Some b, Some t)" "untouched s [] evs t" by blast
  have "map snd [] = map payload_of []" "(0 :: int) \<le> 0" "client_budget (0 + m) (s, b)" using m by simp_all
  note rc = refused_client [OF h x this(1) t(2) this(2,3)]
  have "shr_q_remove (Some s) (Some b) = Some (empty_item SH_ERR_EMPTY, Some b, Some t)" using t(1) by (simp add: shr_q_remove_def)
  with rc show thesis by (intro that)
qed

lemma new_client:
  assumes "new_queue depth md p t" and "md = SQ_READWRITE" and "0 < depth" and "ubuf_ok b" and "ub_mem b = None \<or> 0 < ub_size b"
  shows "client_holds depth False 0 (t, b) []" and "0 \<le> m \<Longrightarrow> m \<le> 2 ^ 30 \<Longrightarrow> client_budget m (t, b)"
proof -
  have c: "cells t i = fresh_cells depth i" if "4 \<le> i" for i using assms(1,3) that by (simp add: new_queue_def)
  have w: "cells t MAX_DEPTH = depth" "cells t Layout.LEVEL = 0" "cells t FLAGS = 0" "cells t DATA_ALLOC = 176"
    by (simp add: c, simp add: fresh_cells_def)+
  have q: "queue_holds t [] []" "mode t = 3" using assms(1,2) by (simp_all add: new_queue_def)
  then show "client_holds depth False 0 (t, b) []" using assms(4,5) w by (auto simp: client_holds_def)
  have "sems t EVNT_SEM = 0" using holds_parts(5) [OF q(1)] by simp
  then show "client_budget m (t, b)" if "0 \<le> m" "m \<le> 2 ^ 30" using that w by (simp add: client_budget_def room_def)
qed

section \<open>Numbers in bytes\<close>

lemma shown_length:
  assumes "shows_bytes m off bs" and "bs \<noteq> []"
  shows "0 \<le> off \<and> off + int (length bs) \<le> int (length m)"
proof -
  have "take (length bs) (drop (nat off) m) = bs" "0 \<le> off" using assms(1) by (simp_all add: shows_bytes_def)
  then have "min (length m - nat off) (length bs) = length bs" by (metis length_take length_drop)
  moreover have "0 < length bs" using assms(2) by simp
  ultimately show ?thesis using \<open>0 \<le> off\<close> by linarith
qed

lemma shown_part:
  assumes "shows_bytes m off bs" and "i + n \<le> length bs"
  shows "take n (drop (nat (off + int i)) m) = take n (drop i bs)"
proof -
  have "take (length bs) (drop (nat off) m) = bs" "0 \<le> off" using assms(1) by (simp_all add: shows_bytes_def)
  then have "take n (drop i bs) = take n (drop i (take (length bs) (drop (nat off) m)))" by simp
  also have "\<dots> = take n (drop (nat (off + int i)) m)"
    using assms(2) \<open>0 \<le> off\<close> by (simp add: drop_take nat_add_distrib min_def add.commute)
  finally show ?thesis by simp
qed

lemma pitem_length [simp]: "length (pitem_bytes n) = 12" "length (int_bytes n) = 4"
  by (simp_all add: pitem_bytes_def int_bytes_def)

lemma read_id_shown:
  assumes "shows_bytes m off (pitem_bytes n)" and "0 \<le> n" and "n \<le> INT_MAX"
  shows "read_id m off = Some n"
proof -
  have "pitem_bytes n \<noteq> []" by (metis pitem_length(1) list.size(3) zero_neq_numeral)
  note l = shown_length [OF assms(1) this]
  have "take 4 (drop (nat (off + int 8)) m) = take 4 (drop 8 (pitem_bytes n))" by (rule shown_part [OF assms(1)]) simp
  also have "\<dots> = int_bytes n" by (simp add: pitem_bytes_def)
  finally have t: "take 4 (drop (nat (off + 8)) m) = int_bytes n" by simp
  have "le_value (int_bytes n) = n" unfolding int_bytes_def le_value_slot_bytes using assms(2,3) by simp
  then show ?thesis using l assms(2,3) by (simp add: read_id_def t signed_take_bit_int_eq_self)
qed

lemma message_length: "8 \<le> msg \<Longrightarrow> int (length (message msg n)) = msg"
  by (simp add: message_def)

lemma read_message_shown:
  assumes "shows_bytes m off (message msg n)" and "8 \<le> msg"
  shows "read_long m off = Some (sint n)"
proof -
  have l: "int (length (message msg n)) = msg" by (rule message_length [OF assms(2)])
  then have "message msg n \<noteq> []" using assms(2) by auto
  note b = shown_length [OF assms(1) this]
  have "take 8 (drop (nat (off + int 0)) m) = take 8 (drop 0 (message msg n))" by (rule shown_part [OF assms(1)]) (use l assms(2) in simp)
  then have "take 8 (drop (nat off) m) = slot_bytes (sint n)" by (simp add: message_def)
  moreover have "wrap64 (sint n) = sint n" using sint_range_size [of n] by (intro wrap64_id) (simp add: in_long_def word_size)
  ultimately show ?thesis using b l assms(2) by (simp add: read_long_def)
qed

section \<open>One thread\<close>

definition basic_item :: "int \<Rightarrow> request_item" where
  "basic_item n = Bytes (pitem_bytes n)"

lemma basic_item_fits: "item_fits (basic_item n)" "item_room (basic_item n) = 38"
proof -
  have "pitem_bytes n \<noteq> []" by (metis pitem_length(1) list.size(3) zero_neq_numeral)
  then show "item_fits (basic_item n)" "item_room (basic_item n) = 38"
    by (simp_all add: basic_item_def slots_of_def value_room_def)
qed

definition round_lines :: "string \<Rightarrow> int list \<Rightarrow> string" where
  "round_lines str ns = concat (map (\<lambda>n. str @ print_long n @ newline) ns)"

lemma upto_Suc: "[i + 1..i + int (Suc n)] = (i + 1) # [(i + 1) + 1..(i + 1) + int n]"
  by (subst upto_rec1) (simp_all add: algebra_simps)

lemma basic_adds_ok:
  assumes "client_holds d False v (s, b) q" and "client_budget (38 * int n + m) (s, b)" and "0 \<le> m" and "int (length q) + int n \<le> d"
  shows "\<exists>t. basic_adds n i r s out = Some (if n = 0 then r else SH_OK, t, out @ round_lines ''enqueue successful id: '' [i + 1..i + int n]) \<and>
    client_holds d False v (t, b) (q @ map basic_item [i + 1..i + int n]) \<and> client_budget m (t, b)"
  using assms
proof (induction n arbitrary: i r s q out)
  case 0
  then show ?case by (simp add: round_lines_def)
next
  case (Suc n)
  obtain s1 where s1: "os_call s = (None, s1)" "client_holds d False v (s1, b) q" "client_budget (38 * int (Suc n) + m) (s1, b)"
    by (rule client_os_call [OF Suc.prems(1,2)])
  have m: "client_budget (item_room (Bytes (pitem_bytes (i + 1))) + (38 * int n + m)) (s1, b)"
    using s1(3) basic_item_fits(2) [of "i + 1"] by (simp add: basic_item_def algebra_simps)
  have nn: "0 \<le> 38 * int n + m" "int (length q) < d" using Suc.prems(3,4) by simp_all
  obtain s2 where s2: "shr_q_add (Some s1) (Some (pitem_bytes (i + 1))) (int (length (pitem_bytes (i + 1)))) = Some (SH_OK, Some s2)"
    "client_holds d False v (s2, b) (q @ [basic_item (i + 1)])" "client_budget (38 * int n + m) (s2, b)"
    using add_one [OF s1(2) _ m nn] basic_item_fits(1) [of "i + 1"] unfolding basic_item_def by blast
  have d: "int (length (q @ [basic_item (i + 1)])) + int n \<le> d" using Suc.prems(4) by simp
  from Suc.IH [OF s2(2,3) Suc.prems(3) d, of "i + 1" SH_OK "out @ ''enqueue successful id: '' @ print_long (i + 1) @ newline"]
  show ?case using s1(1) s2(1) unfolding upto_Suc by (auto simp: round_lines_def)
qed

lemma basic_removes_ok:
  assumes "client_holds d l v (s, b) (map basic_item [i + 1..i + int n])" and "client_budget (8 * int n + m) (s, b)"
    and "0 \<le> m" and "0 \<le> i" and "i + int n \<le> INT_MAX"
  shows "\<exists>b' t. basic_removes n b s out = Some (b', t, out @ round_lines ''dequeue successful id: '' [i + 1..i + int n]) \<and>
    client_holds d l v (t, b') [] \<and> client_budget m (t, b')"
  using assms
proof (induction n arbitrary: i s b out)
  case 0
  then show ?case by (simp add: round_lines_def)
next
  case (Suc n)
  have q: "map basic_item [i + 1..i + int (Suc n)] = Bytes (pitem_bytes (i + 1)) # map basic_item [(i + 1) + 1..(i + 1) + int n]"
    unfolding upto_Suc by (simp add: basic_item_def)
  have m: "client_budget (8 + (8 * int n + m)) (s, b)" "0 \<le> 8 * int n + m" using Suc.prems(2,3) by (simp_all add: algebra_simps)
  obtain item b1 s1 mem off where s1: "shr_q_remove (Some s) (Some b) = Some (item, Some b1, Some s1)"
    "client_holds d l v (s1, b1) (map basic_item [(i + 1) + 1..(i + 1) + int n])" "client_budget (8 * int n + m) (s1, b1)"
    "i_status item = SH_OK" "i_value item = Some off" "ub_mem b1 = Some mem" "shows_bytes mem off (pitem_bytes (i + 1))"
    by (rule take_one [OF Suc.prems(1) [unfolded q] m])
  have "read_id mem off = Some (i + 1)" by (rule read_id_shown [OF s1(7)]) (use Suc.prems(4,5) in simp_all)
  then have step: "basic_removes (Suc n) b s out = basic_removes n b1 s1 (out @ (''dequeue successful id: '' @ print_long (i + 1)) @ newline)"
    using s1(1,4-6) by simp
  have i: "0 \<le> i + 1" "i + 1 + int n \<le> INT_MAX" using Suc.prems(4,5) by simp_all
  from Suc.IH [OF s1(2,3) Suc.prems(3) i, of "out @ (''dequeue successful id: '' @ print_long (i + 1)) @ newline"]
  show ?case unfolding step upto_Suc by (auto simp: round_lines_def)
qed

lemma basic_rounds_ok:
  assumes "client_holds depth False v (s, b) []" and "client_budget (46 * int n * int j + m) (s, b)" and "0 \<le> m"
    and "int n \<le> depth" and "int n \<le> INT_MAX"
  shows "\<exists>t c. basic_rounds j n SH_OK b s out =
      Some (t, out @ concat (replicate j (round_lines ''enqueue successful id: '' [1..int n] @ round_lines ''dequeue successful id: '' [1..int n]))) \<and>
    client_holds depth False v (t, c) [] \<and> client_budget m (t, c)"
  using assms
proof (induction j arbitrary: s b out)
  case 0
  then show ?case by auto
next
  case (Suc j)
  have m: "client_budget (38 * int n + (8 * int n + (46 * int n * int j + m))) (s, b)" "0 \<le> 46 * int n * int j + m"
    "0 \<le> 8 * int n + (46 * int n * int j + m)"
    using Suc.prems(2,3) by (simp_all add: algebra_simps)
  let ?o1 = "out @ round_lines ''enqueue successful id: '' [0 + 1..0 + int n]"
  obtain r s1 where s1: "basic_adds n 0 SH_OK s out = Some (r, s1, ?o1)" "r = SH_OK"
    "client_holds depth False v (s1, b) (map basic_item [0 + 1..0 + int n])" "client_budget (8 * int n + (46 * int n * int j + m)) (s1, b)"
    using basic_adds_ok [OF Suc.prems(1) m(1,3), of 0 SH_OK out] Suc.prems(4) by auto
  obtain b2 s2 where s2: "basic_removes n b s1 ?o1 = Some (b2, s2, ?o1 @ round_lines ''dequeue successful id: '' [0 + 1..0 + int n])"
    "client_holds depth False v (s2, b2) []" "client_budget (46 * int n * int j + m) (s2, b2)"
    using basic_removes_ok [OF s1(3,4) m(2), of ?o1] Suc.prems(5) by auto
  from Suc.IH [OF s2(2,3) Suc.prems(3-5), of "?o1 @ round_lines ''dequeue successful id: '' [0 + 1..0 + int n]"]
  show ?case using s1(1,2) s2(1) by auto
qed

lemma qname: "good_name QNAME"
  by (simp add: good_name_def QNAME_def NUL_def)

lemma basic_queue_run:
  assumes "d_fs d (object_path QNAME) = None" and "quiet (d_proc d)" and "clock_ok (d_proc d)" and "0 \<le> limit" and "limit \<le> 10000000"
  shows "validate_basic_queue limit d = Some (d\<lparr>d_out := d_out d @
    concat (replicate 2 (round_lines ''enqueue successful id: '' [1..limit] @ round_lines ''dequeue successful id: '' [1..limit]))\<rparr>)"
proof -
  let ?depth = "if limit = 0 then SEM_VALUE_MAX else limit"
  have nm: "NUL \<notin> set QNAME" "QNAME \<noteq> []" "length QNAME \<le> 4096" using qname by (simp_all add: good_name_def)
  have l: "limit mod 2 ^ 32 = limit" "0 \<le> limit" "limit \<le> SEM_VALUE_MAX" using assms(4,5) by simp_all
  obtain t where t: "shr_q_create (d_fs d) (Some QNAME) limit SQ_READWRITE (d_proc d) =
      Some (SH_OK, Some t, (d_fs d)(object_path QNAME := Some (detach t)), t)" "new_queue limit SQ_READWRITE (d_proc d) t"
    by (rule create_run [where fs = "d_fs d" and nm = QNAME, OF assms(2,3) nm assms(1) l(2,3)])
  have nq: "new_queue ?depth SQ_READWRITE (d_proc d) t" using t(2) by (simp add: new_queue_def)
  have b: "ubuf_ok no_buffer" "ub_mem no_buffer = None \<or> 0 < ub_size no_buffer" by (simp_all add: no_buffer_def ubuf_ok_def)
  have c: "client_holds ?depth False 0 (t, no_buffer) []" "client_budget (46 * int (nat limit) * int 2 + 0) (t, no_buffer)"
    using new_client [OF nq refl _ b] assms(4,5) by simp_all
  have le: "int (nat limit) \<le> ?depth" "int (nat limit) \<le> INT_MAX" using assms(4,5) by simp_all
  obtain u c where u: "basic_rounds 2 (nat limit) SH_OK no_buffer t (d_out d) = Some (u, d_out d @
      concat (replicate 2 (round_lines ''enqueue successful id: '' [1..limit] @ round_lines ''dequeue successful id: '' [1..limit])))"
    "client_holds ?depth False 0 (u, c) []"
    using basic_rounds_ok [OF c order_refl le, of "d_out d"] assms(4) by auto
  obtain xs evs where q: "queue_holds u xs evs" using u(2) by (auto simp: client_holds_def)
  have d: "shr_q_destroy ((d_fs d)(object_path QNAME := Some (detach t))) QNAME (Some u) = Some (SH_OK, d_fs d)"
    using destroy_run [where fs = "(d_fs d)(object_path QNAME := Some (detach t))" and nm = QNAME, OF q] assms(1) by (simp add: fun_upd_idem)
  show ?thesis using t(1) u(1) d unfolding validate_basic_queue_def l(1) by (cases d) simp
qed

section \<open>Accounts of the threads\<close>

text \<open>Additions and removals a thread still has to make, numbers it still has to take, the sum of the numbers a
  producer has taken, of those a consumer has received, and the number on its way into the queue.\<close>

fun adds_left :: "nat \<Rightarrow> thread \<Rightarrow> nat" where
  "adds_left n (Number i t) = n - nat i"
| "adds_left n (Adding i t x) = n - nat i"
| "adds_left n _ = 0"

fun takes_left :: "nat \<Rightarrow> thread \<Rightarrow> nat" where
  "takes_left n (Taking i t) = n - nat i"
| "takes_left n _ = 0"

fun numbers_left :: "nat \<Rightarrow> thread \<Rightarrow> nat" where
  "numbers_left n (Number i t) = n - nat i"
| "numbers_left n (Adding i t x) = n - Suc (nat i)"
| "numbers_left n _ = 0"

fun sent :: "thread \<Rightarrow> 64 word" where
  "sent (Number i t) = t"
| "sent (Adding i t x) = t"
| "sent (Produced t) = t"
| "sent _ = 0"

fun received :: "thread \<Rightarrow> 64 word" where
  "received (Adding i t x) = x"
| "received (Taking i t) = t"
| "received (Consumed t) = t"
| "received _ = 0"

fun steps_left :: "nat \<Rightarrow> thread \<Rightarrow> nat" where
  "steps_left n (Number i t) = 2 * (n - nat i) + 1"
| "steps_left n (Adding i t x) = 2 * (n - nat i)"
| "steps_left n (Produced t) = 1"
| "steps_left n (Taking i t) = n - nat i + 1"
| "steps_left n (Consumed t) = 1"
| "steps_left n Finished = 0"

fun in_loop :: "nat \<Rightarrow> thread \<Rightarrow> bool" where
  "in_loop n (Number i t) \<longleftrightarrow> 0 \<le> i \<and> i < int n"
| "in_loop n (Adding i t x) \<longleftrightarrow> 0 \<le> i \<and> i < int n"
| "in_loop n (Taking i t) \<longleftrightarrow> 0 \<le> i \<and> i < int n"
| "in_loop n _ \<longleftrightarrow> True"

definition over :: "(thread \<Rightarrow> 'a::comm_monoid_add) \<Rightarrow> bench \<Rightarrow> 'a" where
  "over f b = sum_list (map f (b_threads b))"

lemma sum_list_replace:
  fixes f :: "'b \<Rightarrow> 'a::comm_monoid_add"
  shows "k < length xs \<Longrightarrow> sum_list (map f (xs[k := y])) + f (xs ! k) = sum_list (map f xs) + f y"
proof (induction xs arbitrary: k)
  case (Cons x xs)
  then show ?case by (cases k) (simp_all add: ac_simps)
qed simp

lemma over_replace:
  assumes "b_threads b' = (b_threads b)[k := t]" and "k < length (b_threads b)"
  shows "over f b' + f (b_threads b ! k) = over f b + f t"
  using sum_list_replace [OF assms(2)] assms(1) by (simp add: over_def)

lemma over_member: "k < length (b_threads b) \<Longrightarrow> (f (b_threads b ! k) :: nat) \<le> over f b"
  by (simp add: over_def member_le_sum_list)

text \<open>The sum of the first numbers.\<close>

definition sum_to :: "nat \<Rightarrow> 64 word" where
  "sum_to m = (\<Sum>i\<le>m. of_nat i)"

text \<open>What the accounts say, with the queue's contents.\<close>

definition books :: "nat \<Rightarrow> long \<Rightarrow> nat \<Rightarrow> string \<Rightarrow> 64 word list \<Rightarrow> bench \<Rightarrow> bool" where
  "books n msg m out nums b \<longleftrightarrow>
     client_holds INT_MAX False 0 (b_q b, no_buffer) (map (\<lambda>x. Bytes (message msg x)) nums) \<and>
     client_budget ((value_room msg + 12) * int (over (adds_left n) b) + 8 * int (length nums)) (b_q b, no_buffer) \<and>
     (\<forall>t\<in>set (b_threads b). in_loop n t) \<and>
     length nums + over (adds_left n) b = over (takes_left n) b \<and> int (over (takes_left n) b) \<le> INT_MAX \<and>
     over (numbers_left n) b \<le> m \<and> b_input b = of_nat (m - over (numbers_left n) b) \<and>
     over sent b + b_verif b = sum_to (m - over (numbers_left n) b) \<and>
     over received b + b_output b + sum_list nums = over sent b + b_verif b \<and> b_out b = out"

lemma sum_to_Suc: "sum_to (Suc m) = sum_to m + of_nat (Suc m)"
  by (simp add: sum_to_def)

lemma no_buffer_ok: "ubuf_ok no_buffer" "ub_mem no_buffer = None \<or> 0 < ub_size no_buffer"
  by (simp_all add: no_buffer_def ubuf_ok_def)

lemma client_no_buffer:
  "client_holds d l v (s, b) q \<Longrightarrow> client_holds d l v (s, no_buffer) q" "client_budget m (s, b) \<Longrightarrow> client_budget m (s, no_buffer)"
  using no_buffer_ok by (auto simp: client_holds_def client_budget_def)

lemma message_fits:
  assumes "8 \<le> msg" and "msg \<le> 2 ^ 30"
  shows "item_fits (Bytes (message msg x))" and "item_room (Bytes (message msg x)) = value_room msg + 4"
proof -
  have l: "int (length (message msg x)) = msg" by (rule message_length [OF assms(1)])
  moreover from l have "message msg x \<noteq> []" using assms(1) by auto
  moreover have "7 + slots_of msg \<le> 2 ^ 30" using assms by (simp add: slots_of_def)
  ultimately show "item_fits (Bytes (message msg x))" "item_room (Bytes (message msg x)) = value_room msg + 4" by simp_all
qed

lemma shift: "x' + u = x + t \<Longrightarrow> t + v' = u + v \<Longrightarrow> x' + v' = x + (v :: 'a::ab_group_add)"
  by (metis (no_types, opaque_lifting) add.assoc add.commute add_left_cancel)

lemma balance:
  fixes x :: "'a::ab_group_add"
  assumes "x' + u = x + t" and "y' + gu = y + gt" and "t + o' + n' + (gu + v) = u + o1 + n + (gt + v')" and "x + o1 + n = y + v"
  shows "x' + o' + n' = y' + v'"
proof -
  have e: "x' = x + t - u" "y' = y + gt - gu" using assms(1,2) by (simp_all add: eq_diff_eq)
  have y: "y = x + o1 + n - v" using assms(4) by (simp add: eq_diff_eq)
  have n: "n' = u + o1 + n + (gt + v') - (t + o' + (gu + v))" using assms(3) by (simp add: eq_diff_eq ac_simps)
  show ?thesis unfolding e n unfolding y by (simp add: algebra_simps)
qed

text \<open>A step in which the accounts of one thread change, and nothing else but the sums named.\<close>

lemma books_replace:
  assumes bk: "books n msg m out nums b" and k: "k < length (b_threads b)" and t: "b_threads b' = (b_threads b)[k := t]" "in_loop n t"
    and o: "b_out b' = b_out b" and u: "u = b_threads b ! k"
    and holds: "client_holds INT_MAX False 0 (b_q b', no_buffer) (map (\<lambda>x. Bytes (message msg x)) nums')"
    and budget: "client_budget ((value_room msg + 12) * int (over (adds_left n) b') + 8 * int (length nums')) (b_q b', no_buffer)"
    and cnt: "length nums' + adds_left n t + takes_left n u = length nums + adds_left n u + takes_left n t" "takes_left n t \<le> takes_left n u"
    and num: "numbers_left n t = numbers_left n u \<and> b_input b' = b_input b \<and> sent t + b_verif b' = sent u + b_verif b \<or>
      numbers_left n u = Suc (numbers_left n t) \<and> b_input b' = b_input b + 1 \<and> sent t = sent u + b_input b' \<and> b_verif b' = b_verif b"
    and got: "received t + b_output b' + sum_list nums' + (sent u + b_verif b) = received u + b_output b + sum_list nums + (sent t + b_verif b')"
  shows "books n msg m out nums' b'"
proof -
  note r = over_replace [OF t(1) k]
  note old = bk [unfolded books_def]
  have a: "over (adds_left n) b' + adds_left n u = over (adds_left n) b + adds_left n t"
    and c: "over (takes_left n) b' + takes_left n u = over (takes_left n) b + takes_left n t"
    and g: "over (numbers_left n) b' + numbers_left n u = over (numbers_left n) b + numbers_left n t"
    and gv: "over sent b' + sent u = over sent b + sent t" and gt: "over received b' + received u = over received b + received t"
    using r [of "adds_left n"] r [of "takes_left n"] r [of "numbers_left n"] r [of sent] r [of received] u by simp_all
  have lp: "\<forall>x\<in>set (b_threads b'). in_loop n x" using old t by (auto dest: set_update_subset_insert [THEN subsetD])
  have len: "length nums' + over (adds_left n) b' = over (takes_left n) b'"
    "int (over (takes_left n) b') \<le> INT_MAX" using old a c cnt by linarith+
  have gt2: "over received b' + b_output b' + sum_list nums' = over sent b' + b_verif b'"
  proof -
    have "over received b + b_output b + sum_list nums = over sent b + b_verif b" using old by simp
    then show ?thesis by (rule balance [OF gt gv got])
  qed
  show ?thesis
  proof (cases "numbers_left n u = Suc (numbers_left n t)")
    case True
    then have e: "b_input b' = b_input b + 1" "sent t = sent u + b_input b'" "b_verif b' = b_verif b" using num by auto
    have s: "over (numbers_left n) b = Suc (over (numbers_left n) b')" using g True by simp
    moreover have "over (numbers_left n) b \<le> m" using old by simp
    ultimately have m: "m - over (numbers_left n) b' = Suc (m - over (numbers_left n) b)" by arith
    have i: "b_input b' = of_nat (Suc (m - over (numbers_left n) b))" using e(1) old by simp
    have "over sent b' = over sent b + b_input b'" using gv e(2) by (simp add: algebra_simps)
    then have "over sent b' + b_verif b' = sum_to (Suc (m - over (numbers_left n) b))" using old e(3) unfolding sum_to_Suc i by (simp add: algebra_simps)
    then show ?thesis unfolding books_def using holds budget lp len gt2 old o m i s by simp
  next
    case False
    then have e: "numbers_left n t = numbers_left n u" "b_input b' = b_input b" "sent t + b_verif b' = sent u + b_verif b" using num by auto
    have s: "over (numbers_left n) b' = over (numbers_left n) b" using g e(1) by simp
    have "over sent b' + b_verif b' = over sent b + b_verif b"
      by (rule shift [OF gv e(3)])
    then show ?thesis unfolding books_def using holds budget lp len gt2 old o s e(2) by simp
  qed
qed

text \<open>One step of one thread keeps the accounts, and brings it nearer to its end unless it finds the queue
  empty or has returned.\<close>

definition books_step :: "nat \<Rightarrow> long \<Rightarrow> nat \<Rightarrow> string \<Rightarrow> 64 word list \<Rightarrow> bench \<Rightarrow> nat \<Rightarrow> (thread \<times> bench) option \<Rightarrow> bool" where
  "books_step n msg m out nums b k r \<longleftrightarrow> (\<exists>t b' nums'. r = Some (t, b') \<and> b_threads b' = b_threads b \<and>
     books n msg m out nums' (b'\<lparr>b_threads := (b_threads b)[k := t]\<rparr>) \<and>
     (steps_left n t < steps_left n (b_threads b ! k) \<or> t = Finished \<or> nums = [] \<and> t = b_threads b ! k \<and> (\<exists>i x. t = Taking i x)))"

lemma books_stepI:
  assumes "books n msg m out nums b" and "k < length (b_threads b)" and "u = b_threads b ! k" and "r = Some (t, b')"
    and "b_threads b' = b_threads b" and "b_out b' = b_out b" and "in_loop n t"
    and "client_holds INT_MAX False 0 (b_q b', no_buffer) (map (\<lambda>x. Bytes (message msg x)) nums')"
    and "client_budget ((value_room msg + 12) * (int (over (adds_left n) b) + int (adds_left n t) - int (adds_left n u)) + 8 * int (length nums')) (b_q b', no_buffer)"
    and "length nums' + adds_left n t + takes_left n u = length nums + adds_left n u + takes_left n t" and "takes_left n t \<le> takes_left n u"
    and "numbers_left n t = numbers_left n u \<and> b_input b' = b_input b \<and> sent t + b_verif b' = sent u + b_verif b \<or>
      numbers_left n u = Suc (numbers_left n t) \<and> b_input b' = b_input b + 1 \<and> sent t = sent u + b_input b' \<and> b_verif b' = b_verif b"
    and "received t + b_output b' + sum_list nums' + (sent u + b_verif b) = received u + b_output b + sum_list nums + (sent t + b_verif b')"
    and "steps_left n t < steps_left n u \<or> t = Finished \<or> nums = [] \<and> t = u \<and> (\<exists>i x. t = Taking i x)"
  shows "books_step n msg m out nums b k r"
proof -
  let ?b = "b'\<lparr>b_threads := (b_threads b)[k := t]\<rparr>"
  have a: "int (over (adds_left n) ?b) = int (over (adds_left n) b) + int (adds_left n t) - int (adds_left n u)"
    using over_replace [of ?b b k t "adds_left n"] assms(2,3) by simp
  have "books n msg m out nums' ?b"
    by (rule books_replace [OF assms(1,2), where t = t and u = u]) (use assms(3-13) a in simp_all)
  then show ?thesis using assms(3-5,14) unfolding books_step_def by blast
qed

lemma thread_step_books:
  assumes bk: "books n msg m out nums b" and k: "k < length (b_threads b)" and N: "nat iterations = n" "iterations \<le> INT_MAX"
    and msg: "8 \<le> msg" "msg \<le> 2 ^ 30"
  shows "books_step n msg m out nums b k (thread_step iterations msg (b_threads b ! k) b)"
proof -
  note old = bk [unfolded books_def]
  have h: "client_holds INT_MAX False 0 (b_q b, no_buffer) (map (\<lambda>x. Bytes (message msg x)) nums)"
    and bud: "client_budget ((value_room msg + 12) * int (over (adds_left n) b) + 8 * int (length nums)) (b_q b, no_buffer)"
    using old by simp_all
  have lp: "in_loop n (b_threads b ! k)" using old k by simp
  have vr: "0 \<le> value_room msg" using msg(1) by (simp add: value_room_def slots_of_def)
  note I = books_stepI [OF bk k]
  show ?thesis
  proof (cases "b_threads b ! k")
    case (Number i t)
    have i: "0 \<le> i" "i < int n" using lp Number by simp_all
    then have "n - nat i = Suc (n - Suc (nat i))" by linarith
    then show ?thesis
      by (intro I [where u = "Number i t" and t = "Adding i (t + (b_input b + 1)) (b_input b + 1)" and
            b' = "b\<lparr>b_input := b_input b + 1\<rparr>" and nums' = nums]) (use Number h bud i in \<open>simp_all add: algebra_simps\<close>)
  next
    case (Adding i t x)
    have i: "0 \<le> i" "i < int n" using lp Adding by simp_all
    then have it: "iterations = int n" using N(1) by linarith
    have n: "n - nat i = Suc (n - nat (i + 1))" "n - Suc (nat i) = n - nat (i + 1)" using i by linarith+
    have A: "n - nat i \<le> over (adds_left n) b" using over_member [OF k, of "adds_left n"] Adding by simp
    let ?r = "(value_room msg + 12) * (int (over (adds_left n) b) - 1) + 8 * (int (length nums) + 1)"
    have b1: "client_budget (item_room (Bytes (message msg x)) + ?r) (b_q b, no_buffer)"
      using bud unfolding message_fits(2) [OF msg] by (simp add: algebra_simps)
    have "1 \<le> int (over (adds_left n) b)" using A n(1) by linarith
    then have r: "0 \<le> ?r" using vr by simp
    have len: "int (length (map (\<lambda>x. Bytes (message msg x)) nums)) < INT_MAX" using old A n(1) by simp
    obtain q where q: "shr_q_add (Some (b_q b)) (Some (message msg x)) (int (length (message msg x))) = Some (SH_OK, Some q)"
      "client_holds INT_MAX False 0 (q, no_buffer) (map (\<lambda>x. Bytes (message msg x)) nums @ [Bytes (message msg x)])"
      "client_budget ?r (q, no_buffer)"
      by (rule add_one [OF h message_fits(1) [OF msg] b1 r len])
    let ?t = "if i + 1 < iterations then Number (i + 1) t else Produced t"
    have step: "thread_step iterations msg (b_threads b ! k) b = Some (?t, b\<lparr>b_q := q\<rparr>)"
      using Adding q(1) msg(1) i it N(2) by (simp add: add_message_of_def message_length next_number_def)
    have l: "adds_left n ?t = n - nat (i + 1)" "takes_left n ?t = 0" "numbers_left n ?t = n - nat (i + 1)" "sent ?t = t" "received ?t = 0"
      "in_loop n ?t" "steps_left n ?t < 2 * (n - nat i)"
      using i it n by auto
    have "int (over (adds_left n) b) + int (adds_left n ?t) - int (n - nat i) = int (over (adds_left n) b) - 1" using l(1) n(1) by simp
    then show ?thesis
      by (intro I [where u = "Adding i t x" and t = ?t and b' = "b\<lparr>b_q := q\<rparr>" and nums' = "nums @ [x]"])
        (use Adding step q(2,3) l n in \<open>simp_all add: algebra_simps\<close>)
  next
    case (Produced t)
    then show ?thesis
      by (intro I [where u = "Produced t" and t = Finished and b' = "b\<lparr>b_verif := b_verif b + t\<rparr>" and nums' = nums])
        (use h bud in \<open>simp_all add: algebra_simps\<close>)
  next
    case (Consumed t)
    then show ?thesis
      by (intro I [where u = "Consumed t" and t = Finished and b' = "b\<lparr>b_output := b_output b + t\<rparr>" and nums' = nums])
        (use h bud in \<open>simp_all add: algebra_simps\<close>)
  next
    case Finished
    then show ?thesis
      by (intro I [where u = Finished and t = Finished and b' = b and nums' = nums]) (use h bud in simp_all)
  next
    case (Taking i t)
    have i: "0 \<le> i" "i < int n" using lp Taking by simp_all
    then have it: "iterations = int n" using N(1) by linarith
    have n: "n - nat i = Suc (n - nat (i + 1))" using i by linarith
    let ?r = "(value_room msg + 12) * int (over (adds_left n) b)"
    have r: "0 \<le> ?r" using vr by simp
    show ?thesis
    proof (cases nums)
      case Nil
      have b0: "client_budget ?r (b_q b, no_buffer)" using bud Nil by simp
      obtain q where q: "shr_q_remove (Some (b_q b)) (Some no_buffer) = Some (empty_item SH_ERR_EMPTY, Some no_buffer, Some q)"
        "client_holds INT_MAX False 0 (q, no_buffer) []" "client_budget ?r (q, no_buffer)"
        by (rule take_none [OF h [unfolded Nil list.map] b0 r])
      show ?thesis
        by (intro I [where u = "Taking i t" and t = "Taking i t" and b' = "b\<lparr>b_q := q\<rparr>" and nums' = "[]"])
          (use Taking Nil q i in \<open>simp_all add: take_message_def empty_item_def\<close>)
    next
      case (Cons y ys)
      let ?s = "?r + 8 * int (length ys)"
      have b1: "client_budget (8 + ?s) (b_q b, no_buffer)" and s: "0 \<le> ?s" using bud Cons r by (simp_all add: algebra_simps)
      obtain item b2 q mem off where q: "shr_q_remove (Some (b_q b)) (Some no_buffer) = Some (item, Some b2, Some q)"
        "client_holds INT_MAX False 0 (q, b2) (map (\<lambda>x. Bytes (message msg x)) ys)" "client_budget ?s (q, b2)" "i_status item = SH_OK"
        "i_value item = Some off" "ub_mem b2 = Some mem" "shows_bytes mem off (message msg y)"
        by (rule take_one [OF h [unfolded Cons list.map] b1 s])
      let ?t = "if i + 1 < iterations then Taking (i + 1) (t + y) else Consumed (t + y)"
      have "take_message (b_q b) = Some (SH_OK, y, q)"
        using q(1,4-6) read_message_shown [OF q(7) msg(1)] by (simp add: take_message_def)
      then have step: "thread_step iterations msg (b_threads b ! k) b = Some (?t, b\<lparr>b_q := q\<rparr>)"
        using Taking i it N(2) by (simp add: next_taking_def)
      have l: "adds_left n ?t = 0" "takes_left n ?t = n - nat (i + 1)" "numbers_left n ?t = 0" "sent ?t = 0" "received ?t = t + y"
        "in_loop n ?t" "steps_left n ?t < n - nat i + 1"
        using i it n by auto
      show ?thesis
        by (intro I [where u = "Taking i t" and t = ?t and b' = "b\<lparr>b_q := q\<rparr>" and nums' = ys])
          (use Taking Cons step client_no_buffer(1) [OF q(2)] client_no_buffer(2) [OF q(3)] l n in \<open>simp_all add: algebra_simps\<close>)
    qed
  qed
qed

section \<open>All threads\<close>

lemma bench_run_append:
  "bench_run iterations msg (ks @ js) b = (case bench_run iterations msg ks b of None \<Rightarrow> None | Some c \<Rightarrow> bench_run iterations msg js c)"
proof (induction ks arbitrary: b)
  case (Cons k ks)
  show ?case
  proof (cases "k < length (b_threads b)")
    case True
    then show ?thesis by (cases "thread_step iterations msg (b_threads b ! k) b") (auto simp: Cons.IH)
  next
    case False
    then show ?thesis by (simp add: Cons.IH)
  qed
qed simp

lemma bench_run_books:
  assumes "books n msg m out nums b" and "nat iterations = n" and "iterations \<le> INT_MAX" and "8 \<le> msg" and "msg \<le> 2 ^ 30"
  shows "\<exists>c nums'. bench_run iterations msg ks b = Some c \<and> books n msg m out nums' c"
  using assms(1)
proof (induction ks arbitrary: b nums)
  case Nil
  then show ?case by auto
next
  case (Cons k ks)
  show ?case
  proof (cases "k < length (b_threads b)")
    case True
    obtain t b' nums' where s: "thread_step iterations msg (b_threads b ! k) b = Some (t, b')" "b_threads b' = b_threads b"
      "books n msg m out nums' (b'\<lparr>b_threads := (b_threads b)[k := t]\<rparr>)"
      using thread_step_books [OF Cons.prems True assms(2-5)] unfolding books_step_def by blast
    from Cons.IH [OF s(3)] s(1,2) True show ?thesis by simp
  next
    case False
    with Cons.IH [OF Cons.prems] show ?thesis by simp
  qed
qed

definition all_done :: "bench \<Rightarrow> bool" where
  "all_done b \<longleftrightarrow> (\<forall>t\<in>set (b_threads b). t = Finished)"

lemma over_zero: "(\<And>t. t \<in> set (b_threads b) \<Longrightarrow> f t = 0) \<Longrightarrow> over f b = 0" for f :: "thread \<Rightarrow> 'a::comm_monoid_add"
proof -
  assume "\<And>t. t \<in> set (b_threads b) \<Longrightarrow> f t = 0"
  then have "map f (b_threads b) = map (\<lambda>_. 0) (b_threads b)" by simp
  then show ?thesis by (simp only: over_def sum_list_0)
qed

lemma books_done:
  assumes "books n msg m out nums b" and "all_done b"
  shows "nums = []" and "b_input b = of_nat m" and "b_verif b = sum_to m" and "b_output b = sum_to m" and "b_out b = out"
proof -
  have z: "over (adds_left n) b = 0" "over (takes_left n) b = 0" "over (numbers_left n) b = 0" "over sent b = 0" "over received b = 0"
    using assms(2) by (auto intro!: over_zero simp: all_done_def)
  note bk = assms(1) [unfolded books_def z]
  show "nums = []" using bk by simp
  with bk show "b_input b = of_nat m" "b_verif b = sum_to m" "b_output b = sum_to m" "b_out b = out" by simp_all
qed

lemma bench_finishes:
  assumes "books n msg m out nums b" and "nat iterations = n" and "iterations \<le> INT_MAX" and "8 \<le> msg" and "msg \<le> 2 ^ 30"
  shows "\<exists>ks c. bench_run iterations msg ks b = Some c \<and> all_done c"
  using assms(1)
proof (induction "over (steps_left n) b" arbitrary: b nums rule: less_induct)
  case less
  note bk = less.prems
  show ?case
  proof (cases "all_done b")
    case True
    then have "bench_run iterations msg [] b = Some b \<and> all_done b" by simp
    then show ?thesis by blast
  next
    case False
    have "\<exists>k<length (b_threads b). b_threads b ! k \<noteq> Finished \<and> (nums = [] \<longrightarrow> \<not> (\<exists>i x. b_threads b ! k = Taking i x))"
    proof (cases "nums = []")
      case True
      show ?thesis
      proof (rule ccontr)
        assume "\<not> ?thesis"
        then have T: "\<exists>i x. t = Taking i x" if "t \<in> set (b_threads b)" "t \<noteq> Finished" for t
          using that True by (auto simp: in_set_conv_nth)
        have "over (adds_left n) b = 0" using T by (intro over_zero) force
        then have "over (takes_left n) b = 0" using bk True by (simp add: books_def)
        moreover obtain k i x where k: "k < length (b_threads b)" "b_threads b ! k = Taking i x"
          using False T by (metis all_done_def in_set_conv_nth)
        moreover have "in_loop n (b_threads b ! k)" using bk k(1) by (simp add: books_def)
        ultimately show False using over_member [OF k(1), of "takes_left n"] by simp linarith
      qed
    next
      case False
      then show ?thesis using \<open>\<not> all_done b\<close> by (auto simp: all_done_def in_set_conv_nth)
    qed
    then obtain k where k: "k < length (b_threads b)" "b_threads b ! k \<noteq> Finished" "nums = [] \<longrightarrow> \<not> (\<exists>i x. b_threads b ! k = Taking i x)"
      by blast
    obtain t b' nums' where s: "thread_step iterations msg (b_threads b ! k) b = Some (t, b')" "b_threads b' = b_threads b"
      "books n msg m out nums' (b'\<lparr>b_threads := (b_threads b)[k := t]\<rparr>)" "steps_left n t < steps_left n (b_threads b ! k) \<or> t = Finished"
      using thread_step_books [OF bk k(1) assms(2-5)] k(3) unfolding books_step_def by metis
    let ?b = "b'\<lparr>b_threads := (b_threads b)[k := t]\<rparr>"
    have "in_loop n (b_threads b ! k)" using bk k(1) by (simp add: books_def)
    then have "0 < steps_left n (b_threads b ! k)" using k(2) by (cases "b_threads b ! k") auto
    then have "steps_left n t < steps_left n (b_threads b ! k)" using s(4) by auto
    then have "over (steps_left n) ?b < over (steps_left n) b" using over_replace [of ?b b k t "steps_left n"] k(1) by simp
    from less.hyps [OF this s(3)] obtain ks c where "bench_run iterations msg ks ?b = Some c" "all_done c" by blast
    then have "bench_run iterations msg (k # ks) b = Some c \<and> all_done c" using s(1,2) k(1) by simp
    then show ?thesis by blast
  qed
qed

section \<open>The threads main starts\<close>

definition producers :: "nat \<Rightarrow> nat \<Rightarrow> nat" where
  "producers cpus threads = (\<Sum>i<cpus. \<Sum>j<threads. if even i = even j then 1 else 0)"

definition consumers :: "nat \<Rightarrow> nat \<Rightarrow> nat" where
  "consumers cpus threads = (\<Sum>i<cpus. \<Sum>j<threads. if even i = even j then 0 else 1)"

text \<open>With an even number of threads there are as many producers as consumers.\<close>

lemma roles_balanced:
  assumes "even (cpus * threads)"
  shows "producers cpus threads = consumers cpus threads" and "2 * producers cpus threads = cpus * threads"
proof -
  let ?s = "\<lambda>i :: nat. if even i then 1 else - 1 :: int"
  have "(\<Sum>i<n. ?s i) = (if even n then 0 else 1)" for n by (induction n) auto
  then have "(\<Sum>i<cpus. ?s i) * (\<Sum>j<threads. ?s j) = 0" using assms by auto
  then have "(\<Sum>i<cpus. \<Sum>j<threads. ?s i * ?s j) = 0" by (simp add: sum_product)
  moreover have "int (producers cpus threads) - int (consumers cpus threads) = (\<Sum>i<cpus. \<Sum>j<threads. ?s i * ?s j)"
    unfolding producers_def consumers_def of_nat_sum sum_subtractf [symmetric] by (intro sum.cong refl) auto
  ultimately show b: "producers cpus threads = consumers cpus threads" by simp
  have "producers cpus threads + consumers cpus threads = (\<Sum>i<cpus. \<Sum>j<threads. 1)"
    unfolding producers_def consumers_def sum.distrib [symmetric] by (intro sum.cong refl) auto
  with b show "2 * producers cpus threads = cpus * threads" by simp
qed

lemma sum_list_of_lists: "sum_list (map f (concat xss)) = sum_list (map (\<lambda>xs. sum_list (map f xs)) xss)"
  by (induction xss) simp_all

lemma over_threads_for:
  "sum_list (map f (threads_for iterations cpus threads)) = (\<Sum>i<cpus. \<Sum>j<threads. f (the (thread_for iterations i j)))"
  by (simp add: threads_for_def sum_list_of_lists o_def interv_sum_list_conv_sum_set_nat lessThan_atLeast0)

lemma thread_for_eq:
  "the (thread_for iterations i j) = (if even i = even j then if 0 < iterations then Number 0 0 else Produced 0
     else if 0 < iterations then Taking 0 0 else Consumed 0)"
  by (simp add: thread_for_def next_number_def next_taking_def)

definition lined_up :: "qstate \<Rightarrow> string \<Rightarrow> thread list \<Rightarrow> int \<Rightarrow> bench" where
  "lined_up q out ts err = \<lparr>b_q = q, b_input = 0, b_output = 0, b_verif = 0, b_out = out, b_threads = ts, b_errno = err\<rparr>"

lemma books_lined_up:
  assumes "even (cpus * threads)" and "client_holds INT_MAX False 0 (q, no_buffer) []"
    and "client_budget ((value_room msg + 12) * int (producers cpus threads * nat iterations)) (q, no_buffer)"
    and "int (producers cpus threads * nat iterations) \<le> INT_MAX"
  shows "books (nat iterations) msg (producers cpus threads * nat iterations) out [] (lined_up q out (threads_for iterations cpus threads) err)"
proof -
  let ?n = "nat iterations" and ?b = "lined_up q out (threads_for iterations cpus threads) err"
  have f: "over f ?b = (\<Sum>i<cpus. \<Sum>j<threads. f (the (thread_for iterations i j)))" for f :: "thread \<Rightarrow> 'a::comm_monoid_add"
    by (simp add: over_def lined_up_def over_threads_for)
  have a: "over (adds_left ?n) ?b = producers cpus threads * ?n" "over (numbers_left ?n) ?b = producers cpus threads * ?n"
    unfolding f producers_def sum_distrib_right thread_for_eq by (intro sum.cong refl; simp)+
  have t: "over (takes_left ?n) ?b = consumers cpus threads * ?n"
    unfolding f consumers_def sum_distrib_right thread_for_eq by (intro sum.cong refl; simp)
  have z: "over sent ?b = 0" "over received ?b = 0" unfolding f thread_for_eq by (intro sum.neutral ballI; simp)+
  have l: "\<forall>x\<in>set (b_threads ?b). in_loop ?n x" by (auto simp: lined_up_def threads_for_def thread_for_eq)
  have q: "b_q ?b = q" "b_input ?b = 0" "b_verif ?b = 0" "b_output ?b = 0" "b_out ?b = out" by (simp_all add: lined_up_def)
  show ?thesis
    unfolding books_def a t z q using assms l roles_balanced(1) [OF assms(1)] by (simp add: sum_to_def)
qed

section \<open>The program\<close>

lemma printed_digits: "print_long (int n) = map digit_char (digits 10 n)" "print_long (int n) \<noteq> []" "\<forall>c\<in>set (print_long (int n)). is_digit c"
  "number (print_long (int n)) = int n"
proof -
  show p: "print_long (int n) = map digit_char (digits 10 n)" by (simp add: print_long_def)
  have "digits 10 n \<noteq> []" by (subst digits.simps) simp
  then show "print_long (int n) \<noteq> []" unfolding p by simp
  show "\<forall>c\<in>set (print_long (int n)). is_digit c" unfolding p using digits_decimal(1) [of n] is_digit_digit_char by auto
  show "number (print_long (int n)) = int n" unfolding p by (rule digits_decimal(2))
qed

lemma strtol_printed:
  assumes "int n < 2 ^ 63"
  shows "strtol (print_long (int n)) = (int n, [])"
proof -
  let ?p = "print_long (int n)"
  note p = printed_digits(2,3) [of n]
  have c: "is_digit (hd ?p)" using p by simp
  then have nb: "\<not> is_space (hd ?p)" "hd ?p \<noteq> CHR ''-''" "hd ?p \<noteq> CHR ''+''" by (auto simp: is_digit_def is_space_def)
  have "dropWhile is_space ?p = ?p" using nb(1) p(1) by (cases ?p) simp_all
  moreover have t: "takeWhile is_digit ?p = ?p" "dropWhile is_digit ?p = []"
    using p(2) unfolding takeWhile_eq_all_conv dropWhile_eq_Nil_conv by blast+
  ultimately have "strtol ?p = (max (- (2 ^ 63)) (min (2 ^ 63 - 1) (number ?p)), [])"
    using nb(2,3) p(1) unfolding strtol_def Let_def t by (simp only: simp_thms if_False if_True t)
  then show ?thesis using printed_digits(4) [of n] assms by simp
qed

lemma parse_printed: "int n < 2 ^ 63 \<Longrightarrow> parse_arg_to_long (print_long (int n)) k = Inr (int n)"
  using printed_digits(2) [of n] by (simp add: parse_arg_to_long_def strtol_printed)

text \<open>The benchmark with one processor and one thread. Twice it adds as many items as the last argument says
  and removes them again; every call succeeds, the removed items carry the numbers of the added ones in the
  same order, and the object is gone afterwards.\<close>

theorem harness_one_thread:
  assumes "quiet (d_proc d)" and "clock_ok (d_proc d)" and "1 \<le> sys_cpu_count" and "n \<le> 10000000"
  shows "harness_main sys_cpu_count schedule err since until [prog, ''1'', ''1'', print_long (int n)] d =
    Some (0, d\<lparr>d_fs := (d_fs d)(object_path QNAME := None), d_out := d_out d @
      concat (replicate 2 (round_lines ''enqueue successful id: '' [1..int n] @ round_lines ''dequeue successful id: '' [1..int n]))\<rparr>)"
proof -
  let ?d = "d\<lparr>d_fs := (d_fs d)(object_path QNAME := None)\<rparr>"
  have "char_of (49 :: nat) = CHR ''1''" by code_simp
  then have one: "print_long (int 1) = ''1''" by (subst printed_digits(1), subst digits.simps) (simp add: digit_char_def)
  have p: "parse_arg_to_long ''1'' k = Inr 1" for k using parse_printed [of 1 k] unfolding one by simp
  have n: "parse_arg_to_long (print_long (int n)) 3 = Inr (int n)" using assms(4) by (intro parse_printed) simp
  have s: "signed_take_bit 31 (int n) = int n" using assms(4) by (intro signed_take_bit_int_eq_self) simp_all
  have "validate_basic_queue (int n) ?d = Some (?d\<lparr>d_out := d_out d @ concat (replicate 2
      (round_lines ''enqueue successful id: '' [1..int n] @ round_lines ''dequeue successful id: '' [1..int n]))\<rparr>)"
    using basic_queue_run [of ?d "int n"] assms(1,2,4) by simp
  moreover have "\<not> sys_cpu_count < 1" "in_long 1" "signed_take_bit 31 (1 :: int) = 1"
    using assms(3) by (simp_all add: in_long_def signed_take_bit_int_eq_self)
  ultimately show ?thesis unfolding harness_main_def Let_def by (simp add: p n s)
qed

theorem harness_one_thread_witness:
  "harness_main 4 [] 0 (nanoseconds 0) (nanoseconds 1) [''harness'', ''1'', ''1'', print_long (int 2)] sample_desk =
    Some (0, sample_desk\<lparr>d_fs := (d_fs sample_desk)(object_path QNAME := None),
      d_out := concat (replicate 2 (round_lines ''enqueue successful id: '' [1..2] @ round_lines ''dequeue successful id: '' [1..2]))\<rparr>)"
proof -
  have "d_out sample_desk = []" by (simp add: sample_desk_def)
  with harness_one_thread [OF sample_desk_ok, of 4 2] show ?thesis by simp
qed

text \<open>The run of the threads, once the queue is created.\<close>

lemma threads_run:
  assumes p: "quiet (d_proc d)" "clock_ok (d_proc d)" and free: "d_fs d (object_path QNAME) = None" and msg: "8 \<le> msg" "msg \<le> 2 ^ 30"
    and ev: "even (cpus * threads)" and m: "m = producers cpus threads * nat iterations" "int m \<le> INT_MAX" "iterations \<le> INT_MAX"
    and room: "(value_room msg + 12) * int m \<le> 2 ^ 30"
    and res: "result = d\<lparr>d_out := d_out d @ ''input SUM[0..'' @ print_word (of_nat m) @ '']='' @ print_word (sum_to m) @ '' output='' @
        print_word (sum_to m) @ newline @ time_line since until\<rparr>"
  shows "(\<exists>rest. run_threads iterations msg cpus threads (ks @ rest) err since until d = Some result) \<and>
    run_threads iterations msg cpus threads ks err since until d \<in> {None, Some result}"
proof -
  let ?n = "nat iterations"
  have nm: "NUL \<notin> set QNAME" "QNAME \<noteq> []" "length QNAME \<le> 4096" using qname by (simp_all add: good_name_def)
  obtain t where t: "shr_q_create (d_fs d) (Some QNAME) INT_MAX SQ_READWRITE (d_proc d) =
      Some (SH_OK, Some t, (d_fs d)(object_path QNAME := Some (detach t)), t)" "new_queue INT_MAX SQ_READWRITE (d_proc d) t"
    by (rule create_run [where fs = "d_fs d" and nm = QNAME and depth = INT_MAX and md = SQ_READWRITE, OF p nm free]) simp_all
  have vr: "0 \<le> value_room msg" using msg(1) by (simp add: value_room_def slots_of_def)
  let ?b = "lined_up t (d_out d) (threads_for iterations cpus threads) err"
  have bk: "books ?n msg m (d_out d) [] ?b"
    unfolding m(1)
  proof (rule books_lined_up [OF ev])
    show "client_holds INT_MAX False 0 (t, no_buffer) []" by (rule new_client(1) [OF t(2) refl _ no_buffer_ok]) simp
    show "client_budget ((value_room msg + 12) * int (producers cpus threads * ?n)) (t, no_buffer)"
      by (rule new_client(2) [OF t(2) refl _ no_buffer_ok]) (use vr room m(1) in simp_all)
  qed (use m in simp)
  have eq: "run_threads iterations msg cpus threads js err since until d =
      (case bench_run iterations msg js ?b of None \<Rightarrow> None | Some b \<Rightarrow> if all_done b then Some result else None)" for js
  proof -
    obtain b nums where b: "bench_run iterations msg js ?b = Some b" "books ?n msg m (d_out d) nums b"
      using bench_run_books [OF bk refl m(3) msg] by blast
    show ?thesis
    proof (cases "all_done b")
      case True
      note dn = books_done [OF b(2) True]
      obtain xs evs where "queue_holds (b_q b) xs evs" using b(2) by (auto simp: books_def client_holds_def)
      then have "shr_q_destroy ((d_fs d)(object_path QNAME := Some (detach t))) QNAME (Some (b_q b)) = Some (SH_OK, d_fs d)"
        using destroy_run [where fs = "(d_fs d)(object_path QNAME := Some (detach t))" and nm = QNAME and s = "b_q b"] free
        by (simp add: fun_upd_idem)
      then show ?thesis
        using t(1) b(1) True msg(1) dn(2-5)
        by (cases d) (simp add: run_threads_def lined_up_def all_done_def sum_line_def res)
    next
      case False
      then show ?thesis using t(1) b(1) msg(1) by (auto simp: run_threads_def lined_up_def all_done_def)
    qed
  qed
  obtain b nums where b: "bench_run iterations msg ks ?b = Some b" "books ?n msg m (d_out d) nums b"
    using bench_run_books [OF bk refl m(3) msg] by blast
  obtain rest c where c: "bench_run iterations msg rest b = Some c" "all_done c" using bench_finishes [OF b(2) refl m(3) msg] by blast
  have "bench_run iterations msg (ks @ rest) ?b = Some c" using b(1) c(1) by (simp add: bench_run_append)
  then have "run_threads iterations msg cpus threads (ks @ rest) err since until d = Some result" using c(2) eq by simp
  moreover have "run_threads iterations msg cpus threads ks err since until d \<in> {None, Some result}" using b(1) eq by simp
  ultimately show ?thesis by blast
qed



end
