(* ===== verification/Interleaving.thy ===== *)
theory Interleaving
  imports Lists
begin

text \<open>
  Several processes at once on the lock-free lists. The other theories run an operation in one piece;
  here \<open>add_end\<close>, \<open>remove_front\<close> and \<open>alloc_new_data\<close> (\<open>src/shared_int.c\<close>), as \<open>fifo_add\<close> and
  \<open>fifo_remove\<close> (\<open>src/shared_q.c\<close>) use them, are cut into their accesses to the shared words, and the
  steps of any number of processes alternate in any order. A process may stop for ever between any two
  steps. The growth of the object is left out: the words are there and mapped.
\<close>

section \<open>Where a process is\<close>

text \<open>The list of free nodes and the list of items, each with its head pair and its tail pair.\<close>

datatype lst = Free_list | Item_list

fun head_at :: "lst \<Rightarrow> int" where
  "head_at Free_list = FREE_HEAD"
| "head_at Item_list = HEAD"

fun tail_at :: "lst \<Rightarrow> int" where
  "tail_at Free_list = FREE_TAIL"
| "tail_at Item_list = TAIL"

text \<open>
  What a process does next, with its local variables. Adding a value takes a node from the free list
  (\<open>realloc_pooled_mem\<close>), or a new one (\<open>alloc_new_data\<close>), writes the value and appends the node to the
  items. Removing (\<open>fifo_remove\<close>) reads the front of the items and the value behind it, removes the front
  node and appends it to the free list. So what follows the removal or the appending of a node is known
  from the list: \<open>v\<close> is the value to be added on the way from the free list to the items, the value
  removed on the way back.
\<close>

datatype pc =
    Idle
  | Take_gen lst long
  | Take_head lst long long
  | Take_test lst long long long
  | Item_next long long
  | Item_value long long long
  | Front_test lst long long long
  | Front_next lst long long long
  | Front_swap lst long long long long
  | Clear lst long long "int list"
  | Fresh_read long
  | Fresh_swap long long
  | Fresh_size long long
  | Put long long
  | End_gen lst long long
  | End_self lst long long long
  | End_stamp lst long long long
  | End_low lst long long long
  | End_high lst long long long long
  | End_test lst long long long long long
  | End_link lst long long long long long
  | End_swing lst long long long long long
  | Help_low lst long long long long long
  | Help_high lst long long long long long long
  | Help_swing lst long long long long long long long

text \<open>What is to be seen of a step: a value enters or leaves the list of items; an operation returns.\<close>

datatype mark = Enq long | Deq long | Added long | Removed long | Missed

section \<open>One access\<close>

text \<open>When \<open>remove_front\<close> gives up, \<open>realloc_pooled_mem\<close> reads the head again and \<open>fifo_remove\<close> returns 0.\<close>

fun give_up :: "lst \<Rightarrow> long \<Rightarrow> pc \<times> mark list" where
  "give_up Free_list v = (Take_gen Free_list v, [])"
| "give_up Item_list v = (Idle, [Missed])"

text \<open>The words cleared behind a removal: two by \<open>remove_front\<close>, then all four by \<open>realloc_pooled_mem\<close>.\<close>

fun cleared :: "lst \<Rightarrow> int list" where
  "cleared Free_list = [0, 1, 0, 1, 2, 3]"
| "cleared Item_list = [0, 1]"

fun after_clear :: "lst \<Rightarrow> long \<Rightarrow> long \<Rightarrow> pc" where
  "after_clear Free_list v x = Put v x"
| "after_clear Item_list v x = End_gen Free_list v x"

fun returned :: "lst \<Rightarrow> long \<Rightarrow> mark" where
  "returned Item_list v = Added v"
| "returned Free_list v = Removed v"

fun act :: "pc \<Rightarrow> (int \<Rightarrow> long) \<Rightarrow> pc \<times> (int \<Rightarrow> long) \<times> mark list" where
  "act Idle c = (Idle, c, [])"
| "act (Take_gen l v) c = (Take_head l v (c (head_at l + 1)), c, [])"
| "act (Take_head l v gen) c = (Take_test l v gen (c (head_at l)), c, [])"
| "act (Take_test l v gen ref) c =
    (if ref = c (tail_at l)
     then (case l of Free_list \<Rightarrow> (Fresh_read v, c, []) | Item_list \<Rightarrow> (Idle, c, [Missed]))
     else (case l of Free_list \<Rightarrow> (Front_test l v gen ref, c, []) | Item_list \<Rightarrow> (Item_next gen ref, c, [])))"
| "act (Item_next gen ref) c =
    (let next = c ref in
     if next = 0 then (Idle, c, [Missed]) else (Item_value gen ref next, c, []))"
| "act (Item_value gen ref next) c =
    (let v = c (next + VALUE_OFFSET) in
     if v = 0 then (Idle, c, [Missed]) else (Front_test Item_list v gen ref, c, []))"
| "act (Front_test l v gen ref) c =
    (if ref \<ge> BASE \<and> ref \<noteq> c (tail_at l) then (Front_next l v gen ref, c, [])
     else case give_up l v of (pc, ns) \<Rightarrow> (pc, c, ns))"
| "act (Front_next l v gen ref) c = (Front_swap l v gen ref (c ref), c, [])"
| "act (Front_swap l v gen ref low) c =
    (if c (head_at l) = ref \<and> c (head_at l + 1) = gen
     then (Clear l v ref (cleared l), c(head_at l := low, head_at l + 1 := wrap64 (gen + 1)),
           case l of Free_list \<Rightarrow> [] | Item_list \<Rightarrow> [Deq v])
     else case give_up l v of (pc, ns) \<Rightarrow> (pc, c, ns))"
| "act (Clear l v x []) c = (after_clear l v x, c, [])"
| "act (Clear l v x (k # ks)) c = (Clear l v x ks, c(x + k := 0), [])"
| "act (Fresh_read v) c = (Fresh_swap v (c DATA_ALLOC), c, [])"
| "act (Fresh_swap v x) c =
    (if c DATA_ALLOC = x then (Fresh_size v x, c(DATA_ALLOC := x + IDX_SIZE), [])
     else (Fresh_read v, c, []))"
| "act (Fresh_size v x) c = (Put v x, c(x := IDX_SIZE), [])"
| "act (Put v x) c = (End_gen Item_list v x, c(x + VALUE_OFFSET := v), [])"
| "act (End_gen l v x) c =
    (End_self l v x (c ID_CNTR), c(ID_CNTR := wrap64 (c ID_CNTR + 1)), [])"
| "act (End_self l v x g) c = (End_stamp l v x g, c(x := x), [])"
| "act (End_stamp l v x g) c = (End_low l v x g, c(x + 1 := g), [])"
| "act (End_low l v x g) c = (End_high l v x g (c (tail_at l)), c, [])"
| "act (End_high l v x g lo) c = (End_test l v x g lo (c (tail_at l + 1)), c, [])"
| "act (End_test l v x g lo hi) c =
    (if lo = c lo then (End_link l v x g lo hi, c, []) else (Help_low l v x g lo hi, c, []))"
| "act (End_link l v x g lo hi) c =
    (if c lo = lo \<and> c (lo + 1) = hi
     then (End_swing l v x g lo hi, c(lo := x, lo + 1 := g),
           case l of Free_list \<Rightarrow> [] | Item_list \<Rightarrow> [Enq v])
     else (End_low l v x g, c, []))"
| "act (End_swing l v x g lo hi) c =
    (Idle,
     (if c (tail_at l) = lo \<and> c (tail_at l + 1) = hi then c(tail_at l := x, tail_at l + 1 := g) else c),
     [returned l v])"
| "act (Help_low l v x g lo hi) c = (Help_high l v x g lo hi (c lo), c, [])"
| "act (Help_high l v x g lo hi lo') c = (Help_swing l v x g lo hi lo' (c (lo + 1)), c, [])"
| "act (Help_swing l v x g lo hi lo' hi') c =
    (End_low l v x g,
     (if c (tail_at l) = lo \<and> c (tail_at l + 1) = hi then c(tail_at l := lo', tail_at l + 1 := hi') else c), [])"

text \<open>The node a process has for itself: from its removal or allocation until it is linked again.\<close>

fun held :: "pc \<Rightarrow> int set" where
  "held (Clear l v x ks) = {x}"
| "held (Fresh_size v x) = {x}"
| "held (Put v x) = {x}"
| "held (End_gen l v x) = {x}"
| "held (End_self l v x g) = {x}"
| "held (End_stamp l v x g) = {x}"
| "held (End_low l v x g) = {x}"
| "held (End_high l v x g lo) = {x}"
| "held (End_test l v x g lo hi) = {x}"
| "held (End_link l v x g lo hi) = {x}"
| "held (Help_low l v x g lo hi) = {x}"
| "held (Help_high l v x g lo hi lo') = {x}"
| "held (Help_swing l v x g lo hi lo' hi') = {x}"
| "held pc = {}"

section \<open>All processes\<close>

text \<open>The words of the object, the processes, and which slots have been handed out as nodes; the last
  is only recorded, no step depends on it.\<close>

record system =
  mem :: "int \<Rightarrow> long"
  procs :: "nat \<Rightarrow> pc"
  nodes :: "int set"

text \<open>The words that belong to nobody's node and to neither list: other fields of the header and data
  blocks, which the rest of the library writes.\<close>

definition elsewhere :: "system \<Rightarrow> int \<Rightarrow> bool" where
  "elsewhere s i \<longleftrightarrow> i < mem s DATA_ALLOC \<and> i \<noteq> DATA_ALLOC \<and> i \<noteq> ID_CNTR \<and>
     (\<forall>l. i \<noteq> head_at l \<and> i \<noteq> head_at l + 1 \<and> i \<noteq> tail_at l \<and> i \<noteq> tail_at l + 1) \<and>
     (\<forall>x\<in>nodes s. i < x \<or> x + 4 \<le> i)"

text \<open>A step of the system: a process begins to add a value or to remove one, makes one access, or does
  something else in the library: takes a number from the counter, a block of data, or writes elsewhere.\<close>

inductive move :: "system \<Rightarrow> (nat \<times> mark) list \<Rightarrow> system \<Rightarrow> bool" where
  by_add: "procs s p = Idle \<Longrightarrow> v \<noteq> 0 \<Longrightarrow> move s [] (s\<lparr>procs := (procs s)(p := Take_gen Free_list v)\<rparr>)"
| by_remove: "procs s p = Idle \<Longrightarrow> move s [] (s\<lparr>procs := (procs s)(p := Take_gen Item_list 0)\<rparr>)"
| by_act: "act (procs s p) (mem s) = (pc, c, ns) \<Longrightarrow>
    move s (map (Pair p) ns) \<lparr>mem = c, procs = (procs s)(p := pc), nodes = nodes s \<union> held pc\<rparr>"
| by_count: "move s [] (s\<lparr>mem := (mem s)(ID_CNTR := wrap64 (mem s ID_CNTR + 1))\<rparr>)"
| by_block: "0 < k \<Longrightarrow> even k \<Longrightarrow> move s [] (s\<lparr>mem := (mem s)(DATA_ALLOC := mem s DATA_ALLOC + k)\<rparr>)"
| by_write: "elsewhere s i \<Longrightarrow> move s [] (s\<lparr>mem := (mem s)(i := v)\<rparr>)"

text \<open>A run of so many steps, with what was to be seen.\<close>

inductive evolves :: "system \<Rightarrow> (nat \<times> mark) list \<Rightarrow> nat \<Rightarrow> system \<Rightarrow> bool" where
  by_start: "evolves s [] 0 s"
| by_more: "evolves s tr n s' \<Longrightarrow> move s' ns s'' \<Longrightarrow> evolves s (tr @ ns) (Suc n) s''"

end
