(* ===== verification/Interference.thy ===== *)
theory Interference
  imports Interleaving
begin

text \<open>
  The invariant of the lock-free lists under interleaving. Every access of every process keeps it,
  whatever the others have done in between: what a process remembers (\<open>pc_ok\<close>) is phrased so that the
  accesses of the others (\<open>env\<close>) cannot make it false. The generations carry the argument: a node keeps
  its generation while it is in a list, and no generation is given out twice.
\<close>

section \<open>The invariant\<close>

text \<open>The nodes of each list, the generation of each node, and the generations that have ever been linked
  into a list.\<close>

record ghosts =
  ls :: "lst \<Rightarrow> int list"
  gn :: "int \<Rightarrow> int"
  pub :: "lst \<Rightarrow> int set"

text \<open>A word pair names the next node and its generation; the last node's pair names itself.\<close>

fun linked :: "(int \<Rightarrow> long) \<Rightarrow> (int \<Rightarrow> int) \<Rightarrow> int list \<Rightarrow> bool" where
  "linked c g [] \<longleftrightarrow> False"
| "linked c g [x] \<longleftrightarrow> c x = x \<and> c (x + 1) = g x"
| "linked c g (x # y # zs) \<longleftrightarrow> c x = y \<and> c (x + 1) = g y \<and> linked c g (y # zs)"

definition list_inv :: "(int \<Rightarrow> long) \<Rightarrow> ghosts \<Rightarrow> lst \<Rightarrow> bool" where
  "list_inv c G l \<longleftrightarrow>
     linked c (gn G) (ls G l) \<and> c (head_at l) = hd (ls G l) \<and> c (tail_at l) \<in> set (ls G l) \<and>
     c (tail_at l + 1) = gn G (c (tail_at l)) \<and> 0 \<le> c (head_at l + 1) \<and>
     (\<forall>x\<in>set (ls G l). gn G x \<in> pub G l) \<and> (\<forall>g\<in>pub G l. 0 < g \<and> g < c ID_CNTR)"

definition node_inv :: "(int \<Rightarrow> long) \<Rightarrow> int set \<Rightarrow> bool" where
  "node_inv c N \<longleftrightarrow>
     even (c DATA_ALLOC) \<and> HDR_END \<le> c DATA_ALLOC \<and> (\<forall>i\<ge>c DATA_ALLOC. c i = 0) \<and>
     (\<forall>x\<in>N. even x \<and> HDR_END \<le> x \<and> x + 4 \<le> c DATA_ALLOC \<and> 0 \<le> c x \<and> c x + 4 \<le> c DATA_ALLOC) \<and>
     (\<forall>x\<in>N. \<forall>y\<in>N. x \<noteq> y \<longrightarrow> x + 4 \<le> y \<or> y + 4 \<le> x)"

definition core :: "(int \<Rightarrow> long) \<Rightarrow> ghosts \<Rightarrow> int set \<Rightarrow> bool" where
  "core c G N \<longleftrightarrow>
     (\<forall>l. list_inv c G l) \<and> node_inv c N \<and> distinct (ls G Free_list @ ls G Item_list) \<and>
     (\<forall>l. set (ls G l) \<subseteq> N) \<and> pub G Free_list \<inter> pub G Item_list = {} \<and> 0 < c ID_CNTR \<and>
     (\<forall>x\<in>set (tl (ls G Item_list)). c (x + VALUE_OFFSET) \<noteq> 0)"

text \<open>What a process knows of the front of a list, while the head counter is still the one it read.\<close>

definition front :: "(int \<Rightarrow> long) \<Rightarrow> ghosts \<Rightarrow> int set \<Rightarrow> lst \<Rightarrow> long \<Rightarrow> long \<Rightarrow> bool \<Rightarrow> bool" where
  "front c G N l gen ref P \<longleftrightarrow> ref \<in> N \<and> gen \<le> c (head_at l + 1) \<and>
     (c (head_at l + 1) = gen \<longrightarrow> ref = hd (ls G l) \<and> P)"

definition removable :: "(int \<Rightarrow> long) \<Rightarrow> lst \<Rightarrow> long \<Rightarrow> bool" where
  "removable c l ref \<longleftrightarrow> c (tail_at l) \<noteq> ref \<and> c ref \<noteq> ref"

text \<open>What a process knows of the node behind the tail pair it read, while that node is still the one it
  was.\<close>

definition behind :: "(int \<Rightarrow> long) \<Rightarrow> ghosts \<Rightarrow> int set \<Rightarrow> lst \<Rightarrow> long \<Rightarrow> long \<Rightarrow> bool \<Rightarrow> bool" where
  "behind c G N l lo hi P \<longleftrightarrow> lo \<in> N \<and> hi \<in> pub G l \<and> (lo \<in> set (ls G l) \<and> gn G lo = hi \<longrightarrow> c lo \<noteq> lo \<and> P)"

text \<open>The node a process is about to link.\<close>

definition ready :: "(int \<Rightarrow> long) \<Rightarrow> lst \<Rightarrow> long \<Rightarrow> long \<Rightarrow> bool" where
  "ready c l v x \<longleftrightarrow> (l = Item_list \<longrightarrow> c (x + VALUE_OFFSET) = v \<and> v \<noteq> 0)"

fun pc_ok :: "(int \<Rightarrow> long) \<Rightarrow> ghosts \<Rightarrow> int set \<Rightarrow> pc \<Rightarrow> bool" where
  "pc_ok c G N Idle \<longleftrightarrow> True"
| "pc_ok c G N (Take_gen l v) \<longleftrightarrow> (l = Free_list \<longrightarrow> v \<noteq> 0)"
| "pc_ok c G N (Take_head l v gen) \<longleftrightarrow> gen \<le> c (head_at l + 1) \<and> (l = Free_list \<longrightarrow> v \<noteq> 0)"
| "pc_ok c G N (Take_test l v gen ref) \<longleftrightarrow> front c G N l gen ref True \<and> (l = Free_list \<longrightarrow> v \<noteq> 0)"
| "pc_ok c G N (Item_next gen ref) \<longleftrightarrow> front c G N Item_list gen ref (removable c Item_list ref)"
| "pc_ok c G N (Item_value gen ref nx) \<longleftrightarrow>
     front c G N Item_list gen ref (removable c Item_list ref \<and> c ref = nx) \<and> 0 \<le> nx \<and> nx + 4 \<le> c DATA_ALLOC"
| "pc_ok c G N (Front_test l v gen ref) \<longleftrightarrow>
     front c G N l gen ref (l = Item_list \<longrightarrow> removable c l ref \<and> c (c ref + VALUE_OFFSET) = v) \<and> v \<noteq> 0"
| "pc_ok c G N (Front_next l v gen ref) \<longleftrightarrow>
     front c G N l gen ref (removable c l ref \<and> (l = Item_list \<longrightarrow> c (c ref + VALUE_OFFSET) = v)) \<and> v \<noteq> 0"
| "pc_ok c G N (Front_swap l v gen ref low) \<longleftrightarrow>
     front c G N l gen ref (removable c l ref \<and> c ref = low \<and> (l = Item_list \<longrightarrow> c (low + VALUE_OFFSET) = v)) \<and> v \<noteq> 0"
| "pc_ok c G N (Clear l v x ks) \<longleftrightarrow> v \<noteq> 0 \<and> x \<in> N \<and> c x \<noteq> x \<and> set ks \<subseteq> {0, 1, 2, 3} \<and> (c (x + 1) = 0 \<or> 1 \<in> set ks)"
| "pc_ok c G N (Fresh_read v) \<longleftrightarrow> v \<noteq> 0"
| "pc_ok c G N (Fresh_swap v x) \<longleftrightarrow> v \<noteq> 0"
| "pc_ok c G N (Fresh_size v x) \<longleftrightarrow> v \<noteq> 0 \<and> x \<in> N \<and> c x \<noteq> x \<and> c (x + 1) = 0"
| "pc_ok c G N (Put v x) \<longleftrightarrow> v \<noteq> 0 \<and> x \<in> N \<and> c x \<noteq> x \<and> c (x + 1) = 0"
| "pc_ok c G N (End_gen l v x) \<longleftrightarrow> x \<in> N \<and> c x \<noteq> x \<and> c (x + 1) = 0 \<and> ready c l v x"
| "pc_ok c G N (End_self l v x g) \<longleftrightarrow> x \<in> N \<and> c x \<noteq> x \<and> c (x + 1) = 0 \<and> ready c l v x"
| "pc_ok c G N (End_stamp l v x g) \<longleftrightarrow> x \<in> N \<and> c x = x \<and> c (x + 1) = 0 \<and> ready c l v x"
| "pc_ok c G N (End_low l v x g) \<longleftrightarrow> x \<in> N \<and> c x = x \<and> c (x + 1) = g \<and> ready c l v x"
| "pc_ok c G N (End_high l v x g lo) \<longleftrightarrow> x \<in> N \<and> c x = x \<and> c (x + 1) = g \<and> ready c l v x \<and> lo \<in> N"
| "pc_ok c G N (End_test l v x g lo hi) \<longleftrightarrow>
     x \<in> N \<and> c x = x \<and> c (x + 1) = g \<and> ready c l v x \<and> lo \<in> N \<and> hi \<in> pub G l"
| "pc_ok c G N (End_link l v x g lo hi) \<longleftrightarrow>
     x \<in> N \<and> c x = x \<and> c (x + 1) = g \<and> ready c l v x \<and> lo \<in> N \<and> hi \<in> pub G l"
| "pc_ok c G N (End_swing l v x g lo hi) \<longleftrightarrow> behind c G N l lo hi (c lo = x \<and> c (lo + 1) = g)"
| "pc_ok c G N (Help_low l v x g lo hi) \<longleftrightarrow>
     x \<in> N \<and> c x = x \<and> c (x + 1) = g \<and> ready c l v x \<and> behind c G N l lo hi True"
| "pc_ok c G N (Help_high l v x g lo hi lo') \<longleftrightarrow>
     x \<in> N \<and> c x = x \<and> c (x + 1) = g \<and> ready c l v x \<and> behind c G N l lo hi (c lo = lo')"
| "pc_ok c G N (Help_swing l v x g lo hi lo' hi') \<longleftrightarrow>
     x \<in> N \<and> c x = x \<and> c (x + 1) = g \<and> ready c l v x \<and> behind c G N l lo hi (c lo = lo' \<and> c (lo + 1) = hi')"

text \<open>The generation a process has taken for its node and not yet linked.\<close>

fun ticket :: "pc \<Rightarrow> int option" where
  "ticket (End_self l v x g) = Some g"
| "ticket (End_stamp l v x g) = Some g"
| "ticket (End_low l v x g) = Some g"
| "ticket (End_high l v x g lo) = Some g"
| "ticket (End_test l v x g lo hi) = Some g"
| "ticket (End_link l v x g lo hi) = Some g"
| "ticket (Help_low l v x g lo hi) = Some g"
| "ticket (Help_high l v x g lo hi lo') = Some g"
| "ticket (Help_swing l v x g lo hi lo' hi') = Some g"
| "ticket pc = None"

text \<open>Every node is in one list or held by one process, never in two places; the generations taken are
  distinct and new.\<close>

definition places :: "(nat \<Rightarrow> pc) \<Rightarrow> ghosts \<Rightarrow> int set \<Rightarrow> bool" where
  "places ps G N \<longleftrightarrow>
     N = set (ls G Free_list) \<union> set (ls G Item_list) \<union> (\<Union>p. held (ps p)) \<and>
     (\<forall>p l. held (ps p) \<inter> set (ls G l) = {}) \<and> (\<forall>p q. p \<noteq> q \<longrightarrow> held (ps p) \<inter> held (ps q) = {})"

definition tickets :: "(int \<Rightarrow> long) \<Rightarrow> (nat \<Rightarrow> pc) \<Rightarrow> ghosts \<Rightarrow> bool" where
  "tickets c ps G \<longleftrightarrow>
     (\<forall>p g. ticket (ps p) = Some g \<longrightarrow> 0 < g \<and> g < c ID_CNTR \<and> (\<forall>l. g \<notin> pub G l)) \<and>
     (\<forall>p q g. p \<noteq> q \<longrightarrow> ticket (ps p) = Some g \<longrightarrow> ticket (ps q) \<noteq> Some g)"

definition sound_at :: "system \<Rightarrow> ghosts \<Rightarrow> bool" where
  "sound_at s G \<longleftrightarrow>
     core (mem s) G (nodes s) \<and> (\<forall>p. pc_ok (mem s) G (nodes s) (procs s p)) \<and>
     places (procs s) G (nodes s) \<and> tickets (mem s) (procs s) G"

section \<open>What the others may do\<close>

definition same_front :: "(int \<Rightarrow> long) \<Rightarrow> ghosts \<Rightarrow> (int \<Rightarrow> long) \<Rightarrow> ghosts \<Rightarrow> lst \<Rightarrow> bool" where
  "same_front c G c' G' l \<longleftrightarrow> (let h = hd (ls G l) in
     hd (ls G' l) = h \<and> (c (tail_at l) \<noteq> h \<longrightarrow> c' (tail_at l) \<noteq> h) \<and>
     (c h \<noteq> h \<longrightarrow> c' h = c h \<and> (l = Item_list \<longrightarrow> c' (c h + VALUE_OFFSET) = c (c h + VALUE_OFFSET))))"

definition env :: "(int \<Rightarrow> long) \<Rightarrow> ghosts \<Rightarrow> int set \<Rightarrow> (int \<Rightarrow> long) \<Rightarrow> ghosts \<Rightarrow> int set \<Rightarrow> bool" where
  "env c G N c' G' N' \<longleftrightarrow>
     N \<subseteq> N' \<and> c DATA_ALLOC \<le> c' DATA_ALLOC \<and> c ID_CNTR \<le> c' ID_CNTR \<and>
     (\<forall>l. pub G l \<subseteq> pub G' l \<and> c (head_at l + 1) \<le> c' (head_at l + 1) \<and>
       (c' (head_at l + 1) = c (head_at l + 1) \<longrightarrow> same_front c G c' G' l) \<and>
       (\<forall>x\<in>set (ls G' l). gn G' x \<in> pub G l \<longrightarrow>
          x \<in> set (ls G l) \<and> gn G' x = gn G x \<and> (c x \<noteq> x \<longrightarrow> c' x = c x \<and> c' (x + 1) = c (x + 1))))"

definition same_nodes :: "(int \<Rightarrow> long) \<Rightarrow> (int \<Rightarrow> long) \<Rightarrow> int set \<Rightarrow> bool" where
  "same_nodes c c' X \<longleftrightarrow> (\<forall>x\<in>X. c' x = c x \<and> c' (x + 1) = c (x + 1) \<and> c' (x + 2) = c (x + 2) \<and> c' (x + 3) = c (x + 3))"

lemma front_stable:
  assumes "front c G N l gen ref P" and "env c G N c' G' N'"
    and "c' (head_at l + 1) = c (head_at l + 1) \<Longrightarrow> same_front c G c' G' l \<Longrightarrow> ref = hd (ls G l) \<Longrightarrow> P \<Longrightarrow> P'"
  shows "front c' G' N' l gen ref P'"
proof -
  have e: "N \<subseteq> N'" "c (head_at l + 1) \<le> c' (head_at l + 1)"
    "c' (head_at l + 1) = c (head_at l + 1) \<longrightarrow> same_front c G c' G' l"
    using assms(2) by (simp_all add: env_def)
  show ?thesis
  proof (cases "c' (head_at l + 1) = gen")
    case True
    then have "c (head_at l + 1) = gen" using assms(1) e(2) by (simp add: front_def)
    then show ?thesis using assms(1,3) e True by (auto simp: front_def same_front_def Let_def)
  next
    case False
    then show ?thesis using assms(1) e(1,2) by (auto simp: front_def)
  qed
qed

lemma behind_stable:
  assumes "behind c G N l lo hi P" and "env c G N c' G' N'"
    and "c lo \<noteq> lo \<Longrightarrow> c' lo = c lo \<Longrightarrow> c' (lo + 1) = c (lo + 1) \<Longrightarrow> P \<Longrightarrow> P'"
  shows "behind c' G' N' l lo hi P'"
  using assms unfolding behind_def env_def by (metis subsetD)

lemma ready_stable: "ready c l v x \<Longrightarrow> c' (x + 3) = c (x + 3) \<Longrightarrow> ready c' l v x"
  by (simp add: ready_def)

lemma pc_ok_stable:
  assumes ok: "pc_ok c G N pc" and e: "env c G N c' G' N'" and h: "same_nodes c c' (held pc)"
  shows "pc_ok c' G' N' pc"
proof -
  have N: "\<And>x. x \<in> N \<Longrightarrow> x \<in> N'" and d: "c DATA_ALLOC \<le> c' DATA_ALLOC"
    and p: "\<And>g l. g \<in> pub G l \<Longrightarrow> g \<in> pub G' l" and hc: "\<And>l. c (head_at l + 1) \<le> c' (head_at l + 1)"
    using e by (auto simp: env_def)
  show ?thesis
  proof (cases pc)
    case (Take_head l v gen)
    then show ?thesis using ok hc [of l] by simp
  next
    case (Item_next gen ref)
    then show ?thesis using ok e by (auto elim!: front_stable simp: removable_def same_front_def Let_def)
  next
    case (Item_value gen ref nx)
    then show ?thesis using ok e d by (auto elim!: front_stable simp: removable_def same_front_def Let_def)
  next
    case (Front_test l v gen ref)
    then show ?thesis using ok e by (auto elim!: front_stable simp: removable_def same_front_def Let_def)
  next
    case (Front_next l v gen ref)
    then show ?thesis using ok e by (auto elim!: front_stable simp: removable_def same_front_def Let_def)
  next
    case (Front_swap l v gen ref low)
    then show ?thesis using ok e by (auto elim!: front_stable simp: removable_def same_front_def Let_def)
  next
    case (Take_test l v gen ref)
    then show ?thesis using ok e by (auto elim!: front_stable)
  next
    case (End_swing l v x g lo hi)
    then show ?thesis using ok e by (auto elim!: behind_stable)
  next
    case (Help_low l v x g lo hi)
    then show ?thesis using ok e h N by (auto elim!: behind_stable ready_stable simp: same_nodes_def)
  next
    case (Help_high l v x g lo hi lo')
    then show ?thesis using ok e h N by (auto elim!: behind_stable ready_stable simp: same_nodes_def)
  next
    case (Help_swing l v x g lo hi lo' hi')
    then show ?thesis using ok e h N by (auto elim!: behind_stable ready_stable simp: same_nodes_def)
  qed (use ok h N p in \<open>auto elim!: ready_stable simp: same_nodes_def\<close>)
qed

section \<open>Chains of nodes\<close>

lemma linked_cong:
  assumes "\<And>x. x \<in> set xs \<Longrightarrow> c' x = c x \<and> c' (x + 1) = c (x + 1) \<and> g' x = g x"
  shows "linked c' g' xs \<longleftrightarrow> linked c g xs"
  using assms by (induction c g xs rule: linked.induct) auto

lemma linked_last:
  assumes "linked c g xs"
  shows "xs \<noteq> []" and "c (last xs) = last xs" and "c (last xs + 1) = g (last xs)"
  using assms by (induction c g xs rule: linked.induct) auto

lemma linked_next:
  assumes "linked c g xs" and "distinct xs" and "x \<in> set xs" and "x \<noteq> last xs"
  shows "c x \<in> set (tl xs) \<and> c x \<noteq> x \<and> c (x + 1) = g (c x)"
  using assms
proof (induction c g xs rule: linked.induct)
  case (3 c g x y zs)
  then show ?case by (auto split: if_splits)
qed auto

lemma linked_self: "linked c g xs \<Longrightarrow> distinct xs \<Longrightarrow> x \<in> set xs \<Longrightarrow> c x = x \<longleftrightarrow> x = last xs"
  using linked_last(2) linked_next by blast

lemma linked_snoc:
  assumes "linked c g xs" and "distinct xs" and "x \<notin> set xs" and "c' (last xs) = x" and "c' (last xs + 1) = g' x"
    and "c' x = x" and "c' (x + 1) = g' x"
    and "\<And>y. y \<in> set xs \<Longrightarrow> y \<noteq> last xs \<Longrightarrow> c' y = c y \<and> c' (y + 1) = c (y + 1)" and "\<And>y. y \<in> set xs \<Longrightarrow> g' y = g y"
  shows "linked c' g' (xs @ [x])"
  using assms
proof (induction c g xs rule: linked.induct)
  case (3 c g y z zs)
  have ne: "y \<noteq> last (z # zs)" using "3.prems"(2) by auto
  have "linked c' g' ((z # zs) @ [x])" using "3.prems" ne by (intro "3.IH") auto
  then show ?case using "3.prems"(1) "3.prems"(8) [of y] "3.prems"(9) [of z] ne by simp
qed auto

lemma linked_tl: "linked c g (x # xs) \<Longrightarrow> xs \<noteq> [] \<Longrightarrow> linked c g xs \<and> c x = hd xs"
  by (cases xs) auto

lemma in_set_tlD: "x \<in> set (tl xs) \<Longrightarrow> x \<in> set xs"
  by (cases xs) auto

section \<open>Addresses\<close>

lemma all_lst: "(\<forall>l. P l) \<longleftrightarrow> P Free_list \<and> P Item_list"
  by (metis lst.exhaust)

text \<open>The words of the lists in the header lie apart from one another, from the counters and from the nodes.\<close>

lemma header_apart [simp]:
  "head_at l = head_at k \<longleftrightarrow> l = k" "tail_at l = tail_at k \<longleftrightarrow> l = k"
  "head_at l \<noteq> tail_at k" "tail_at l \<noteq> head_at k" "head_at l + 1 \<noteq> tail_at k" "tail_at k \<noteq> head_at l + 1"
  "head_at l \<noteq> tail_at k + 1" "tail_at k + 1 \<noteq> head_at l" "head_at l + 1 \<noteq> head_at k" "head_at k \<noteq> head_at l + 1"
  "tail_at l + 1 \<noteq> tail_at k" "tail_at k \<noteq> tail_at l + 1"
  "head_at l \<noteq> ID_CNTR" "ID_CNTR \<noteq> head_at l" "tail_at l \<noteq> ID_CNTR" "ID_CNTR \<noteq> tail_at l"
  "head_at l + 1 \<noteq> ID_CNTR" "ID_CNTR \<noteq> head_at l + 1" "tail_at l + 1 \<noteq> ID_CNTR" "ID_CNTR \<noteq> tail_at l + 1"
  "head_at l \<noteq> DATA_ALLOC" "DATA_ALLOC \<noteq> head_at l" "tail_at l \<noteq> DATA_ALLOC" "DATA_ALLOC \<noteq> tail_at l"
  "head_at l + 1 \<noteq> DATA_ALLOC" "DATA_ALLOC \<noteq> head_at l + 1" "tail_at l + 1 \<noteq> DATA_ALLOC" "DATA_ALLOC \<noteq> tail_at l + 1"
  by (cases l; cases k; simp)+

lemma header_low: "head_at l < 163" "tail_at l < 163" "0 \<le> head_at l" "0 \<le> tail_at l"
  by (cases l; simp)+

lemma node_apart:
  assumes "HDR_END \<le> x" and "0 \<le> k"
  shows "x + k \<noteq> head_at l" "x + k \<noteq> head_at l + 1" "x + k \<noteq> tail_at l" "x + k \<noteq> tail_at l + 1"
    "x + k \<noteq> ID_CNTR" "x + k \<noteq> DATA_ALLOC"
  using assms header_low [of l] by simp_all

text \<open>A word of a node is in no other node.\<close>

lemma node_inv_apart:
  assumes "node_inv c N" and "x \<in> N" and "y \<in> N" and "x \<noteq> y" and "0 \<le> j" and "j < 4" and "0 \<le> k" and "k < 4"
  shows "x + j \<noteq> y + k"
proof -
  have "x + 4 \<le> y \<or> y + 4 \<le> x" using assms(1-4) by (auto simp: node_inv_def)
  then show ?thesis using assms(5-8) by linarith
qed

lemma node_inv_parts:
  assumes "node_inv c N"
  shows "even (c DATA_ALLOC)" and "HDR_END \<le> c DATA_ALLOC" and "c DATA_ALLOC \<le> i \<Longrightarrow> c i = 0"
    and "x \<in> N \<Longrightarrow> even x" and "x \<in> N \<Longrightarrow> HDR_END \<le> x" and "x \<in> N \<Longrightarrow> x + 4 \<le> c DATA_ALLOC"
    and "x \<in> N \<Longrightarrow> 0 \<le> c x" and "x \<in> N \<Longrightarrow> c x + 4 \<le> c DATA_ALLOC"
    and "x \<in> N \<Longrightarrow> y \<in> N \<Longrightarrow> x \<noteq> y \<Longrightarrow> x + 4 \<le> y \<or> y + 4 \<le> x"
  using assms by (simp_all add: node_inv_def)

section \<open>Accesses outside the lists\<close>

lemma core_parts:
  assumes "core c G N"
  shows "linked c (gn G) (ls G l)" and "c (head_at l) = hd (ls G l)" and "c (tail_at l) \<in> set (ls G l)"
    and "c (tail_at l + 1) = gn G (c (tail_at l))" and "0 \<le> c (head_at l + 1)"
    and "x \<in> set (ls G l) \<Longrightarrow> gn G x \<in> pub G l" and "g \<in> pub G l \<Longrightarrow> 0 < g \<and> g < c ID_CNTR"
    and "node_inv c N" and "distinct (ls G l)" and "set (ls G l) \<subseteq> N" and "0 < c ID_CNTR"
    and "l \<noteq> k \<Longrightarrow> set (ls G l) \<inter> set (ls G k) = {}" and "l \<noteq> k \<Longrightarrow> pub G l \<inter> pub G k = {}"
    and "ls G l \<noteq> []" and "hd (ls G l) \<in> set (ls G l)"
proof -
  show "linked c (gn G) (ls G l)" "c (head_at l) = hd (ls G l)" "c (tail_at l) \<in> set (ls G l)"
    "c (tail_at l + 1) = gn G (c (tail_at l))" "0 \<le> c (head_at l + 1)"
    "x \<in> set (ls G l) \<Longrightarrow> gn G x \<in> pub G l" "g \<in> pub G l \<Longrightarrow> 0 < g \<and> g < c ID_CNTR"
    using assms by (auto simp: core_def list_inv_def)
  then show "ls G l \<noteq> []" "hd (ls G l) \<in> set (ls G l)" using linked_last(1) by auto
  show "node_inv c N" "distinct (ls G l)" "set (ls G l) \<subseteq> N" "0 < c ID_CNTR"
    "l \<noteq> k \<Longrightarrow> set (ls G l) \<inter> set (ls G k) = {}" "l \<noteq> k \<Longrightarrow> pub G l \<inter> pub G k = {}"
    using assms by (cases l; cases k; auto simp: core_def)+
qed

lemma front_next: "core c G N \<Longrightarrow> h = hd (ls G l) \<Longrightarrow> c h \<noteq> h \<Longrightarrow> c h \<in> set (tl (ls G l))"
  using linked_next [OF core_parts(1,9)] linked_self [OF core_parts(1,9)] core_parts(15) by blast

text \<open>A change that keeps the nodes of the lists and their words in the header.\<close>

lemma core_frame:
  assumes c: "core c G N" and X: "\<And>l. X \<inter> set (ls G l) = {}" and same: "same_nodes c c' (N - X)"
    and head: "\<And>l. c' (head_at l) = c (head_at l) \<and> c' (head_at l + 1) = c (head_at l + 1)"
    and tail: "\<And>l. c' (tail_at l) = c (tail_at l) \<and> c' (tail_at l + 1) = c (tail_at l + 1)"
    and cnt: "c ID_CNTR \<le> c' ID_CNTR" "c DATA_ALLOC \<le> c' DATA_ALLOC" and N: "node_inv c' N'" "N \<subseteq> N'"
  shows "core c' G N'" and "env c G N c' G N'"
proof -
  have w: "c' x = c x \<and> c' (x + 1) = c (x + 1) \<and> c' (x + 3) = c (x + 3)" if "x \<in> set (ls G l)" for x l
  proof -
    have "x \<in> N - X" using that X [of l] core_parts(10) [OF c, of l] by blast
    then show ?thesis using same by (simp add: same_nodes_def)
  qed
  have "linked c' (gn G) (ls G l)" for l
    using core_parts(1) [OF c] linked_cong [of "ls G l" c' c "gn G" "gn G"] w by blast
  moreover have "g \<in> pub G l \<Longrightarrow> 0 < g \<and> g < c' ID_CNTR" for g l
    using core_parts(7) [OF c, of g l] cnt(1) by auto
  ultimately have l: "list_inv c' G l" for l
    using core_parts(2,3,4,5,6) [OF c] head [of l] tail [of l] by (auto simp: list_inv_def)
  have "c' (x + 3) \<noteq> 0" if "x \<in> set (tl (ls G Item_list))" for x
    using that c w [of x Item_list] list.set_sel(2) [OF core_parts(14) [OF c]] by (simp add: core_def)
  moreover have "set (ls G l) \<subseteq> N'" for l using core_parts(10) [OF c] N(2) by blast
  ultimately show "core c' G N'" using l N(1) c cnt(1) by (simp add: core_def)
  have "same_front c G c' G l" for l
  proof -
    let ?h = "hd (ls G l)"
    have "c' (c ?h + 3) = c (c ?h + 3)" if "c ?h \<noteq> ?h"
      using w list.set_sel(2) [OF core_parts(14) [OF c] front_next [OF c refl that]] by blast
    then show ?thesis using w [OF core_parts(15) [OF c]] tail [of l] by (auto simp: same_front_def Let_def)
  qed
  then show "env c G N c' G N'" using N(2) cnt head w by (auto simp: env_def)
qed

lemma same_nodes_mono: "same_nodes c c' X \<Longrightarrow> Y \<subseteq> X \<Longrightarrow> same_nodes c c' Y"
  by (auto simp: same_nodes_def)

text \<open>Writing a word of a node that is in no list.\<close>

lemma same_nodes_write:
  assumes "node_inv c N" and "x \<in> N" and "0 \<le> k" and "k < 4"
  shows "same_nodes c (c(x + k := v)) (N - {x})"
proof -
  have "y + j \<noteq> x + k" if "y \<in> N - {x}" "0 \<le> j" "j < 4" for y j
    using that node_inv_apart [OF assms(1) _ assms(2), of y j k] assms(3,4) by simp
  from this [of _ 0] this [of _ 1] this [of _ 2] this [of _ 3] show ?thesis by (simp add: same_nodes_def)
qed

lemma node_inv_write:
  assumes "node_inv c N" and "x \<in> N" and "0 \<le> k" and "k < 4" and "k = 0 \<Longrightarrow> 0 \<le> v \<and> v + 4 \<le> c DATA_ALLOC"
  shows "node_inv (c(x + k := v)) N"
proof -
  have "x + k \<noteq> DATA_ALLOC" "x + k < c DATA_ALLOC" using assms(1-4) by (auto simp: node_inv_def)
  moreover have "y \<noteq> x + k" if "y \<in> N" "y \<noteq> x" for y
    using node_inv_apart [OF assms(1,2) that(1), of k 0] that(2) assms(3,4) by simp
  moreover have "k = 0" if "x + k \<in> N" using calculation(3) [OF that] by auto
  ultimately show ?thesis using assms unfolding node_inv_def by (auto simp: fun_upd_def)
qed

lemma core_private:
  assumes "core c G N" and "x \<in> N" and "\<And>l. x \<notin> set (ls G l)" and "0 \<le> k" and "k < 4"
    and "k = 0 \<Longrightarrow> 0 \<le> v \<and> v + 4 \<le> c DATA_ALLOC"
  shows "core (c(x + k := v)) G N" and "env c G N (c(x + k := v)) G N" and "same_nodes c (c(x + k := v)) (N - {x})"
proof -
  note n = core_parts(8) [OF assms(1)]
  have "HDR_END \<le> x" using node_inv_parts(5) [OF n assms(2)] .
  note a = node_apart [OF this assms(4)]
  show s: "same_nodes c (c(x + k := v)) (N - {x})" by (rule same_nodes_write [OF n assms(2,4,5)])
  have i: "node_inv (c(x + k := v)) N" by (rule node_inv_write [OF n assms(2,4,5,6)])
  note a' = a [THEN not_sym]
  show "core (c(x + k := v)) G N" "env c G N (c(x + k := v)) G N"
    by (rule core_frame [OF assms(1) _ s]; use assms(3) a' i in simp)+
qed

text \<open>Changing a word that belongs to no list and no node.\<close>

lemma core_elsewhere:
  assumes "core c G N" and "\<And>l. i \<noteq> head_at l \<and> i \<noteq> head_at l + 1 \<and> i \<noteq> tail_at l \<and> i \<noteq> tail_at l + 1"
    and "\<And>x. x \<in> N \<Longrightarrow> i < x \<or> x + 4 \<le> i" and "i = ID_CNTR \<Longrightarrow> c ID_CNTR \<le> v"
    and "i = DATA_ALLOC \<Longrightarrow> c DATA_ALLOC \<le> v \<and> even v" and "i < c DATA_ALLOC"
  shows "core (c(i := v)) G N" and "env c G N (c(i := v)) G N" and "same_nodes c (c(i := v)) N"
proof -
  note n = core_parts(8) [OF assms(1)]
  show s: "same_nodes c (c(i := v)) N" using assms(3) by (force simp: same_nodes_def)
  have "y \<noteq> i" if "y \<in> N" for y using assms(3) [OF that] by auto
  then have w: "(c(i := v)) y = c y" if "y \<in> N" for y using that by auto
  note n' = node_inv_parts [OF n]
  have d: "c DATA_ALLOC \<le> (c(i := v)) DATA_ALLOC" "even ((c(i := v)) DATA_ALLOC)" using assms(5) n'(1) by auto
  have "(c(i := v)) j = 0" if "(c(i := v)) DATA_ALLOC \<le> j" for j
  proof -
    have "c DATA_ALLOC \<le> j" using that d(1) by linarith
    then show ?thesis using n'(3) assms(6) by auto
  qed
  moreover have "y + 4 \<le> (c(i := v)) DATA_ALLOC" "c y + 4 \<le> (c(i := v)) DATA_ALLOC" if "y \<in> N" for y
    using n'(6,8) [OF that] d(1) by linarith+
  moreover have "HDR_END \<le> (c(i := v)) DATA_ALLOC" using n'(2) d(1) by linarith
  ultimately have i: "node_inv (c(i := v)) N" using n'(4,5,7,9) w d(2) unfolding node_inv_def by metis
  have s': "same_nodes c (c(i := v)) (N - {})" using s by simp
  show "core (c(i := v)) G N" "env c G N (c(i := v)) G N"
    by (rule core_frame [OF assms(1) _ s']; use assms(2,4) d(1) i in auto)+
qed

text \<open>Taking a new node.\<close>

lemma core_fresh:
  assumes "core c G N" and "x = c DATA_ALLOC" and "c' = c(DATA_ALLOC := x + 4)"
  shows "core c' G (insert x N)" and "env c G N c' G (insert x N)" and "same_nodes c c' N"
    and "x \<notin> N" and "c' x = 0" and "c' (x + 1) = 0" and "HDR_END \<le> x"
proof -
  note n = core_parts(8) [OF assms(1)]
  note n' = node_inv_parts [OF n]
  show lo: "HDR_END \<le> x" using n'(2) assms(2) by simp
  show xN: "x \<notin> N" using n'(6) [of x] assms(2) by auto
  have d: "c' DATA_ALLOC = x + 4" "\<And>i. i \<noteq> DATA_ALLOC \<Longrightarrow> c' i = c i" using assms(3) by simp_all
  have nz: "i \<noteq> DATA_ALLOC" if "HDR_END \<le> i" for i :: int using that by auto
  have beyond: "c' i = 0" if "x \<le> i" for i using that lo n'(3) [of i] d(2) [of i] assms(2) by simp
  show z: "c' x = 0" "c' (x + 1) = 0" using beyond by simp_all
  have y: "y + 4 \<le> x" "c' y = c y" "c' (y + 1) = c (y + 1)" "c' (y + 2) = c (y + 2)" "c' (y + 3) = c (y + 3)" if "y \<in> N" for y
    using n'(5,6) [OF that] assms(2) by (simp_all add: d(2))
  show s: "same_nodes c c' N" using y by (simp add: same_nodes_def)
  have i: "node_inv c' (insert x N)"
    unfolding node_inv_def
  proof (intro conjI ballI allI impI)
    show "even (c' DATA_ALLOC)" "HDR_END \<le> c' DATA_ALLOC" using n'(1) lo assms(2) by (simp_all add: d(1))
    show "c' j = 0" if "c' DATA_ALLOC \<le> j" for j using that beyond by (simp add: d(1))
    show "even y" "HDR_END \<le> y" "y + 4 \<le> c' DATA_ALLOC" "0 \<le> c' y" "c' y + 4 \<le> c' DATA_ALLOC" if "y \<in> insert x N" for y
      using that n'(1) n'(4,5,7,8) [of y] y(1,2) [of y] z(1) lo by (auto simp: d(1) assms(2))
    show "y + 4 \<le> y' \<or> y' + 4 \<le> y" if "y \<in> insert x N" "y' \<in> insert x N" "y \<noteq> y'" for y y'
      using that n'(9) [of y y'] y(1) [of y] y(1) [of y'] by auto
  qed
  have s': "same_nodes c c' (N - {})" using s by simp
  show "core c' G (insert x N)" "env c G N c' G (insert x N)"
    by (rule core_frame [OF assms(1) _ s']; use assms(2,3) i in auto)+
qed

section \<open>Accesses to the lists\<close>

lemma core_node_words:
  assumes "core c G N" and "x \<in> N" and "0 \<le> k"
  shows "x + k \<noteq> head_at l" "x + k \<noteq> head_at l + 1" "x + k \<noteq> tail_at l" "x + k \<noteq> tail_at l + 1"
    "x + k \<noteq> ID_CNTR" "x + k \<noteq> DATA_ALLOC"
  by (rule node_apart [OF node_inv_parts(5) [OF core_parts(8) [OF assms(1)] assms(2)] assms(3)])+

text \<open>Writing a pair of the header changes no node and none of the other lists.\<close>

lemma header_write:
  assumes "core c G N" and "i = head_at l \<or> i = tail_at l" and "c' = c(i := a, i + 1 := b)"
  shows "same_nodes c c' N" and "node_inv c' N" and "c' ID_CNTR = c ID_CNTR" and "c' DATA_ALLOC = c DATA_ALLOC"
proof -
  have i: "i + 1 < HDR_END" "i \<noteq> ID_CNTR" "i + 1 \<noteq> ID_CNTR" "i \<noteq> DATA_ALLOC" "i + 1 \<noteq> DATA_ALLOC"
    using assms(2) by (cases l; auto)+
  show d: "c' ID_CNTR = c ID_CNTR" "c' DATA_ALLOC = c DATA_ALLOC" using i assms(3) by auto
  note n = node_inv_parts [OF core_parts(8) [OF assms(1)]]
  have w: "c' j = c j" if "HDR_END \<le> j" for j using that i(1) assms(3) by auto
  have x: "c' x = c x" "c' (x + 1) = c (x + 1)" "c' (x + 2) = c (x + 2)" "c' (x + 3) = c (x + 3)" if "x \<in> N" for x
    using n(5) [OF that] by (simp_all add: w)
  then show "same_nodes c c' N" by (simp add: same_nodes_def)
  have "c' j = 0" if "c DATA_ALLOC \<le> j" for j using that n(2) n(3) [of j] w [of j] by simp
  then show "node_inv c' N" unfolding node_inv_def d(2) using x(1) n by simp
qed

lemma tail_node:
  assumes "core c G N" and "behind c G N l lo hi P" and "c (tail_at l) = lo" and "c (tail_at l + 1) = hi"
  shows "lo \<in> set (ls G l)" and "c lo \<noteq> lo" and "c lo \<in> set (tl (ls G l))" and "c (lo + 1) = gn G (c lo)" and P
proof -
  show lo: "lo \<in> set (ls G l)" using core_parts(3) [OF assms(1), of l] assms(3) by simp
  have "gn G lo = hi" using core_parts(4) [OF assms(1), of l] assms(3,4) by simp
  then show c: "c lo \<noteq> lo" and P using assms(2) lo by (auto simp: behind_def)
  have "lo \<noteq> last (ls G l)" using c linked_self [OF core_parts(1) [OF assms(1)] core_parts(9) [OF assms(1)] lo] by simp
  with linked_next [OF core_parts(1) [OF assms(1)] core_parts(9) [OF assms(1)] lo]
  show "c lo \<in> set (tl (ls G l))" "c (lo + 1) = gn G (c lo)" by auto
qed

lemma core_swing:
  assumes c: "core c G N" and b: "behind c G N l lo hi (c lo = lo' \<and> c (lo + 1) = hi')"
    and t: "c (tail_at l) = lo" "c (tail_at l + 1) = hi" and c': "c' = c(tail_at l := lo', tail_at l + 1 := hi')"
  shows "core c' G N" and "env c G N c' G N" and "same_nodes c c' N"
proof -
  note k = tail_node [OF c b t]
  have lo': "lo' \<in> set (tl (ls G l))" "hi' = gn G lo'" using k(3,4,5) by auto
  note hw = header_write [OF c disjI2 [OF refl] c']
  show s: "same_nodes c c' N" by (rule hw(1))
  have w: "c' x = c x \<and> c' (x + 1) = c (x + 1) \<and> c' (x + 3) = c (x + 3)" if "x \<in> set (ls G j)" for x j
    using that s core_parts(10) [OF c, of j] by (auto simp: same_nodes_def)
  have h: "c' (head_at j) = c (head_at j)" "c' (head_at j + 1) = c (head_at j + 1)" for j by (simp_all add: c')
  have tl: "c' (tail_at j) = (if j = l then lo' else c (tail_at j))"
    "c' (tail_at j + 1) = (if j = l then hi' else c (tail_at j + 1))" for j by (auto simp: c')
  have in_tl: "x \<in> set (ls G j)" if "x \<in> set (tl (ls G j))" for x j using list.set_sel(2) [OF core_parts(14) [OF c] that] .
  have "list_inv c' G j" for j
    using core_parts(1-7) [OF c, where l = j] linked_cong [of "ls G j" c' c "gn G" "gn G"] w h tl lo' in_tl
    unfolding list_inv_def hw(3) by auto
  then show "core c' G N" using c hw w [of _ Item_list] in_tl [of _ Item_list] by (auto simp: core_def)
  have nh: "hd (ls G l) \<notin> set (tl (ls G l))" using core_parts(9,14) [OF c, of l] by (cases "ls G l") auto
  have "same_front c G c' G j" for j
  proof -
    let ?h = "hd (ls G j)"
    have "c' (c ?h + 3) = c (c ?h + 3)" if "c ?h \<noteq> ?h" using w in_tl [OF front_next [OF c refl that]] by blast
    then show ?thesis using w [OF core_parts(15) [OF c]] tl(1) [of j] nh lo'(1) by (auto simp: same_front_def Let_def)
  qed
  then show "env c G N c' G N" using h w by (simp add: env_def hw)
qed

lemma core_pop:
  assumes c: "core c G N" and t: "c (head_at l) = ref" "c (head_at l + 1) = gen"
    and f: "front c G N l gen ref (removable c l ref \<and> c ref = low \<and> P)"
    and c': "c' = c(head_at l := low, head_at l + 1 := gen + 1)" and G': "G' = G\<lparr>ls := (ls G)(l := tl (ls G l))\<rparr>"
  shows "core c' G' N" and "env c G N c' G' N" and "same_nodes c c' N" and "ls G l = ref # ls G' l" and P
    and "low = hd (ls G' l)"
proof -
  have r: "ref = hd (ls G l)" "c (tail_at l) \<noteq> ref" "c ref \<noteq> ref" "c ref = low" P
    using f t(2) by (auto simp: front_def removable_def)
  show P by (rule r(5))
  obtain xs where xs: "ls G l = ref # xs" using r(1) core_parts(14) [OF c, of l] by (cases "ls G l") auto
  have ls: "ls G' j = (if j = l then xs else ls G j)" "gn G' = gn G" "pub G' = pub G" for j using xs by (simp_all add: G')
  then show e: "ls G l = ref # ls G' l" using xs by simp
  have ne: "xs \<noteq> []" using core_parts(1) [OF c, of l] r(3) by (auto simp: xs)
  note lk = linked_tl [OF core_parts(1) [OF c, of l, unfolded xs] ne]
  show lh: "low = hd (ls G' l)" using lk r(4) ls(1) [of l] by simp
  note hw = header_write [OF c disjI1 [OF refl] c']
  show s: "same_nodes c c' N" by (rule hw(1))
  have sub: "set (ls G' j) \<subseteq> set (ls G j)" for j using xs ls(1) [of j] by auto
  have w: "c' x = c x \<and> c' (x + 1) = c (x + 1) \<and> c' (x + 3) = c (x + 3)" if "x \<in> set (ls G j)" for x j
    using that s core_parts(10) [OF c, of j] by (auto simp: same_nodes_def)
  have tl: "c' (tail_at j) = c (tail_at j)" "c' (tail_at j + 1) = c (tail_at j + 1)" for j by (simp_all add: c')
  have h: "c' (head_at j) = (if j = l then low else c (head_at j))"
    "c' (head_at j + 1) = (if j = l then gen + 1 else c (head_at j + 1))" for j by (auto simp: c')
  have tin: "c (tail_at l) \<in> set xs" using core_parts(3) [OF c, of l] r(2) xs by simp
  have "linked c (gn G') (ls G' j)" for j using lk core_parts(1) [OF c, of j] ls by simp
  then have lk': "linked c' (gn G') (ls G' j)" for j
    using linked_cong [of "ls G' j" c' c "gn G'" "gn G'"] w sub [of j] by blast
  have "list_inv c' G' j" for j
    using lk' [of j] core_parts(2-7) [OF c, where l = j] sub [of j] h [of j] tl [of j] ls(1) [of j] ls(2,3) tin lh t(2)
    unfolding list_inv_def hw(3) by (auto split: if_splits)
  moreover have "distinct (ls G' Free_list @ ls G' Item_list)"
  proof -
    have "distinct (ls G' j)" for j using core_parts(9) [OF c, of j] ls(1) [of j] xs by (auto split: if_splits)
    then show ?thesis using core_parts(12) [OF c, of Free_list Item_list] sub [of Free_list] sub [of Item_list] by auto
  qed
  moreover have "c' (x + 3) \<noteq> 0" if "x \<in> set (tl (ls G' Item_list))" for x
  proof -
    have "x \<in> set (tl (ls G Item_list))"
      using that ls(1) [of Item_list] xs by (cases "l = Item_list") (auto dest: in_set_tlD)
    then show ?thesis using c w [of x Item_list] list.set_sel(2) [OF core_parts(14) [OF c]] by (auto simp: core_def)
  qed
  moreover have "set (ls G' j) \<subseteq> N" for j using sub [of j] core_parts(10) [OF c, of j] by blast
  ultimately show "core c' G' N" using c hw by (simp add: core_def ls(2,3))
  have "same_front c G c' G' j" if "j \<noteq> l" for j
  proof -
    let ?h = "hd (ls G j)"
    have "c' (c ?h + 3) = c (c ?h + 3)" if "c ?h \<noteq> ?h"
      using w list.set_sel(2) [OF core_parts(14) [OF c] front_next [OF c refl that]] by blast
    then show ?thesis using w [OF core_parts(15) [OF c]] tl(1) [of j] ls(1) [of j] that by (auto simp: same_front_def Let_def)
  qed
  moreover have "y \<in> set (ls G j) \<and> c' y = c y \<and> c' (y + 1) = c (y + 1)" if "y \<in> set (ls G' j)" for y j
    using that sub [of j] w by blast
  ultimately show "env c G N c' G' N" using h(2) t(2) by (simp add: env_def hw ls(2,3))
qed

lemma core_link:
  assumes c: "core c G N" and x: "x \<in> N" "\<And>j. x \<notin> set (ls G j)" "c x = x" "c (x + 1) = g"
    and g: "0 < g" "g < c ID_CNTR" "\<And>j. g \<notin> pub G j" and r: "ready c l v x"
    and lo: "lo = last (ls G l)" and c': "c' = c(lo := x, lo + 1 := g)"
    and G': "G' = G\<lparr>ls := (ls G)(l := ls G l @ [x]), gn := (gn G)(x := g), pub := (pub G)(l := insert g (pub G l))\<rparr>"
  shows "core c' G' N" and "env c G N c' G' N" and "same_nodes c c' (N - {lo})"
    and "behind c' G' N l lo (gn G lo) (c' lo = x \<and> c' (lo + 1) = g)" and "y \<in> N \<Longrightarrow> c' (y + 3) = c (y + 3)"
proof -
  have loin: "lo \<in> set (ls G l)" "lo \<in> N" using lo core_parts(14) [OF c, of l] core_parts(10) [OF c, of l] by auto
  have xlo: "x \<noteq> lo" using x(2) loin(1) by auto
  note n = node_inv_parts [OF core_parts(8) [OF c]]
  have ls: "ls G' j = (if j = l then ls G l @ [x] else ls G j)" "gn G' = (gn G)(x := g)"
    "pub G' j = (if j = l then insert g (pub G l) else pub G j)" for j by (simp_all add: G')
  have s: "c' y = c y \<and> c' (y + 1) = c (y + 1) \<and> c' (y + 2) = c (y + 2) \<and> c' (y + 3) = c (y + 3)" if "y \<in> N" "y \<noteq> lo" for y
  proof -
    have "y + i \<noteq> lo + k" if "0 \<le> i" "i < 4" "0 \<le> k" "k < 4" for i k
      using node_inv_apart [OF core_parts(8) [OF c] \<open>y \<in> N\<close> loin(2) \<open>y \<noteq> lo\<close>] that by blast
    from this [of 0 0] this [of 0 1] this [of 1 0] this [of 1 1] this [of 2 0] this [of 2 1] this [of 3 0] this [of 3 1]
    show ?thesis by (simp add: c')
  qed
  then show "same_nodes c c' (N - {lo})" by (simp add: same_nodes_def)
  have lw: "c' lo = x" "c' (lo + 1) = g" "c' (lo + 3) = c (lo + 3)" by (simp_all add: c')
  show "c' (y + 3) = c (y + 3)" if "y \<in> N" using s [OF that] lw(3) by (cases "y = lo") auto
  have hw: "c' i = c i" if "i < HDR_END" for i using n(5) [OF loin(2)] that by (simp add: c')
  have hd: "c' (head_at j) = c (head_at j)" "c' (head_at j + 1) = c (head_at j + 1)" "c' (tail_at j) = c (tail_at j)"
    "c' (tail_at j + 1) = c (tail_at j + 1)" for j using header_low [of j] by (simp_all add: hw)
  have cn: "c' ID_CNTR = c ID_CNTR" "c' DATA_ALLOC = c DATA_ALLOC" by (simp_all add: hw)
  have lo_j: "lo \<notin> set (ls G j)" if "j \<noteq> l" for j using core_parts(12) [OF c that] loin(1) by auto
  have w: "c' y = c y \<and> c' (y + 1) = c (y + 1)" if "y \<in> set (ls G j)" "y \<noteq> lo" for y j
    using that s [of y] core_parts(10) [OF c, of j] by auto
  have xw: "c' x = x" "c' (x + 1) = g" using s [OF x(1) xlo] x(3,4) by simp_all
  have gx: "gn G' y = gn G y" if "y \<in> set (ls G j)" for y j using that x(2) [of j] by (auto simp: ls(2))
  have lk: "linked c' (gn G') (ls G' j)" for j
  proof (cases "j = l")
    case True
    have "linked c' (gn G') (ls G l @ [x])"
      by (rule linked_snoc [OF core_parts(1) [OF c] core_parts(9) [OF c] x(2)])
        (use lw xw w gx lo in \<open>auto simp: ls(2)\<close>)
    then show ?thesis using True by (simp add: ls(1))
  next
    case False
    then have "linked c' (gn G') (ls G j)"
      using linked_cong [of "ls G j" c' c "gn G'" "gn G"] core_parts(1) [OF c, of j] w gx lo_j by blast
    then show ?thesis using False by (simp add: ls(1))
  qed
  have li: "list_inv c' G' j" for j
  proof -
    have "gn G' y \<in> pub G' j" if "y \<in> set (ls G' j)" for y
      using that core_parts(6) [OF c, of y j] gx [of y j] by (auto simp: ls split: if_splits)
    moreover have "0 < h \<and> h < c' ID_CNTR" if "h \<in> pub G' j" for h
      using that core_parts(7) [OF c, of h j] g(1,2) by (auto simp: ls(3) cn split: if_splits)
    moreover have "hd (ls G' j) = hd (ls G j)" using core_parts(14) [OF c, of j] by (auto simp: ls(1))
    moreover have "c (tail_at j) \<in> set (ls G' j)" using core_parts(3) [OF c, of j] by (auto simp: ls(1))
    moreover have "gn G' (c (tail_at j)) = gn G (c (tail_at j))" using core_parts(3) [OF c, of j] gx by blast
    ultimately show ?thesis using lk [of j] core_parts(2,4,5) [OF c, where l = j] by (simp add: list_inv_def hd)
  qed
  have "node_inv c' N"
    unfolding node_inv_def cn
  proof (intro conjI ballI allI impI)
    show "even (c DATA_ALLOC)" "HDR_END \<le> c DATA_ALLOC" by (rule n(1,2))+
    show "c' i = 0" if "c DATA_ALLOC \<le> i" for i using that n(3) [OF that] n(6) [OF loin(2)] by (simp add: c')
    show "0 \<le> c' y" "c' y + 4 \<le> c DATA_ALLOC" if "y \<in> N" for y
      using that n(7,8) [OF that] n(5,6) [OF x(1)] s [OF that] lw(1) by (cases "y = lo"; simp)+
  qed (use n in blast)+
  moreover have "distinct (ls G' Free_list @ ls G' Item_list)"
    using core_parts(9) [OF c] x(2) core_parts(12) [OF c, of Free_list Item_list]
    by (cases l) (auto simp: ls(1))
  moreover have "c' (y + 3) \<noteq> 0" if "y \<in> set (tl (ls G' Item_list))" for y
  proof (cases "y = x")
    case True
    then have "l = Item_list" using that x(2) in_set_tlD by (fastforce simp: ls(1) split: if_splits)
    then show ?thesis using r s [OF x(1) xlo] True by (simp add: ready_def)
  next
    case False
    then have y: "y \<in> set (tl (ls G Item_list))" using that core_parts(14) [OF c] by (auto simp: ls(1) split: if_splits)
    then have "c (y + 3) \<noteq> 0" using c by (simp add: core_def)
    moreover have "y \<in> N" using in_set_tlD [OF y] core_parts(10) [OF c] by blast
    ultimately show ?thesis using s [of y] lw(3) by (cases "y = lo") auto
  qed
  moreover have "set (ls G' j) \<subseteq> N" for j using core_parts(10) [OF c, of j] x(1) by (auto simp: ls(1))
  moreover have "pub G' Free_list \<inter> pub G' Item_list = {}" using core_parts(13) [OF c, of Free_list Item_list] g(3) by (auto simp: ls(3))
  ultimately show "core c' G' N" using li core_parts(11) [OF c] by (simp add: core_def cn)
  have "same_front c G c' G' j" for j
  proof -
    let ?h = "hd (ls G j)"
    have h: "?h \<in> set (ls G j)" by (rule core_parts(15) [OF c])
    have "c' ?h = c ?h \<and> c' (c ?h + 3) = c (c ?h + 3)" if ne: "c ?h \<noteq> ?h"
    proof -
      have "c lo = lo" using linked_last(2) [OF core_parts(1) [OF c, of l]] lo by simp
      then have "?h \<noteq> lo" using ne by auto
      moreover have y: "c ?h \<in> N" using in_set_tlD [OF front_next [OF c refl ne]] core_parts(10) [OF c, of j] by blast
      ultimately show ?thesis using w [OF h] s [OF y] lw(3) by (cases "c ?h = lo") auto
    qed
    then show ?thesis using hd [of j] core_parts(14) [OF c, of j] by (auto simp: same_front_def Let_def ls(1))
  qed
  moreover have "y \<in> set (ls G j) \<and> gn G' y = gn G y \<and> (c y \<noteq> y \<longrightarrow> c' y = c y \<and> c' (y + 1) = c (y + 1))"
    if "y \<in> set (ls G' j)" "gn G' y \<in> pub G j" for y j
  proof -
    have "y \<noteq> x" using that(2) g(3) [of j] by (auto simp: ls(2))
    then have y: "y \<in> set (ls G j)" using that(1) by (auto simp: ls(1) split: if_splits)
    moreover have "c lo = lo" using linked_last(2) [OF core_parts(1) [OF c, of l]] lo by simp
    ultimately show ?thesis using gx [OF y] w [OF y] by auto
  qed
  ultimately show "env c G N c' G' N" using hd by (auto simp: env_def cn ls(3))
  show "behind c' G' N l lo (gn G lo) (c' lo = x \<and> c' (lo + 1) = g)"
    using loin core_parts(6) [OF c loin(1)] lw xlo by (simp add: behind_def ls(3))
qed

end
