(* ===== verification/Linear.thy ===== *)
theory Linear
  imports Interference
begin

text \<open>
  What any number of processes see of the list of items: a queue whose every addition and removal takes
  effect at one instant. Every step keeps the invariant of \<open>Interference\<close>; the steps that link a node to
  the items or move their head are the instants.
\<close>

section \<open>Assembling a step\<close>

lemma held_pair: "pc_ok c G N pc \<Longrightarrow> x \<in> held pc \<Longrightarrow> c x = x \<Longrightarrow> c (x + 1) = 0 \<or> ticket pc = Some (c (x + 1))"
  by (cases pc) auto

lemma sound_parts:
  assumes "sound_at s G"
  shows "core (mem s) G (nodes s)" and "pc_ok (mem s) G (nodes s) (procs s p)"
    and "nodes s = set (ls G Free_list) \<union> set (ls G Item_list) \<union> (\<Union>p. held (procs s p))"
    and "held (procs s p) \<inter> set (ls G l) = {}" and "p \<noteq> q \<Longrightarrow> held (procs s p) \<inter> held (procs s q) = {}"
    and "ticket (procs s p) = Some g \<Longrightarrow> 0 < g \<and> g < mem s ID_CNTR \<and> g \<notin> pub G l"
    and "p \<noteq> q \<Longrightarrow> ticket (procs s p) = Some g \<Longrightarrow> ticket (procs s q) \<noteq> Some g"
  using assms unfolding sound_at_def places_def tickets_def by blast+

text \<open>A node that names itself, with a generation linked into the list: it is the last of that list.\<close>

lemma last_of_list:
  assumes s: "sound_at s G" and "lo \<in> nodes s" and hi: "hi \<in> pub G l" and w: "mem s lo = lo" "mem s (lo + 1) = hi"
  shows "lo = last (ls G l) \<and> gn G lo = hi"
proof -
  note c = sound_parts(1) [OF s]
  have pos: "hi \<noteq> 0" using core_parts(7) [OF c hi] by simp
  have "lo \<notin> held (procs s q)" for q
    using held_pair [OF sound_parts(2) [OF s, of q], of lo] w pos sound_parts(6) [OF s, of q hi l] hi by auto
  then obtain k where k: "lo \<in> set (ls G k)" using assms(2) sound_parts(3) [OF s] by blast
  have l: "lo = last (ls G k)" using linked_self [OF core_parts(1) [OF c] core_parts(9) [OF c] k] w(1) by simp
  then have "gn G lo = hi" using linked_last(3) [OF core_parts(1) [OF c, of k]] w(2) by simp
  moreover from this have "k = l" using core_parts(6) [OF c k] hi core_parts(13) [OF c, of k l] by blast
  ultimately show ?thesis using l by simp
qed

lemma place_sets: "n = A \<union> h \<union> R \<Longrightarrow> A' \<union> h' = A \<union> h \<union> (h' - n) \<Longrightarrow> n \<union> h' = A' \<union> (h' \<union> R)"
  by blast

lemma sound_assemble:
  assumes s: "sound_at s G" and c: "core c' G' N'" "env (mem s) G (nodes s) c' G' N'"
    and o: "\<And>q. q \<noteq> p \<Longrightarrow> same_nodes (mem s) c' (held (procs s q))" and pc: "pc_ok c' G' N' pc'"
    and N: "N' = nodes s \<union> held pc'" "\<And>l. held pc' \<inter> set (ls G' l) = {}"
      "set (ls G' Free_list) \<union> set (ls G' Item_list) \<union> held pc' =
       set (ls G Free_list) \<union> set (ls G Item_list) \<union> held (procs s p) \<union> (held pc' - nodes s)"
    and t: "\<And>g. ticket pc' = Some g \<Longrightarrow> 0 < g \<and> g < c' ID_CNTR \<and> (\<forall>l. g \<notin> pub G' l) \<and>
        (ticket (procs s p) = Some g \<or> mem s ID_CNTR \<le> g)"
      "\<And>l. pub G' l \<subseteq> pub G l \<union> {g. ticket (procs s p) = Some g}"
  shows "sound_at \<lparr>mem = c', procs = (procs s)(p := pc'), nodes = N'\<rparr> G'"
proof -
  let ?ps = "(procs s)(p := pc')"
  note sp = sound_parts [OF s]
  have "pc_ok c' G' N' (?ps q)" for q
    using pc pc_ok_stable [OF sp(2) [of q] c(2) o [of q]] by (cases "q = p") auto
  moreover have "places ?ps G' N'"
    unfolding places_def
  proof (intro conjI allI impI)
    have q: "held (procs s q) \<subseteq> nodes s" for q using sp(3) by blast
    show "N' = set (ls G' Free_list) \<union> set (ls G' Item_list) \<union> (\<Union>q. held (?ps q))"
    proof -
      let ?R = "\<Union>q\<in>- {p}. held (procs s q)"
      have "(\<Union>q. held (?ps q)) = held pc' \<union> ?R" "(\<Union>q. held (procs s q)) = held (procs s p) \<union> ?R"
        by (auto split: if_splits)
      then have "nodes s = set (ls G Free_list) \<union> set (ls G Item_list) \<union> held (procs s p) \<union> ?R"
        and u: "(\<Union>q. held (?ps q)) = held pc' \<union> ?R"
        using sp(3) by (simp_all add: Un_assoc)
      from place_sets [OF this(1) N(3)] show ?thesis unfolding N(1) u .
    qed
    have far: "held (procs s q) \<inter> (set (ls G' Free_list) \<union> set (ls G' Item_list) \<union> held pc') = {}" if "q \<noteq> p" for q
      unfolding N(3) using q [of q] sp(4) [of q] sp(5) [OF that] by blast
    show "held (?ps q) \<inter> set (ls G' l) = {}" for q l
      using N(2) [of l] far [of q] by (cases "q = p"; cases l) auto
    show "held (?ps q) \<inter> held (?ps r) = {}" if "q \<noteq> r" for q r
      using that far [of q] far [of r] sp(5) [OF that] by auto
  qed
  moreover have "tickets c' ?ps G'"
    unfolding tickets_def
  proof (intro conjI allI impI)
    have id: "mem s ID_CNTR \<le> c' ID_CNTR" using c(2) by (simp add: env_def)
    show "0 < g" "g < c' ID_CNTR" "g \<notin> pub G' l" if "ticket (?ps q) = Some g" for q g l
    proof (atomize (full), cases "q = p")
      case False
      then have "ticket (procs s q) = Some g" using that by simp
      then show "0 < g \<and> g < c' ID_CNTR \<and> g \<notin> pub G' l"
        using sp(6) [of q g l] sp(7) [OF False] t(2) [of l] id by force
    qed (use that t(1) in auto)
    show "ticket (?ps r) \<noteq> Some g" if "q \<noteq> r" "ticket (?ps q) = Some g" for q r g
    proof
      assume r: "ticket (?ps r) = Some g"
      have "ticket (procs s k) = Some g \<Longrightarrow> g < mem s ID_CNTR" for k using sp(6) [of k g] by blast
      then show False
        using that r t(1) [of g] sp(7) [of q r g] sp(7) [of r q g] by (auto split: if_splits)
    qed
  qed
  ultimately show ?thesis using c(1) by (simp add: sound_at_def)
qed

text \<open>Steps that only read.\<close>

lemma sound_read:
  assumes s: "sound_at s G" and pc: "pc_ok (mem s) G (nodes s) pc'" and h: "held pc' = held (procs s p)"
    and t: "ticket pc' = ticket (procs s p)"
  shows "sound_at \<lparr>mem = mem s, procs = (procs s)(p := pc'), nodes = nodes s \<union> held pc'\<rparr> G"
proof -
  have N: "nodes s \<union> held pc' = nodes s" using sound_parts(3) [OF s] h by blast
  have e: "env (mem s) G (nodes s) (mem s) G (nodes s)" by (simp add: env_def same_front_def Let_def)
  show ?thesis unfolding N
    by (rule sound_assemble [OF s sound_parts(1) [OF s] e])
      (use pc h t sound_parts [OF s] N in \<open>auto simp: same_nodes_def\<close>)
qed

section \<open>Every access keeps the invariant\<close>

text \<open>The values in the list of items, and the values a sequence of marks adds and removes.\<close>

definition vals :: "(int \<Rightarrow> long) \<Rightarrow> ghosts \<Rightarrow> long list" where
  "vals c G = map (\<lambda>x. c (x + VALUE_OFFSET)) (tl (ls G Item_list))"

fun gave :: "mark list \<Rightarrow> long list" where
  "gave [] = []"
| "gave (Enq v # ms) = v # gave ms"
| "gave (_ # ms) = gave ms"

fun gone :: "mark list \<Rightarrow> long list" where
  "gone [] = []"
| "gone (Deq v # ms) = v # gone ms"
| "gone (_ # ms) = gone ms"

definition step_ok :: "system \<Rightarrow> ghosts \<Rightarrow> nat \<Rightarrow> pc \<times> (int \<Rightarrow> long) \<times> mark list \<Rightarrow> bool" where
  "step_ok s G p r \<longleftrightarrow> (case r of (pc', c', ns) \<Rightarrow>
     \<exists>G'. sound_at \<lparr>mem = c', procs = (procs s)(p := pc'), nodes = nodes s \<union> held pc'\<rparr> G' \<and>
       vals (mem s) G @ gave ns = gone ns @ vals c' G' \<and> (held pc' = held (procs s p) \<longrightarrow> G' = G))"

lemma step_read:
  assumes "sound_at s G" and "pc_ok (mem s) G (nodes s) pc'" and "held pc' = held (procs s p)"
    and "ticket pc' = ticket (procs s p)" and "gave ns = []" and "gone ns = []"
  shows "step_ok s G p (pc', mem s, ns)"
  using sound_read [OF assms(1-4)] assms(5,6) by (auto simp: step_ok_def)

lemma vals_same:
  assumes "\<And>x. x \<in> set (ls G Item_list) \<Longrightarrow> c' (x + 3) = c (x + 3)"
  shows "vals c' G = vals c G"
  using assms by (auto simp: vals_def dest: in_set_tlD)

lemma items_nodes: "core c G N \<Longrightarrow> same_nodes c c' N \<Longrightarrow> vals c' G = vals c G"
  using core_parts(10) [of c G N Item_list] by (intro vals_same) (auto simp: same_nodes_def)

text \<open>A step that writes one word of the node the process holds.\<close>

lemma step_private:
  assumes s: "sound_at s G" and x: "held (procs s p) = {x}" and k: "0 \<le> k" "k < 4"
    and v: "k = 0 \<Longrightarrow> 0 \<le> v \<and> v + 4 \<le> mem s DATA_ALLOC" and pc: "pc_ok ((mem s)(x + k := v)) G (nodes s) pc'"
    and h: "held pc' = {x}" and t: "ticket pc' = ticket (procs s p)"
  shows "step_ok s G p (pc', (mem s)(x + k := v), [])"
proof -
  let ?c = "(mem s)(x + k := v)"
  have x': "x \<in> nodes s" "x \<notin> set (ls G l)" for l using sound_parts(3) [OF s] sound_parts(4) [OF s, of p l] x by auto
  note c = core_private [OF sound_parts(1) [OF s] x' k v]
  have N: "nodes s \<union> held pc' = nodes s" using x'(1) h by auto
  have id: "?c ID_CNTR = mem s ID_CNTR"
    using core_node_words(5) [OF sound_parts(1) [OF s] x'(1) k(1)] by simp
  have "sound_at \<lparr>mem = ?c, procs = (procs s)(p := pc'), nodes = nodes s\<rparr> G"
  proof (rule sound_assemble [OF s c(1,2)])
    show "same_nodes (mem s) ?c (held (procs s q))" if "q \<noteq> p" for q
      using same_nodes_mono [OF c(3), of "held (procs s q)"] sound_parts(3) [OF s] sound_parts(5) [OF s that] x by blast
    show "0 < g \<and> g < ?c ID_CNTR \<and> (\<forall>l. g \<notin> pub G l) \<and> (ticket (procs s p) = Some g \<or> mem s ID_CNTR \<le> g)"
      if "ticket pc' = Some g" for g using that sound_parts(6) [OF s, of p g] t id by auto
  qed (use pc h x x' N in auto)
  moreover have "vals ?c G = vals (mem s) G"
  proof (rule vals_same)
    fix y assume "y \<in> set (ls G Item_list)"
    then have "y \<in> nodes s - {x}" using x'(2) [of Item_list] core_parts(10) [OF sound_parts(1) [OF s], of Item_list] by blast
    then show "?c (y + 3) = mem s (y + 3)" using c(3) unfolding same_nodes_def by blast
  qed
  ultimately show ?thesis by (auto simp: step_ok_def N)
qed

text \<open>A step that changes no node: the pairs of the lists in the header, the counters.\<close>

lemma step_header:
  assumes s: "sound_at s G" and c: "core c' G' (nodes s)" "env (mem s) G (nodes s) c' G' (nodes s)" "same_nodes (mem s) c' (nodes s)"
    and pc: "pc_ok c' G' (nodes s) pc'" and p: "pub G' = pub G"
    and h: "set (ls G' Free_list) \<union> set (ls G' Item_list) \<union> held pc' = set (ls G Free_list) \<union> set (ls G Item_list) \<union> held (procs s p)"
      "\<And>l. held pc' \<inter> set (ls G' l) = {}"
    and t: "\<And>g. ticket pc' = Some g \<Longrightarrow> ticket (procs s p) = Some g \<or> g = mem s ID_CNTR \<and> g < c' ID_CNTR"
    and v: "vals (mem s) G @ gave ns = gone ns @ vals c' G'" and same: "held pc' = held (procs s p) \<Longrightarrow> G' = G"
  shows "step_ok s G p (pc', c', ns)"
proof -
  have N: "nodes s \<union> held pc' = nodes s" using sound_parts(3) [OF s] h(1) by blast
  have id: "mem s ID_CNTR \<le> c' ID_CNTR" using c(2) by (simp add: env_def)
  have "sound_at \<lparr>mem = c', procs = (procs s)(p := pc'), nodes = nodes s\<rparr> G'"
  proof (rule sound_assemble [OF s c(1,2)])
    show "same_nodes (mem s) c' (held (procs s q))" for q
      using same_nodes_mono [OF c(3)] sound_parts(3) [OF s] by blast
    show "0 < g \<and> g < c' ID_CNTR \<and> (\<forall>l. g \<notin> pub G' l) \<and> (ticket (procs s p) = Some g \<or> mem s ID_CNTR \<le> g)"
      if g: "ticket pc' = Some g" for g
    proof (cases "ticket (procs s p) = Some g")
      case True
      then show ?thesis using sound_parts(6) [OF s True] sound_parts(6) [OF s True, of Free_list] id p by auto
    next
      case False
      then have e: "g = mem s ID_CNTR" "g < c' ID_CNTR" using t [OF g] by auto
      then have "g \<notin> pub G l" for l using core_parts(7) [OF sound_parts(1) [OF s], of g l] by auto
      then show ?thesis using e core_parts(11) [OF sound_parts(1) [OF s]] p by auto
    qed
    show "set (ls G' Free_list) \<union> set (ls G' Item_list) \<union> held pc' =
        set (ls G Free_list) \<union> set (ls G Item_list) \<union> held (procs s p) \<union> (held pc' - nodes s)"
      using h(1) sound_parts(3) [OF s] by blast
  qed (use pc h N p in auto)
  then show ?thesis using v same by (auto simp: step_ok_def N)
qed

lemma front_removable:
  assumes "core c G N" and "ref = hd (ls G l)" and "ref \<noteq> c (tail_at l)"
  shows "removable c l ref"
proof -
  have "ref \<noteq> last (ls G l)"
  proof
    assume e: "ref = last (ls G l)"
    then have "length (ls G l) = 1"
      using assms(2) core_parts(9,14) [OF assms(1), of l] by (cases "ls G l") (auto split: if_splits)
    then show False using assms(2,3) core_parts(3) [OF assms(1), of l] by (cases "ls G l") auto
  qed
  then show ?thesis
    using assms(2,3) linked_self [OF core_parts(1) [OF assms(1)] core_parts(9) [OF assms(1)] core_parts(15) [OF assms(1)]]
    by (simp add: removable_def)
qed

lemma front_mono: "front c G N l gen ref P \<Longrightarrow> (ref = hd (ls G l) \<Longrightarrow> P \<Longrightarrow> P') \<Longrightarrow> front c G N l gen ref P'"
  by (simp add: front_def)

lemma step_gives_up:
  assumes "sound_at s G" and "held (procs s p) = {}" and "ticket (procs s p) = None" and "l = Free_list \<Longrightarrow> v \<noteq> 0"
  shows "step_ok s G p (case give_up l v of (pc, ns) \<Rightarrow> (pc, mem s, ns))"
  using assms by (cases l) (auto intro!: step_read)

lemma step_link:
  assumes s: "sound_at s G" and pc: "procs s p = End_link l v x g lo hi" and w: "mem s lo = lo" "mem s (lo + 1) = hi"
  shows "step_ok s G p (End_swing l v x g lo hi, (mem s)(lo := x, lo + 1 := g), case l of Free_list \<Rightarrow> [] | Item_list \<Rightarrow> [Enq v])"
proof -
  let ?c = "(mem s)(lo := x, lo + 1 := g)"
  let ?G = "G\<lparr>ls := (ls G)(l := ls G l @ [x]), gn := (gn G)(x := g), pub := (pub G)(l := insert g (pub G l))\<rparr>"
  note c = sound_parts(1) [OF s] and ok = sound_parts(2) [OF s, of p, unfolded pc, simplified]
  have x: "x \<in> nodes s" "\<And>j. x \<notin> set (ls G j)" using ok sound_parts(4) [OF s, of p] pc by auto
  have tk: "ticket (procs s p) = Some g" by (simp add: pc)
  have g: "0 < g" "g < mem s ID_CNTR" "\<And>j. g \<notin> pub G j"
    using sound_parts(6) [OF s tk] sound_parts(6) [OF s tk, of Free_list] by auto
  have lo: "lo \<in> nodes s" "hi \<in> pub G l" using ok by auto
  note ll = last_of_list [OF s lo w]
  have l: "lo = last (ls G l)" using ll by simp
  have r: "mem s x = x" "mem s (x + 1) = g" "ready (mem s) l v x" using ok by auto
  note k = core_link [OF c x r(1,2) g r(3) l refl refl]
  have b: "behind ?c ?G (nodes s) l lo hi (?c lo = x \<and> ?c (lo + 1) = g)" using k(4) unfolding conjunct2 [OF ll] .
  have N: "nodes s \<union> held (End_swing l v x g lo hi) = nodes s" by simp
  have "sound_at \<lparr>mem = ?c, procs = (procs s)(p := End_swing l v x g lo hi), nodes = nodes s\<rparr> ?G"
  proof (rule sound_assemble [OF s k(1,2)])
    show "same_nodes (mem s) ?c (held (procs s q))" if "q \<noteq> p" for q
    proof (rule same_nodes_mono [OF k(3)])
      have "lo \<in> set (ls G l)" using l core_parts(14) [OF c, of l] by simp
      then have "lo \<notin> held (procs s q)" using sound_parts(4) [OF s, of q l] by blast
      then show "held (procs s q) \<subseteq> nodes s - {lo}" using sound_parts(3) [OF s] by blast
    qed
    show "set (ls ?G Free_list) \<union> set (ls ?G Item_list) \<union> held (End_swing l v x g lo hi) =
        set (ls G Free_list) \<union> set (ls G Item_list) \<union> held (procs s p) \<union> (held (End_swing l v x g lo hi) - nodes s)"
      by (cases l) (auto simp: pc)
  qed (use b N tk in auto)
  moreover have "vals (mem s) G @ gave (case l of Free_list \<Rightarrow> [] | Item_list \<Rightarrow> [Enq v]) =
      gone (case l of Free_list \<Rightarrow> [] | Item_list \<Rightarrow> [Enq v]) @ vals ?c ?G"
  proof -
    have v: "vals ?c G = vals (mem s) G"
      using k(5) core_parts(10) [OF c, of Item_list] by (intro vals_same) blast
    have "?c (x + 3) = v" if "l = Item_list" using k(5) [OF x(1)] r(3) that by (simp add: ready_def)
    then have "vals ?c ?G = vals ?c G @ (case l of Free_list \<Rightarrow> [] | Item_list \<Rightarrow> [v])"
      using core_parts(14) [OF c, of Item_list] by (cases l) (simp_all add: vals_def)
    then show ?thesis using v by (cases l) simp_all
  qed
  ultimately show ?thesis using N pc by (auto simp: step_ok_def)
qed

lemma step_pop:
  assumes s: "sound_at s G" and pc: "procs s p = Front_swap l v gen ref low"
    and w: "mem s (head_at l) = ref" "mem s (head_at l + 1) = gen" and room: "gen + 1 < 2 ^ 63"
  shows "step_ok s G p (Clear l v ref (cleared l), (mem s)(head_at l := low, head_at l + 1 := wrap64 (gen + 1)),
     case l of Free_list \<Rightarrow> [] | Item_list \<Rightarrow> [Deq v])"
proof -
  let ?G = "G\<lparr>ls := (ls G)(l := tl (ls G l))\<rparr>"
  note c = sound_parts(1) [OF s] and ok = sound_parts(2) [OF s, of p, unfolded pc, simplified]
  have wr: "wrap64 (gen + 1) = gen + 1" using core_parts(5) [OF c, of l] w(2) room by (simp add: in_long_def)
  let ?c = "(mem s)(head_at l := low, head_at l + 1 := gen + 1)"
  have f: "front (mem s) G (nodes s) l gen ref (removable (mem s) l ref \<and> mem s ref = low \<and>
      (removable (mem s) l ref \<and> mem s ref = low \<and> (l = Item_list \<longrightarrow> mem s (low + 3) = v)))"
    using ok by (auto elim: front_mono)
  note k = core_pop [OF c w f refl refl]
  have ref: "ref \<in> set (ls G l)" by (subst k(4)) simp
  have refn: "ref \<in> nodes s" using ref core_parts(10) [OF c, of l] by blast
  have cw: "?c ref = mem s ref" "?c (ref + 1) = mem s (ref + 1)" using k(3) refn by (simp_all add: same_nodes_def)
  have pok: "pc_ok ?c ?G (nodes s) (Clear l v ref (cleared l))"
    using ok k(5) refn cw by (cases l) (auto simp: removable_def)
  have "distinct (ref # ls ?G l)" using core_parts(9) [OF c, of l] by (subst k(4) [symmetric])
  then have apart: "ref \<notin> set (ls ?G j)" for j
    using core_parts(12) [OF c, of j l] ref by (cases "j = l") auto
  have v3: "vals (mem s) G @ gave (case l of Free_list \<Rightarrow> [] | Item_list \<Rightarrow> [Deq v]) =
      gone (case l of Free_list \<Rightarrow> [] | Item_list \<Rightarrow> [Deq v]) @ vals ?c ?G"
  proof (cases l)
    case Free_list
    have "vals ?c ?G = vals ?c G" by (simp add: vals_def Free_list)
    then show ?thesis using items_nodes [OF c k(3)] by (simp add: Free_list)
  next
    case Item_list
    have ne: "ls ?G Item_list \<noteq> []" using core_parts(14) [OF k(1)] by simp
    then have "vals (mem s) G = mem s (low + 3) # vals (mem s) ?G"
      using k(4,6) by (cases "ls ?G Item_list") (simp_all add: vals_def Item_list)
    moreover have "vals ?c ?G = vals (mem s) ?G" by (rule items_nodes [OF k(1), symmetric]) (use k(3) in \<open>auto simp: same_nodes_def\<close>)
    ultimately show ?thesis using k(5) by (simp add: Item_list)
  qed
  show ?thesis unfolding wr
  proof (rule step_header [OF s k(1-3) pok])
    have "set (ls G l) = insert ref (set (ls ?G l))" using arg_cong [OF k(4), of set] by simp
    then show "set (ls ?G Free_list) \<union> set (ls ?G Item_list) \<union> held (Clear l v ref (cleared l)) =
        set (ls G Free_list) \<union> set (ls G Item_list) \<union> held (procs s p)"
      by (cases l) (auto simp: pc)
  qed (use apart v3 pc in auto)
qed

lemma step_tail:
  assumes s: "sound_at s G" and b: "behind (mem s) G (nodes s) l lo hi (mem s lo = lo' \<and> mem s (lo + 1) = hi')"
    and pc: "pc_ok (mem s) G (nodes s) pc'" and h: "held pc' = held (procs s p)"
    and t: "ticket pc' = ticket (procs s p)" and n: "gave ns = []" "gone ns = []"
  shows "step_ok s G p (pc',
     (if mem s (tail_at l) = lo \<and> mem s (tail_at l + 1) = hi then (mem s)(tail_at l := lo', tail_at l + 1 := hi') else mem s), ns)"
proof (cases "mem s (tail_at l) = lo \<and> mem s (tail_at l + 1) = hi")
  case True
  let ?c = "(mem s)(tail_at l := lo', tail_at l + 1 := hi')"
  note c = core_swing [OF sound_parts(1) [OF s] b conjunct1 [OF True] conjunct2 [OF True] refl]
  have sub: "held pc' \<subseteq> nodes s" using sound_parts(3) [OF s] h by auto
  have ok: "pc_ok ?c G (nodes s) pc'" by (rule pc_ok_stable [OF pc c(2) same_nodes_mono [OF c(3) sub]])
  have "step_ok s G p (pc', ?c, ns)"
    by (rule step_header [OF s c ok refl])
      (use h t n sound_parts(4) [OF s, of p] items_nodes [OF sound_parts(1) [OF s] c(3)] in auto)
  then show ?thesis using True by simp
next
  case False
  then show ?thesis using step_read [OF s pc h t n] by auto
qed

lemma step_count:
  assumes s: "sound_at s G" and pc: "procs s p = End_gen l v x" and room: "mem s ID_CNTR + 1 < 2 ^ 63"
  shows "step_ok s G p (End_self l v x (mem s ID_CNTR), (mem s)(ID_CNTR := wrap64 (mem s ID_CNTR + 1)), [])"
proof -
  let ?c = "(mem s)(ID_CNTR := wrap64 (mem s ID_CNTR + 1))"
  note c = sound_parts(1) [OF s]
  have w: "wrap64 (mem s ID_CNTR + 1) = mem s ID_CNTR + 1" using core_parts(11) [OF c] room by (simp add: in_long_def)
  note n = node_inv_parts [OF core_parts(8) [OF c]]
  have far: "ID_CNTR < x" if "x \<in> nodes s" for x using n(5) [OF that] by simp
  have k: "core ?c G (nodes s)" "env (mem s) G (nodes s) ?c G (nodes s)" "same_nodes (mem s) ?c (nodes s)"
    by (rule core_elsewhere [OF c]; use w n(2) far in simp)+
  have "pc_ok (mem s) G (nodes s) (End_self l v x (mem s ID_CNTR))" using sound_parts(2) [OF s, of p] by (simp add: pc)
  then have ok: "pc_ok ?c G (nodes s) (End_self l v x (mem s ID_CNTR))"
    by (rule pc_ok_stable [OF _ k(2) same_nodes_mono [OF k(3)]]) (use sound_parts(2) [OF s, of p] in \<open>simp add: pc\<close>)
  show ?thesis
    by (rule step_header [OF s k ok refl])
      (use sound_parts(4) [OF s, of p] items_nodes [OF c k(3)] w in \<open>auto simp: pc\<close>)
qed

lemma step_fresh:
  assumes s: "sound_at s G" and pc: "procs s p = Fresh_swap v x" and w: "mem s DATA_ALLOC = x"
  shows "step_ok s G p (Fresh_size v x, (mem s)(DATA_ALLOC := x + IDX_SIZE), [])"
proof -
  let ?c = "(mem s)(DATA_ALLOC := x + IDX_SIZE)"
  note c = sound_parts(1) [OF s]
  note k = core_fresh [OF c w [symmetric] refl]
  have "v \<noteq> 0" using sound_parts(2) [OF s, of p] by (simp add: pc)
  then have ok: "pc_ok ?c G (insert x (nodes s)) (Fresh_size v x)" using k(5-7) by simp
  have "sound_at \<lparr>mem = ?c, procs = (procs s)(p := Fresh_size v x), nodes = insert x (nodes s)\<rparr> G"
  proof (rule sound_assemble [OF s k(1,2) _ ok])
    show "same_nodes (mem s) ?c (held (procs s q))" for q
      by (rule same_nodes_mono [OF k(3)]) (use sound_parts(3) [OF s] in blast)
    show "held (Fresh_size v x) \<inter> set (ls G l) = {}" for l using k(4) core_parts(10) [OF c, of l] by auto
    show "set (ls G Free_list) \<union> set (ls G Item_list) \<union> held (Fresh_size v x) =
        set (ls G Free_list) \<union> set (ls G Item_list) \<union> held (procs s p) \<union> (held (Fresh_size v x) - nodes s)"
      using k(4) by (auto simp: pc)
  qed auto
  then show ?thesis using items_nodes [OF c k(3)] by (auto simp: step_ok_def)
qed

section \<open>Every step\<close>

lemma act_sound:
  assumes s: "sound_at s G" and room: "mem s ID_CNTR + 1 < 2 ^ 63" "\<And>l. mem s (head_at l + 1) + 1 < 2 ^ 63"
  shows "step_ok s G p (act (procs s p) (mem s))"
proof -
  note c = sound_parts(1) [OF s] and ok = sound_parts(2) [OF s, of p]
  have N: "x \<in> nodes s" if "x \<in> set (ls G l)" for x l using that core_parts(10) [OF c, of l] by blast
  note n = node_inv_parts [OF core_parts(8) [OF c]]
  show ?thesis
  proof (cases "procs s p")
    case Idle
    then show ?thesis using step_read [OF s, of Idle p "[]"] by simp
  next
    case (Take_gen l v)
    then show ?thesis using ok by (auto intro!: step_read [OF s])
  next
    case (Take_head l v gen)
    then show ?thesis using ok N [OF core_parts(15) [OF c]] core_parts(2) [OF c, of l]
      by (auto intro!: step_read [OF s] simp: front_def)
  next
    case (Take_test l v gen ref)
    then show ?thesis using ok front_removable [OF c]
      by (cases l) (auto intro!: step_read [OF s] elim!: front_mono)
  next
    case (Item_next gen ref)
    then show ?thesis using ok n(7,8) [of ref]
      by (auto intro!: step_read [OF s] elim!: front_mono simp: Let_def) (auto simp: front_def)
  next
    case (Item_value gen ref nx)
    then show ?thesis using ok by (auto intro!: step_read [OF s] elim!: front_mono simp: Let_def)
  next
    case (Front_test l v gen ref)
    then show ?thesis using ok front_removable [OF c] step_gives_up [OF s, of p l v]
      by (auto intro!: step_read [OF s] elim!: front_mono)
  next
    case (Front_next l v gen ref)
    then show ?thesis using ok by (auto intro!: step_read [OF s] elim!: front_mono)
  next
    case (Front_swap l v gen ref low)
    then show ?thesis using ok step_gives_up [OF s, of p l v] step_pop [OF s Front_swap] room(2) [of l] by auto
  next
    case (Clear l v x ks)
    show ?thesis
    proof (cases ks)
      case Nil
      then show ?thesis using ok Clear by (cases l) (auto intro!: step_read [OF s] simp: ready_def)
    next
      case (Cons k ks')
      have k: "0 \<le> k" "k < 4" "x \<in> nodes s" using ok Clear Cons by auto
      have "0 \<le> x" "4 \<le> mem s DATA_ALLOC" using n(5,6) [OF k(3)] by simp_all
      then show ?thesis using ok Clear Cons k(1,2) n(5) [OF k(3)] by (auto intro!: step_private [OF s])
    qed
  next
    case (Fresh_read v)
    then show ?thesis using ok by (auto intro!: step_read [OF s])
  next
    case (Fresh_swap v x)
    then show ?thesis using ok step_fresh [OF s Fresh_swap] by (auto intro!: step_read [OF s])
  next
    case (Fresh_size v x)
    have "8 \<le> mem s DATA_ALLOC" "4 \<noteq> x" using n(2) n(5) [of x] ok Fresh_size by auto
    then show ?thesis using ok Fresh_size step_private [OF s, of p x 0 4 "Put v x"] by simp
  next
    case (Put v x)
    then show ?thesis using ok step_private [OF s, of p x 3 v "End_gen Item_list v x"] by (simp add: ready_def)
  next
    case (End_gen l v x)
    then show ?thesis using step_count [OF s End_gen room(1)] by simp
  next
    case (End_self l v x g)
    have "x \<in> nodes s" using ok End_self by simp
    then show ?thesis using ok End_self step_private [OF s, of p x 0 x "End_stamp l v x g"] n(5,6) [of x] by (simp add: ready_def)
  next
    case (End_stamp l v x g)
    then show ?thesis using ok step_private [OF s, of p x 1 g "End_low l v x g"] by (simp add: ready_def)
  next
    case (End_low l v x g)
    then show ?thesis using ok N [OF core_parts(3) [OF c]] by (auto intro!: step_read [OF s])
  next
    case (End_high l v x g lo)
    then show ?thesis using ok core_parts(4) [OF c, of l] core_parts(6) [OF c core_parts(3) [OF c], of l]
      by (auto intro!: step_read [OF s])
  next
    case (End_test l v x g lo hi)
    then show ?thesis using ok by (auto intro!: step_read [OF s] simp: behind_def)
  next
    case (End_link l v x g lo hi)
    then show ?thesis using ok step_link [OF s End_link] by (auto intro!: step_read [OF s])
  next
    case (End_swing l v x g lo hi)
    then show ?thesis using ok step_tail [OF s, of l lo hi x g Idle p "[returned l v]"] by (cases l) auto
  next
    case (Help_low l v x g lo hi)
    then show ?thesis using ok by (auto intro!: step_read [OF s] simp: behind_def)
  next
    case (Help_high l v x g lo hi lo')
    then show ?thesis using ok by (auto intro!: step_read [OF s] simp: behind_def)
  next
    case (Help_swing l v x g lo hi lo' hi')
    then show ?thesis using ok step_tail [OF s, of l lo hi lo' hi' "End_low l v x g" p "[]"] by auto
  qed
qed

text \<open>What the rest of the library does between the steps changes no list.\<close>

lemma sound_world:
  assumes s: "sound_at s G" and c: "core c' G (nodes s)" "env (mem s) G (nodes s) c' G (nodes s)" "same_nodes (mem s) c' (nodes s)"
  shows "sound_at (s\<lparr>mem := c'\<rparr>) G" and "vals c' G = vals (mem s) G"
proof -
  note sp = sound_parts [OF s]
  show "vals c' G = vals (mem s) G" by (rule items_nodes [OF sp(1) c(3)])
  have sub: "held (procs s p) \<subseteq> nodes s" for p using sp(3) by blast
  have "pc_ok c' G (nodes s) (procs s p)" for p by (rule pc_ok_stable [OF sp(2) c(2) same_nodes_mono [OF c(3) sub]])
  moreover have "tickets c' (procs s) G"
  proof -
    have "mem s ID_CNTR \<le> c' ID_CNTR" using c(2) by (simp add: env_def)
    then show ?thesis using s by (force simp: sound_at_def tickets_def)
  qed
  ultimately show "sound_at (s\<lparr>mem := c'\<rparr>) G" using s c(1) by (simp add: sound_at_def)
qed

text \<open>How far the counters are from their last value.\<close>

definition room_for :: "(int \<Rightarrow> long) \<Rightarrow> nat \<Rightarrow> bool" where
  "room_for c n \<longleftrightarrow> c ID_CNTR + int n < 2 ^ 63 \<and> (\<forall>l. c (head_at l + 1) + int n < 2 ^ 63)"

lemma sound_begin:
  assumes s: "sound_at s G" and i: "procs s p = Idle" and pc: "pc_ok (mem s) G (nodes s) pc'" "held pc' = {}" "ticket pc' = None"
  shows "sound_at (s\<lparr>procs := (procs s)(p := pc')\<rparr>) G"
  using sound_read [OF s pc(1), of p] pc(2,3) i by (cases s) simp

lemma gave_append [simp]: "gave (as @ bs) = gave as @ gave bs"
  by (induction as rule: gave.induct) simp_all

lemma took_append [simp]: "gone (as @ bs) = gone as @ gone bs"
  by (induction as rule: gone.induct) simp_all

lemma move_sound:
  assumes "move s ms s'" and s: "sound_at s G" and room: "room_for (mem s) 1"
  shows "\<exists>G'. sound_at s' G' \<and> vals (mem s) G @ gave (map snd ms) = gone (map snd ms) @ vals (mem s') G'"
  using assms(1)
proof cases
  case (by_add p v)
  then show ?thesis using sound_begin [OF s, of p "Take_gen Free_list v"] by auto
next
  case (by_remove p)
  then show ?thesis using sound_begin [OF s, of p "Take_gen Item_list 0"] by auto
next
  case (by_act p pc c ns)
  have "step_ok s G p (pc, c, ns)"
    using act_sound [OF s, of p] room unfolding by_act(3) by (simp add: room_for_def)
  moreover have "map snd (map (Pair p) ns) = ns" by (induction ns) simp_all
  ultimately show ?thesis using by_act(1,2) by (auto simp: step_ok_def)
next
  case by_count
  note c = sound_parts(1) [OF s]
  note n = node_inv_parts [OF core_parts(8) [OF c]]
  have w: "wrap64 (mem s ID_CNTR + 1) = mem s ID_CNTR + 1"
    using core_parts(11) [OF c] room by (simp add: room_for_def in_long_def)
  have far: "ID_CNTR < x" if "x \<in> nodes s" for x using n(5) [OF that] by simp
  have k: "core ((mem s)(ID_CNTR := wrap64 (mem s ID_CNTR + 1))) G (nodes s)"
    "env (mem s) G (nodes s) ((mem s)(ID_CNTR := wrap64 (mem s ID_CNTR + 1))) G (nodes s)"
    "same_nodes (mem s) ((mem s)(ID_CNTR := wrap64 (mem s ID_CNTR + 1))) (nodes s)"
    by (rule core_elsewhere [OF c]; use w n(2) far in simp)+
  show ?thesis using sound_world [OF s k] by_count by auto
next
  case (by_block k)
  note c = sound_parts(1) [OF s]
  note n = node_inv_parts [OF core_parts(8) [OF c]]
  have far: "DATA_ALLOC < x" if "x \<in> nodes s" for x using n(5) [OF that] by simp
  have k: "core ((mem s)(DATA_ALLOC := mem s DATA_ALLOC + k)) G (nodes s)"
    "env (mem s) G (nodes s) ((mem s)(DATA_ALLOC := mem s DATA_ALLOC + k)) G (nodes s)"
    "same_nodes (mem s) ((mem s)(DATA_ALLOC := mem s DATA_ALLOC + k)) (nodes s)"
    by (rule core_elsewhere [OF c]; use by_block(3,4) n(1,2) far in simp)+
  show ?thesis using sound_world [OF s k] by_block by auto
next
  case (by_write i v)
  note c = sound_parts(1) [OF s]
  have k: "core ((mem s)(i := v)) G (nodes s)" "env (mem s) G (nodes s) ((mem s)(i := v)) G (nodes s)"
    "same_nodes (mem s) ((mem s)(i := v)) (nodes s)"
    by (rule core_elsewhere [OF c]; use by_write(3) in \<open>simp add: elsewhere_def\<close>)+
  show ?thesis using sound_world [OF s k] by_write by auto
qed

text \<open>A step uses up at most one number of each counter. An operation that does not wait for the others takes at
  most one of each: \<open>uses\<close> is one more than what it can still take.\<close>

fun uses :: "pc \<Rightarrow> nat" where
  "uses (Take_gen l v) = 3"
| "uses (Take_head l v gen) = 3"
| "uses (Take_test l v gen ref) = 3"
| "uses (Item_next gen ref) = 3"
| "uses (Item_value gen ref nx) = 3"
| "uses (Front_test l v gen ref) = 3"
| "uses (Front_next l v gen ref) = 3"
| "uses (Front_swap l v gen ref low) = 3"
| "uses (Clear l v x ks) = 2"
| "uses (Fresh_read v) = 2"
| "uses (Fresh_swap v x) = 2"
| "uses (Fresh_size v x) = 2"
| "uses (Put v x) = 2"
| "uses (End_gen l v x) = 2"
| "uses pc = 1"

lemma act_counts:
  assumes s: "sound_at s G" and room: "room_for (mem s) 1" and a: "act (procs s p) (mem s) = (pc, c, ns)"
  shows "c ID_CNTR \<le> mem s ID_CNTR + 1 \<and> c (head_at l + 1) \<le> mem s (head_at l + 1) + 1 \<and>
    c ID_CNTR + int (uses pc) \<le> mem s ID_CNTR + int (uses (procs s p)) \<and>
    c (head_at l + 1) + int (uses pc) \<le> mem s (head_at l + 1) + int (uses (procs s p))"
proof -
  note c = sound_parts(1) [OF s] and ok = sound_parts(2) [OF s, of p]
  have x: "x + k \<noteq> ID_CNTR" "x + k \<noteq> head_at l + 1" "x \<noteq> ID_CNTR" "x \<noteq> head_at l + 1" if "x \<in> nodes s" "0 \<le> k" for x k
    using core_node_words(2) [OF c that(1), of k l] core_node_words(2) [OF c that(1), of 0 l]
      core_node_words(5) [OF c that(1), of k] core_node_words(5) [OF c that(1), of 0] that(2) by simp_all
  note x' = x [THEN not_sym]
  have nw: ?thesis if "c = (mem s)(y + k := v) \<or> c = (mem s)(y := v)" "y \<in> nodes s" "0 \<le> k" "uses pc = uses (procs s p)" for y k v
    using that(1,4) x' [OF that(2,3)] by auto
  have w: "wrap64 (mem s ID_CNTR + 1) = mem s ID_CNTR + 1" "wrap64 (mem s (head_at j + 1) + 1) = mem s (head_at j + 1) + 1" for j
    using core_parts(5,11) [OF c] room by (simp_all add: room_for_def in_long_def)
  show ?thesis
  proof (cases "procs s p")
    case (Clear j v y ks)
    show ?thesis
    proof (cases ks)
      case Nil
      then show ?thesis using a Clear by (cases j) auto
    next
      case (Cons k ks')
      have "0 \<le> k" "y \<in> nodes s" using ok Clear Cons by auto
      with nw [of y k 0] show ?thesis using a Clear Cons by auto
    qed
  next
    case (Put v y)
    then show ?thesis using a ok nw [of y 3 v] by auto
  next
    case (Fresh_size v y)
    then show ?thesis using a ok nw [of y 0 4] by auto
  next
    case (End_self j v y g)
    then show ?thesis using a ok nw [of y 0 y] by auto
  next
    case (End_stamp j v y g)
    then show ?thesis using a ok nw [of y 1 g] by auto
  next
    case (Front_test j v gen ref)
    then show ?thesis using a by (cases j) (auto split: if_splits)
  next
    case (Front_swap j v gen ref low)
    then show ?thesis using a w(2) [of j] by (cases j; cases l; auto split: if_splits)
  next
    case (End_link j v y g lo hi)
    then show ?thesis using a ok x' [of lo 0] x' [of lo 1] by (auto split: if_splits)
  qed (use a ok w x' in \<open>auto split: if_splits lst.splits prod.splits simp: Let_def\<close>)
qed

lemma room_one: "room_for c (Suc n) \<Longrightarrow> room_for c 1"
proof -
  have le: "a + int 1 < b" if "a + int (Suc n) < b" for a b using that by linarith
  assume "room_for c (Suc n)"
  then show ?thesis unfolding room_for_def using le by blast
qed

lemma move_room:
  assumes "move s ms s'" and s: "sound_at s G" and room: "room_for (mem s) (Suc n)"
  shows "room_for (mem s') n"
proof -
  note c = sound_parts(1) [OF s]
  note one = room_one [OF room]
  have "mem s' ID_CNTR \<le> mem s ID_CNTR + 1 \<and> mem s' (head_at l + 1) \<le> mem s (head_at l + 1) + 1" for l
    using assms(1)
  proof cases
    case (by_act p pc c ns)
    then show ?thesis using act_counts [OF s one by_act(3)] by simp
  next
    case by_count
    have "wrap64 (mem s ID_CNTR + 1) = mem s ID_CNTR + 1"
      using core_parts(11) [OF c] one by (simp add: room_for_def in_long_def)
    then show ?thesis using by_count by (auto split: if_splits)
  next
    case (by_write i v)
    have "i \<noteq> ID_CNTR" "i \<noteq> head_at l + 1" using by_write(3) by (simp_all add: elsewhere_def)
    then show ?thesis using by_write(2) by auto
  qed auto
  then have "mem s' ID_CNTR + int n \<le> mem s ID_CNTR + int (Suc n)"
    "mem s' (head_at l + 1) + int n \<le> mem s (head_at l + 1) + int (Suc n)" for l by simp_all
  then show ?thesis using room unfolding room_for_def by (meson order_le_less_trans)
qed

lemma runs_sound:
  assumes "evolves s tr n s'" and "sound_at s G" and "room_for (mem s) (n + k)"
  shows "\<exists>G'. sound_at s' G' \<and> vals (mem s) G @ gave (map snd tr) = gone (map snd tr) @ vals (mem s') G' \<and> room_for (mem s') k"
  using assms
proof (induction arbitrary: k)
  case (by_more s tr n s' ms s'')
  obtain G' where G': "sound_at s' G'" "vals (mem s) G @ gave (map snd tr) = gone (map snd tr) @ vals (mem s') G'"
    "room_for (mem s') (Suc k)"
    using by_more.IH [OF by_more.prems(1), of "Suc k"] by_more.prems(2) by auto
  from move_sound [OF by_more.hyps(2) G'(1) room_one [OF G'(3)]] obtain G'' where G'': "sound_at s'' G''"
    "vals (mem s') G' @ gave (map snd ms) = gone (map snd ms) @ vals (mem s'') G''" by blast
  have "vals (mem s) G @ gave (map snd (tr @ ms)) = gone (map snd (tr @ ms)) @ vals (mem s'') G''"
    using G'(2) G''(2) by (metis append.assoc gave_append map_append took_append)
  then show ?case using G''(1) move_room [OF by_more.hyps(2) G'(1,3)] by blast
qed (auto simp: room_for_def)

section \<open>Answers\<close>

text \<open>The instant of an operation that a process has passed and not yet returned from.\<close>

fun due :: "lst \<Rightarrow> long \<Rightarrow> mark list" where
  "due Free_list v = [Deq v]"
| "due Item_list v = []"

fun owed :: "pc \<Rightarrow> mark list" where
  "owed (Clear l v x ks) = (if l = Item_list then [Deq v] else [])"
| "owed (End_gen l v x) = due l v"
| "owed (End_self l v x g) = due l v"
| "owed (End_stamp l v x g) = due l v"
| "owed (End_low l v x g) = due l v"
| "owed (End_high l v x g lo) = due l v"
| "owed (End_test l v x g lo hi) = due l v"
| "owed (End_link l v x g lo hi) = due l v"
| "owed (Help_low l v x g lo hi) = due l v"
| "owed (Help_high l v x g lo hi lo') = due l v"
| "owed (Help_swing l v x g lo hi lo' hi') = due l v"
| "owed (End_swing l v x g lo hi) = (if l = Item_list then [Enq v] else [Deq v])"
| "owed pc = []"

text \<open>The instants in a sequence of marks, and the instants its answers speak of.\<close>

fun instants :: "mark list \<Rightarrow> mark list" where
  "instants [] = []"
| "instants (Enq v # ms) = Enq v # instants ms"
| "instants (Deq v # ms) = Deq v # instants ms"
| "instants (_ # ms) = instants ms"

fun answers :: "mark list \<Rightarrow> mark list" where
  "answers [] = []"
| "answers (Added v # ms) = Enq v # answers ms"
| "answers (Removed v # ms) = Deq v # answers ms"
| "answers (_ # ms) = answers ms"

definition of_proc :: "nat \<Rightarrow> (nat \<times> mark) list \<Rightarrow> mark list" where
  "of_proc p tr = map snd (filter (\<lambda>(q, _). q = p) tr)"

lemma instants_append [simp]: "instants (as @ bs) = instants as @ instants bs"
  by (induction as rule: instants.induct) simp_all

lemma answers_append [simp]: "answers (as @ bs) = answers as @ answers bs"
  by (induction as rule: answers.induct) simp_all

lemma of_proc_append [simp]: "of_proc p (as @ bs) = of_proc p as @ of_proc p bs"
  by (simp add: of_proc_def)

lemma of_proc_Pair [simp]: "of_proc p (map (Pair q) ms) = (if p = q then ms else [])"
  by (induction ms) (auto simp: of_proc_def)

lemma act_owed:
  assumes "act pc c = (pc', c', ns)"
  shows "owed pc @ instants ns = answers ns @ owed pc'"
proof (cases pc)
  case (Clear l v x ks)
  then show ?thesis using assms by (cases l; cases ks) auto
next
  case (Front_test l v gen ref)
  then show ?thesis using assms by (cases l) (auto split: if_splits)
next
  case (Front_swap l v gen ref low)
  then show ?thesis using assms by (cases l) (auto split: if_splits)
next
  case (End_link l v x g lo hi)
  then show ?thesis using assms by (cases l) (auto split: if_splits)
next
  case (End_swing l v x g lo hi)
  then show ?thesis using assms by (cases l) auto
qed (use assms in \<open>auto split: if_splits lst.splits simp: Let_def\<close>)

lemma runs_owed: "evolves s tr n s' \<Longrightarrow> owed (procs s p) @ instants (of_proc p tr) = answers (of_proc p tr) @ owed (procs s' p)"
proof (induction rule: evolves.induct)
  case (by_more s tr n s' ms s'')
  have "owed (procs s' p) @ instants (of_proc p ms) = answers (of_proc p ms) @ owed (procs s'' p)"
    using by_more.hyps(2)
  proof cases
    case (by_act q pc c ns)
    then show ?thesis using act_owed [of "procs s' q"] by (cases "p = q") auto
  qed (auto simp: of_proc_def)
  with by_more.IH show ?case by (metis append.assoc answers_append instants_append of_proc_append)
qed (simp add: of_proc_def)

section \<open>Schedules\<close>

text \<open>Who moves next, and what a process that has nothing to do begins; a schedule is played step by step.\<close>

datatype choice = Begin_add long | Begin_remove | Go

fun chosen :: "nat \<Rightarrow> choice \<Rightarrow> system \<Rightarrow> ((nat \<times> mark) list \<times> system) option" where
  "chosen p (Begin_add v) s =
    (if procs s p = Idle \<and> v \<noteq> 0 then Some ([], s\<lparr>procs := (procs s)(p := Take_gen Free_list v)\<rparr>) else None)"
| "chosen p Begin_remove s =
    (if procs s p = Idle then Some ([], s\<lparr>procs := (procs s)(p := Take_gen Item_list 0)\<rparr>) else None)"
| "chosen p Go s = (case act (procs s p) (mem s) of (pc, c, ns) \<Rightarrow>
     Some (map (Pair p) ns, \<lparr>mem = c, procs = (procs s)(p := pc), nodes = nodes s \<union> held pc\<rparr>))"

fun play :: "(nat \<times> choice) list \<Rightarrow> system \<Rightarrow> ((nat \<times> mark) list \<times> system) option" where
  "play [] s = Some ([], s)"
| "play ((p, ch) # rest) s = (case chosen p ch s of None \<Rightarrow> None
     | Some (ms, s) \<Rightarrow> (case play rest s of None \<Rightarrow> None | Some (tr, s) \<Rightarrow> Some (ms @ tr, s)))"

lemma runs_first: "evolves s' tr n s'' \<Longrightarrow> move s ms s' \<Longrightarrow> evolves s (ms @ tr) (Suc n) s''"
proof (induction rule: evolves.induct)
  case (by_start s')
  then show ?case using evolves.by_more [OF evolves.by_start] by fastforce
next
  case (by_more s' tr n t ns t')
  then show ?case using evolves.by_more [of s "ms @ tr" "Suc n" t ns t'] by simp
qed

lemma chosen_move: "chosen p ch s = Some (ms, s') \<Longrightarrow> move s ms s'"
  by (cases ch) (auto intro: move.intros split: if_splits prod.splits)

lemma play_runs: "play rest s = Some (tr, s') \<Longrightarrow> evolves s tr (length rest) s'"
proof (induction rest s arbitrary: tr rule: play.induct)
  case (1 s)
  then show ?case by (simp add: evolves.by_start)
next
  case (2 p ch rest s)
  then obtain ms t tr' where "chosen p ch s = Some (ms, t)" "play rest t = Some (tr', s')" "tr = ms @ tr'"
    by (auto split: option.splits)
  then show ?case using 2 runs_first chosen_move by fastforce
qed

lemma play_append:
  "play (as @ bs) s = (case play as s of None \<Rightarrow> None | Some (tr, s) \<Rightarrow> map_option (\<lambda>(tr', s). (tr @ tr', s)) (play bs s))"
  by (induction as s rule: play.induct) (auto split: option.splits simp: option.map_comp option.map_id)

section \<open>The list of items under interleaving\<close>

definition coherent :: "system \<Rightarrow> long list \<Rightarrow> bool" where
  "coherent s q \<longleftrightarrow> (\<exists>G. sound_at s G \<and> vals (mem s) G = q)"


text \<open>An object with one node in each list, whose generations are 1 and 2, and nobody at work.\<close>

definition start :: system where
  "start = \<lparr>mem = (\<lambda>_. 0)(DATA_ALLOC := 176, ID_CNTR := 4,
       FREE_HEAD := 164, FREE_HD_CNT := 1, FREE_TAIL := 164, FREE_TL_CNT := 1, 164 := 164, 165 := 1,
       HEAD := 172, HEAD_CNT := 2, TAIL := 172, TAIL_CNT := 2, 172 := 172, 173 := 2),
     procs = (\<lambda>_. Idle), nodes = {164, 172}\<rparr>"

lemma start_sound: "coherent start []"
proof -
  let ?G = "\<lparr>ls = (\<lambda>l. case l of Free_list \<Rightarrow> [164] | Item_list \<Rightarrow> [172]), gn = (\<lambda>x. if x = 164 then 1 else 2),
    pub = (\<lambda>l. case l of Free_list \<Rightarrow> {1} | Item_list \<Rightarrow> {2})\<rparr>"
  have "list_inv (mem start) ?G l" for l by (cases l) (simp_all add: list_inv_def start_def)
  moreover have "node_inv (mem start) {164, 172}" by (simp add: node_inv_def start_def)
  moreover have "set (ls ?G l) \<subseteq> {164, 172}" for l by (cases l) simp_all
  ultimately have "core (mem start) ?G (nodes start)" by (simp add: core_def start_def)
  moreover have "places (procs start) ?G (nodes start)" by (simp add: places_def start_def insert_commute)
  moreover have "tickets (mem start) (procs start) ?G" by (simp add: tickets_def start_def)
  ultimately have "sound_at start ?G" by (simp add: sound_at_def start_def)
  moreover have "vals (mem start) ?G = []" by (simp add: vals_def)
  ultimately show ?thesis unfolding coherent_def by blast
qed

lemma start_room: "n < 2 ^ 60 \<Longrightarrow> room_for (mem start) n"
  by (simp add: room_for_def start_def all_lst)

text \<open>Two processes take turns, access by access, adding 7 and 8; then a third removes a value.\<close>

definition contest :: "(nat \<times> choice) list" where
  "contest = [(0, Begin_add 7), (1, Begin_add 8)] @ concat (replicate 24 [(0, Go), (1, Go)]) @
     [(2, Begin_remove)] @ replicate 24 (2, Go)"

definition contest_marks :: "(nat \<times> mark) list" where
  "contest_marks = [(0, Enq 7), (0, Added 7), (1, Enq 8), (1, Added 8), (2, Deq 7), (2, Removed 7)]"

lemma contest_run:
  obtains s' where "evolves start contest_marks (length contest) s'" and "room_for (mem start) (length contest)"
proof -
  have "map_option fst (play contest start) = Some contest_marks" by code_simp
  then obtain s' where "play contest start = Some (contest_marks, s')" by auto
  moreover have "room_for (mem start) (length contest)"
    by (rule start_room) (simp add: contest_def length_concat sum_list_replicate)
  ultimately show thesis using play_runs that by blast
qed


section \<open>Safety\<close>

text \<open>The words the next access of a process reads or writes, and the pairs it may swap.\<close>

fun touched :: "pc \<Rightarrow> int list" where
  "touched Idle = []"
| "touched (Take_gen l v) = [head_at l + 1]"
| "touched (Take_head l v gen) = [head_at l]"
| "touched (Take_test l v gen ref) = [tail_at l]"
| "touched (Item_next gen ref) = [ref]"
| "touched (Item_value gen ref nx) = [nx + VALUE_OFFSET]"
| "touched (Front_test l v gen ref) = [tail_at l]"
| "touched (Front_next l v gen ref) = [ref]"
| "touched (Front_swap l v gen ref low) = [head_at l, head_at l + 1]"
| "touched (Clear l v x ks) = map (\<lambda>k. x + k) ks"
| "touched (Fresh_read v) = [DATA_ALLOC]"
| "touched (Fresh_swap v x) = [DATA_ALLOC]"
| "touched (Fresh_size v x) = [x]"
| "touched (Put v x) = [x + VALUE_OFFSET]"
| "touched (End_gen l v x) = [ID_CNTR]"
| "touched (End_self l v x g) = [x]"
| "touched (End_stamp l v x g) = [x + 1]"
| "touched (End_low l v x g) = [tail_at l]"
| "touched (End_high l v x g lo) = [tail_at l + 1]"
| "touched (End_test l v x g lo hi) = [lo]"
| "touched (End_link l v x g lo hi) = [lo, lo + 1]"
| "touched (End_swing l v x g lo hi) = [tail_at l, tail_at l + 1]"
| "touched (Help_low l v x g lo hi) = [lo]"
| "touched (Help_high l v x g lo hi lo') = [lo + 1]"
| "touched (Help_swing l v x g lo hi lo' hi') = [tail_at l, tail_at l + 1]"

fun swapped :: "pc \<Rightarrow> int option" where
  "swapped (Front_swap l v gen ref low) = Some (head_at l)"
| "swapped (End_link l v x g lo hi) = Some lo"
| "swapped (End_swing l v x g lo hi) = Some (tail_at l)"
| "swapped (Help_swing l v x g lo hi lo' hi') = Some (tail_at l)"
| "swapped pc = None"

lemma sound_touched:
  assumes "sound_at s G"
  shows "i \<in> set (touched (procs s p)) \<Longrightarrow> 0 \<le> i \<and> i < mem s DATA_ALLOC" and "swapped (procs s p) = Some i \<Longrightarrow> even i"
proof -
  note n = node_inv_parts [OF core_parts(8) [OF sound_parts(1) [OF assms]]] and ok = sound_parts(2) [OF assms, of p]
  have h: "0 \<le> head_at l" "head_at l + 1 < mem s DATA_ALLOC" "0 \<le> tail_at l" "tail_at l + 1 < mem s DATA_ALLOC"
    "head_at l < mem s DATA_ALLOC" "tail_at l < mem s DATA_ALLOC" for l
    using header_low [of l] n(2) by simp_all
  have x: "0 \<le> x \<and> x + k < mem s DATA_ALLOC" if "x \<in> nodes s" "k \<le> 3" for x k
    using n(5,6) [OF that(1)] that(2) by simp
  have c: "0 < mem s DATA_ALLOC" "DATA_ALLOC < mem s DATA_ALLOC" "ID_CNTR < mem s DATA_ALLOC" using n(2) by simp_all
  have even: "even (head_at l)" "even (tail_at l)" for l by (cases l; simp)+
  show "even i" if "swapped (procs s p) = Some i"
    using that ok even n(4) by (cases "procs s p") auto
  show "0 \<le> i \<and> i < mem s DATA_ALLOC" if i: "i \<in> set (touched (procs s p))"
  proof (cases "procs s p")
    case (Clear l v y ks)
    then obtain k where k: "i = y + k" "k \<in> set ks" "set ks \<subseteq> {0, 1, 2, 3}" "y \<in> nodes s" using i ok by auto
    moreover have "0 \<le> k" "k \<le> 3" using k(2,3) by auto
    ultimately show ?thesis using x [of y k] by simp
  next
    case (End_link l v y g lo hi)
    then show ?thesis using that ok x [of lo 0] x [of lo 1] by auto
  qed (use i ok h c x [of _ 0] x [of _ 1] x [of _ 3] in \<open>auto simp: front_def behind_def\<close>)
qed



end
