(* ===== verification/Progress.thy ===== *)
theory Progress
  imports Linear
begin

text \<open>
  Nobody waits for anybody: whatever the others have done and wherever they have stopped, a process that
  runs alone from there finishes its operation.
\<close>

section \<open>How far the tail pair lags behind\<close>

definition lag :: "ghosts \<Rightarrow> (int \<Rightarrow> long) \<Rightarrow> lst \<Rightarrow> nat" where
  "lag G c l = length (dropWhile (\<lambda>x. x \<noteq> c (tail_at l)) (ls G l))"

lemma dropWhile_next:
  assumes "linked c g xs" and "distinct xs" and "x \<in> set xs" and "x \<noteq> last xs"
  shows "length (dropWhile (\<lambda>y. y \<noteq> c x) xs) < length (dropWhile (\<lambda>y. y \<noteq> x) xs)"
  using assms
proof (induction c g xs rule: linked.induct)
  case (3 c g y z zs)
  show ?case
  proof (cases "x = y")
    case True
    then show ?thesis using "3.prems"(1,2) by auto
  next
    case False
    then have "c x \<in> set (z # zs)" using linked_next [of c g "z # zs" x] "3.prems" in_set_tlD by fastforce
    then have "c x \<noteq> y" using "3.prems"(2) by auto
    then show ?thesis using "3.IH" "3.prems" False by auto
  qed
qed auto

section \<open>What brings a process nearer to its end\<close>

text \<open>The phase of the operation, then the accesses left in it; more when what the process remembers is out
  of date, so that it has to start the phase again.\<close>

fun rank :: "ghosts \<Rightarrow> (int \<Rightarrow> long) \<Rightarrow> pc \<Rightarrow> nat \<times> nat" where
  "rank G c Idle = (0, 0)"
| "rank G c (Take_gen l v) = (5, 10)"
| "rank G c (Take_head l v gen) = (5, if gen = c (head_at l + 1) then 9 else 19)"
| "rank G c (Take_test l v gen ref) = (5, if gen = c (head_at l + 1) \<and> ref = c (head_at l) then 8 else 18)"
| "rank G c (Item_next gen ref) = (5, if gen = c (HEAD + 1) \<and> ref = c HEAD then 7 else 17)"
| "rank G c (Item_value gen ref nx) = (5, if gen = c (HEAD + 1) \<and> ref = c HEAD then 6 else 16)"
| "rank G c (Front_test l v gen ref) =
     (5, if gen = c (head_at l + 1) \<and> ref = c (head_at l) \<and> ref \<noteq> c (tail_at l) then 5 else 15)"
| "rank G c (Front_next l v gen ref) = (5, if gen = c (head_at l + 1) \<and> ref = c (head_at l) then 4 else 14)"
| "rank G c (Front_swap l v gen ref low) = (5, if gen = c (head_at l + 1) \<and> ref = c (head_at l) then 3 else 13)"
| "rank G c (Fresh_read v) = (4, 2)"
| "rank G c (Fresh_swap v x) = (4, if x = c DATA_ALLOC then 1 else 3)"
| "rank G c (Fresh_size v x) = (3, 12)"
| "rank G c (Clear l v x ks) = (3, 20 + length ks)"
| "rank G c (Put v x) = (3, 11)"
| "rank G c (End_gen l v x) = (3, 10)"
| "rank G c (End_self l v x g) = (3, 9)"
| "rank G c (End_stamp l v x g) = (3, 8)"
| "rank G c (End_low l v x g) = (2, 10 * lag G c l + 5)"
| "rank G c (End_high l v x g lo) = (2, 10 * lag G c l + (if lo = c (tail_at l) then 4 else 14))"
| "rank G c (End_test l v x g lo hi) =
     (2, 10 * lag G c l + (if lo = c (tail_at l) \<and> hi = c (tail_at l + 1) then 3 else 13))"
| "rank G c (End_link l v x g lo hi) = (2, 10 * lag G c l + (if c lo = lo \<and> c (lo + 1) = hi then 2 else 12))"
| "rank G c (Help_low l v x g lo hi) =
     (2, 10 * lag G c l + (if lo = c (tail_at l) \<and> hi = c (tail_at l + 1) then 2 else 12))"
| "rank G c (Help_high l v x g lo hi lo') =
     (2, 10 * lag G c l + (if lo = c (tail_at l) \<and> hi = c (tail_at l + 1) then 1 else 11))"
| "rank G c (Help_swing l v x g lo hi lo' hi') =
     (2, 10 * lag G c l + (if lo = c (tail_at l) \<and> hi = c (tail_at l + 1) then 0 else 10))"
| "rank G c (End_swing l v x g lo hi) = (1, 0)"

abbreviation (input) nearer :: "((nat \<times> nat) \<times> (nat \<times> nat)) set" where
  "nearer \<equiv> less_than <*lex*> less_than"

lemma lag_same: "c' (tail_at l) = c (tail_at l) \<Longrightarrow> lag G c' l = lag G c l"
  by (simp add: lag_def)

lemma act_nearer:
  assumes s: "sound_at s G" and a: "act (procs s p) (mem s) = (pc, c, ns)" and busy: "procs s p \<noteq> Idle"
    and G': "held pc = held (procs s p) \<Longrightarrow> G' = G"
  shows "(rank G' c pc, rank G (mem s) (procs s p)) \<in> nearer"
proof -
  note cr = sound_parts(1) [OF s] and ok = sound_parts(2) [OF s, of p]
  have nw: "lag G ((mem s)(x + k := v)) l = lag G (mem s) l" if "x \<in> nodes s" "0 \<le> k" for x k v l
    using core_node_words(3) [OF cr that, of l] by (simp add: lag_def)
  show ?thesis
  proof (cases "procs s p")
    case (Take_test l v gen ref)
    then show ?thesis using a by (cases l) (auto split: if_splits)
  next
    case (Item_value gen ref nx)
    then show ?thesis using a ok by (auto simp: front_def removable_def Let_def split: if_splits)
  next
    case (Front_test l v gen ref)
    have "110 \<le> mem s (head_at l)"
      using core_parts(2,15) [OF cr, of l] node_inv_parts(5) [OF core_parts(8) [OF cr]] core_parts(10) [OF cr, of l] by force
    then show ?thesis using a Front_test by (cases l) (auto split: if_splits)
  next
    case (Front_swap l v gen ref low)
    then show ?thesis using a by (cases l) (auto split: if_splits)
  next
    case (Clear l v x ks)
    then show ?thesis using a by (cases ks; cases l) auto
  next
    case (End_test l v x g lo hi)
    have "lo = mem s (tail_at l) \<Longrightarrow> hi = mem s (tail_at l + 1) \<Longrightarrow> mem s lo = lo \<Longrightarrow> mem s (lo + 1) = hi"
      using core_parts(3,4) [OF cr, of l] linked_self [OF core_parts(1) [OF cr] core_parts(9) [OF cr] core_parts(3) [OF cr], of l]
        linked_last(3) [OF core_parts(1) [OF cr, of l]] by simp
    then show ?thesis using a End_test G' by (auto split: if_splits)
  next
    case (Help_swing l v x g lo hi lo' hi')
    have b: "behind (mem s) G (nodes s) l lo hi (mem s lo = lo' \<and> mem s (lo + 1) = hi')" using ok Help_swing by auto
    show ?thesis
    proof (cases "mem s (tail_at l) = lo \<and> mem s (tail_at l + 1) = hi")
      case True
      note t = tail_node [OF cr b conjunct1 [OF True] conjunct2 [OF True]]
      have "lo \<noteq> last (ls G l)" using t(1,2) linked_self [OF core_parts(1) [OF cr] core_parts(9) [OF cr] t(1)] by simp
      then have "lag G c l < lag G (mem s) l"
        using dropWhile_next [OF core_parts(1) [OF cr] core_parts(9) [OF cr] t(1)] t(5) True a Help_swing by (auto simp: lag_def)
      then show ?thesis using a Help_swing G' True by auto
    next
      case False
      then show ?thesis using a Help_swing G' by auto
    qed
  qed (use a ok busy G' in \<open>auto split: if_splits simp: Let_def\<close>)
qed

text \<open>A process alone: only \<open>p\<close> moves.\<close>

definition alone :: "nat \<Rightarrow> nat \<Rightarrow> (nat \<times> choice) list" where
  "alone n p = replicate n (p, Go)"

lemma alone_finishes:
  assumes "sound_at s G" and "room_for (mem s) (uses (procs s p))"
  shows "\<exists>n tr s'. play (alone n p) s = Some (tr, s') \<and> procs s' = (procs s)(p := Idle)"
  using assms
proof (induction "rank G (mem s) (procs s p)" arbitrary: s G rule: wf_induct_rule [OF wf_lex_prod [OF wf_less_than wf_less_than]])
  case 1
  note s = 1(2) and room = 1(3)
  show ?case
  proof (cases "procs s p = Idle")
    case True
    then have "play (alone 0 p) s = Some ([], s) \<and> procs s = (procs s)(p := Idle)" by (auto simp: alone_def)
    then show ?thesis by blast
  next
    case False
    obtain pc c ns where a: "act (procs s p) (mem s) = (pc, c, ns)" by (metis prod_cases3)
    let ?t = "\<lparr>mem = c, procs = (procs s)(p := pc), nodes = nodes s \<union> held pc\<rparr>"
    have "1 \<le> uses (procs s p)" by (cases "procs s p") simp_all
    then have one: "room_for (mem s) 1" using room room_one by (cases "uses (procs s p)") auto
    then have "mem s ID_CNTR + 1 < 2 ^ 63" "mem s (head_at l + 1) + 1 < 2 ^ 63" for l by (simp_all add: room_for_def)
    from act_sound [OF s this, of p] obtain G' where G': "sound_at ?t G'" "held pc = held (procs s p) \<longrightarrow> G' = G"
      unfolding a step_ok_def by auto
    have "(rank G' (mem ?t) (procs ?t p), rank G (mem s) (procs s p)) \<in> nearer"
      using act_nearer [OF s a False] G'(2) by simp
    moreover have "room_for (mem ?t) (uses (procs ?t p))"
    proof -
      have "c ID_CNTR + int (uses pc) \<le> mem s ID_CNTR + int (uses (procs s p))"
        "c (head_at l + 1) + int (uses pc) \<le> mem s (head_at l + 1) + int (uses (procs s p))" for l
        using act_counts [OF s one a] by blast+
      then show ?thesis using room unfolding room_for_def by simp (meson order_le_less_trans)
    qed
    ultimately obtain n tr s' where n: "play (alone n p) ?t = Some (tr, s')" "procs s' = (procs ?t)(p := Idle)"
      using 1(1) [of G' ?t] G'(1) by blast
    then have "play (alone (Suc n) p) s = Some (map (Pair p) ns @ tr, s') \<and> procs s' = (procs s)(p := Idle)"
      by (simp add: alone_def a)
    then show ?thesis by blast
  qed
qed


text \<open>Process 0 stops with its node linked but the tail pair not moved; process 1 is in the middle of its own
  operation.\<close>

definition stalled :: "(nat \<times> choice) list" where
  "stalled = [(0, Begin_add 7)] @ alone 14 0 @ [(1, Begin_add 8)] @ alone 3 1"


end
