(* ===== verification/Race.thy ===== *)
theory Race
  imports Creation Progress
begin

text \<open>
  The object as \<open>shr_q_create\<close> leaves it, and several processes on it. The generations start at 0, the value
  to which a node is cleared, and the first node of the free list carries it. Once that node has been used
  again no generation is 0, and all that \<open>Linear\<close> and \<open>Progress\<close> show holds. Before, a process that stops
  at the wrong access can link its node to one that has left the list.
\<close>

section \<open>The new object\<close>

text \<open>The words are those \<open>create_ok\<close> gives for a queue of \<open>d\<close> items; the free list has node 164, the items
  172.\<close>

definition created :: "int \<Rightarrow> system" where
  "created d = \<lparr>mem = fresh_cells d, procs = (\<lambda>_. Idle), nodes = {164, 172}\<rparr>"

lemma replicate_next: "replicate (numeral n) x = x # replicate (pred_numeral n) x"
  by (simp add: numeral_eq_Suc)

section \<open>After the first reuse\<close>

text \<open>One process adds a value, removes it and adds another; the first free node then holds an item.\<close>

definition warm_up :: "(nat \<times> choice) list" where
  "warm_up = [(0, Begin_add 1)] @ alone 16 0 @ [(0, Begin_remove)] @ alone 24 0 @ [(0, Begin_add 2)] @ alone 30 0"

definition warm :: "int \<Rightarrow> system" where
  "warm d = \<lparr>mem = (\<lambda>_. 0)(MAX_DEPTH := d, 120 := 168, 121 := 1, 110 := 168, 111 := 1, 168 := 168, 169 := 1,
       DATA_ALLOC := 180, 179 := 1, HEAD := 176, HEAD_CNT := 3, 172 := 172, 173 := 4,
       FREE_TAIL := 172, FREE_TL_CNT := 4, FREE_HEAD := 172, FREE_HD_CNT := 1, 166 := 0, 167 := 2,
       ID_CNTR := 6, 164 := 164, 165 := 5, 176 := 164, 177 := 5, TAIL := 164, TAIL_CNT := 5),
     procs = (\<lambda>_. Idle)(0 := Idle), nodes = {164, 172, 176, 172, 164}\<rparr>"

lemma warm_up_run:
  "play warm_up (created d) = Some ([(0, Enq 1), (0, Added 1), (0, Deq 1), (0, Removed 1), (0, Enq 2), (0, Added 2)], warm d)"
  by (simp add: warm_up_def created_def alone_def fresh_cells_def replicate_next warm_def)

lemma warm_sound: "coherent (warm d) [2]"
proof -
  let ?G = "\<lparr>ls = (\<lambda>l. case l of Free_list \<Rightarrow> [172] | Item_list \<Rightarrow> [176, 164]),
    gn = (\<lambda>x. if x = 172 then 4 else if x = 176 then 3 else 5),
    pub = (\<lambda>l. case l of Free_list \<Rightarrow> {4} | Item_list \<Rightarrow> {3, 5})\<rparr>"
  have "list_inv (mem (warm d)) ?G l" for l by (cases l) (simp_all add: list_inv_def warm_def)
  moreover have "node_inv (mem (warm d)) {164, 172, 176}" by (simp add: node_inv_def warm_def)
  moreover have "set (ls ?G l) \<subseteq> {164, 172, 176}" for l by (cases l) simp_all
  moreover have N: "nodes (warm d) = {164, 172, 176}" by (auto simp: warm_def)
  ultimately have "core (mem (warm d)) ?G (nodes (warm d))" by (simp add: core_def warm_def)
  moreover have "places (procs (warm d)) ?G (nodes (warm d))" unfolding N by (auto simp: places_def warm_def)
  moreover have "tickets (mem (warm d)) (procs (warm d)) ?G" by (simp add: tickets_def warm_def)
  ultimately have "sound_at (warm d) ?G" by (simp add: sound_at_def warm_def)
  moreover have "vals (mem (warm d)) ?G = [2]" by (simp add: vals_def warm_def)
  ultimately show ?thesis unfolding coherent_def by blast
qed

section \<open>Before\<close>

text \<open>Process 1 adds 1 and 2. Process 0 removes 1 and stops before it links the node it removed behind the
  first free node. Process 1 removes 2, which moves the tail of the free list on, and adds 3 with the first
  free node, as far as its generation word, which is still cleared. Now process 0 goes on.\<close>

definition collision :: "(nat \<times> choice) list" where
  "collision = [(1, Begin_add 1)] @ alone 16 1 @ [(1, Begin_add 2)] @ alone 16 1 @ [(0, Begin_remove)] @ alone 17 0 @
     [(1, Begin_remove)] @ alone 30 1 @ [(1, Begin_add 3)] @ alone 16 1 @ alone 6 0 @ alone 10 1 @
     [(1, Begin_add 4)] @ alone 18 1"

definition collision_marks :: "(nat \<times> mark) list" where
  "collision_marks = [(1, Enq 1), (1, Added 1), (1, Enq 2), (1, Added 2), (0, Deq 1), (1, Deq 2), (1, Removed 2),
     (0, Removed 1), (1, Enq 3), (1, Added 3)]"

text \<open>The tail pair of the items names node 172 with generation 7; the node itself carries 5 and leads into the
  free list.\<close>

lemma collision_run:
  obtains s where "play collision (created d) = Some (collision_marks, s)"
    and "procs s 1 = End_test Item_list 4 184 8 172 7"
    and "mem s TAIL = 172" "mem s TAIL_CNT = 7" "mem s 172 = 172" "mem s 173 = 5"
proof
  let ?s = "\<lparr>mem = (\<lambda>_. 0)(MAX_DEPTH := d, 120 := 168, 121 := 1, 110 := 168, 111 := 1, 168 := 168, 169 := 1,
      179 := 1, 183 := 2, 172 := 172, 173 := 5, HEAD := 180, HEAD_CNT := 4, 176 := 176, 177 := 6,
      FREE_TAIL := 176, FREE_TL_CNT := 6, FREE_HEAD := 176, FREE_HD_CNT := 1, 166 := 0, 167 := 3, 164 := 172,
      165 := 7, 180 := 164, 181 := 7, DATA_ALLOC := 188, 187 := 4, ID_CNTR := 9, 184 := 184, 185 := 8,
      TAIL := 172, TAIL_CNT := 7),
    procs = (\<lambda>_. Idle)(0 := Idle, 1 := End_test Item_list 4 184 8 172 7),
    nodes = {164, 172, 176, 180, 172, 176, 164, 184}\<rparr>"
  show "play collision (created d) = Some (collision_marks, ?s)"
    by (simp add: collision_def created_def alone_def fresh_cells_def replicate_next collision_marks_def)
qed simp_all

text \<open>The loop of \<open>add_end\<close> that finds the last node equal to itself but not the pair it expects.\<close>

fun circling :: "pc \<Rightarrow> (int \<Rightarrow> long) \<Rightarrow> bool" where
  "circling (End_low l v x g) c \<longleftrightarrow> c (c (tail_at l)) = c (tail_at l) \<and> c (c (tail_at l) + 1) \<noteq> c (tail_at l + 1)"
| "circling (End_high l v x g lo) c \<longleftrightarrow> lo = c (tail_at l) \<and> c lo = lo \<and> c (lo + 1) \<noteq> c (tail_at l + 1)"
| "circling (End_test l v x g lo hi) c \<longleftrightarrow> lo = c (tail_at l) \<and> hi = c (tail_at l + 1) \<and> c lo = lo \<and> c (lo + 1) \<noteq> hi"
| "circling (End_link l v x g lo hi) c \<longleftrightarrow> lo = c (tail_at l) \<and> hi = c (tail_at l + 1) \<and> c lo = lo \<and> c (lo + 1) \<noteq> hi"
| "circling pc c \<longleftrightarrow> False"

lemma circling_act:
  assumes "circling pc c"
  shows "\<exists>pc'. act pc c = (pc', c, []) \<and> circling pc' c"
  using assms by (cases pc) auto

lemma circling_for_ever:
  assumes "circling (procs s p) (mem s)"
  shows "\<exists>s'. play (alone n p) s = Some ([], s') \<and> circling (procs s' p) (mem s') \<and> mem s' = mem s"
  using assms
proof (induction n arbitrary: s)
  case 0
  then show ?case by (simp add: alone_def)
next
  case (Suc n)
  obtain pc where a: "act (procs s p) (mem s) = (pc, mem s, [])" "circling pc (mem s)" using circling_act [OF Suc.prems] by blast
  let ?t = "\<lparr>mem = mem s, procs = (procs s)(p := pc), nodes = nodes s \<union> held pc\<rparr>"
  obtain s' where "play (alone n p) ?t = Some ([], s')" "circling (procs s' p) (mem s')" "mem s' = mem s"
    using Suc.IH [of ?t] a(2) by auto
  moreover from this(1) have "play (alone (Suc n) p) s = Some ([], s')" by (simp add: alone_def a(1))
  ultimately show ?case by blast
qed

text \<open>C26: the first node of the free list is created with generation 0, the value to which a node is cleared
  before it is used again. On a new queue two processes can so bring the tail pair of the items
  to a node of the free list; the process that adds the next value then tries for ever, alone, without
  changing a word and without returning.\<close>

theorem generation_zero:
  "\<exists>s. play collision (created d) = Some (collision_marks, s) \<and>
    (\<forall>n. \<exists>s'. play (alone n 1) s = Some ([], s') \<and> procs s' 1 \<noteq> Idle \<and> mem s' = mem s)"
proof -
  obtain s where s: "play collision (created d) = Some (collision_marks, s)" "procs s 1 = End_test Item_list 4 184 8 172 7"
    "mem s TAIL = 172" "mem s TAIL_CNT = 7" "mem s 172 = 172" "mem s 173 = 5"
    by (rule collision_run)
  then have "circling (procs s 1) (mem s)" by simp
  from circling_for_ever [OF this] have "\<exists>s'. play (alone n 1) s = Some ([], s') \<and> procs s' 1 \<noteq> Idle \<and> mem s' = mem s" for n
    by (metis circling.simps(5))
  with s(1) show ?thesis by blast
qed

end
