(* ===== verification/Agreement.thy ===== *)
theory Agreement
  imports Interleaving
begin

text \<open>
  The two models of the lists agree. \<open>Lists\<close> runs \<open>add_end\<close> and \<open>remove_front\<close> in one piece, through the
  mappings of one process; \<open>Interleaving\<close> cuts them into accesses. When nobody else moves, the accesses of
  the one have the outcome of the other.
\<close>

section \<open>The accesses of one process, one after the other\<close>

fun solo :: "nat \<Rightarrow> pc \<Rightarrow> (int \<Rightarrow> long) \<Rightarrow> pc \<times> (int \<Rightarrow> long) \<times> mark list" where
  "solo 0 pc c = (pc, c, [])"
| "solo (Suc n) pc c = (case act pc c of (pc, c, ms) \<Rightarrow> (case solo n pc c of (pc, c, ms') \<Rightarrow> (pc, c, ms @ ms')))"

lemma solo_add:
  assumes "solo m pc c = (pc', c', ms)" and "solo n pc' c' = (pc'', c'', ms')"
  shows "solo (m + n) pc c = (pc'', c'', ms @ ms')"
  using assms by (induction m pc c arbitrary: ms rule: solo.induct) (auto split: prod.splits)

lemma solo_numeral:
  "solo (numeral n) pc c =
    (case act pc c of (pc, c, ms) \<Rightarrow> (case solo (pred_numeral n) pc c of (pc, c, ms') \<Rightarrow> (pc, c, ms @ ms')))"
  by (simp add: numeral_eq_Suc)

lemma head_pair [simp]: "hdr_pair (head_at l)"
  by (cases l) (simp_all add: hdr_pair_def)

lemma tail_pair [simp]: "hdr_pair (tail_at l)"
  by (cases l) (simp_all add: hdr_pair_def)

section \<open>Appending\<close>

text \<open>The marks \<open>add_end\<close> leaves: the value is in the queue once the node is linked, and the operation
  returns.\<close>

fun end_marks :: "lst \<Rightarrow> long \<Rightarrow> mark list" where
  "end_marks Free_list v = [Removed v]"
| "end_marks Item_list v = [Enq v, Added v]"

lemma end_marks_eq: "(case l of Free_list \<Rightarrow> [] | Item_list \<Rightarrow> [Enq v]) @ [returned l v] = end_marks l v"
  by (cases l) simp_all

lemma solo_loop:
  assumes "chain c (n # ns)" and "distinct (n # ns)" and "\<forall>y\<in>set (n # ns). node_ok m y"
    and "c (tail_at l) = n" and "ns = [] \<longrightarrow> c (tail_at l + 1) = c (n + 1)"
  shows "\<exists>k. solo k (End_low l v x g) c =
    (Idle, c(last (n # ns) := x, last (n # ns) + 1 := g, tail_at l := x, tail_at l + 1 := g), end_marks l v)"
  using assms
proof (induction ns arbitrary: c n)
  case Nil
  have n: "c n = n" "c (tail_at l) = n" "c (tail_at l + 1) = c (n + 1)" using Nil.prems by simp_all
  have far: "tail_at l \<noteq> n" "tail_at l \<noteq> n + 1" "tail_at l + 1 \<noteq> n"
    using hdr_node_neq [OF tail_pair, of m n l] Nil.prems(3) by simp_all
  have "solo 5 (End_low l v x g) c = (Idle, c(n := x, n + 1 := g, tail_at l := x, tail_at l + 1 := g), end_marks l v)"
    by (simp add: solo_numeral n far far [symmetric] end_marks_eq)
  then show ?case by (intro exI [of _ 5]) (simp add: fun_upd_def)
next
  case (Cons k ks)
  have k: "c n = k" "k \<noteq> n" "chain c (k # ks)" using Cons.prems(1,2) by auto
  let ?c = "c(tail_at l := k, tail_at l + 1 := c (n + 1))"
  have step: "solo 6 (End_low l v x g) c = (End_low l v x g, ?c, [])"
    using Cons.prems(4) k by (auto simp: solo_numeral)
  have far: "tail_at l \<noteq> y \<and> tail_at l \<noteq> y + 1 \<and> tail_at l + 1 \<noteq> y \<and> tail_at l + 1 \<noteq> y + 1" if "y \<in> set (k # ks)" for y
    using that Cons.prems(3) hdr_node_neq [OF tail_pair] by (metis list.set_intros(2))
  have c: "chain ?c (k # ks)"
  proof (rule chain_cong [OF k(3)])
    fix y assume "y \<in> set (k # ks)"
    from far [OF this] show "?c y = c y \<and> ?c (y + 1) = c (y + 1)" by auto
  qed
  have g: "ks = [] \<longrightarrow> ?c (tail_at l + 1) = ?c (k + 1)" using Cons.prems(1) far [of k] by auto
  have d: "distinct (k # ks)" "\<forall>y\<in>set (k # ks). node_ok m y" "?c (tail_at l) = k" using Cons.prems(2,3) by simp_all
  obtain j where j: "solo j (End_low l v x g) ?c = (Idle,
      ?c(last (k # ks) := x, last (k # ks) + 1 := g, tail_at l := x, tail_at l + 1 := g), end_marks l v)"
    using Cons.IH [OF c d g] by blast
  have "?c(last (k # ks) := x, last (k # ks) + 1 := g, tail_at l := x, tail_at l + 1 := g) =
      c(last (n # k # ks) := x, last (n # k # ks) + 1 := g, tail_at l := x, tail_at l + 1 := g)"
    by (auto simp: fun_eq_iff)
  with solo_add [OF step j] have "solo (6 + j) (End_low l v x g) c =
      (Idle, c(last (n # k # ks) := x, last (n # k # ks) + 1 := g, tail_at l := x, tail_at l + 1 := g), end_marks l v)"
    by (simp only: append_Nil)
  then show ?case by blast
qed

text \<open>C27: run without interruption, the accesses into which \<open>add_end\<close> is cut have the outcome of \<open>add_end\<close> in
  one piece: both return, and leave every word of the object the same, wherever in the list an unfinished
  appending of another process has left the tail pair.\<close>

theorem add_end_agrees:
  assumes "base_ok s" and "calm s" and "list_lag (cells s) (head_at l) (tail_at l) ns"
    and "\<forall>y\<in>set ns. node_ok (cells s SIZE) y" and "node_ok (cur_slots s) x" and "x \<notin> set ns"
  shows "\<exists>s' k. add_end s x (tail_at l) = Some s' \<and> solo k (End_gen l v x) (cells s) = (Idle, cells s', end_marks l v)"
proof -
  let ?c = "cells s"
  let ?d = "?c(ID_CNTR := wrap64 (?c ID_CNTR + 1), x := x, x + 1 := ?c ID_CNTR)"
  obtain s' where s': "add_end s x (tail_at l) = Some s'" "cells s' = add_end_cells ?c (last ns) x (tail_at l)"
    using add_end_ok [OF assms(1-4) tail_pair assms(5,6)] by blast
  obtain n pre suf where ns: "ns = pre @ n # suf" "?c (tail_at l) = n"
    using assms(3) by (auto simp: list_lag_def in_set_conv_decomp)
  have xS: "node_ok (?c SIZE) x" using assms(5) base_ok_bounds(2) [OF assms(1)] by (auto simp: node_ok_def)
  have far: "y \<noteq> x \<and> y \<noteq> x + 1 \<and> y + 1 \<noteq> x \<and> y + 1 \<noteq> x + 1 \<and> y \<noteq> ID_CNTR \<and> y + 1 \<noteq> ID_CNTR" if "y \<in> set ns" for y
  proof -
    have "node_ok (?c SIZE) y" "y \<noteq> x" using that assms(4,6) by auto
    with node_ok_aligned [OF this(1) xS this(2)] show ?thesis by (auto simp: node_ok_def)
  qed
  have "tail_at l \<noteq> ID_CNTR" "tail_at l + 1 \<noteq> ID_CNTR" by (cases l; simp)+
  then have tl: "?d (tail_at l) = n" "?d (tail_at l + 1) = ?c (tail_at l + 1)"
    using hdr_node_neq [OF tail_pair xS, of l] ns(2) by simp_all
  have "chain ?c ns" using assms(3) by (simp add: list_lag_def)
  then have "chain ?c (n # suf)" unfolding ns by (rule chain_append) simp
  then have c: "chain ?d (n # suf)"
  proof (rule chain_cong)
    fix y assume "y \<in> set (n # suf)"
    then have "y \<in> set ns" by (auto simp: ns(1))
    from far [OF this] show "?d y = ?c y \<and> ?d (y + 1) = ?c (y + 1)" by auto
  qed
  have d: "distinct (n # suf)" "\<forall>y\<in>set (n # suf). node_ok (?c SIZE) y" using assms(3,4) ns(1) by (auto simp: list_lag_def)
  have "suf = [] \<longrightarrow> ?c (tail_at l + 1) = ?c (n + 1)" using assms(3) ns by (auto simp: list_lag_def)
  then have g: "suf = [] \<longrightarrow> ?d (tail_at l + 1) = ?d (n + 1)" unfolding tl(2) using far [of n] ns(1) by simp
  obtain k where k: "solo k (End_low l v x (?c ID_CNTR)) ?d = (Idle,
      ?d(last (n # suf) := x, last (n # suf) + 1 := ?c ID_CNTR, tail_at l := x, tail_at l + 1 := ?c ID_CNTR), end_marks l v)"
    using solo_loop [OF c d tl(1) g] by blast
  have "solo 3 (End_gen l v x) ?c = (End_low l v x (?c ID_CNTR), ?d, [])" by (simp add: solo_numeral)
  from solo_add [OF this k] have "solo (3 + k) (End_gen l v x) ?c = (Idle, cells s', end_marks l v)"
    by (simp add: s'(2) add_end_cells_def ns(1))
  with s'(1) show ?thesis by blast
qed

theorem add_end_agrees_witness:
  "\<exists>s' k. add_end (sample_state ((\<lambda>_. 0)(HEAD := 164, TAIL := 164, TAIL_CNT := 7, 164 := 168, 165 := 8, 168 := 168, 169 := 8))) 172 TAIL
      = Some s' \<and> solo k (End_gen Item_list 5 172)
        (cells (sample_state ((\<lambda>_. 0)(HEAD := 164, TAIL := 164, TAIL_CNT := 7, 164 := 168, 165 := 8, 168 := 168, 169 := 8))))
      = (Idle, cells s', [Enq 5, Added 5])"
  using add_end_agrees [of "sample_state ((\<lambda>_. 0)(HEAD := 164, TAIL := 164, TAIL_CNT := 7, 164 := 168, 165 := 8, 168 := 168, 169 := 8))"
      Item_list "[164, 168]" 172 5]
  by (auto simp: list_lag_def node_ok_def)

section \<open>Removing\<close>

text \<open>C28: so do those of \<open>remove_front\<close>. If it returns the node, the accesses move the head on and clear the
  same two words; if it returns 0, because the head has moved on since it was read or because the node is the
  last, they change nothing and the caller goes on as after a failed removal.\<close>

theorem remove_front_agrees:
  assumes "base_ok s" and "calm s" and "node_ok (cells s SIZE) ref"
  shows "\<exists>r s' k. remove_front s ref gen (head_at l) (tail_at l) = Some (r, s') \<and>
    (r = ref \<or> r = 0) \<and> solo k (Front_test l v gen ref) (cells s) =
     (if r = ref
      then (Clear l v ref (drop 2 (cleared l)), cells s', if l = Item_list then [Deq v] else [])
      else (fst (give_up l v), cells s', snd (give_up l v)))"
proof -
  let ?c = "cells s"
  note far = hdr_node_neq [OF head_pair assms(3), of l]
  have B: "BASE \<le> ref" "ref \<noteq> 0" "0 < ref" "ref < cells s SIZE" using assms(3) by (auto simp: node_ok_def)
  have rt: "rd s (base_current s) (tail_at l) = Some (?c (tail_at l))"
    by (rule hdr_pair_exec(1) [OF base_ok_cur_header [OF assms(1)] tail_pair])
  show ?thesis
  proof (cases "?c (tail_at l) = ref")
    case True
    have "remove_front s ref gen (head_at l) (tail_at l) = Some (0, s)"
      by (rule remove_front_last [OF assms(1) tail_pair True])
    moreover have "solo 1 (Front_test l v gen ref) ?c = (fst (give_up l v), ?c, snd (give_up l v))"
      using True by (cases l) simp_all
    ultimately show ?thesis using B(2) by (intro exI [of _ 0] exI [of _ s] exI [of _ 1]) simp
  next
    case tail: False
    show ?thesis
    proof (cases "?c (head_at l) = ref \<and> ?c (head_at l + 1) = gen")
      case True
      obtain s' where s': "remove_front s ref gen (head_at l) (tail_at l) = Some (ref, s')"
        "cells s' = remove_front_cells ?c ref (head_at l)"
        using remove_front_ok [OF assms head_pair tail_pair, of l l] True tail by metis
      have "solo 5 (Front_test l v gen ref) ?c = (Clear l v ref (drop 2 (cleared l)), cells s', if l = Item_list then [Deq v] else [])"
        using True tail B far by (cases l) (auto simp: solo_numeral s'(2) remove_front_cells_def fun_eq_iff)
      with s'(1) show ?thesis by (intro exI [of _ ref] exI [of _ s'] exI [of _ 5]) simp
    next
      case False
      obtain s1 where s1: "insure_in_range s ref = Some (\<lparr>v_status = SH_OK, v_slot = ref, v_ext = base_current s1\<rparr>, s1)"
        "base_ok s1" "cells s1 = ?c" "ref < cur_slots s1"
        using insure_in_range_ok [OF assms(1,2) B(3,4)] by metis
      note m = base_ok_cur_mapped [OF s1(2)] and h = base_ok_cur_header [OF s1(2)]
      have n: "node_ok (cells s1 SIZE) ref" using assms(3) s1(3) by simp
      have "remove_front s ref gen (head_at l) (tail_at l) = Some (0, s1)"
        using rt s1 tail B False node_exec(1) [OF m node_ok_mapped [OF s1(2) n s1(4)] n] hdr_pair_exec(3) [OF h head_pair, of l]
        by (auto simp: remove_front_def)
      moreover have "solo 3 (Front_test l v gen ref) ?c = (fst (give_up l v), ?c, snd (give_up l v))"
        using False tail B by (cases l) (auto simp: solo_numeral)
      ultimately show ?thesis using B(2) s1(3) by (intro exI [of _ 0] exI [of _ s1] exI [of _ 3]) simp
    qed
  qed
qed

theorem remove_front_agrees_witness:
  "\<exists>r s'. remove_front (sample_state ((\<lambda>_. 0)(HEAD := 164, HEAD_CNT := 6, TAIL := 168, 164 := 168, 168 := 168))) 164 6 HEAD TAIL
      = Some (r, s')"
  using remove_front_agrees [of "sample_state ((\<lambda>_. 0)(HEAD := 164, HEAD_CNT := 6, TAIL := 168, 164 := 168, 168 := 168))" 164 6 Item_list 5]
  by (auto simp: node_ok_def)

end
