(* ===== verification/Spec2Isabelle.thy ===== *)
theory Spec2Isabelle
  imports Benchmark Race Agreement
begin

text \<open>
  libshr: queues in shared memory. A model of the library under \<open>src/src\<close>, of the command line tool
  \<open>src/sharedq\<close> and the benchmark \<open>src/shrq_harness\<close> on top of it, and the properties that make them correct.

  \<^bold>\<open>The program.\<close> A queue is one object of shared memory, an array of 64-bit words. Its header holds
  the counters, the flags, the time limits, four semaphores and the ends of three linked lists; behind
  it grow blocks of slots, handed out by an allocator that never returns memory. The lists are
  lock-free: every change is one compare-and-swap on a pair (slot, generation), retried until it
  succeeds. \<open>shared_int.c\<close> has the memory, the allocator and the lists, \<open>shared_q.c\<close> the queue above it
  (semaphore gates, items, events, expiry, adaptive LIFO) and the public functions, \<open>shared.c\<close> the status
  codes. \<open>src/sharedq/main.c\<close> is a tool whose commands call the public functions and print what they say.

  \<^bold>\<open>The theories\<close>, in the order of the code:
  \<^item> \<open>Prelude\<close>: words kept at 64 bits, byte reads and writes, lemmas on lists and maps that all share.
  \<^item> \<open>Shared\<close>: \<open>sh_status_e\<close>, \<open>shr_explain\<close> (\<open>shared.c\<close>) and the \<open>timespec\<close> macros.
  \<^item> \<open>Layout\<close>: the words of the header (the enums of \<open>shared_int.h\<close> and \<open>shared_q.c\<close>), flags and modes.
  \<^item> \<open>Mem\<close>: the state \<open>qstate\<close> of a handle (\<open>cells\<close> the words of the object, \<open>chain\<close> the mappings of the handle,
    \<open>sems\<close> the semaphores, \<open>clock\<close> the readings of the clock still to come, the failures the system may
    report) and the primitives \<open>CAS\<close>, \<open>DWCAS\<close>, \<open>AFA\<close>, \<open>AFS\<close>; a read or write outside a mapping is \<open>None\<close>.
  \<^item> \<open>Names\<close>: \<open>validate_name\<close>, \<open>validate_existence\<close>, \<open>perform_name_validations\<close>.
  \<^item> \<open>Extents\<close>: the mappings and their growth (\<open>expand\<close>, \<open>insure_in_range\<close>, \<open>insure_fit\<close>), \<open>set_flag\<close>,
    \<open>clear_flag\<close>, \<open>update_buffer_size\<close>.
  \<^item> \<open>Lists\<close>: \<open>add_end\<close>, \<open>remove_front\<close>.
  \<^item> \<open>Alloc\<close>: \<open>alloc_new_data\<close>, \<open>alloc_idx_slots\<close>, \<open>alloc_data_slots\<close>, \<open>free_data_slots\<close>, \<open>prime_list\<close>,
    \<open>init_data_allocator\<close>.
  \<^item> \<open>Data\<close>: \<open>copy_value\<close>, \<open>copy_vector\<close> and their counterpart \<open>copy_to_buffer\<close>.
  \<^item> \<open>Events\<close>: events, signals and the expiry of items. \<open>Gates\<close>: the semaphore gates in their plain,
    waiting and timed forms. \<open>Queue\<close>: \<open>enq\<close>, \<open>enqv\<close>, \<open>deq\<close>. \<open>Api\<close>: the public functions.
  \<^item> \<open>Lifecycle\<close>: \<open>shr_q_create\<close>, \<open>shr_q_open\<close>, \<open>shr_q_close\<close>, \<open>shr_q_destroy\<close>, \<open>shr_q_is_valid\<close> over a map from
    paths to objects.
  \<^item> \<open>Console\<close>: what the tool does with text: \<open>sharedq_atol\<close>, \<open>parse_modifiers\<close>, \<open>hex_format\<close>, \<open>readline\<close>.
    \<open>Help\<close>: its help texts. \<open>Commands\<close>: the commands that finish by themselves, over the state \<open>desk\<close> (the
    named objects, standard input and output, the files). \<open>Signals\<close>: the handler, the commands that wait for
    signals and \<open>main\<close>.
  \<^item> \<open>Harness\<close>: the benchmark \<open>shrq_harness\<close> with its arguments, its one-thread run and its producers and
    consumers, in the variant where all threads use one handle (\<open>MTHRD\<close>).

  The proofs build on these:
  \<^item> \<open>Invariant\<close>: the ghost view of an object (its lists, its stack, the blocks of every entry) and the
    invariant \<open>inv\<close> that ties it to the words: lists linked, generations below the counter, blocks
    disjoint and inside the object, counters equal to lengths, semaphores equal to what they count.
  \<^item> \<open>Moves\<close>, \<open>Steps\<close>, \<open>Process\<close>: how the allocator, the lists, the events and the two directions of the
    queue move the ghost view; each primitive step of the code has one lemma there.
  \<^item> \<open>Contracts\<close>: the interface of the gates. The locales \<open>gate\<close> and \<open>closing_gate\<close> state what entering
    promises; adding and removing are proved once in \<open>enq_gate\<close> and \<open>deq_gate\<close>; all six gates of the
    code are interpretations.
  \<^item> \<open>Creation\<close>, \<open>Adding\<close>, \<open>Removing\<close>, \<open>Control\<close>, \<open>Collect\<close>, \<open>Clean\<close>: the contracts of the public functions on
    \<open>queue_holds s q evs\<close>, a handle on an object that satisfies the invariant, holds the items \<open>q\<close> (time
    stamp and value, in the order of removal) and the events \<open>evs\<close>.
  \<^item> \<open>Histories\<close>: the locale \<open>bounded_queue\<close>; any sequence of plain or of timed calls is answered as a
    bounded list answers it.
  \<^item> \<open>Sessions\<close>: closing, opening again, destroying, and objects that are no queue.
  \<^item> \<open>Runs\<close>: a program as a transition system; the invariant and progress of every reachable state.
  \<^item> \<open>Tool\<close> and the last section of \<open>Signals\<close>: what typing lines into \<open>sharedq add\<close> does to the queue, what
    \<open>sharedq drain\<close> prints of it, and that the lines come out as they went in. They rest on the contracts of
    the public functions and on \<open>Sessions\<close>; the properties of the helpers are in \<open>Console\<close>.

  \<^item> \<open>Benchmark\<close>: the accounts of the benchmark's threads (\<open>books\<close>); its threads can always finish and the sums
    it compares are equal. A call of the library is one step there.

  Several processes at once:
  \<^item> \<open>Interleaving\<close>: \<open>add_end\<close>, \<open>remove_front\<close>, the allocation of a node (\<open>realloc_pooled_mem\<close>, \<open>alloc_new_data\<close>)
    and the parts of \<open>enq_data\<close> and \<open>fifo_remove\<close> around them, cut into single accesses to the shared words. \<open>pc\<close>
    is where a process is, with its local variables; \<open>act\<close> its next access; \<open>move\<close> a step of the system, \<open>evolves\<close>
    a run of so many steps of any processes in any order. Moves also take numbers from \<open>ID_CNTR\<close>, blocks from
    \<open>DATA_ALLOC\<close> and write elsewhere, as the rest of the library does.
  \<^item> \<open>Interference\<close>: the invariant \<open>sound_at\<close> and what a process may rely on while the others move (\<open>env\<close>).
  \<^item> \<open>Linear\<close>: every access keeps it; so the item list is one queue for all processes, no node is in two hands
    and every access is inside the object. \<open>room_for\<close> says that the counters do not wrap within the run.
  \<^item> \<open>Progress\<close>: a process that moves alone finishes, by a rank that every access lowers.
  \<^item> \<open>Race\<close>: the object as it is created, where the invariant does not hold yet, because a generation is 0; what
    two processes can do to it then (\<open>generation_zero\<close>), and that it holds after the first reuse of a node
    (\<open>warm_sound\<close>).
  \<^item> \<open>Agreement\<close>: run without interruption, the accesses have the outcome of \<open>Lists\<close>.

  \<^bold>\<open>Conventions.\<close> A call that aborts, loops for ever or waits for somebody else is \<open>None\<close>; so every theorem
  of the form \<open>\<exists>t. f s = Some t\<close> says that the call returns without touching memory outside its mappings.
  Retry loops are \<open>partial_function (option)\<close>, without fuel. A \<open>long\<close> is an \<open>int\<close> that \<open>wrap64\<close> keeps at its
  width, bytes are 8-bit words. Except in the theories on several processes an operation is one uninterrupted
  run of the code, on an object that other processes may have left in any state the invariant allows, with nodes
  linked but the tail not yet moved in \<open>Lists.add_end_repairs\<close>. The failures of \<open>ftruncate\<close>, \<open>mmap\<close> and
  \<open>malloc\<close> are streams in the state; the safety theorem of \<open>Extents\<close> holds for all of them, the contracts
  assume a state without failures (\<open>quiet\<close>) and slots left below the largest size (\<open>room\<close>).

  A command of the tool is a function from the arguments and the \<open>desk\<close> to the exit status and the desk it
  leaves. Signals arrive only while it waits, in the order of a list it is given together with what other
  processes do to the object in between; a wait with none left is \<open>None\<close>. The handlers restart the wait
  (\<open>SA_RESTART\<close>, what \<open>signal\<close> sets up), so \<open>SIGTERM\<close> ends a loop at its next turn. Printing bytes that were
  never written, an overflow of \<open>long\<close> and a read in front of a buffer are \<open>None\<close>.

  \<^bold>\<open>Not modelled.\<close> The C11-atomics and 32-bit builds; memory that is not sequentially consistent; the
  interleaving of processes inside the growth of the object, the list of events, the stack of the adaptive
  LIFO, the buckets of freed blocks and the semaphores, which are not cut into accesses; the tests, which
  are clients of the library; the barrier and the placement of the benchmark's threads, and its variant with
  one handle for each thread; the example clients in C++ and D. Memory the programs allocate and free for
  themselves is not tracked.
\<close>

end
